(* ===== verification/PM_Prelude.thy ===== *)
theory PM_Prelude
  imports Main "HOL-Library.Word" "HOL-Library.Multiset"
begin

text \<open>
  Shared ground of the development: the machine types and sentinel constants of
  \<^verbatim>\<open>util/pair.h\<close>, the compare-and-swap primitive, the logical shift every table
  uses to select high bits, the outcome type of the \<^verbatim>\<open>goto RETRY\<close> loops, and the
  generic lemmas on probing sequences, list updates and high bits of 64-bit words that
  the component theories rely on.
\<close>

unbundle bit_operations_syntax

section \<open>Machine types and constants\<close>

type_synonym Key_t = "64 word"
type_synonym Value_t = "64 word"
type_synonym size_t = "64 word"

definition SENTINEL :: Key_t where
  "SENTINEL = - 2"

definition INVALID :: Key_t where
  "INVALID = - 1"

definition NONE :: Value_t where
  "NONE = 0"

text \<open>The key-value cell of every table. Its default constructor sets the key only, so
  the value of a fresh cell is an argument of \<open>Pair_init\<close>.\<close>

record Pair =
  p_key :: Key_t
  p_value :: Value_t

definition Pair_init :: "Value_t \<Rightarrow> Pair" where
  "Pair_init garbage = \<lparr>p_key = INVALID, p_value = garbage\<rparr>"

definition Pair_make :: "Key_t \<Rightarrow> Value_t \<Rightarrow> Pair" where
  "Pair_make k v = \<lparr>p_key = k, p_value = v\<rparr>"

lemma Pair_make_simps [simp]: "p_key (Pair_make k v) = k" "p_value (Pair_make k v) = v"
  by (simp_all add: Pair_make_def)

lemma Pair_init_simps [simp]: "p_key (Pair_init g) = INVALID" "p_value (Pair_init g) = g"
  by (simp_all add: Pair_init_def)

lemma SENTINEL_neq_INVALID [simp]: "SENTINEL \<noteq> INVALID" "INVALID \<noteq> SENTINEL"
  by (simp_all add: SENTINEL_def INVALID_def)

text \<open>
  \<^verbatim>\<open>CAS(p, u, v)\<close> is \<^verbatim>\<open>__atomic_compare_exchange_n\<close>: it compares the cell with the
  expected value, stores the desired value on success and copies the cell into the
  expected variable on failure. The result is the flag, the cell and the expected
  variable afterwards.
\<close>

definition CAS :: "'a \<Rightarrow> 'a \<Rightarrow> 'a \<Rightarrow> bool \<times> 'a \<times> 'a" where
  "CAS cell expected desired =
     (if cell = expected then (True, desired, expected) else (False, cell, cell))"

lemma CAS_hit [simp]: "CAS c c d = (True, d, c)"
  by (simp add: CAS_def)

lemma CAS_miss: "c \<noteq> e \<Longrightarrow> CAS c e d = (False, c, c)"
  by (simp add: CAS_def)

text \<open>
  What one pass of a \<^verbatim>\<open>goto RETRY\<close> loop does: it returns, it jumps back with the state
  it has reached, it spins on a condition no other thread will change (single-threaded
  executions), or it reads outside an array.
\<close>

datatype 'a outcome = Return 'a | Retry 'a | Spin | Fault

text \<open>Repeating a pass until it returns, with a bound on the number of passes.\<close>

fun run_retry :: "('s \<Rightarrow> 's outcome) \<Rightarrow> nat \<Rightarrow> 's \<Rightarrow> 's option" where
  "run_retry pass 0 s = None"
| "run_retry pass (Suc fuel) s =
     (case pass s of
        Return s' \<Rightarrow> Some s'
      | Retry s' \<Rightarrow> run_retry pass fuel s'
      | Spin \<Rightarrow> None
      | Fault \<Rightarrow> None)"

lemma run_retry_mono: "run_retry pass n s = Some r \<Longrightarrow> n \<le> m \<Longrightarrow> run_retry pass m s = Some r"
proof (induction n arbitrary: s m)
  case 0
  then show ?case by simp
next
  case (Suc n)
  then obtain m' where m: "m = Suc m'" by (cases m) auto
  with Suc show ?case by (auto split: outcome.splits)
qed

text \<open>The induction every \<open>RETRY\<close> loop uses: an invariant kept by a pass that jumps
  back, and a relation from the starting state to the returned one.\<close>

lemma run_retry_induct [consumes 2, case_names Return Retry]:
  assumes "run_retry pass n s = Some r" and "I s"
    and "\<And>s s'. I s \<Longrightarrow> pass s = Return s' \<Longrightarrow> Q s s'"
    and "\<And>s s' r. I s \<Longrightarrow> pass s = Retry s' \<Longrightarrow> I s' \<and> (Q s' r \<longrightarrow> Q s r)"
  shows "Q s r"
  using assms(1,2)
proof (induction n arbitrary: s)
  case 0
  then show ?case by simp
next
  case (Suc n)
  then show ?case using assms(3,4) by (fastforce split: outcome.splits)
qed

section \<open>Logical right shift and high bits\<close>

text \<open>
  \<^verbatim>\<open>h >> n\<close> on \<^verbatim>\<open>size_t\<close>. For \<open>n \<ge> 64\<close> C++ leaves the result undefined; the compiled
  code is the x86-64 \<^verbatim>\<open>shr\<close>, which uses the count modulo 64, and that is what is modelled.
  No theorem relies on such a count.
\<close>

definition shr64 :: "64 word \<Rightarrow> nat \<Rightarrow> 64 word" where
  "shr64 w n = drop_bit (n mod 64) w"

text \<open>The number formed by the \<open>n\<close> most significant bits.\<close>

definition hi :: "nat \<Rightarrow> 64 word \<Rightarrow> nat" where
  "hi n h = unat h div 2 ^ (64 - n)"

lemma unat_lt_2p64: "unat (h :: 64 word) < 2 ^ 64"
  using unsigned_less [of h] by simp

lemma shr64_hi: "1 \<le> d \<Longrightarrow> d \<le> 64 \<Longrightarrow> unat (shr64 h (64 - d)) = hi d h"
proof -
  assume "1 \<le> d" "d \<le> 64"
  then have "(64 - d) mod 64 = 64 - d" by simp
  then show ?thesis
    by (simp only: shr64_def hi_def unat_drop_bit_eq) (simp only: drop_bit_eq_div)
qed

lemma hi_less: "n \<le> 64 \<Longrightarrow> hi n h < 2 ^ n"
proof -
  assume n: "n \<le> 64"
  have "unat h < 2 ^ (n + (64 - n))" using n unat_lt_2p64 [of h] by simp
  then have "unat h < 2 ^ n * 2 ^ (64 - n)" by (simp only: power_add)
  then show ?thesis by (simp add: hi_def less_mult_imp_div_less)
qed

lemma hi_div: "m \<le> n \<Longrightarrow> n \<le> 64 \<Longrightarrow> hi n h div 2 ^ (n - m) = hi m h"
proof -
  assume "m \<le> n" "n \<le> 64"
  then have "(2::nat) ^ (64 - n) * 2 ^ (n - m) = 2 ^ (64 - m)"
    by (simp flip: power_add)
  then show ?thesis by (simp add: hi_def div_mult2_eq [symmetric])
qed

lemma hi_surj: "n \<le> 64 \<Longrightarrow> i < 2 ^ n \<Longrightarrow> hi n (of_nat (i * 2 ^ (64 - n))) = i"
proof -
  assume n: "n \<le> 64" and i: "i < 2 ^ n"
  have "i * 2 ^ (64 - n) < 2 ^ n * 2 ^ (64 - n)" using i by simp
  also have "\<dots> = 2 ^ 64" using n by (simp flip: power_add)
  finally have "unat (of_nat (i * 2 ^ (64 - n)) :: 64 word) = i * 2 ^ (64 - n)"
    by (simp only: unsigned_of_nat take_bit_nat_eq_self) (simp add: take_bit_nat_eq_self_iff)
  then show ?thesis by (simp add: hi_def)
qed

lemma hi_mono_eq: "m \<le> n \<Longrightarrow> n \<le> 64 \<Longrightarrow> hi n h = hi n h' \<Longrightarrow> hi m h = hi m h'"
  by (metis hi_div)

lemma hi_Suc: "n < 64 \<Longrightarrow> hi (Suc n) h = 2 * hi n h + of_bool (bit h (63 - n))"
proof -
  assume n: "n < 64"
  have e: "64 - n = Suc (63 - n)" "64 - Suc n = 63 - n" using n by auto
  let ?q = "unat h div 2 ^ (63 - n)"
  have b: "bit h (63 - n) = odd ?q"
    using bit_unsigned_iff [where 'a = nat, of h "63 - n"] by (simp add: bit_iff_odd)
  have "hi n h = ?q div 2" by (simp add: hi_def e flip: div_mult2_eq) (simp add: mult.commute)
  moreover have "hi (Suc n) h = ?q" by (simp add: hi_def e)
  ultimately show ?thesis using b by simp
qed

lemma and_push_bit_1: "(w AND push_bit n 1 \<noteq> 0) = bit (w :: 64 word) n" if "n < 64"
  by (metis and_exp_eq_0_iff_not_bit push_bit_of_1)

section \<open>Probing sequences\<close>

text \<open>The slots \<open>(base + i) % n\<close> for \<open>i = 0, \<dots>, len - 1\<close>, in the order of the loop.\<close>

definition probe :: "nat \<Rightarrow> nat \<Rightarrow> nat \<Rightarrow> nat list" where
  "probe n len base = map (\<lambda>i. (base + i) mod n) [0..<len]"

lemma probe_bound: "0 < n \<Longrightarrow> loc \<in> set (probe n len base) \<Longrightarrow> loc < n"
  by (auto simp: probe_def)

lemma probe_distinct: "len \<le> n \<Longrightarrow> distinct (probe n len base)"
proof -
  assume "len \<le> n"
  then have "inj_on (\<lambda>i. (base + i) mod n) {0..<len}"
  proof (intro inj_onI)
    fix i j
    assume a: "len \<le> n" "i \<in> {0..<len}" "j \<in> {0..<len}"
      and e: "(base + i) mod n = (base + j) mod n"
    from e have "n dvd (base + i) - (base + j) \<and> n dvd (base + j) - (base + i)"
      by (metis mod_eq_dvd_iff_nat nat_le_linear diff_is_0_eq dvd_0_right)
    then have "n dvd i - j" "n dvd j - i" by auto
    with a show "i = j"
      by (metis atLeastLessThan_iff diff_is_0_eq' diffs0_imp_equal less_imp_diff_less
          nat_dvd_not_less not_gr_zero order_less_le_trans)
  qed
  then show ?thesis by (simp add: probe_def distinct_map)
qed

lemma find_SomeD: "find P xs = Some x \<Longrightarrow> x \<in> set xs \<and> P x"
  by (induction xs) (auto split: if_splits)

lemma find_unique:
  assumes "x \<in> set xs" and "P x" and "\<And>y. y \<in> set xs \<Longrightarrow> P y \<Longrightarrow> y = x"
  shows "find P xs = Some x"
proof (cases "find P xs")
  case None
  with assms(1,2) show ?thesis by (auto simp: find_None_iff)
next
  case (Some y)
  with assms(3) show ?thesis by (metis find_SomeD)
qed

lemma find_cong_set: "(\<And>x. x \<in> set xs \<Longrightarrow> P x = Q x) \<Longrightarrow> find P xs = find Q xs"
  by (induction xs) auto

end
