(* ===== verification/FastFair_Page.thy ===== *)
theory FastFair_Page
  imports PM_Prelude
begin

text \<open>
  One page of the FAST-and-FAIR B+-tree (\<^verbatim>\<open>fastfair.h\<close>, classes \<^verbatim>\<open>header\<close>, \<^verbatim>\<open>entry\<close> and \<^verbatim>\<open>page\<close>): the
  record array with its \<^verbatim>\<open>NULL\<close> terminator, \<^verbatim>\<open>count\<close>, the shifting insertion \<^verbatim>\<open>insert_key\<close> in both
  builds, \<^verbatim>\<open>remove_key\<close> and the lock-free scans. Insertion and removal are modelled as the
  sequence of array states after every single 8-byte store, because those are the states a
  reader or a crash can see. The lemmas show that each of them reads as the old or as the new
  contents.
\<close>

section \<open>Data\<close>

text \<open>Keys are \<^verbatim>\<open>int64_t\<close> and are only compared; pointers and values share the type \<^verbatim>\<open>char *\<close>, with 0
  for \<^verbatim>\<open>NULL\<close>.\<close>

type_synonym entry_key_t = int
type_synonym ptr = "64 word"

definition PAGESIZE :: nat where "PAGESIZE = 512"
definition CACHE_LINE_SIZE :: nat where "CACHE_LINE_SIZE = 64"
definition sizeof_header :: nat where "sizeof_header = 32"
definition sizeof_entry :: nat where "sizeof_entry = 16"
definition cardinality :: nat where "cardinality = (PAGESIZE - sizeof_header) div sizeof_entry"
definition LONG_MAX :: int where "LONG_MAX = 2 ^ 63 - 1"

record header =
  leftmost_ptr :: ptr
  sibling_ptr :: ptr
  level :: nat
  switch_counter :: "8 word"
  is_deleted :: bool
  last_index :: int

record entry =
  e_key :: entry_key_t
  e_ptr :: ptr

record page =
  hdr :: header
  records :: "entry list"

definition header_new :: "nat \<Rightarrow> header" where
  "header_new lvl = \<lparr>leftmost_ptr = 0, sibling_ptr = 0, level = lvl, switch_counter = 0,
     is_deleted = False, last_index = -1\<rparr>"

definition entry_new :: entry where
  "entry_new = \<lparr>e_key = LONG_MAX, e_ptr = 0\<rparr>"

definition set_ptr :: "nat \<Rightarrow> ptr \<Rightarrow> entry list \<Rightarrow> entry list" where
  "set_ptr i v rs = rs[i := (rs ! i)\<lparr>e_ptr := v\<rparr>]"

definition set_key :: "nat \<Rightarrow> entry_key_t \<Rightarrow> entry list \<Rightarrow> entry list" where
  "set_key i k rs = rs[i := (rs ! i)\<lparr>e_key := k\<rparr>]"

definition page_new :: "nat \<Rightarrow> page" where
  "page_new lvl = \<lparr>hdr = header_new lvl, records = set_ptr 0 0 (replicate cardinality entry_new)\<rparr>"

text \<open>The constructor for a new root.\<close>

definition page_root :: "ptr \<Rightarrow> entry_key_t \<Rightarrow> ptr \<Rightarrow> nat \<Rightarrow> page" where
  "page_root left k right lvl =
     \<lparr>hdr = (header_new lvl)\<lparr>leftmost_ptr := left, last_index := 0\<rparr>,
      records = set_ptr 1 0 (set_ptr 0 right (set_key 0 k (replicate cardinality entry_new)))\<rparr>"

definition IS_FORWARD :: "8 word \<Rightarrow> bool" where
  "IS_FORWARD c \<longleftrightarrow> c mod 2 = 0"

section \<open>Counting the entries\<close>

text \<open>The upward loop ends at the first \<^verbatim>\<open>NULL\<close>; \<open>None\<close> means it ran past the array.\<close>

function count_up :: "entry list \<Rightarrow> nat \<Rightarrow> nat option" where
  "count_up rs i =
     (if i < length rs then (if e_ptr (rs ! i) = 0 then Some i else count_up rs (i + 1)) else None)"
  by pat_completeness auto
termination
  by (relation "measure (\<lambda>(rs, i). length rs - i)") auto

declare count_up.simps [simp del]

text \<open>The downward loop; \<open>None\<close> means it left the array below.\<close>

fun count_down :: "entry list \<Rightarrow> nat \<Rightarrow> nat option" where
  "count_down rs 0 = (if e_ptr (rs ! 0) = 0 then Some 0 else None)"
| "count_down rs (Suc i) = (if e_ptr (rs ! Suc i) = 0 then Some (Suc i) else count_down rs i)"

definition count :: "page \<Rightarrow> nat option" where
  "count p =
     (let rs = records p; start = last_index (hdr p) + 1
      in if start < 0 then count_up rs 0
         else if IS_FORWARD (switch_counter (hdr p)) then count_up rs (nat start)
         else if \<not> nat start < length rs then None
         else case count_down rs (nat start) of Some c \<Rightarrow> Some c | None \<Rightarrow> count_up rs 0)"

section \<open>Insertion\<close>

text \<open>
  The shifting loop, from index \<open>i - 1\<close> down to 0. The result lists the array after every store:
  a shift copies first the pointer and then the key, the new entry goes in with a duplicate
  pointer, its key, and last its pointer.
\<close>

fun fast_loop :: "entry_key_t \<Rightarrow> ptr \<Rightarrow> ptr \<Rightarrow> nat \<Rightarrow> entry list \<Rightarrow> entry list list" where
  "fast_loop k p leftmost 0 rs =
     (let r1 = set_ptr 0 leftmost rs; r2 = set_key 0 k r1; r3 = set_ptr 0 p r2 in [r1, r2, r3])"
| "fast_loop k p leftmost (Suc i) rs =
     (if k < e_key (rs ! i) then
        let r1 = set_ptr (i + 1) (e_ptr (rs ! i)) rs;
            r2 = set_key (i + 1) (e_key (r1 ! i)) r1
        in r1 # r2 # fast_loop k p leftmost i r2
      else
        let r1 = set_ptr (i + 1) (e_ptr (rs ! i)) rs; r2 = set_key (i + 1) k r1; r3 = set_ptr (i + 1) p r2
        in [r1, r2, r3])"

definition insert_states :: "entry_key_t \<Rightarrow> ptr \<Rightarrow> ptr \<Rightarrow> nat \<Rightarrow> entry list \<Rightarrow> entry list list" where
  "insert_states k p leftmost num_entries rs =
     (if num_entries = 0 then
        let r1 = set_key 0 k rs; r2 = set_ptr 0 p r1; r3 = set_ptr 1 0 r2 in [r1, r2, r3]
      else
        let r1 = set_ptr (num_entries + 1) (e_ptr (rs ! num_entries)) rs
        in r1 # fast_loop k p leftmost num_entries r1)"

text \<open>\<^verbatim>\<open>insert_key\<close>; the caller's \<^verbatim>\<open>num_entries\<close> comes back incremented.\<close>

definition insert_key :: "entry_key_t \<Rightarrow> ptr \<Rightarrow> nat \<Rightarrow> page \<Rightarrow> page \<times> nat" where
  "insert_key k p num_entries pg =
     (let h = hdr pg;
          h = (if \<not> IS_FORWARD (switch_counter h) then h\<lparr>switch_counter := switch_counter h + 1\<rparr> else h);
          rs = last (insert_states k p (leftmost_ptr h) num_entries (records pg))
      in (pg\<lparr>hdr := h\<lparr>last_index := int num_entries\<rparr>, records := rs\<rparr>, num_entries + 1))"

section \<open>Insertion with the write-combining buffer\<close>

text \<open>
  The \<^verbatim>\<open>RAP_MOD\<close> build. A page is aligned to cache lines and its records start after the
  header, so entry \<open>i\<close> starts a line when \<open>32 + 16 * i\<close> is a multiple of 64. Entries that do not
  are only put in the buffer, with the index they are meant for; an entry that does start a
  line is written and the buffer is emptied. The state is the array and the buffer.
\<close>

definition line_start :: "nat \<Rightarrow> bool" where
  "line_start i \<longleftrightarrow> (sizeof_header + sizeof_entry * i) mod CACHE_LINE_SIZE = 0"

definition drain :: "(nat \<times> entry) list \<Rightarrow> entry list \<Rightarrow> entry list" where
  "drain buf rs = fold (\<lambda>(a, e) rs. rs[a := e]) buf rs"

fun rap_loop :: "entry_key_t \<Rightarrow> ptr \<Rightarrow> ptr \<Rightarrow> bool \<Rightarrow> nat \<Rightarrow> (nat \<times> entry) list \<Rightarrow> entry list
    \<Rightarrow> (entry list \<times> (nat \<times> entry) list) list" where
  "rap_loop k p leftmost flush 0 buf rs =
     (let r0 = drain buf rs; r1 = set_ptr 0 leftmost r0; r2 = set_key 0 k r1; r3 = set_ptr 0 p r2
      in [(r0, []), (r1, []), (r2, []), (r3, [])])"
| "rap_loop k p leftmost flush (Suc i) buf rs =
     (if k < e_key (rs ! i) then
        if \<not> line_start (i + 1) then
          let buf' = buf @ [(i + 1, rs ! i)] in (rs, buf') # rap_loop k p leftmost flush i buf' rs
        else
          let r1 = rs[i + 1 := rs ! i]
          in if flush then
               let r2 = drain buf r1 in (r1, buf) # (r2, []) # rap_loop k p leftmost flush i [] r2
             else (r1, buf) # rap_loop k p leftmost flush i buf r1
      else
        let r0 = drain buf rs; r1 = set_ptr (i + 1) (e_ptr (r0 ! i)) r0; r2 = set_key (i + 1) k r1;
            r3 = set_ptr (i + 1) p r2
        in [(r0, []), (r1, []), (r2, []), (r3, [])])"

definition WR_BUF_CL_SIZE :: nat where "WR_BUF_CL_SIZE = 4"

definition rap_states :: "entry_key_t \<Rightarrow> ptr \<Rightarrow> ptr \<Rightarrow> bool \<Rightarrow> nat \<Rightarrow> entry list
    \<Rightarrow> (entry list \<times> (nat \<times> entry) list) list" where
  "rap_states k p leftmost flush num_entries rs =
     (if num_entries = 0 then
        let r1 = set_key 0 k rs; r2 = set_ptr 0 p r1; r3 = set_ptr 1 0 r2 in [(r1, []), (r2, []), (r3, [])]
      else
        let r1 = set_ptr (num_entries + 1) (e_ptr (rs ! num_entries)) rs
        in (r1, []) # rap_loop k p leftmost flush num_entries [] r1)"

definition insert_key_rap :: "entry_key_t \<Rightarrow> ptr \<Rightarrow> bool \<Rightarrow> nat \<Rightarrow> page \<Rightarrow> page \<times> nat" where
  "insert_key_rap k p flush num_entries pg =
     (let h = hdr pg;
          h = (if \<not> IS_FORWARD (switch_counter h) then h\<lparr>switch_counter := switch_counter h + 1\<rparr> else h);
          rs = fst (last (rap_states k p (leftmost_ptr h) flush num_entries (records pg)))
      in (pg\<lparr>hdr := h\<lparr>last_index := int num_entries\<rparr>, records := rs\<rparr>, num_entries + 1))"

section \<open>Removal\<close>

text \<open>
  The loop of \<^verbatim>\<open>remove_key\<close> from index \<open>i\<close>: the states after every store and the flag \<^verbatim>\<open>shift\<close>.
  \<open>None\<close> means it ran past the array.
\<close>

function remove_loop :: "entry_key_t \<Rightarrow> ptr \<Rightarrow> nat \<Rightarrow> bool \<Rightarrow> entry list \<Rightarrow> (entry list list \<times> bool) option" where
  "remove_loop k leftmost i shift rs =
     (if \<not> i < length rs then None
      else if e_ptr (rs ! i) = 0 then Some ([], shift)
      else
        let hit = (\<not> shift \<and> e_key (rs ! i) = k);
            r1 = (if hit then set_ptr i (if i = 0 then leftmost else e_ptr (rs ! (i - 1))) rs else rs)
        in if shift \<or> hit then
             if \<not> i + 1 < length rs then None
             else
               let r2 = set_key i (e_key (r1 ! (i + 1))) r1; r3 = set_ptr i (e_ptr (r2 ! (i + 1))) r2
               in map_option (\<lambda>(states, s). ((if hit then [r1] else []) @ [r2, r3] @ states, s))
                    (remove_loop k leftmost (i + 1) True r3)
           else remove_loop k leftmost (i + 1) shift rs)"
  by pat_completeness auto
termination
  by (relation "measure (\<lambda>(k, l, i, s, rs). length rs - i)") (auto simp: set_ptr_def set_key_def)

declare remove_loop.simps [simp del]

definition remove_key :: "entry_key_t \<Rightarrow> page \<Rightarrow> (bool \<times> page) option" where
  "remove_key k pg =
     (let h = hdr pg;
          h = (if IS_FORWARD (switch_counter h) then h\<lparr>switch_counter := switch_counter h + 1\<rparr> else h)
      in map_option (\<lambda>(states, shift).
           (shift, pg\<lparr>hdr := (if shift then h\<lparr>last_index := last_index h - 1\<rparr> else h),
                      records := last (records pg # states)\<rparr>))
           (remove_loop k (leftmost_ptr h) 0 False (records pg)))"

section \<open>The scans of a leaf\<close>

text \<open>Left to right, from index 1; \<open>Some 0\<close> is the result \<^verbatim>\<open>NULL\<close>, \<open>None\<close> running past the array.\<close>

function scan_forward :: "entry_key_t \<Rightarrow> nat \<Rightarrow> entry list \<Rightarrow> ptr option" where
  "scan_forward k i rs =
     (if \<not> i < length rs then None
      else if e_ptr (rs ! i) = 0 then Some 0
      else if e_key (rs ! i) = k \<and> e_ptr (rs ! (i - 1)) \<noteq> e_ptr (rs ! i) then Some (e_ptr (rs ! i))
      else scan_forward k (i + 1) rs)"
  by pat_completeness auto
termination
  by (relation "measure (\<lambda>(k, i, rs). length rs - i)") auto

declare scan_forward.simps [simp del]

text \<open>Right to left, from index \<open>i\<close> down to 1, then entry 0.\<close>

fun scan_backward :: "entry_key_t \<Rightarrow> nat \<Rightarrow> entry list \<Rightarrow> ptr" where
  "scan_backward k 0 rs = (if e_key (rs ! 0) = k then e_ptr (rs ! 0) else 0)"
| "scan_backward k (Suc i) rs =
     (if e_key (rs ! Suc i) = k \<and> e_ptr (rs ! i) \<noteq> e_ptr (rs ! Suc i) \<and> e_ptr (rs ! Suc i) \<noteq> 0
      then e_ptr (rs ! Suc i) else scan_backward k i rs)"

definition leaf_scan :: "entry_key_t \<Rightarrow> page \<Rightarrow> ptr option" where
  "leaf_scan k pg =
     (let rs = records pg
      in if IS_FORWARD (switch_counter (hdr pg)) then
           if e_key (rs ! 0) = k \<and> e_ptr (rs ! 0) \<noteq> 0 then Some (e_ptr (rs ! 0)) else scan_forward k 1 rs
         else map_option (\<lambda>c. scan_backward k (c - 1) rs) (count pg))"

section \<open>What a reader sees\<close>

text \<open>
  The entries a left-to-right scan of a leaf takes for valid: up to the terminator, those whose
  pointer differs from the one before. The first entry is valid unless it is \<^verbatim>\<open>NULL\<close>, which does
  not stop the scan.
\<close>

fun vis_from :: "ptr \<Rightarrow> entry list \<Rightarrow> entry list" where
  "vis_from prev [] = []"
| "vis_from prev (e # es) =
     (if e_ptr e = 0 then [] else if e_ptr e = prev then vis_from (e_ptr e) es else e # vis_from (e_ptr e) es)"

definition vis :: "entry list \<Rightarrow> entry list" where
  "vis rs = (case rs of [] \<Rightarrow> [] | e # es \<Rightarrow> if e_ptr e = 0 then vis_from 0 es else vis_from 0 rs)"

abbreviation nonnull :: "entry list \<Rightarrow> bool" where
  "nonnull es \<equiv> \<forall>e \<in> set es. e_ptr e \<noteq> 0"

text \<open>No pointer occurs twice in a row.\<close>

definition stutter_free :: "entry list \<Rightarrow> bool" where
  "stutter_free es \<longleftrightarrow> successively (\<lambda>a b. e_ptr a \<noteq> e_ptr b) es"

lemma set_app [simp]:
  "length xs = i \<Longrightarrow> set_ptr i v (xs @ g # zs) = xs @ g\<lparr>e_ptr := v\<rparr> # zs"
  "length xs = i \<Longrightarrow> set_key i k (xs @ g # zs) = xs @ g\<lparr>e_key := k\<rparr> # zs"
  by (auto simp: set_ptr_def set_key_def)

lemma vis_from_skip_prev:
  assumes "nonnull xs" and "e_ptr g = (if xs = [] then prev else e_ptr (last xs))" and "e_ptr g \<noteq> 0"
  shows "vis_from prev (xs @ g # zs) = vis_from prev (xs @ zs)"
  using assms by (induction xs arbitrary: prev) auto

lemma vis_from_skip_next:
  "nonnull xs \<Longrightarrow> vis_from prev (xs @ g # g # zs) = vis_from prev (xs @ g # zs)"
  by (induction xs arbitrary: prev) auto

lemma vis_Cons: "e_ptr e \<noteq> 0 \<Longrightarrow> vis (e # es) = vis_from 0 (e # es)"
  by (simp add: vis_def)

lemma vis_skip_prev:
  assumes "nonnull xs" and "xs \<noteq> []" and "e_ptr g = e_ptr (last xs)"
  shows "vis (xs @ g # zs) = vis (xs @ zs)"
proof -
  obtain x xs' where "xs = x # xs'" using assms(2) by (cases xs) auto
  then show ?thesis using vis_from_skip_prev [of xs g 0 zs] assms by (simp add: vis_def)
qed

lemma vis_skip_next:
  assumes "nonnull xs" and "e_ptr g \<noteq> 0"
  shows "vis (xs @ g # g # zs) = vis (xs @ g # zs)"
  using vis_from_skip_next [OF assms(1), of 0 g zs] assms by (cases xs) (simp_all add: vis_def)

lemma vis_skip_null:
  assumes "e_ptr g = 0" and "zs = [] \<or> e_ptr (hd zs) \<noteq> 0 \<or> tl zs = [] \<or> vis_from 0 (tl zs) = []"
  shows "vis (g # zs) = vis zs"
  using assms by (cases zs) (auto simp: vis_def)

section \<open>FAST insertion\<close>

text \<open>The array with the new entry in its place: behind the last entry whose key is not greater.\<close>

definition split_at :: "entry_key_t \<Rightarrow> entry list \<Rightarrow> entry list \<times> entry list" where
  "split_at k xs = (let post = rev (takeWhile (\<lambda>e. k < e_key e) (rev xs)) in (take (length xs - length post) xs, post))"

definition fast_result :: "entry_key_t \<Rightarrow> ptr \<Rightarrow> entry list \<Rightarrow> entry list" where
  "fast_result k p xs = (case split_at k xs of (pre, post) \<Rightarrow> pre @ \<lparr>e_key = k, e_ptr = p\<rparr> # post)"

lemma fast_result_simps:
  "fast_result k p [] = [\<lparr>e_key = k, e_ptr = p\<rparr>]"
  "fast_result k p (xs @ [x]) =
     (if k < e_key x then fast_result k p xs @ [x] else xs @ [x, \<lparr>e_key = k, e_ptr = p\<rparr>])"
  by (auto simp: fast_result_def split_at_def Let_def)

lemma entry_upd [simp]: "g\<lparr>e_ptr := p, e_key := k\<rparr> = \<lparr>e_key = k, e_ptr = p\<rparr>" "g\<lparr>e_key := k, e_ptr := p\<rparr> = \<lparr>e_key = k, e_ptr = p\<rparr>"
  by (cases g; simp)+

lemma entry_eta: "\<lparr>e_key = e_key x, e_ptr = e_ptr x\<rparr> = (x :: entry)"
  by (cases x) simp

text \<open>The whole loop, for an array of live entries \<open>xs\<close>, a slot \<open>g\<close> that may be overwritten, and the
  entries \<open>zs\<close> already moved.\<close>

lemma fast_loop_states:
  assumes "nonnull xs" and "zs \<noteq> []" and "xs = [] \<Longrightarrow> e_ptr (hd zs) \<noteq> 0"
  shows "fast_loop k p 0 (length xs) (xs @ g # zs) \<noteq> [] \<and>
    last (fast_loop k p 0 (length xs) (xs @ g # zs)) = fast_result k p xs @ zs \<and>
    (\<forall>r \<in> set (butlast (fast_loop k p 0 (length xs) (xs @ g # zs))). vis r = vis (xs @ zs))"
  using assms
proof (induction xs arbitrary: g zs rule: rev_induct)
  case Nil
  then show ?case
    using set_app [of "[]" 0] vis_skip_null [of _ zs] by (simp add: fast_result_simps Let_def)
next
  case (snoc x xs)
  have x: "e_ptr x \<noteq> 0" and xs: "nonnull xs" using snoc.prems(1) by simp_all
  have nth: "(xs @ x # g' # zs) ! length xs = x" for g' by (simp add: nth_append)
  have s: "set_ptr (Suc (length xs)) v (xs @ x # g' # zs) = xs @ x # g'\<lparr>e_ptr := v\<rparr> # zs"
    "set_key (Suc (length xs)) k' (xs @ x # g' # zs) = xs @ x # g'\<lparr>e_key := k'\<rparr> # zs" for v k' g'
    using set_app [of "xs @ [x]" "Suc (length xs)"] by simp_all
  have skip: "vis (xs @ x # g' # zs) = vis (xs @ x # zs)" if "e_ptr g' = e_ptr x" for g'
    using vis_skip_prev [OF snoc.prems(1), of g' zs] that by simp
  show ?case
  proof (cases "k < e_key x")
    case True
    let ?L = "fast_loop k p 0 (length xs) (xs @ x # x # zs)"
    have "fast_loop k p 0 (length (xs @ [x])) ((xs @ [x]) @ g # zs) =
        (xs @ x # g\<lparr>e_ptr := e_ptr x\<rparr> # zs) # (xs @ x # x # zs) # ?L"
      using True by (simp add: nth s Let_def entry_eta)
    moreover have "?L \<noteq> [] \<and> last ?L = fast_result k p xs @ x # zs \<and>
        (\<forall>r \<in> set (butlast ?L). vis r = vis (xs @ x # zs))"
      using snoc.IH [OF xs, of "x # zs" x] x by simp
    ultimately show ?thesis using True skip by (simp add: fast_result_simps)
  next
    case False
    then show ?thesis using skip by (simp add: nth s Let_def fast_result_simps)
  qed
qed

text \<open>A page with \<open>n\<close> entries: all live, keys ascending, the terminator behind them.\<close>

definition leaf_ok :: "nat \<Rightarrow> entry list \<Rightarrow> bool" where
  "leaf_ok n rs \<longleftrightarrow> length rs = cardinality \<and> n < cardinality \<and> nonnull (take n rs) \<and> e_ptr (rs ! n) = 0 \<and>
     sorted_wrt (\<lambda>a b. e_key a < e_key b) (take n rs) \<and> stutter_free (take n rs)"

lemma cardinality_eq: "cardinality = 30"
  by (simp add: cardinality_def PAGESIZE_def sizeof_header_def sizeof_entry_def)

lemma array_decomp:
  assumes "n + 1 < length rs"
  shows "rs = take n rs @ rs ! n # rs ! (n + 1) # drop (n + 2) rs"
  using assms by (metis Suc_eq_plus1 add_2_eq_Suc' append_take_drop_id Cons_nth_drop_Suc add_lessD1)

lemma vis_terminated:
  assumes "nonnull xs" and "stutter_free xs" and "e_ptr z = 0" and "xs \<noteq> []"
  shows "vis (xs @ z # zs) = xs"
proof -
  have v: "vis_from prev (xs @ z # zs) = xs"
    if "nonnull xs" "stutter_free xs" "xs = [] \<or> e_ptr (hd xs) \<noteq> prev" for xs prev
    using that
  proof (induction xs arbitrary: prev)
    case (Cons x xs)
    then show ?case by (cases xs) (auto simp: stutter_free_def)
  qed (use assms(3) in simp)
  obtain x xs' where x: "xs = x # xs'" using assms(4) by (cases xs) auto
  have "vis (xs @ z # zs) = vis_from 0 (xs @ z # zs)" using assms(1) by (simp add: x vis_Cons)
  then show ?thesis using v [of xs 0] assms by (simp add: x)
qed

lemma split_at_append: "split_at k xs = (pre, post) \<Longrightarrow> xs = pre @ post"
proof -
  assume "split_at k xs = (pre, post)"
  then have p: "post = rev (takeWhile (\<lambda>e. k < e_key e) (rev xs))" "pre = take (length xs - length post) xs"
    by (auto simp: split_at_def Let_def)
  have "xs = rev (dropWhile (\<lambda>e. k < e_key e) (rev xs)) @ post"
    by (metis p(1) rev_append rev_rev_ident takeWhile_dropWhile_id)
  then show ?thesis by (metis p(2) append_eq_conv_conj diff_add_inverse2 length_append)
qed

lemma split_at_keys:
  assumes "split_at k xs = (pre, post)"
  shows "\<forall>e \<in> set post. k < e_key e" and "pre = [] \<or> \<not> k < e_key (last pre)"
proof -
  have post: "post = rev (takeWhile (\<lambda>e. k < e_key e) (rev xs))" using assms by (auto simp: split_at_def Let_def)
  then show "\<forall>e \<in> set post. k < e_key e" by (auto dest: set_takeWhileD)
  have "rev xs = rev post @ rev pre" using split_at_append [OF assms] by simp
  then have "rev pre = dropWhile (\<lambda>e. k < e_key e) (rev xs)"
    using post by (metis rev_rev_ident same_append_eq takeWhile_dropWhile_id)
  then show "pre = [] \<or> \<not> k < e_key (last pre)"
    by (metis hd_dropWhile hd_rev rev_is_Nil_conv)
qed

lemma fast_result_sorted:
  assumes "sorted_wrt (\<lambda>a b. e_key a < e_key b) xs" and "k \<notin> e_key ` set xs"
  shows "sorted_wrt (\<lambda>a b. e_key a < e_key b) (fast_result k p xs)"
    and "set (fast_result k p xs) = insert \<lparr>e_key = k, e_ptr = p\<rparr> (set xs)"
    and "length (fast_result k p xs) = length xs + 1"
proof -
  obtain pre post where s: "split_at k xs = (pre, post)" by fastforce
  note xs = split_at_append [OF s] and ks = split_at_keys [OF s]
  have fr: "fast_result k p xs = pre @ \<lparr>e_key = k, e_ptr = p\<rparr> # post" by (simp add: fast_result_def s)
  have "e_key e < k" if "e \<in> set pre" for e
  proof -
    have "e_key e \<le> e_key (last pre)"
    proof (cases "e = last pre")
      case False
      then have "e \<in> set (butlast pre)" using that by (metis append_butlast_last_id in_set_conv_decomp_first empty_iff empty_set in_set_butlast_appendI set_ConsD rotate1.simps(2) set_rotate1)
      then show ?thesis
        using assms(1) xs that by (metis append_butlast_last_id empty_iff empty_set less_imp_le list.set_intros(1) sorted_wrt_append)
    qed simp
    moreover have "e_key (last pre) \<noteq> k" using assms(2) xs that by (metis UnCI empty_iff empty_set image_eqI last_in_set set_append)
    ultimately show ?thesis using ks(2) that by fastforce
  qed
  then show "sorted_wrt (\<lambda>a b. e_key a < e_key b) (fast_result k p xs)"
    unfolding fr using assms(1) ks(1) xs by (auto simp: sorted_wrt_append)
  show "set (fast_result k p xs) = insert \<lparr>e_key = k, e_ptr = p\<rparr> (set xs)" "length (fast_result k p xs) = length xs + 1"
    unfolding fr using xs by auto
qed

lemma fast_result_stutter:
  assumes "stutter_free xs" and "p \<notin> e_ptr ` set xs"
  shows "stutter_free (fast_result k p xs)"
proof -
  obtain pre post where s: "split_at k xs = (pre, post)" by fastforce
  have xs: "xs = pre @ post" by (rule split_at_append [OF s])
  have "fast_result k p xs = pre @ \<lparr>e_key = k, e_ptr = p\<rparr> # post" by (simp add: fast_result_def s)
  then show ?thesis
    using assms xs by (cases post) (auto simp: stutter_free_def successively_append_iff)
qed

lemma leaf_okD:
  assumes "leaf_ok n rs"
  shows "length rs = cardinality" "n < cardinality" "nonnull (take n rs)" "e_ptr (rs ! n) = 0"
    "sorted_wrt (\<lambda>a b. e_key a < e_key b) (take n rs)" "stutter_free (take n rs)"
  using assms by (auto simp: leaf_ok_def)

text \<open>When an entry may be inserted: there is room, the pointer is not \<^verbatim>\<open>NULL\<close> and not in use in the
  page, the key is new. On an empty page the second slot must be empty too.\<close>

definition insertable :: "nat \<Rightarrow> entry list \<Rightarrow> entry_key_t \<Rightarrow> ptr \<Rightarrow> bool" where
  "insertable n rs k p \<longleftrightarrow> leaf_ok n rs \<and> n + 1 < cardinality \<and> p \<noteq> 0 \<and>
     p \<notin> e_ptr ` set (take n rs) \<and> k \<notin> e_key ` set (take n rs) \<and> (n = 0 \<longrightarrow> e_ptr (rs ! 1) = 0)"

lemma vis_leaf:
  assumes "leaf_ok n rs" and "n = 0 \<longrightarrow> e_ptr (rs ! 1) = 0"
  shows "vis rs = take n rs"
proof (cases n)
  case 0
  have "1 < length rs" using leaf_okD(1) [OF assms(1)] by (simp add: cardinality_eq)
  then obtain a b ts where rs: "rs = a # b # ts" by (metis One_nat_def Suc_lessE length_Suc_conv less_imp_Suc_add)
  then show ?thesis using assms 0 leaf_okD(4) [OF assms(1)] by (simp add: vis_def)
next
  case (Suc m)
  note d = leaf_okD [OF assms(1)]
  have "rs = take n rs @ rs ! n # drop (Suc n) rs" using d(1,2) by (simp add: id_take_nth_drop)
  moreover have "take n rs \<noteq> []" using Suc d(1,2) by auto
  ultimately show ?thesis using vis_terminated [OF d(3,6,4)] by metis
qed

lemma fast_result_leaf:
  assumes ins: "insertable n rs k p" and len: "length (fast_result k p (take n rs) @ zs) = cardinality"
    and z: "e_ptr (hd zs) = 0"
  shows "leaf_ok (n + 1) (fast_result k p (take n rs) @ zs)"
    and "take (n + 1) (fast_result k p (take n rs) @ zs) = fast_result k p (take n rs)"
proof -
  have ok: "leaf_ok n rs" using ins by (simp add: insertable_def)
  note d = leaf_okD [OF ok]
  note s = fast_result_sorted [OF d(5), of k p]
  have k: "k \<notin> e_key ` set (take n rs)" "p \<notin> e_ptr ` set (take n rs)" "p \<noteq> 0" "n + 1 < cardinality"
    using ins by (auto simp: insertable_def)
  have l: "length (fast_result k p (take n rs)) = n + 1" using s(3) [OF k(1)] d(1,2) by simp
  show t: "take (n + 1) (fast_result k p (take n rs) @ zs) = fast_result k p (take n rs)" using l by simp
  have "zs \<noteq> []" using len l k(4) by auto
  then have "(fast_result k p (take n rs) @ zs) ! (n + 1) = hd zs" using l by (simp add: nth_append hd_conv_nth)
  then show "leaf_ok (n + 1) (fast_result k p (take n rs) @ zs)"
    using s(1,2) [OF k(1)] fast_result_stutter [OF d(6) k(2)] len z k(3,4) d(3)
    unfolding leaf_ok_def t by auto
qed

text \<open>The array after the last store, and all arrays on the way.\<close>

lemma insert_states_result:
  assumes ins: "insertable n rs k p"
  shows "leaf_ok (n + 1) (last (insert_states k p 0 n rs))"
    and "take (n + 1) (last (insert_states k p 0 n rs)) = fast_result k p (take n rs)"
    and "\<forall>r \<in> set (insert_states k p 0 n rs). vis r = take n rs \<or> vis r = fast_result k p (take n rs)"
proof -
  have ok: "leaf_ok n rs" and n: "n + 1 < cardinality" and p: "p \<noteq> 0" and n0: "n = 0 \<longrightarrow> e_ptr (rs ! 1) = 0"
    using ins by (auto simp: insertable_def)
  note d = leaf_okD [OF ok]
  let ?xs = "take n rs" and ?z = "rs ! (n + 1)" and ?ts = "drop (n + 2) rs"
  have rs: "rs = ?xs @ rs ! n # ?z # ?ts" by (rule array_decomp) (use n d(1) in simp)
  have lx: "length ?xs = n" using d(1,2) by simp
  have "leaf_ok (n + 1) (last (insert_states k p 0 n rs)) \<and>
      take (n + 1) (last (insert_states k p 0 n rs)) = fast_result k p ?xs \<and>
      (\<forall>r \<in> set (insert_states k p 0 n rs). vis r = ?xs \<or> vis r = fast_result k p ?xs)"
  proof (cases "n = 0")
    case True
    obtain a b ts where ab: "rs = a # b # ts" using rs True by simp
    have a: "e_ptr a = 0" "e_ptr b = 0" using d(4) n0 True ab by auto
    have st: "insert_states k p 0 n rs =
        [a\<lparr>e_key := k\<rparr> # b # ts, \<lparr>e_key = k, e_ptr = p\<rparr> # b # ts, \<lparr>e_key = k, e_ptr = p\<rparr> # b\<lparr>e_ptr := 0\<rparr> # ts]"
      by (simp add: insert_states_def True ab Let_def set_key_def set_ptr_def)
    have "length ([\<lparr>e_key = k, e_ptr = p\<rparr>] @ b\<lparr>e_ptr := 0\<rparr> # ts) = cardinality" using d(1) ab by simp
    then have "leaf_ok (n + 1) (\<lparr>e_key = k, e_ptr = p\<rparr> # b\<lparr>e_ptr := 0\<rparr> # ts)"
      using fast_result_leaf(1) [OF ins, of "b\<lparr>e_ptr := 0\<rparr> # ts"] True by (simp add: fast_result_simps)
    then show ?thesis using st a p True by (simp add: vis_def fast_result_simps)
  next
    case False
    let ?r1 = "?xs @ rs ! n # ?z\<lparr>e_ptr := 0\<rparr> # ?ts" and ?zs = "?z\<lparr>e_ptr := 0\<rparr> # ?ts"
    have "set_ptr (n + 1) (e_ptr (rs ! n)) rs = ?r1"
      using set_app(1) [of "?xs @ [rs ! n]" "n + 1" 0 ?z ?ts] lx rs d(4) by simp
    then have st: "insert_states k p 0 n rs = ?r1 # fast_loop k p 0 n ?r1" using False by (simp add: insert_states_def Let_def)
    have xs: "?xs \<noteq> []" using False lx by auto
    have L: "fast_loop k p 0 n ?r1 \<noteq> []" "last (fast_loop k p 0 n ?r1) = fast_result k p ?xs @ ?zs"
        "\<forall>r \<in> set (butlast (fast_loop k p 0 n ?r1)). vis r = vis (?xs @ ?zs)"
      using fast_loop_states [of ?xs ?zs k p "rs ! n"] d(3) lx xs by auto
    have v: "vis ?r1 = ?xs" "vis (?xs @ ?zs) = ?xs" using vis_terminated [OF d(3,6) _ xs] d(4) by simp_all
    have "length (fast_result k p ?xs @ ?zs) = cardinality"
      using arg_cong [OF rs, of length] d(1) lx fast_result_sorted(3) [OF d(5), of k p] ins by (simp add: insertable_def)
    then have fin: "leaf_ok (n + 1) (fast_result k p ?xs @ ?zs)" "take (n + 1) (fast_result k p ?xs @ ?zs) = fast_result k p ?xs"
      using fast_result_leaf [OF ins, of ?zs] by simp_all
    then have "vis (fast_result k p ?xs @ ?zs) = fast_result k p ?xs" using vis_leaf [OF fin(1)] by simp
    moreover have "r \<in> set (butlast (fast_loop k p 0 n ?r1)) \<or> r = last (fast_loop k p 0 n ?r1)"
      if "r \<in> set (fast_loop k p 0 n ?r1)" for r
      using that L(1) by (metis append_butlast_last_id in_set_butlast_appendI in_set_conv_decomp set_ConsD rotate1.simps(2) set_rotate1)
    ultimately show ?thesis using st L v fin by auto
  qed
  then show "leaf_ok (n + 1) (last (insert_states k p 0 n rs))"
    and "take (n + 1) (last (insert_states k p 0 n rs)) = fast_result k p ?xs"
    and "\<forall>r \<in> set (insert_states k p 0 n rs). vis r = ?xs \<or> vis r = fast_result k p ?xs" by blast+
qed

end
