(* ===== verification/FastFair_Ops.thy ===== *)
theory FastFair_Ops
  imports FastFair_Page
begin

text \<open>
  Correctness of the page operations of the FAST-and-FAIR tree: the scans find what the page
  shows, insertion and removal are atomic for a reader or a crash between any two stores, and
  the build with the write-combining buffer computes the same page.
\<close>

section \<open>Scans\<close>

definition find_ptr :: "entry_key_t \<Rightarrow> entry list \<Rightarrow> ptr" where
  "find_ptr k es = (case find (\<lambda>e. e_key e = k) es of None \<Rightarrow> 0 | Some e \<Rightarrow> e_ptr e)"

lemma find_ptr_simps [simp]:
  "find_ptr k [] = 0" "find_ptr k (e # es) = (if e_key e = k then e_ptr e else find_ptr k es)"
  by (simp_all add: find_ptr_def)

lemma find_ptr_append: "find_ptr k (xs @ ys) = (if k \<in> e_key ` set xs then find_ptr k xs else find_ptr k ys)"
  by (induction xs) auto

lemma find_ptr_absent: "k \<notin> e_key ` set xs \<Longrightarrow> find_ptr k xs = 0"
  by (induction xs) auto

lemma scan_forward_vis:
  assumes "xs \<noteq> []" and "\<exists>z \<in> set zs. e_ptr z = 0"
  shows "scan_forward k (length xs) (xs @ zs) = Some (find_ptr k (vis_from (e_ptr (last xs)) zs))"
  using assms
proof (induction zs arbitrary: xs)
  case (Cons z zs)
  have nth: "(xs @ z # zs) ! length xs = z" "(xs @ z # zs) ! (length xs - 1) = last xs"
    using Cons.prems(1) by (auto simp: nth_append last_conv_nth)
  show ?case
  proof (cases "e_ptr z = 0")
    case True
    then show ?thesis by (simp add: scan_forward.simps [of k "length xs"])
  next
    case False
    then have "scan_forward k (length (xs @ [z])) ((xs @ [z]) @ zs) = Some (find_ptr k (vis_from (e_ptr z) zs))"
      using Cons.IH [of "xs @ [z]"] Cons.prems(2) by simp
    then show ?thesis using False nth by (simp add: scan_forward.simps [of k "length xs"])
  qed
qed simp

lemma leaf_scan_forward:
  assumes "IS_FORWARD (switch_counter (hdr pg))" and "records pg = e # es" and "\<exists>z \<in> set es. e_ptr z = 0"
  shows "leaf_scan k pg = Some (find_ptr k (vis (records pg)))"
  using scan_forward_vis [of "[e]" es k] assms by (auto simp: leaf_scan_def vis_def)

lemma scan_backward_take:
  assumes "i < length rs" and "nonnull (take (Suc i) rs)" and "stutter_free (take (Suc i) rs)"
    and "sorted_wrt (\<lambda>a b. e_key a < e_key b) (take (Suc i) rs)"
  shows "scan_backward k i rs = find_ptr k (take (Suc i) rs)"
  using assms
proof (induction i)
  case 0
  then show ?case by (cases rs) auto
next
  case (Suc i)
  let ?xs = "take (Suc i) rs" and ?e = "rs ! Suc i"
  have t: "take (Suc (Suc i)) rs = ?xs @ [?e]" using Suc.prems(1) by (simp add: take_Suc_conv_app_nth)
  have l: "last ?xs = rs ! i" "?xs \<noteq> []" using Suc.prems(1) by (auto simp: take_Suc_conv_app_nth)
  have IH: "scan_backward k i rs = find_ptr k ?xs"
    using Suc by (simp add: t stutter_free_def successively_append_iff sorted_wrt_append)
  have neq: "e_ptr (rs ! i) \<noteq> e_ptr ?e" "e_ptr ?e \<noteq> 0"
    using Suc.prems(2,3) l by (auto simp: t stutter_free_def successively_append_iff)
  have "e_key ?e \<notin> e_key ` set ?xs" using Suc.prems(4) by (auto simp: t sorted_wrt_append)
  then have "find_ptr k (?xs @ [?e]) = (if e_key ?e = k then e_ptr ?e else find_ptr k ?xs)"
    by (auto simp: find_ptr_append find_ptr_absent)
  then show ?case using IH neq by (simp add: t)
qed

text \<open>A page whose header agrees with its entries.\<close>

definition page_ok :: "nat \<Rightarrow> page \<Rightarrow> bool" where
  "page_ok n pg \<longleftrightarrow> leaf_ok n (records pg) \<and> last_index (hdr pg) = int n - 1 \<and> leftmost_ptr (hdr pg) = 0 \<and>
     (n = 0 \<longrightarrow> e_ptr (records pg ! 1) = 0) \<and> distinct (map e_ptr (take n (records pg)))"

lemma count_page_ok: "page_ok n pg \<Longrightarrow> count pg = Some n"
proof -
  assume ok: "page_ok n pg"
  then have "e_ptr (records pg ! n) = 0" "n < length (records pg)" "last_index (hdr pg) = int n - 1"
    by (auto simp: page_ok_def leaf_ok_def)
  moreover from this have "count_up (records pg) n = Some n" by (simp add: count_up.simps)
  moreover from calculation have "count_down (records pg) n = Some n" by (cases n) auto
  ultimately show ?thesis by (simp add: count_def Let_def)
qed

lemma leaf_scan_page_ok:
  assumes ok: "page_ok n pg"
  shows "leaf_scan k pg = Some (find_ptr k (take n (records pg)))"
proof (cases "IS_FORWARD (switch_counter (hdr pg))")
  case True
  have l: "leaf_ok n (records pg)" and n0: "n = 0 \<longrightarrow> e_ptr (records pg ! 1) = 0" using ok by (auto simp: page_ok_def)
  note d = leaf_okD [OF l]
  obtain e es where es: "records pg = e # es" using d(1) by (cases "records pg") (auto simp: cardinality_eq)
  have "\<exists>z \<in> set es. e_ptr z = 0"
  proof (cases n)
    case 0
    then show ?thesis using n0 es d(1) by (auto simp: cardinality_eq intro!: bexI [of _ "es ! 0"])
  next
    case (Suc m)
    then show ?thesis using d(1,2,4) es by (auto intro!: bexI [of _ "es ! m"])
  qed
  then show ?thesis using leaf_scan_forward [OF True es] vis_leaf [OF l n0] by simp
next
  case False
  note d = leaf_okD [OF ok [unfolded page_ok_def, THEN conjunct1]]
  have "scan_backward k (n - 1) (records pg) = find_ptr k (take n (records pg))"
  proof (cases n)
    case 0
    then show ?thesis using d(4) by simp
  next
    case (Suc m)
    then show ?thesis using scan_backward_take [of m "records pg" k] d by simp
  qed
  then show ?thesis using False count_page_ok [OF ok] by (simp add: leaf_scan_def)
qed

section \<open>Removal\<close>

lemma remove_skip:
  assumes "nonnull xs" and "k \<notin> e_key ` set xs" and "length ws = i"
  shows "remove_loop k lm i False (ws @ xs @ zs) = remove_loop k lm (i + length xs) False (ws @ xs @ zs)"
  using assms
proof (induction xs arbitrary: ws i)
  case (Cons x xs)
  have "remove_loop k lm i False (ws @ (x # xs) @ zs) = remove_loop k lm (Suc i) False ((ws @ [x]) @ xs @ zs)"
    using Cons.prems by (subst remove_loop.simps) (auto simp: nth_append Let_def)
  also have "\<dots> = remove_loop k lm (Suc i + length xs) False ((ws @ [x]) @ xs @ zs)"
    using Cons.prems by (intro Cons.IH) auto
  finally show ?case by simp
qed simp

lemma set_app2:
  assumes "length xs = i"
  shows "(xs @ g # h # zs) ! i = g" "(xs @ g # h # zs) ! Suc i = h"
    "set_ptr i v (xs @ g # h # zs) = xs @ g\<lparr>e_ptr := v\<rparr> # h # zs"
    "set_key i k (xs @ g # h # zs) = xs @ g\<lparr>e_key := k\<rparr> # h # zs"
  using assms set_app [of xs i] by (auto simp: nth_append)

lemma remove_stop: "length xs = i \<Longrightarrow> e_ptr z = 0 \<Longrightarrow> remove_loop k lm i s (xs @ z # zs) = Some ([], s)"
  by (subst remove_loop.simps) (auto simp: nth_append)

lemma remove_iter:
  assumes "length xs = i" and "e_ptr g \<noteq> 0"
  shows "remove_loop k lm i True (xs @ g # h # zs) =
    map_option (\<lambda>(st, s). ((xs @ g\<lparr>e_key := e_key h\<rparr> # h # zs) # (xs @ h # h # zs) # st, s))
      (remove_loop k lm (Suc i) True (xs @ h # h # zs))"
  using assms by (subst remove_loop.simps) (simp add: set_app2 Let_def entry_eta)

lemma remove_iter_hit:
  assumes "length xs = i" and "e_ptr x \<noteq> 0" and "e_key x = k" and v_def: "v = (if xs = [] then lm else e_ptr (last xs))"
  shows "remove_loop k lm i False (xs @ x # h # zs) =
    map_option (\<lambda>(st, s). ((xs @ x\<lparr>e_ptr := v\<rparr> # h # zs) # (xs @ x\<lparr>e_ptr := v, e_key := e_key h\<rparr> # h # zs) #
        (xs @ h # h # zs) # st, s))
      (remove_loop k lm (Suc i) True (xs @ h # h # zs))"
proof -
  have "(if i = 0 then lm else e_ptr ((xs @ x # h # zs) ! (i - 1))) = v"
    using assms(1) by (cases "xs = []") (auto simp: v_def nth_append last_conv_nth)
  then show ?thesis
    using assms(1-3) by (subst remove_loop.simps) (simp add: set_app2 [OF assms(1)] Let_def entry_eta del: length_greater_0_conv)
qed

lemma vis_from_stop: "e_ptr z = 0 \<Longrightarrow> vis_from prev (as @ z # us) = vis_from prev as"
  by (induction as arbitrary: prev) auto

lemma remove_shift:
  assumes "nonnull xs" and "xs \<noteq> []" and "nonnull ys" and "e_ptr z = 0" and "e_ptr g = e_ptr (last xs)"
  shows "\<exists>states. remove_loop k lm (length xs) True (xs @ g # ys @ z # ts) = Some (states, True) \<and> states \<noteq> [] \<and>
     last states = xs @ ys @ z # z # ts \<and> (\<forall>r \<in> set states. vis r = vis (xs @ ys @ z # ts))"
  using assms
proof (induction ys arbitrary: xs g)
  case Nil
  have g: "e_ptr g \<noteq> 0" using Nil(1,2,5) last_in_set [of xs] by simp
  have "remove_loop k lm (Suc (length xs)) True (xs @ z # z # ts) = Some ([], True)"
    using remove_stop [of "xs @ [z]" "Suc (length xs)" z] Nil(4) by simp
  then have r: "remove_loop k lm (length xs) True (xs @ g # z # ts) =
      Some ([xs @ g\<lparr>e_key := e_key z\<rparr> # z # ts, xs @ z # z # ts], True)"
    using remove_iter [of xs "length xs" g k lm z ts] g by simp
  have "vis (xs @ z # z # ts) = vis (xs @ z # ts)"
    using Nil(1,2) vis_from_stop [OF Nil(4)] by (cases xs) (auto simp: vis_def)
  then show ?case using r vis_skip_prev [OF Nil(1,2), of "g\<lparr>e_key := e_key z\<rparr>" "z # ts"] Nil(5) by simp
next
  case (Cons y ys)
  have g: "e_ptr g \<noteq> 0" using Cons.prems(1,2,5) last_in_set [of xs] by simp
  have y: "e_ptr y \<noteq> 0" using Cons.prems(3) by simp
  have pre: "nonnull (xs @ [y])" "xs @ [y] \<noteq> []" "nonnull ys" "e_ptr y = e_ptr (last (xs @ [y]))"
    using Cons.prems(1,3) y by auto
  obtain states where s: "remove_loop k lm (length (xs @ [y])) True ((xs @ [y]) @ y # ys @ z # ts) = Some (states, True)"
      "states \<noteq> []" "last states = (xs @ [y]) @ ys @ z # z # ts" "\<forall>r \<in> set states. vis r = vis ((xs @ [y]) @ ys @ z # ts)"
    using Cons.IH [OF pre(1,2,3) Cons.prems(4) pre(4)] by blast
  have "remove_loop k lm (length xs) True (xs @ g # y # ys @ z # ts) =
      Some ((xs @ g\<lparr>e_key := e_key y\<rparr> # y # ys @ z # ts) # (xs @ y # y # ys @ z # ts) # states, True)"
    using remove_iter [of xs "length xs" g k lm y "ys @ z # ts"] g s(1) by simp
  moreover have "vis (xs @ g\<lparr>e_key := e_key y\<rparr> # y # ys @ z # ts) = vis (xs @ y # ys @ z # ts)"
    by (rule vis_skip_prev [OF Cons.prems(1,2)]) (use Cons.prems(5) in simp)
  moreover have "vis (xs @ y # y # ys @ z # ts) = vis (xs @ y # ys @ z # ts)"
    by (rule vis_skip_next [OF Cons.prems(1) y])
  ultimately show ?case using s by auto
qed

text \<open>The whole loop on a page that holds the key: before the first store it shows all entries, then
  all but the removed one.\<close>

lemma vis_live:
  assumes "nonnull es" and "es \<noteq> []" and "e_ptr z = 0"
  shows "vis (es @ z # us) = vis_from 0 es"
  using assms vis_from_stop [OF assms(3), of 0 es us] by (cases es) (simp_all add: vis_def)

lemma remove_hit:
  assumes "nonnull xs" and "nonnull ys" and "e_ptr z = 0" and "e_key x = k" and "e_ptr x \<noteq> 0"
    and "k \<notin> e_key ` set xs"
  shows "\<exists>states. remove_loop k 0 0 False (xs @ x # ys @ z # ts) = Some (states, True) \<and> states \<noteq> [] \<and>
     last states = xs @ ys @ z # z # ts \<and> (\<forall>r \<in> set states. vis r = vis_from 0 (xs @ ys))"
proof -
  obtain h us where h: "ys @ z # ts = h # us" by (cases "ys @ z # ts") auto
  let ?i = "length xs" and ?v = "if xs = [] then 0 else e_ptr (last xs)"
  let ?r1 = "xs @ x\<lparr>e_ptr := ?v\<rparr> # h # us"
  let ?r2 = "xs @ x\<lparr>e_ptr := ?v, e_key := e_key h\<rparr> # h # us" and ?r3 = "xs @ h # h # us"
  have step: "remove_loop k 0 0 False (xs @ x # ys @ z # ts) =
      map_option (\<lambda>(states, s). (?r1 # ?r2 # ?r3 # states, s)) (remove_loop k 0 (Suc ?i) True ?r3)"
    using remove_skip [OF assms(1,6), of "[]" 0 0 "x # h # us"]
      remove_iter_hit [OF refl assms(5,4) refl, where xs = xs and lm = 0 and h = h and zs = us] by (simp add: h)
  have gone: "vis (xs @ g # h # us) = vis_from 0 (xs @ ys)" if "e_ptr g = ?v" for g
  proof (cases "xs = []")
    case True
    then show ?thesis using that vis_from_stop [OF assms(3), of 0 ys ts] h by (simp add: vis_def)
  next
    case False
    then have "vis (xs @ g # h # us) = vis ((xs @ ys) @ z # ts)"
      using vis_skip_prev [OF assms(1) False, of g "h # us"] that h by simp
    then show ?thesis using vis_live [of "xs @ ys" z ts] assms(1-3) False by auto
  qed
  have v12: "vis ?r1 = vis_from 0 (xs @ ys)" "vis ?r2 = vis_from 0 (xs @ ys)" by (rule gone; simp)+
  show ?thesis
  proof (cases ys)
    case Nil
    then have hz: "h = z" "us = ts" using h by auto
    have "remove_loop k 0 (Suc ?i) True ?r3 = Some ([], True)"
      using remove_stop [of "xs @ [z]" "Suc ?i" z] assms(3) by (simp add: hz)
    moreover have "vis ?r3 = vis_from 0 (xs @ ys)"
      using vis_live [OF assms(1) _ assms(3), of "z # ts"] assms(3) Nil by (cases "xs = []") (simp_all add: hz vis_def)
    ultimately show ?thesis using step v12 by (simp add: hz Nil)
  next
    case (Cons y ys')
    then have hy: "h = y" "us = ys' @ z # ts" using h by auto
    have y: "e_ptr y \<noteq> 0" "nonnull ys'" using assms(2) Cons by auto
    have pre: "nonnull (xs @ [y])" "xs @ [y] \<noteq> []" "e_ptr y = e_ptr (last (xs @ [y]))" using assms(1) y(1) by auto
    have live: "vis ((xs @ [y]) @ ys' @ z # us') = vis_from 0 (xs @ ys)" for us'
    proof -
      have "nonnull (xs @ ys)" using assms(1,2) by auto
      then show ?thesis using vis_live [of "xs @ ys" z us'] assms(3) by (simp add: Cons)
    qed
    obtain states where s: "remove_loop k 0 (length (xs @ [y])) True ((xs @ [y]) @ y # ys' @ z # ts) = Some (states, True)"
        "states \<noteq> []" "last states = (xs @ [y]) @ ys' @ z # z # ts" "\<forall>r \<in> set states. vis r = vis ((xs @ [y]) @ ys' @ z # ts)"
      using remove_shift [OF pre(1,2) y(2) assms(3) pre(3), of k 0 ts] by blast
    moreover have "vis ?r3 = vis_from 0 (xs @ ys)"
      using vis_skip_next [OF assms(1) y(1), of "ys' @ z # ts"] live [of ts] by (simp add: hy)
    moreover have "\<forall>r \<in> set states. vis r = vis_from 0 (xs @ ys)" using s(4) unfolding live .
    ultimately show ?thesis using step v12 by (simp add: hy Cons)
  qed
qed

lemma remove_miss:
  assumes "nonnull xs" and "e_ptr z = 0" and "k \<notin> e_key ` set xs"
  shows "remove_loop k lm 0 False (xs @ z # ts) = Some ([], False)"
  using remove_skip [OF assms(1,3), of "[]" 0 lm "z # ts"] remove_stop [OF refl assms(2)] by simp

section \<open>The write-combining build computes the same page\<close>

lemma drain_append: "drain (xs @ ys) rs = drain ys (drain xs rs)"
  by (simp add: drain_def)

lemma drain_nth: "\<forall>(a, e) \<in> set buf. i < a \<Longrightarrow> drain buf rs ! i = rs ! i"
  unfolding drain_def by (induction buf arbitrary: rs) (auto simp: nth_list_update_neq)

lemma drain_update:
  assumes "\<forall>(a, e) \<in> set buf. i < a"
  shows "drain buf (rs[i := v]) = (drain buf rs)[i := v]"
  using assms unfolding drain_def
proof (induction buf arbitrary: rs)
  case (Cons b buf)
  obtain a e where "b = (a, e)" "i < a" using Cons.prems by auto
  moreover from this have "rs[i := v, a := e] = rs[a := e, i := v]" by (intro list_update_swap) simp
  ultimately show ?case using Cons by simp
qed simp

text \<open>A shift, as the plain build does it with two stores.\<close>

lemma shift_two_stores: "i < length rs \<Longrightarrow> set_key i (e_key x) (set_ptr i (e_ptr x) rs) = rs[i := x]"
  by (simp add: set_key_def set_ptr_def entry_eta)

lemma fast_loop_nonempty: "fast_loop k p lm n rs \<noteq> []"
  by (cases n) (simp_all add: Let_def)

lemma fast_loop_shift:
  assumes "k < e_key (rs ! i)" and "Suc i < length rs"
  shows "last (fast_loop k p lm (Suc i) rs) = last (fast_loop k p lm i (rs[Suc i := rs ! i]))"
proof -
  have "(set_ptr (Suc i) (e_ptr (rs ! i)) rs) ! i = rs ! i" by (simp add: set_ptr_def)
  then have "fast_loop k p lm (Suc i) rs = set_ptr (Suc i) (e_ptr (rs ! i)) rs # rs[Suc i := rs ! i] #
      fast_loop k p lm i (rs[Suc i := rs ! i])"
    using assms shift_two_stores [of "Suc i" rs "rs ! i"] by (simp add: Let_def)
  then show ?thesis by (simp add: fast_loop_nonempty)
qed

lemma rap_loop_result:
  assumes "n < length rs" and "\<forall>(a, e) \<in> set buf. n < a"
  shows "rap_loop k p lm True n buf rs \<noteq> [] \<and>
    fst (last (rap_loop k p lm True n buf rs)) = last (fast_loop k p lm n (drain buf rs))"
  using assms
proof (induction n arbitrary: buf rs)
  case 0
  then show ?case by (simp add: Let_def)
next
  case (Suc i)
  have later: "\<forall>(a, e) \<in> set buf. i < a" using Suc.prems(2) by auto
  have nth: "drain buf rs ! i = rs ! i" by (rule drain_nth [OF later])
  have len: "length (drain b r) = length r" for b r
    unfolding drain_def by (induction b arbitrary: r) auto
  show ?case
  proof (cases "k < e_key (rs ! i)")
    case False
    then show ?thesis by (simp add: nth Let_def)
  next
    case True
    let ?r = "(drain buf rs)[Suc i := rs ! i]"
    have "last (fast_loop k p lm (Suc i) (drain buf rs)) = last (fast_loop k p lm i ?r)"
      using fast_loop_shift [of k "drain buf rs" i p lm] True Suc.prems(1) len nth by simp
    moreover have "drain (buf @ [(Suc i, rs ! i)]) rs = ?r" by (simp add: drain_append) (simp add: drain_def)
    moreover have "drain buf (rs[Suc i := rs ! i]) = ?r" by (rule drain_update [OF Suc.prems(2)])
    moreover have "\<forall>(a, e) \<in> set (buf @ [(Suc i, rs ! i)]). i < a" using later by auto
    note Suc.IH [OF _ this, of rs] and Suc.IH [of ?r "[]"]
    ultimately show ?thesis using True Suc.prems(1) len by (auto simp: Let_def drain_def [of "[]"])
  qed
qed

lemma line_start_iff: "line_start i \<longleftrightarrow> i mod 4 = 2"
  unfolding line_start_def sizeof_header_def sizeof_entry_def CACHE_LINE_SIZE_def by presburger

text \<open>The buffered entries are meant for a run of slots directly behind the current one, none of
  which starts a line.\<close>

lemma rap_loop_buffer:
  assumes "\<forall>j < length buf. \<not> line_start (n + 1 + j)"
  shows "\<forall>(r, b) \<in> set (rap_loop k p lm True n buf rs). length b \<le> 3"
  using assms
proof (induction n arbitrary: buf rs)
  case 0
  then show ?case by (simp add: Let_def)
next
  case (Suc i)
  have bound: "length b \<le> 3" if "\<forall>j < length b. \<not> line_start (m + j)" for b :: "(nat \<times> entry) list" and m
  proof (rule ccontr)
    assume "\<not> length b \<le> 3"
    then have "0 < length b" "1 < length b" "2 < length b" "3 < length b" by linarith+
    then have "\<not> line_start (m + 0)" "\<not> line_start (m + 1)" "\<not> line_start (m + 2)" "\<not> line_start (m + 3)"
      using that by blast+
    then show False unfolding line_start_iff by presburger
  qed
  have b0: "length buf \<le> 3" using bound [of buf "Suc i + 1"] Suc.prems by simp
  show ?case
  proof (cases "k < e_key (rs ! i) \<and> \<not> line_start (i + 1)")
    case True
    let ?b = "buf @ [(i + 1, rs ! i)]"
    have run: "\<forall>j < length ?b. \<not> line_start (i + 1 + j)"
    proof (intro allI impI)
      fix j
      assume "j < length ?b"
      then show "\<not> line_start (i + 1 + j)" using True Suc.prems by (cases j) auto
    qed
    then show ?thesis using True Suc.IH [OF run, of rs] bound [OF run] by (auto simp: Let_def)
  next
    case False
    then show ?thesis using Suc.IH [of "[]"] b0 by (auto simp: Let_def)
  qed
qed

section \<open>Pages\<close>

lemma find_ptr_map_of: "find_ptr k es = (case map_of (map (\<lambda>e. (e_key e, e_ptr e)) es) k of None \<Rightarrow> 0 | Some p \<Rightarrow> p)"
  by (induction es) auto

lemma find_ptr_fast_result:
  assumes "k \<notin> e_key ` set xs"
  shows "find_ptr k' (fast_result k p xs) = (if k' = k then p else find_ptr k' xs)"
proof -
  obtain pre post where s: "split_at k xs = (pre, post)" by fastforce
  then have "xs = pre @ post" by (rule split_at_append)
  moreover have "fast_result k p xs = pre @ \<lparr>e_key = k, e_ptr = p\<rparr> # post" by (simp add: fast_result_def s)
  ultimately show ?thesis using assms by (auto simp: find_ptr_append)
qed

lemma page_okD:
  assumes "page_ok n pg"
  shows "leaf_ok n (records pg)" "last_index (hdr pg) = int n - 1" "leftmost_ptr (hdr pg) = 0"
    "n = 0 \<longrightarrow> e_ptr (records pg ! 1) = 0" "distinct (map e_ptr (take n (records pg)))"
  using assms by (auto simp: page_ok_def)

text \<open>Room for a new pair: the page is not full, the key is new, the value is neither \<^verbatim>\<open>NULL\<close> nor
  already in the page.\<close>

definition room :: "nat \<Rightarrow> page \<Rightarrow> entry_key_t \<Rightarrow> ptr \<Rightarrow> bool" where
  "room n pg k p \<longleftrightarrow> page_ok n pg \<and> n + 1 < cardinality \<and> p \<noteq> 0 \<and>
     p \<notin> e_ptr ` set (take n (records pg)) \<and> k \<notin> e_key ` set (take n (records pg))"

lemma room_insertable: "room n pg k p \<Longrightarrow> insertable n (records pg) k p"
  by (simp add: room_def insertable_def page_ok_def)

lemma insert_key_page:
  assumes "room n pg k p" and "insert_key k p n pg = (pg', n')"
  shows "n' = n + 1" and "page_ok (n + 1) pg'" and "take (n + 1) (records pg') = fast_result k p (take n (records pg))"
    and "IS_FORWARD (switch_counter (hdr pg')) \<or> \<not> IS_FORWARD (switch_counter (hdr pg))"
    and "sibling_ptr (hdr pg') = sibling_ptr (hdr pg)"
proof -
  note ok = page_okD [OF assms(1) [unfolded room_def, THEN conjunct1]]
  note r = insert_states_result [OF room_insertable [OF assms(1)]]
  have pg': "records pg' = last (insert_states k p 0 n (records pg))" "last_index (hdr pg') = int n"
      "leftmost_ptr (hdr pg') = 0" "sibling_ptr (hdr pg') = sibling_ptr (hdr pg)"
    using assms(2) ok(3) by (auto simp: insert_key_def Let_def)
  show "n' = n + 1" "sibling_ptr (hdr pg') = sibling_ptr (hdr pg)"
    using assms(2) by (auto simp: insert_key_def Let_def)
  show "IS_FORWARD (switch_counter (hdr pg')) \<or> \<not> IS_FORWARD (switch_counter (hdr pg))"
    using assms(2) by (auto simp: insert_key_def Let_def split: if_splits)
  show t: "take (n + 1) (records pg') = fast_result k p (take n (records pg))" using r(2) pg'(1) by simp
  obtain pre post where s: "split_at k (take n (records pg)) = (pre, post)" by fastforce
  have fr: "fast_result k p (take n (records pg)) = pre @ \<lparr>e_key = k, e_ptr = p\<rparr> # post" by (simp add: fast_result_def s)
  have "distinct (map e_ptr (fast_result k p (take n (records pg))))"
    unfolding fr using ok(5) assms(1) split_at_append [OF s] by (auto simp: room_def)
  then show "page_ok (n + 1) pg'" using r(1) pg' by (simp add: page_ok_def flip: t)
qed

text \<open>Insertion in a page. With room for the pair, \<^verbatim>\<open>insert_key\<close> keeps the page well formed (keys
  ascending, terminated, header up to date), a scan finds the new pair, and every other scan
  gives what it gave before, in both scan directions.\<close>

theorem insert_key_correct:
  assumes "room n pg k p"
  shows "\<exists>pg'. insert_key k p n pg = (pg', n + 1) \<and> page_ok (n + 1) pg' \<and> count pg' = Some (n + 1) \<and>
     leaf_scan k pg' = Some p \<and> (\<forall>k'. k' \<noteq> k \<longrightarrow> leaf_scan k' pg' = leaf_scan k' pg)"
proof -
  obtain pg' n' where i: "insert_key k p n pg = (pg', n')" by fastforce
  note r = insert_key_page [OF assms i]
  have ok: "page_ok n pg" "k \<notin> e_key ` set (take n (records pg))" using assms by (auto simp: room_def)
  have "leaf_scan k' pg' = Some (if k' = k then p else find_ptr k' (take n (records pg)))" for k'
    using leaf_scan_page_ok [OF r(2)] r(3) find_ptr_fast_result [OF ok(2)] by simp
  then show ?thesis using i r(1,2) leaf_scan_page_ok [OF ok(1)] count_page_ok [OF r(2)] by simp
qed

text \<open>C3: insertion is failure atomic. After every single store of \<^verbatim>\<open>insert_key\<close> the page shows a reader,
  or a recovery after a crash, either exactly the old pairs or exactly the new ones; no shift
  ever hides or duplicates an entry.\<close>

theorem insert_key_atomic:
  assumes "room n pg k p" and "r \<in> set (insert_states k p (leftmost_ptr (hdr pg)) n (records pg))"
  shows "(\<forall>k'. find_ptr k' (vis r) = find_ptr k' (take n (records pg))) \<or>
     (\<forall>k'. find_ptr k' (vis r) = (if k' = k then p else find_ptr k' (take n (records pg))))"
  using insert_states_result(3) [OF room_insertable [OF assms(1)]] assms find_ptr_fast_result
  by (fastforce simp: room_def page_ok_def)

text \<open>A page of three pairs, for the witnesses.\<close>

definition demo_entries :: "entry list" where
  "demo_entries = [\<lparr>e_key = 10, e_ptr = 1\<rparr>, \<lparr>e_key = 20, e_ptr = 2\<rparr>, \<lparr>e_key = 30, e_ptr = 3\<rparr>]"

definition demo_page :: page where
  "demo_page = \<lparr>hdr = (header_new 0)\<lparr>last_index := 2\<rparr>, records = demo_entries @ replicate 27 entry_new\<rparr>"

lemma demo_page_ok: "page_ok 3 demo_page" "room 3 demo_page 5 9"
  by (simp_all add: page_ok_def room_def leaf_ok_def demo_page_def demo_entries_def cardinality_eq header_new_def
      entry_new_def stutter_free_def nth_append)

theorem insert_key_correct_witness: "\<exists>pg'. insert_key 5 9 3 demo_page = (pg', 4) \<and> leaf_scan 5 pg' = Some 9"
  using insert_key_correct [OF demo_page_ok(2)] by auto

theorem insert_key_atomic_witness:
  "\<forall>k'. find_ptr k' (vis (set_ptr 4 0 (records demo_page))) = find_ptr k' (take 3 (records demo_page)) \<or>
     (\<forall>k'. find_ptr k' (vis (set_ptr 4 0 (records demo_page))) = (if k' = 5 then 9 else find_ptr k' (take 3 (records demo_page))))"
proof -
  have "set_ptr 4 0 (records demo_page) \<in> set (insert_states 5 9 (leftmost_ptr (hdr demo_page)) 3 (records demo_page))"
    by (simp add: insert_states_def Let_def demo_page_def demo_entries_def nth_append entry_new_def)
  then show ?thesis using insert_key_atomic [OF demo_page_ok(2)] by metis
qed

section \<open>Removal from a page\<close>

lemma remove_decomp:
  assumes ok: "page_ok n pg" and k: "k \<in> e_key ` set (take n (records pg))"
  obtains xs x ys where "take n (records pg) = xs @ x # ys" "e_key x = k" "k \<notin> e_key ` set xs" "k \<notin> e_key ` set ys"
    "records pg = xs @ x # ys @ records pg ! n # drop (Suc n) (records pg)"
proof -
  note d = leaf_okD [OF page_okD(1) [OF ok]]
  obtain x where "x \<in> set (take n (records pg))" "e_key x = k" using k by auto
  then obtain xs ys where s: "take n (records pg) = xs @ x # ys" by (meson split_list)
  have "k \<notin> e_key ` set xs" "k \<notin> e_key ` set ys" using d(5) \<open>e_key x = k\<close> by (auto simp: s sorted_wrt_append)
  moreover have "records pg = take n (records pg) @ records pg ! n # drop (Suc n) (records pg)"
    using d(1,2) by (simp add: id_take_nth_drop)
  ultimately show thesis using that [of xs x ys] s \<open>e_key x = k\<close> by simp
qed

lemma leaf_ok_removed:
  assumes ok: "page_ok n pg" and t: "take n (records pg) = xs @ x # ys"
    and len: "length (xs @ ys @ z # ts) = cardinality" and z: "e_ptr z = 0"
  shows "leaf_ok (n - 1) (xs @ ys @ z # ts)" and "take (n - 1) (xs @ ys @ z # ts) = xs @ ys"
    and "distinct (map e_ptr (xs @ ys))"
proof -
  note d = leaf_okD [OF page_okD(1) [OF ok]]
  have n: "n - 1 = length (xs @ ys)" "0 < n" using arg_cong [OF t, of length] d(1,2) by auto
  show dis: "distinct (map e_ptr (xs @ ys))" using page_okD(5) [OF ok] by (auto simp: t)
  have "stutter_free es" if "distinct (map e_ptr es)" for es
    using that by (induction es rule: induct_list012) (auto simp: stutter_free_def)
  then have "stutter_free (xs @ ys)" using dis by blast
  then show "leaf_ok (n - 1) (xs @ ys @ z # ts)" "take (n - 1) (xs @ ys @ z # ts) = xs @ ys"
    using d(2,3,5) len z n by (auto simp: leaf_ok_def t sorted_wrt_append nth_append)
qed

lemma remove_states:
  assumes ok: "page_ok n pg" and k: "k \<in> e_key ` set (take n (records pg))"
  shows "\<exists>states. remove_loop k 0 0 False (records pg) = Some (states, True) \<and> states \<noteq> [] \<and>
    leaf_ok (n - 1) (last states) \<and> distinct (map e_ptr (take (n - 1) (last states))) \<and>
    (n - 1 = 0 \<longrightarrow> e_ptr (last states ! 1) = 0) \<and> set (last states) \<subseteq> set (records pg) \<and>
    (\<forall>k'. find_ptr k' (take (n - 1) (last states)) = (if k' = k then 0 else find_ptr k' (take n (records pg)))) \<and>
    (\<forall>r \<in> set states. \<forall>k'. find_ptr k' (vis r) = (if k' = k then 0 else find_ptr k' (take n (records pg))))"
proof -
  note d = leaf_okD [OF page_okD(1) [OF ok]]
  let ?z = "records pg ! n" and ?ts = "drop (Suc n) (records pg)"
  obtain xs x ys where x: "take n (records pg) = xs @ x # ys" "e_key x = k" "k \<notin> e_key ` set xs" "k \<notin> e_key ` set ys"
      "records pg = xs @ x # ys @ ?z # ?ts"
    by (rule remove_decomp [OF ok k])
  have nn: "nonnull xs" "nonnull ys" "e_ptr x \<noteq> 0" using d(3) by (auto simp: x(1))
  have len: "length (xs @ ys @ ?z # ?z # ?ts) = cardinality" using arg_cong [OF x(5), of length] d(1) by simp
  have z: "e_ptr ?z = 0" by (rule d(4))
  obtain states where st: "remove_loop k 0 0 False (records pg) = Some (states, True)" "states \<noteq> []"
      "last states = xs @ ys @ ?z # ?z # ?ts" "\<forall>r \<in> set states. vis r = vis_from 0 (xs @ ys)"
    using remove_hit [OF nn(1,2) z x(2) nn(3) x(3), of ?ts] by (simp flip: x(5)) blast
  note r = leaf_ok_removed [OF ok x(1) len z]
  have find: "find_ptr k' (xs @ ys) = (if k' = k then 0 else find_ptr k' (take n (records pg)))" for k'
    using x(2,3,4) by (auto simp: x(1) find_ptr_append find_ptr_absent)
  have n1: "n - 1 = 0 \<longrightarrow> e_ptr (last states ! 1) = 0"
    using arg_cong [OF x(1), of length] d(1,2) z st(3) by auto
  have vf: "vis_from 0 (xs @ ys) = xs @ ys"
  proof -
    have "leaf_ok (n - 1) (last states)" "last states = (xs @ ys) @ ?z # ?z # ?ts" using r(1) st(3) by simp_all
    then have "vis (last states) = xs @ ys" using vis_leaf [of "n - 1" "last states"] n1 r(2) st(3) by simp
    moreover have "last states \<in> set states" using st(2) by simp
    ultimately show ?thesis using st(4) by simp
  qed
  have "set (last states) \<subseteq> set (records pg)" 
  proof -
    have "set (records pg) = set (xs @ x # ys @ ?z # ?ts)" by (rule arg_cong [OF x(5)])
    moreover have "set (xs @ ys @ ?z # ?z # ?ts) \<subseteq> set (xs @ x # ys @ ?z # ?ts)" by auto
    ultimately show ?thesis by (simp only: st(3))
  qed
  then show ?thesis
    using r n1 st(1,2) find vf st(3,4) by (intro exI [of _ states]) (simp del: map_append set_append)
qed

lemma remove_key_eval:
  assumes "remove_loop k (leftmost_ptr (hdr pg)) 0 False (records pg) = Some (states, s)"
  obtains pg' where "remove_key k pg = Some (s, pg')" "records pg' = last (records pg # states)"
    "last_index (hdr pg') = last_index (hdr pg) - (if s then 1 else 0)" "leftmost_ptr (hdr pg') = leftmost_ptr (hdr pg)"
    "sibling_ptr (hdr pg') = sibling_ptr (hdr pg)" "level (hdr pg') = level (hdr pg)" "is_deleted (hdr pg') = is_deleted (hdr pg)"
proof -
  define h where "h = (if IS_FORWARD (switch_counter (hdr pg)) then (hdr pg)\<lparr>switch_counter := switch_counter (hdr pg) + 1\<rparr> else hdr pg)"
  have h: "leftmost_ptr h = leftmost_ptr (hdr pg)" "last_index h = last_index (hdr pg)" "sibling_ptr h = sibling_ptr (hdr pg)"
    "level h = level (hdr pg)" "is_deleted h = is_deleted (hdr pg)" by (simp_all add: h_def)
  have "remove_key k pg = Some (s, pg\<lparr>hdr := (if s then h\<lparr>last_index := last_index h - 1\<rparr> else h), records := last (records pg # states)\<rparr>)"
    unfolding remove_key_def Let_def h_def [symmetric] h(1) assms by simp
  then show thesis by (rule that) (simp_all add: h)
qed

text \<open>Removal from a page. \<^verbatim>\<open>remove_key\<close> of a key that is there succeeds, keeps the page well formed
  with one entry less, makes scans for the key return \<^verbatim>\<open>NULL\<close> and changes no other scan, in both
  scan directions.\<close>

theorem remove_key_correct:
  assumes "page_ok n pg" and "k \<in> e_key ` set (take n (records pg))"
  shows "\<exists>pg'. remove_key k pg = Some (True, pg') \<and> page_ok (n - 1) pg' \<and>
     leaf_scan k pg' = Some 0 \<and> (\<forall>k'. k' \<noteq> k \<longrightarrow> leaf_scan k' pg' = leaf_scan k' pg)"
proof -
  obtain states where st: "remove_loop k 0 0 False (records pg) = Some (states, True)" "states \<noteq> []"
      "leaf_ok (n - 1) (last states)" "distinct (map e_ptr (take (n - 1) (last states)))"
      "n - 1 = 0 \<longrightarrow> e_ptr (last states ! 1) = 0"
      "\<forall>k'. find_ptr k' (take (n - 1) (last states)) = (if k' = k then 0 else find_ptr k' (take n (records pg)))"
    using remove_states [OF assms] by (elim exE conjE) (rule that)
  obtain pg' where pg': "remove_key k pg = Some (True, pg')" "records pg' = last states"
      "last_index (hdr pg') = last_index (hdr pg) - 1" "leftmost_ptr (hdr pg') = 0"
    using remove_key_eval [of k pg states True] st(1,2) page_okD(3) [OF assms(1)] by (metis last_ConsR)
  have "0 < n" using assms(2) by (cases n) auto
  then have ok: "page_ok (n - 1) pg'" using st pg' page_okD(2) [OF assms(1)] by (auto simp: page_ok_def)
  then show ?thesis
    using pg'(1,2) leaf_scan_page_ok [OF ok] leaf_scan_page_ok [OF assms(1)] st(6) by simp
qed

text \<open>C25: removal is failure atomic: after every store of \<^verbatim>\<open>remove_key\<close> the page shows exactly the pairs
  without the removed one.\<close>

theorem remove_key_atomic:
  assumes "page_ok n pg" and "k \<in> e_key ` set (take n (records pg))"
    and "remove_loop k (leftmost_ptr (hdr pg)) 0 False (records pg) = Some (states, shift)" and "r \<in> set states"
  shows "shift \<and> (\<forall>k'. find_ptr k' (vis r) = (if k' = k then 0 else find_ptr k' (take n (records pg))))"
proof -
  obtain st where st: "remove_loop k 0 0 False (records pg) = Some (st, True)"
      "\<forall>r \<in> set st. \<forall>k'. find_ptr k' (vis r) = (if k' = k then 0 else find_ptr k' (take n (records pg)))"
    using remove_states [OF assms(1,2)] by (elim exE conjE) (rule that)
  have "st = states" "shift" using assms(3) page_okD(3) [OF assms(1)] st(1) by simp_all
  then show ?thesis using st(2) assms(4) by blast
qed

text \<open>Removal of a key that is not there reports failure and leaves the entries alone.\<close>

theorem remove_key_absent:
  assumes "page_ok n pg" and "k \<notin> e_key ` set (take n (records pg))"
  shows "\<exists>pg'. remove_key k pg = Some (False, pg') \<and> page_ok n pg' \<and> records pg' = records pg"
proof -
  note d = leaf_okD [OF page_okD(1) [OF assms(1)]]
  have e: "take n (records pg) @ records pg ! n # drop (Suc n) (records pg) = records pg"
    by (rule id_take_nth_drop [symmetric]) (use d(1,2) in simp)
  have "remove_loop k (leftmost_ptr (hdr pg)) 0 False (records pg) = Some ([], False)"
    using remove_miss [OF d(3,4) assms(2), of "leftmost_ptr (hdr pg)" "drop (Suc n) (records pg)"] unfolding e .
  then obtain pg' where "remove_key k pg = Some (False, pg')" "records pg' = records pg"
      "last_index (hdr pg') = last_index (hdr pg)" "leftmost_ptr (hdr pg') = leftmost_ptr (hdr pg)"
    by (rule remove_key_eval) simp
  then show ?thesis using assms(1) unfolding page_ok_def by (intro exI [of _ pg']) simp
qed

lemma demo_page_has: "20 \<in> e_key ` set (take 3 (records demo_page))" "25 \<notin> e_key ` set (take 3 (records demo_page))"
  by (simp_all add: demo_page_def demo_entries_def)

theorem remove_key_correct_witness: "\<exists>pg'. remove_key 20 demo_page = Some (True, pg') \<and> leaf_scan 20 pg' = Some 0"
  using remove_key_correct [OF demo_page_ok(1) demo_page_has(1)] by auto

theorem remove_key_absent_witness: "\<exists>pg'. remove_key 25 demo_page = Some (False, pg') \<and> records pg' = records demo_page"
  using remove_key_absent [OF demo_page_ok(1) demo_page_has(2)] by auto

theorem remove_key_atomic_witness:
  "\<exists>states. remove_loop 20 0 0 False (records demo_page) = Some (states, True) \<and> (\<forall>r \<in> set states. find_ptr 20 (vis r) = 0)"
proof -
  obtain states where s: "remove_loop 20 0 0 False (records demo_page) = Some (states, True)"
    using remove_states [OF demo_page_ok(1) demo_page_has(1)] by blast
  then have s': "remove_loop 20 (leftmost_ptr (hdr demo_page)) 0 False (records demo_page) = Some (states, True)"
    by (simp add: demo_page_def header_new_def)
  then have "find_ptr 20 (vis r) = 0" if "r \<in> set states" for r
    using remove_key_atomic [OF demo_page_ok(1) demo_page_has(1) s' that] by simp
  then show ?thesis using s by blast
qed

section \<open>The write-combining build\<close>

text \<open>C28: the build with the write-combining buffer computes the same page as the plain build.\<close>

theorem rap_equivalent:
  assumes "n + 1 < length (records pg)"
  shows "insert_key_rap k p True n pg = insert_key k p n pg"
proof -
  have "fst (last (rap_states k p lm True n (records pg))) = last (insert_states k p lm n (records pg))" for lm
  proof (cases "n = 0")
    case True
    then show ?thesis by (simp add: rap_states_def insert_states_def Let_def)
  next
    case False
    let ?r = "set_ptr (n + 1) (e_ptr (records pg ! n)) (records pg)"
    have "n < length ?r" using assms by (simp add: set_ptr_def)
    then show ?thesis
      using False rap_loop_result [of n ?r "[]" k p lm]
      by (simp add: rap_states_def insert_states_def Let_def fast_loop_nonempty drain_def)
  qed
  then show ?thesis unfolding insert_key_rap_def insert_key_def by simp
qed

theorem rap_equivalent_witness: "insert_key_rap 5 9 True 3 demo_page = insert_key 5 9 3 demo_page"
  using rap_equivalent [of 3 demo_page 5 9] by (simp add: demo_page_def demo_entries_def)

text \<open>The buffer never holds more than three entries, so the \<^verbatim>\<open>WR_BUF_CL_SIZE\<close> slots a thread has are
  enough.\<close>

theorem rap_buffer_bound:
  assumes "(r, buf) \<in> set (rap_states k p lm True n rs)"
  shows "length buf < WR_BUF_CL_SIZE"
proof -
  have "\<forall>(r, b) \<in> set (rap_states k p lm True n rs). length b \<le> 3"
    using rap_loop_buffer [of "[]" n k p lm] by (auto simp: rap_states_def Let_def)
  then show ?thesis using assms by (auto simp: WR_BUF_CL_SIZE_def)
qed

theorem rap_buffer_bound_witness: "\<exists>r buf. (r, buf) \<in> set (rap_states 5 9 0 True 3 (records demo_page)) \<and> length buf < WR_BUF_CL_SIZE"
proof -
  have "(set_ptr 4 0 (records demo_page), []) \<in> set (rap_states 5 9 0 True 3 (records demo_page))"
    by (simp add: rap_states_def Let_def demo_page_def demo_entries_def nth_append entry_new_def)
  then show ?thesis using rap_buffer_bound by blast
qed

text \<open>C29: unlike the plain build it is not failure atomic. While the entry of the last key is only in
  the buffer, the slot it came from is already overwritten: inserting 5 into a page with the
  keys 10, 20 and 30 goes through a state in which a reader does not find 30.\<close>

theorem rap_not_atomic:
  "\<exists>(r, buf) \<in> set (rap_states 5 9 0 True 3 (demo_entries @ [entry_new, entry_new])).
     find_ptr 30 (vis r) = 0 \<and> find_ptr 30 (vis (demo_entries @ [entry_new, entry_new])) = 3"
  by code_simp

end
