(* ===== verification/FastFair_Tree.thy ===== *)
theory FastFair_Tree
  imports FastFair_Ops
begin

text \<open>
  The FAST-and-FAIR B+-tree over its pages (\<^verbatim>\<open>fastfair.h\<close>, classes \<^verbatim>\<open>btree\<close> and \<^verbatim>\<open>page\<close>): the descent
  with \<^verbatim>\<open>linear_search\<close>, insertion with \<^verbatim>\<open>store\<close>, page splits and new roots, deletion and the range
  scan. Pages live in a heap. Addresses come from the allocator, an argument \<open>A\<close> of the
  operations: \<open>A n\<close> is the address of the \<open>n\<close>-th page. One thread runs at a time, so the locks are
  not part of the state and the loops that repeat a scan while the switch counter moves run once.
\<close>

section \<open>Results\<close>

text \<open>An operation is done, dereferences a pointer that is no page or leaves an array, or still
  runs when the fuel is used up.\<close>

datatype 'a exec = Done 'a | Crash | More

definition andthen :: "'a exec \<Rightarrow> ('a \<Rightarrow> 'b exec) \<Rightarrow> 'b exec" where
  "andthen m f = (case m of Done x \<Rightarrow> f x | Crash \<Rightarrow> Crash | More \<Rightarrow> More)"

lemma andthen_simps [simp]: "andthen (Done x) f = f x" "andthen Crash f = Crash" "andthen More f = More"
  by (simp_all add: andthen_def)

lemma andthen_cong [fundef_cong]:
  "m = m' \<Longrightarrow> (\<And>x. m' = Done x \<Longrightarrow> f x = f' x) \<Longrightarrow> andthen m f = andthen m' f'"
  by (cases m') auto

definition checked :: "'a option \<Rightarrow> 'a exec" where
  "checked r = (case r of Some x \<Rightarrow> Done x | None \<Rightarrow> Crash)"

lemma checked_simps [simp]: "checked (Some x) = Done x" "checked None = Crash"
  by (simp_all add: checked_def)

section \<open>The tree\<close>

record btree =
  bt_root :: ptr
  bt_height :: nat
  bt_heap :: "ptr \<Rightarrow> page option"
  bt_allocs :: nat

text \<open>Dereferencing a page pointer.\<close>

definition load :: "ptr \<Rightarrow> btree \<Rightarrow> page exec" where
  "load p T = checked (bt_heap T p)"

definition write_page :: "ptr \<Rightarrow> page \<Rightarrow> btree \<Rightarrow> btree" where
  "write_page p pg T = T\<lparr>bt_heap := (bt_heap T)(p \<mapsto> pg)\<rparr>"

text \<open>\<^verbatim>\<open>new page\<close>: the address and the tree with the page in its heap.\<close>

definition new_page :: "(nat \<Rightarrow> ptr) \<Rightarrow> page \<Rightarrow> btree \<Rightarrow> ptr \<times> btree" where
  "new_page A pg T = (let p = A (bt_allocs T) in (p, (write_page p pg T)\<lparr>bt_allocs := bt_allocs T + 1\<rparr>))"

definition btree_new :: "(nat \<Rightarrow> ptr) \<Rightarrow> btree" where
  "btree_new A =
     (let (p, T) = new_page A (page_new 0) \<lparr>bt_root = 0, bt_height = 0, bt_heap = Map.empty, bt_allocs = 0\<rparr>
      in T\<lparr>bt_root := p, bt_height := 1\<rparr>)"

definition setNewRoot :: "ptr \<Rightarrow> btree \<Rightarrow> btree" where
  "setNewRoot p T = T\<lparr>bt_root := p, bt_height := bt_height T + 1\<rparr>"

section \<open>Searching\<close>

text \<open>The scan of an internal page from left to right, from index \<open>i \<ge> 1\<close>.\<close>

function inner_forward :: "entry_key_t \<Rightarrow> nat \<Rightarrow> entry list \<Rightarrow> ptr option" where
  "inner_forward k i rs =
     (if \<not> i < length rs then None
      else if e_ptr (rs ! i) = 0 then Some (e_ptr (rs ! (i - 1)))
      else if k < e_key (rs ! i) \<and> e_ptr (rs ! (i - 1)) \<noteq> e_ptr (rs ! i) then Some (e_ptr (rs ! (i - 1)))
      else inner_forward k (i + 1) rs)"
  by pat_completeness auto
termination
  by (relation "measure (\<lambda>(k, i, rs). length rs - i)") auto

declare inner_forward.simps [simp del]

text \<open>From right to left, from index \<open>i\<close> down to 0; 0 is the result \<^verbatim>\<open>NULL\<close>.\<close>

fun inner_backward :: "entry_key_t \<Rightarrow> ptr \<Rightarrow> nat \<Rightarrow> entry list \<Rightarrow> ptr" where
  "inner_backward k leftmost 0 rs =
     (if k \<ge> e_key (rs ! 0) \<and> leftmost \<noteq> e_ptr (rs ! 0) then e_ptr (rs ! 0) else 0)"
| "inner_backward k leftmost (Suc i) rs =
     (if k \<ge> e_key (rs ! Suc i) \<and> e_ptr (rs ! i) \<noteq> e_ptr (rs ! Suc i) then e_ptr (rs ! Suc i)
      else inner_backward k leftmost i rs)"

definition inner_scan :: "entry_key_t \<Rightarrow> page \<Rightarrow> ptr option" where
  "inner_scan k pg =
     (let rs = records pg; lm = leftmost_ptr (hdr pg)
      in if IS_FORWARD (switch_counter (hdr pg)) then
           if k < e_key (rs ! 0) \<and> lm \<noteq> e_ptr (rs ! 0) then Some lm else inner_forward k 1 rs
         else map_option (\<lambda>c. if c = 0 then 0 else inner_backward k lm (c - 1) rs) (count pg))"

text \<open>Whether the scan has to go on in the right sibling: \<^verbatim>\<open>key >= sibling->records[0].key\<close>.\<close>

definition go_right :: "entry_key_t \<Rightarrow> page \<Rightarrow> btree \<Rightarrow> bool exec" where
  "go_right k pg T =
     (if sibling_ptr (hdr pg) = 0 then Done False
      else andthen (load (sibling_ptr (hdr pg)) T) (\<lambda>s. Done (k \<ge> e_key (records s ! 0))))"

definition linear_search :: "entry_key_t \<Rightarrow> page \<Rightarrow> btree \<Rightarrow> ptr exec" where
  "linear_search k pg T =
     (if leftmost_ptr (hdr pg) = 0 then
        andthen (checked (leaf_scan k pg)) (\<lambda>ret.
          if ret \<noteq> 0 then Done ret
          else andthen (go_right k pg T) (\<lambda>right. Done (if right then sibling_ptr (hdr pg) else 0)))
      else
        andthen (checked (inner_scan k pg)) (\<lambda>ret.
          andthen (go_right k pg T) (\<lambda>right.
            Done (if right then sibling_ptr (hdr pg) else if ret \<noteq> 0 then ret else leftmost_ptr (hdr pg)))))"

text \<open>The loop down to a leaf, and the loop down to a given level.\<close>

fun descend :: "nat \<Rightarrow> entry_key_t \<Rightarrow> ptr \<Rightarrow> btree \<Rightarrow> ptr exec" where
  "descend 0 k p T = More"
| "descend (Suc fuel) k p T =
     andthen (load p T) (\<lambda>pg.
       if leftmost_ptr (hdr pg) = 0 then Done p
       else andthen (linear_search k pg T) (\<lambda>q. descend fuel k q T))"

fun descend_to :: "nat \<Rightarrow> nat \<Rightarrow> entry_key_t \<Rightarrow> ptr \<Rightarrow> btree \<Rightarrow> ptr exec" where
  "descend_to 0 lvl k p T = More"
| "descend_to (Suc fuel) lvl k p T =
     andthen (load p T) (\<lambda>pg.
       if level (hdr pg) > lvl then andthen (linear_search k pg T) (\<lambda>q. descend_to fuel lvl k q T)
       else Done p)"

text \<open>The walk along the leaves; the result is the last page and what the search in it returned.\<close>

fun walk_leaves :: "nat \<Rightarrow> entry_key_t \<Rightarrow> ptr \<Rightarrow> btree \<Rightarrow> (ptr \<times> ptr) exec" where
  "walk_leaves 0 k p T = More"
| "walk_leaves (Suc fuel) k p T =
     andthen (load p T) (\<lambda>pg.
       andthen (linear_search k pg T) (\<lambda>t.
         if t = sibling_ptr (hdr pg) then (if t = 0 then Done (0, 0) else walk_leaves fuel k t T)
         else Done (p, t)))"

definition btree_search :: "nat \<Rightarrow> entry_key_t \<Rightarrow> btree \<Rightarrow> ptr exec" where
  "btree_search fuel k T =
     andthen (descend fuel k (bt_root T) T) (\<lambda>p.
       andthen (walk_leaves fuel k p T) (\<lambda>(p, t). Done t))"

section \<open>Insertion\<close>

text \<open>
  The FAIR split of a full page with \<open>n\<close> entries and the new sibling at address \<open>q\<close>: the entries
  from the middle on are copied into the sibling, the middle key becomes the separator, then the
  page is cut by a \<^verbatim>\<open>NULL\<close> in its middle. The result is the page, the sibling, the number of
  entries of the sibling and the separator.
\<close>

definition migrate :: "entry list \<Rightarrow> nat list \<Rightarrow> page \<Rightarrow> page \<times> nat" where
  "migrate rs is sib = fold (\<lambda>i (s, c). insert_key (e_key (rs ! i)) (e_ptr (rs ! i)) c s) is (sib, 0)"

definition split_page :: "ptr \<Rightarrow> nat \<Rightarrow> page \<Rightarrow> page \<times> page \<times> nat \<times> entry_key_t" where
  "split_page q n pg =
     (let h = hdr pg; rs = records pg; m = n div 2; split_key = e_key (rs ! m);
          (sib, cnt) = migrate rs (if leftmost_ptr h = 0 then [m..<n] else [m + 1..<n]) (page_new (level h));
          sib = (if leftmost_ptr h = 0 then sib else sib\<lparr>hdr := (hdr sib)\<lparr>leftmost_ptr := e_ptr (rs ! m)\<rparr>\<rparr>);
          sib = sib\<lparr>hdr := (hdr sib)\<lparr>sibling_ptr := sibling_ptr h\<rparr>\<rparr>;
          h = h\<lparr>sibling_ptr := q\<rparr>;
          h = h\<lparr>switch_counter := switch_counter h + (if IS_FORWARD (switch_counter h) then 2 else 1)\<rparr>;
          h = h\<lparr>last_index := int m - 1\<rparr>
      in (pg\<lparr>hdr := h, records := set_ptr m 0 rs\<rparr>, sib, cnt, split_key))"

text \<open>The split followed by the insertion into the half the key belongs to, with the address of
  that half.\<close>

definition split_insert :: "ptr \<Rightarrow> ptr \<Rightarrow> nat \<Rightarrow> entry_key_t \<Rightarrow> ptr \<Rightarrow> page \<Rightarrow> page \<times> page \<times> entry_key_t \<times> ptr" where
  "split_insert p q n k right pg =
     (let (pg', sib, cnt, split_key) = split_page q n pg
      in if k < split_key then
           (fst (insert_key k right (nat (last_index (hdr pg') + 1)) pg'), sib, split_key, p)
         else (pg', fst (insert_key k right cnt sib), split_key, q))"

text \<open>Whether \<^verbatim>\<open>store\<close> leaves the page to its sibling, which is a strict comparison.\<close>

definition store_right :: "ptr \<Rightarrow> entry_key_t \<Rightarrow> page \<Rightarrow> btree \<Rightarrow> bool exec" where
  "store_right invalid k pg T =
     (if sibling_ptr (hdr pg) = 0 \<or> sibling_ptr (hdr pg) = invalid then Done False
      else andthen (load (sibling_ptr (hdr pg)) T) (\<lambda>s. Done (k > e_key (records s ! 0))))"

text \<open>\<^verbatim>\<open>page::store\<close> and \<^verbatim>\<open>btree::btree_insert_internal\<close>, which call each other. \<^verbatim>\<open>store\<close> returns the page
  it has inserted into, 0 for a deleted page.\<close>

fun store :: "(nat \<Rightarrow> ptr) \<Rightarrow> nat \<Rightarrow> ptr \<Rightarrow> ptr \<Rightarrow> entry_key_t \<Rightarrow> ptr \<Rightarrow> btree \<Rightarrow> (ptr \<times> btree) exec"
  and btree_insert_internal :: "(nat \<Rightarrow> ptr) \<Rightarrow> nat \<Rightarrow> entry_key_t \<Rightarrow> ptr \<Rightarrow> nat \<Rightarrow> btree \<Rightarrow> btree exec" where
  "store A 0 invalid p k right T = More"
| "store A (Suc fuel) invalid p k right T =
     andthen (load p T) (\<lambda>pg.
       if is_deleted (hdr pg) then Done (0, T)
       else andthen (store_right invalid k pg T) (\<lambda>go.
         if go then store A fuel invalid (sibling_ptr (hdr pg)) k right T
         else andthen (checked (count pg)) (\<lambda>n.
           if n < cardinality - 1 then Done (p, write_page p (fst (insert_key k right n pg)) T)
           else
             let (q, T) = new_page A (page_new (level (hdr pg))) T;
                 (pg', sib, split_key, ret) = split_insert p q n k right pg;
                 T = write_page p pg' (write_page q sib T)
             in if bt_root T = p then
                  let (r, T) = new_page A (page_root p split_key q (level (hdr pg) + 1)) T
                  in Done (ret, setNewRoot r T)
                else andthen (btree_insert_internal A fuel split_key q (level (hdr pg) + 1) T) (\<lambda>T. Done (ret, T)))))"
| "btree_insert_internal A 0 k right lvl T = More"
| "btree_insert_internal A (Suc fuel) k right lvl T =
     andthen (load (bt_root T) T) (\<lambda>rt.
       if lvl > level (hdr rt) then Done T
       else andthen (descend_to fuel lvl k (bt_root T) T) (\<lambda>p.
         andthen (store A fuel 0 p k right T) (\<lambda>(ret, T).
           if ret = 0 then btree_insert_internal A fuel k right lvl T else Done T)))"

fun btree_insert :: "(nat \<Rightarrow> ptr) \<Rightarrow> nat \<Rightarrow> entry_key_t \<Rightarrow> ptr \<Rightarrow> btree \<Rightarrow> btree exec" where
  "btree_insert A 0 k right T = More"
| "btree_insert A (Suc fuel) k right T =
     andthen (descend fuel k (bt_root T) T) (\<lambda>p.
       andthen (store A fuel 0 p k right T) (\<lambda>(ret, T).
         if ret = 0 then btree_insert A fuel k right T else Done T))"

section \<open>Deletion\<close>

text \<open>\<^verbatim>\<open>page::remove\<close>, and \<^verbatim>\<open>btree_delete\<close>, which starts again when the page did not hold the key.\<close>

definition page_remove :: "entry_key_t \<Rightarrow> ptr \<Rightarrow> btree \<Rightarrow> (bool \<times> btree) exec" where
  "page_remove k p T =
     andthen (load p T) (\<lambda>pg.
       andthen (checked (remove_key k pg)) (\<lambda>(ret, pg'). Done (ret, write_page p pg' T)))"

fun btree_delete :: "nat \<Rightarrow> entry_key_t \<Rightarrow> btree \<Rightarrow> btree exec" where
  "btree_delete 0 k T = More"
| "btree_delete (Suc fuel) k T =
     andthen (descend fuel k (bt_root T) T) (\<lambda>p.
       andthen (walk_leaves fuel k p T) (\<lambda>(p, t).
         if p = 0 then Done T
         else andthen (page_remove k p T) (\<lambda>(ret, T). if ret then Done T else btree_delete fuel k T)))"

section \<open>Range scan\<close>

text \<open>
  The scan of one page. The result lists the values put into the buffer and tells whether the scan
  goes on with the sibling (a key that reaches \<open>max\<close> makes the function return). From left to
  right, from index \<open>i \<ge> 1\<close>; \<open>None\<close> is running past the array:
\<close>

function range_forward :: "entry_key_t \<Rightarrow> entry_key_t \<Rightarrow> nat \<Rightarrow> entry list \<Rightarrow> (ptr list \<times> bool) option" where
  "range_forward lo up i rs =
     (if \<not> i < length rs then None
      else if e_ptr (rs ! i) = 0 then Some ([], True)
      else if e_key (rs ! i) > lo then
        if e_key (rs ! i) < up then
          map_option (\<lambda>(vs, more). (if e_ptr (rs ! i) \<noteq> e_ptr (rs ! (i - 1)) then e_ptr (rs ! i) # vs else vs, more))
            (range_forward lo up (i + 1) rs)
        else Some ([], False)
      else range_forward lo up (i + 1) rs)"
  by pat_completeness auto
termination
  by (relation "measure (\<lambda>(lo, up, i, rs). length rs - i)") auto

declare range_forward.simps [simp del]

text \<open>Entry 0, which both directions treat the same way.\<close>

definition range_first :: "entry_key_t \<Rightarrow> entry_key_t \<Rightarrow> entry list \<Rightarrow> ptr list \<times> bool" where
  "range_first lo up rs =
     (if e_key (rs ! 0) > lo then
        if e_key (rs ! 0) < up then (if e_ptr (rs ! 0) \<noteq> 0 then [e_ptr (rs ! 0)] else [], True) else ([], False)
      else ([], True))"

fun range_backward :: "entry_key_t \<Rightarrow> entry_key_t \<Rightarrow> nat \<Rightarrow> entry list \<Rightarrow> ptr list \<times> bool" where
  "range_backward lo up 0 rs = range_first lo up rs"
| "range_backward lo up (Suc i) rs =
     (if e_key (rs ! Suc i) > lo then
        if e_key (rs ! Suc i) < up then
          let (vs, more) = range_backward lo up i rs
          in (if e_ptr (rs ! Suc i) \<noteq> e_ptr (rs ! i) \<and> e_ptr (rs ! Suc i) \<noteq> 0 then e_ptr (rs ! Suc i) # vs else vs, more)
        else ([], False)
      else range_backward lo up i rs)"

text \<open>The page \<open>this\<close> the scan started in supplies the number of entries for every page that is
  scanned from right to left.\<close>

definition range_page :: "entry_key_t \<Rightarrow> entry_key_t \<Rightarrow> page \<Rightarrow> page \<Rightarrow> (ptr list \<times> bool) option" where
  "range_page lo up this pg =
     (let rs = records pg
      in if IS_FORWARD (switch_counter (hdr pg)) then
           let (vs, more) = range_first lo up rs
           in if more then map_option (\<lambda>(ws, m). (vs @ ws, m)) (range_forward lo up 1 rs) else Some (vs, False)
         else map_option (\<lambda>c. range_backward lo up (c - 1) rs) (count this))"

fun linear_search_range :: "nat \<Rightarrow> entry_key_t \<Rightarrow> entry_key_t \<Rightarrow> page \<Rightarrow> ptr \<Rightarrow> btree \<Rightarrow> ptr list exec" where
  "linear_search_range 0 lo up this p T = More"
| "linear_search_range (Suc fuel) lo up this p T =
     (if p = 0 then Done []
      else andthen (load p T) (\<lambda>pg.
        andthen (checked (range_page lo up this pg)) (\<lambda>(vs, more).
          if more then andthen (linear_search_range fuel lo up this (sibling_ptr (hdr pg)) T) (\<lambda>ws. Done (vs @ ws))
          else Done vs)))"

text \<open>The loop of \<^verbatim>\<open>btree_search_range\<close> over the internal pages, which stops at \<^verbatim>\<open>NULL\<close>.\<close>

fun search_range_from :: "nat \<Rightarrow> entry_key_t \<Rightarrow> entry_key_t \<Rightarrow> ptr \<Rightarrow> btree \<Rightarrow> ptr list exec" where
  "search_range_from 0 lo up p T = More"
| "search_range_from (Suc fuel) lo up p T =
     (if p = 0 then Done []
      else andthen (load p T) (\<lambda>pg.
        if leftmost_ptr (hdr pg) \<noteq> 0 then
          andthen (linear_search lo pg T) (\<lambda>q. search_range_from fuel lo up q T)
        else linear_search_range fuel lo up pg p T))"

definition btree_search_range :: "nat \<Rightarrow> entry_key_t \<Rightarrow> entry_key_t \<Rightarrow> btree \<Rightarrow> ptr list exec" where
  "btree_search_range fuel lo up T = search_range_from fuel lo up (bt_root T) T"

end
