(* ===== verification/FastFair_Inv.thy ===== *)
theory FastFair_Inv
  imports FastFair_Tree
begin

text \<open>
  Well-formed pages of the tree, leaves and internal pages alike, and what insertion, the split
  and the scan of an internal page do to them.
\<close>

section \<open>Pages with a leftmost child\<close>

definition num :: "page \<Rightarrow> nat" where
  "num pg = nat (last_index (hdr pg) + 1)"

definition live :: "page \<Rightarrow> entry list" where
  "live pg = take (num pg) (records pg)"

definition strip :: "page \<Rightarrow> page" where
  "strip pg = pg\<lparr>hdr := (hdr pg)\<lparr>leftmost_ptr := 0\<rparr>\<rparr>"

lemma strip_simps [simp]:
  "records (strip pg) = records pg" "leftmost_ptr (hdr (strip pg)) = 0"
  "last_index (hdr (strip pg)) = last_index (hdr pg)" "switch_counter (hdr (strip pg)) = switch_counter (hdr pg)"
  by (simp_all add: strip_def)

text \<open>The conditions on a page that do not mention its leftmost child.\<close>

definition node_ok :: "page \<Rightarrow> bool" where
  "node_ok pg \<longleftrightarrow> page_ok (num pg) (strip pg)"

lemma node_okD:
  assumes "node_ok pg"
  shows "length (records pg) = cardinality" "num pg < cardinality" "nonnull (live pg)"
    "e_ptr (records pg ! num pg) = 0" "sorted_wrt (\<lambda>a b. e_key a < e_key b) (live pg)"
    "distinct (map e_ptr (live pg))" "length (live pg) = num pg" "last_index (hdr pg) = int (num pg) - 1"
    "num pg = 0 \<longrightarrow> e_ptr (records pg ! 1) = 0" "leaf_ok (num pg) (records pg)"
  using assms by (auto simp: node_ok_def page_ok_def leaf_ok_def live_def)

lemma node_ok_leaf: "leftmost_ptr (hdr pg) = 0 \<Longrightarrow> node_ok pg \<longleftrightarrow> page_ok (num pg) pg"
  by (simp add: node_ok_def page_ok_def)

lemma page_ok_num: "page_ok n pg \<Longrightarrow> num pg = n"
  by (simp add: page_ok_def num_def)

lemma count_node:
  assumes "node_ok pg"
  shows "count pg = Some (num pg)"
proof -
  have "count pg = count (strip pg)" by (simp only: count_def strip_simps)
  then show ?thesis using count_page_ok assms by (metis node_ok_def)
qed

lemma live_nth: "node_ok pg \<Longrightarrow> i < num pg \<Longrightarrow> live pg ! i = records pg ! i"
  by (simp add: live_def)

lemma live_sub: "set (live pg) \<subseteq> set (records pg)"
  by (simp add: live_def set_take_subset)

lemma sorted_keys_inj: "sorted_wrt (\<lambda>a b. e_key a < e_key b) xs \<Longrightarrow> inj_on e_key (set xs)"
  by (induction xs) (fastforce simp: inj_on_def)+

section \<open>Insertion\<close>

text \<open>The last state of an insertion does not depend on the leftmost child, which is only the
  duplicate pointer on the way.\<close>

lemma first_slot: "rs[0 := (rs[0 := (rs[0 := (rs ! 0)\<lparr>e_ptr := v\<rparr>] ! 0)\<lparr>e_key := k\<rparr>] ! 0)\<lparr>e_ptr := p\<rparr>] =
    rs[0 := (rs[0 := (rs[0 := (rs ! 0)\<lparr>e_ptr := w\<rparr>] ! 0)\<lparr>e_key := k\<rparr>] ! 0)\<lparr>e_ptr := p\<rparr>]"
  by (cases rs) simp_all

lemma insert_states_lm: "last (insert_states k p lm n rs) = last (insert_states k p 0 n rs)"
proof -
  have "last (fast_loop k p lm m rs) = last (fast_loop k p 0 m rs)" for m rs
    by (induction m arbitrary: rs) (auto simp: Let_def set_ptr_def set_key_def fast_loop_nonempty nth_list_update intro!: first_slot)
  then show ?thesis by (simp add: insert_states_def Let_def fast_loop_nonempty)
qed

lemma insert_key_strip: "strip (fst (insert_key k p n pg)) = fst (insert_key k p n (strip pg))"
  by (auto simp: insert_key_def Let_def strip_def insert_states_lm [of k p "leftmost_ptr (hdr pg)"])

lemma insert_key_hdr:
  "leftmost_ptr (hdr (fst (insert_key k p n pg))) = leftmost_ptr (hdr pg)"
  "sibling_ptr (hdr (fst (insert_key k p n pg))) = sibling_ptr (hdr pg)"
  "level (hdr (fst (insert_key k p n pg))) = level (hdr pg)"
  "is_deleted (hdr (fst (insert_key k p n pg))) = is_deleted (hdr pg)"
  "snd (insert_key k p n pg) = n + 1"
  by (auto simp: insert_key_def Let_def)

lemma set_upd_keys:
  "e_key ` set (set_ptr i v rs) \<subseteq> e_key ` set rs"
  "e_key ` set (set_key i k rs) \<subseteq> insert k (e_key ` set rs)"
proof -
  have *: "map e_key (set_ptr i v rs) = (map e_key rs)[i := e_key (rs ! i)]"
      "map e_key (set_key i k rs) = (map e_key rs)[i := k]"
    by (simp_all add: set_ptr_def set_key_def map_update)
  show "e_key ` set (set_key i k rs) \<subseteq> insert k (e_key ` set rs)"
    using set_update_subset_insert [of "map e_key rs" i k] *(2) by (metis list.set_map)
  have "map e_key (set_ptr i v rs) = map e_key rs"
    unfolding *(1) by (cases "i < length rs") (simp_all add: list_update_same_conv list_update_beyond)
  then show "e_key ` set (set_ptr i v rs) \<subseteq> e_key ` set rs" by (metis list.set_map subset_refl)
qed

lemma put_keys: "e_key ` set (set_ptr i p (set_key i k (set_ptr i v rs))) \<subseteq> insert k (e_key ` set rs)"
  by (meson insert_mono order_trans set_upd_keys)

lemma fast_loop_stop:
  "\<not> k < e_key (rs ! i) \<Longrightarrow> last (fast_loop k p lm (Suc i) rs) =
     set_ptr (i + 1) p (set_key (i + 1) k (set_ptr (i + 1) (e_ptr (rs ! i)) rs))"
  "last (fast_loop k p lm 0 rs) = set_ptr 0 p (set_key 0 k (set_ptr 0 lm rs))"
  by (simp_all add: Let_def)

lemma fast_loop_keys:
  assumes "n < length rs"
  shows "e_key ` set (last (fast_loop k p lm n rs)) \<subseteq> insert k (e_key ` set rs)"
  using assms
proof (induction n arbitrary: rs)
  case 0
  show ?case unfolding fast_loop_stop by (rule put_keys)
next
  case (Suc i)
  show ?case
  proof (cases "k < e_key (rs ! i)")
    case True
    let ?r = "rs[Suc i := rs ! i]"
    have "e_key ` set ?r \<subseteq> e_key ` set rs" using Suc.prems by (auto dest!: set_update_subset_insert [THEN subsetD])
    moreover have "e_key ` set (last (fast_loop k p lm i ?r)) \<subseteq> insert k (e_key ` set ?r)"
      using Suc.IH [of ?r] Suc.prems by simp
    ultimately show ?thesis unfolding fast_loop_shift [OF True Suc.prems] by blast
  next
    case False
    then show ?thesis unfolding fast_loop_stop(1) [OF False] by (intro put_keys)
  qed
qed

lemma insert_states_keys:
  assumes "n + 1 < length rs"
  shows "e_key ` set (last (insert_states k p lm n rs)) \<subseteq> insert k (e_key ` set rs)"
proof (cases "n = 0")
  case True
  then have "last (insert_states k p lm n rs) = set_ptr 1 0 (set_ptr 0 p (set_key 0 k rs))"
    by (simp add: insert_states_def Let_def)
  then show ?thesis by (metis order_trans set_upd_keys)
next
  case False
  let ?r = "set_ptr (n + 1) (e_ptr (rs ! n)) rs"
  have "e_key ` set (last (fast_loop k p lm n ?r)) \<subseteq> insert k (e_key ` set ?r)"
    by (rule fast_loop_keys) (use assms in \<open>simp add: set_ptr_def\<close>)
  moreover have "e_key ` set ?r \<subseteq> e_key ` set rs" by (rule set_upd_keys)
  moreover have "last (insert_states k p lm n rs) = last (fast_loop k p lm n ?r)"
    using False by (simp add: insert_states_def Let_def fast_loop_nonempty)
  ultimately show ?thesis by auto
qed

text \<open>Insertion into a page of the tree.\<close>

definition fits :: "entry_key_t \<Rightarrow> ptr \<Rightarrow> page \<Rightarrow> bool" where
  "fits k p pg \<longleftrightarrow> node_ok pg \<and> num pg + 1 < cardinality \<and> p \<noteq> 0 \<and> p \<notin> e_ptr ` set (live pg) \<and> k \<notin> e_key ` set (live pg)"

lemma insert_key_node:
  assumes "fits k p pg"
  defines "pg' \<equiv> fst (insert_key k p (num pg) pg)"
  shows "node_ok pg'" "num pg' = num pg + 1" "live pg' = fast_result k p (live pg)"
    "set (live pg') = insert \<lparr>e_key = k, e_ptr = p\<rparr> (set (live pg))"
    "e_key ` set (records pg') \<subseteq> insert k (e_key ` set (records pg))"
proof -
  have ok: "node_ok pg" and k: "k \<notin> e_key ` set (live pg)" using assms(1) by (auto simp: fits_def)
  have room: "room (num pg) (strip pg) k p" using assms(1) by (simp add: fits_def room_def node_ok_def live_def)
  obtain s n' where s: "insert_key k p (num pg) (strip pg) = (s, n')" by fastforce
  then have s': "strip pg' = s" by (simp add: pg'_def insert_key_strip)
  note r = insert_key_page [OF room s]
  have "num (strip pg') = num pg + 1" by (rule page_ok_num) (use r(2) s' in simp)
  then show n: "num pg' = num pg + 1" by (simp add: num_def)
  show "node_ok pg'" using r(2) s' n by (simp add: node_ok_def)
  show l: "live pg' = fast_result k p (live pg)" using r(3) n s' by (metis live_def strip_simps(1))
  show "set (live pg') = insert \<lparr>e_key = k, e_ptr = p\<rparr> (set (live pg))"
    unfolding l by (rule fast_result_sorted(2) [OF node_okD(5) [OF ok] k])
  have "num pg + 1 < length (records pg)" using assms(1) node_okD(1) [OF ok] by (simp add: fits_def)
  moreover have "records pg' = last (insert_states k p (leftmost_ptr (hdr pg)) (num pg) (records pg))"
    by (simp add: pg'_def insert_key_def Let_def)
  ultimately show "e_key ` set (records pg') \<subseteq> insert k (e_key ` set (records pg))"
    by (metis insert_states_keys)
qed

section \<open>The split\<close>

lemma page_new_facts:
  "node_ok (page_new l)" "live (page_new l) = []" "num (page_new l) = 0" "leftmost_ptr (hdr (page_new l)) = 0"
  "level (hdr (page_new l)) = l" "\<not> is_deleted (hdr (page_new l))" "sibling_ptr (hdr (page_new l)) = 0"
  "e_key ` set (records (page_new l)) \<subseteq> {LONG_MAX}"
  by (auto simp: node_ok_def page_ok_def leaf_ok_def page_new_def header_new_def set_ptr_def entry_new_def num_def live_def
      cardinality_eq stutter_free_def dest!: set_update_subset_insert [THEN subsetD])

lemma migrate_node:
  assumes "i + length es < cardinality" and "node_ok s" and "num s = i"
    and "nonnull es" and "sorted_wrt (\<lambda>a b. e_key a < e_key b) (live s @ es)" and "distinct (map e_ptr (live s @ es))"
    and "fold (\<lambda>e (s, c). insert_key (e_key e) (e_ptr e) c s) es (s, i) = (s', c)"
  shows "node_ok s' \<and> num s' = i + length es \<and> c = i + length es \<and> set (live s') = set (live s) \<union> set es \<and>
    leftmost_ptr (hdr s') = leftmost_ptr (hdr s) \<and> level (hdr s') = level (hdr s) \<and> is_deleted (hdr s') = is_deleted (hdr s) \<and>
    e_key ` set (records s') \<subseteq> e_key ` set (records s) \<union> e_key ` set es"
  using assms
proof (induction es arbitrary: s i)
  case (Cons e es)
  have f: "fits (e_key e) (e_ptr e) s"
    using Cons.prems(1-6) by (auto simp: fits_def sorted_wrt_append)
  obtain s1 n1 where s1: "insert_key (e_key e) (e_ptr e) i s = (s1, n1)" by fastforce
  have s1': "s1 = fst (insert_key (e_key e) (e_ptr e) (num s) s)" and n1: "n1 = i + 1"
    using s1 Cons.prems(3) insert_key_hdr(5) [of "e_key e" "e_ptr e" i s] by auto
  note r = insert_key_node [OF f, folded s1']
  have lt: "\<forall>x \<in> set (live s). e_key x < e_key e" using Cons.prems(5) by (auto simp: sorted_wrt_append)
  have "live s1 = live s @ [e]"
  proof -
    have "fast_result k p xs = xs @ [\<lparr>e_key = k, e_ptr = p\<rparr>]" if "\<forall>x \<in> set xs. e_key x < k" for k p xs
      using that by (induction xs rule: rev_induct) (auto simp: fast_result_simps)
    then show ?thesis using r(3) lt by (simp add: entry_eta)
  qed
  then have "node_ok s' \<and> num s' = n1 + length es \<and> c = n1 + length es \<and> set (live s') = set (live s1) \<union> set es \<and>
      leftmost_ptr (hdr s') = leftmost_ptr (hdr s1) \<and> level (hdr s') = level (hdr s1) \<and> is_deleted (hdr s') = is_deleted (hdr s1) \<and>
      e_key ` set (records s') \<subseteq> e_key ` set (records s1) \<union> e_key ` set es"
    using Cons.prems r(1,2) n1 s1 by (intro Cons.IH) auto
  then show ?case using r n1 Cons.prems(3) insert_key_hdr [of "e_key e" "e_ptr e" "num s" s, folded s1'] by (auto simp: entry_eta dest!: subsetD)
qed auto

text \<open>What the split of a full page leaves in the two halves.\<close>

lemma split_page_node:
  assumes ok: "node_ok pg" and full: "num pg = cardinality - 1"
    and sp: "split_page q (num pg) pg = (pg', sib, cnt, sk)"
  defines "m \<equiv> num pg div 2"
  shows "node_ok pg'" "num pg' = m" "live pg' = take m (live pg)" "e_key ` set (records pg') \<subseteq> e_key ` set (records pg)"
    "leftmost_ptr (hdr pg') = leftmost_ptr (hdr pg)" "sibling_ptr (hdr pg') = q" "level (hdr pg') = level (hdr pg)"
    "is_deleted (hdr pg') = is_deleted (hdr pg)"
    and "node_ok sib" "cnt = num sib" "num sib + 1 < cardinality" "0 < num sib"
    "set (live sib) = set (drop (if leftmost_ptr (hdr pg) = 0 then m else m + 1) (live pg))"
    "e_key ` set (records sib) \<subseteq> insert LONG_MAX (e_key ` set (live sib))"
    "leftmost_ptr (hdr sib) = (if leftmost_ptr (hdr pg) = 0 then 0 else e_ptr (live pg ! m))"
    "sibling_ptr (hdr sib) = sibling_ptr (hdr pg)" "level (hdr sib) = level (hdr pg)" "\<not> is_deleted (hdr sib)"
    and "sk = e_key (live pg ! m)"
proof -
  note d = node_okD [OF ok]
  have m: "m = 14" "num pg = 29" using full by (simp_all add: m_def cardinality_eq)
  define a where "a = (if leftmost_ptr (hdr pg) = 0 then m else m + 1)"
  define es where "es = drop a (live pg)"
  have a: "a = 14 \<or> a = 15" "a \<le> num pg" using m by (auto simp: a_def)
  have len: "length es = 29 - a" using d(7) m by (simp add: es_def)
  obtain s c where mig: "migrate (records pg) [a..<num pg] (page_new (level (hdr pg))) = (s, c)" by fastforce
  have mp: "map (\<lambda>i. records pg ! i) [a..<num pg] = es"
    using d(1,2) a by (auto simp: es_def live_def intro!: nth_equalityI)
  have fold: "fold (\<lambda>e (s, c). insert_key (e_key e) (e_ptr e) c s) es (page_new (level (hdr pg)), 0) = (s, c)"
    using mig by (simp add: migrate_def fold_map o_def flip: mp)
  have "set es \<subseteq> set (live pg)" by (simp add: es_def set_drop_subset)
  then have nn: "nonnull es" using d(3) by blast
  have srt: "sorted_wrt (\<lambda>a b. e_key a < e_key b) (live (page_new (level (hdr pg))) @ es)"
    using d(5) by (simp add: page_new_facts es_def sorted_wrt_drop)
  have dis: "distinct (map e_ptr (live (page_new (level (hdr pg))) @ es))"
    using d(6) by (simp add: page_new_facts es_def drop_map [symmetric])
  have "0 + length es < cardinality" using len a by (auto simp: cardinality_eq)
  note r = migrate_node [OF this page_new_facts(1,3) nn srt dis fold]
  have eq: "pg' = pg\<lparr>hdr := (hdr pg)\<lparr>sibling_ptr := q, switch_counter := switch_counter (hdr pg) +
        (if IS_FORWARD (switch_counter (hdr pg)) then 2 else 1), last_index := int m - 1\<rparr>, records := set_ptr m 0 (records pg)\<rparr>"
      "cnt = c" "sk = e_key (records pg ! m)"
      "sib = s\<lparr>hdr := (hdr s)\<lparr>leftmost_ptr := (if leftmost_ptr (hdr pg) = 0 then leftmost_ptr (hdr s) else e_ptr (records pg ! m)),
        sibling_ptr := sibling_ptr (hdr pg)\<rparr>\<rparr>"
    using sp mig by (auto simp: split_page_def Let_def m_def a_def split: if_splits prod.splits)
  have nth: "records pg ! m = live pg ! m" using m by (simp add: live_def)
  have n': "num pg' = m" by (simp add: eq(1) num_def)
  have tk: "take m (set_ptr m 0 (records pg)) = take m (live pg)"
    using m by (simp add: set_ptr_def live_def min_def)
  have "records pg' = set_ptr m 0 (records pg)" by (simp add: eq(1))
  then show "num pg' = m" "live pg' = take m (live pg)" using n' tk by (simp_all add: live_def [of pg'])
  have "nonnull (take m (live pg))" using d(3) by (meson in_set_takeD)
  moreover have "distinct (map e_ptr (take m (live pg)))" using d(6) by (simp add: take_map [symmetric])
  moreover have "stutter_free es" if "distinct (map e_ptr es)" for es
    using that by (induction es rule: induct_list012) (auto simp: stutter_free_def)
  ultimately show "node_ok pg'"
    using n' tk m d(1,2,5) by (simp add: node_ok_def page_ok_def leaf_ok_def eq(1) strip_def set_ptr_def sorted_wrt_take cardinality_eq)
  show "e_key ` set (records pg') \<subseteq> e_key ` set (records pg)" using set_upd_keys(1) by (simp add: eq(1))
  show "leftmost_ptr (hdr pg') = leftmost_ptr (hdr pg)" "sibling_ptr (hdr pg') = q" "level (hdr pg') = level (hdr pg)"
    "is_deleted (hdr pg') = is_deleted (hdr pg)" by (simp_all add: eq(1))
  have live_sib: "live sib = live s" "num sib = num s" "records sib = records s" by (simp_all add: eq(4) live_def num_def)
  have "node_ok sib \<longleftrightarrow> node_ok s" by (simp add: node_ok_def page_ok_def eq(4) num_def)
  then show "node_ok sib" using r by blast
  show "cnt = num sib" "num sib + 1 < cardinality" "0 < num sib"
    using r live_sib eq(2) len a by (auto simp: cardinality_eq)
  show "set (live sib) = set (drop (if leftmost_ptr (hdr pg) = 0 then m else m + 1) (live pg))"
    using r live_sib by (simp add: page_new_facts es_def a_def)
  have "set (live s) = set es" using r by (simp add: page_new_facts)
  moreover have "e_key ` set (records s) \<subseteq> e_key ` set (records (page_new (level (hdr pg)))) \<union> e_key ` set es" using r by simp
  ultimately show "e_key ` set (records sib) \<subseteq> insert LONG_MAX (e_key ` set (live sib))"
    unfolding live_sib using page_new_facts(8) [of "level (hdr pg)"] by blast
  show "leftmost_ptr (hdr sib) = (if leftmost_ptr (hdr pg) = 0 then 0 else e_ptr (live pg ! m))"
    using r nth by (simp add: eq(4) page_new_facts)
  show "sibling_ptr (hdr sib) = sibling_ptr (hdr pg)" "level (hdr sib) = level (hdr pg)" "\<not> is_deleted (hdr sib)"
    using r by (simp_all add: eq(4) page_new_facts)
  show "sk = e_key (live pg ! m)" using nth eq(3) by simp
qed

section \<open>The scan of an internal page\<close>

text \<open>The child for a key: behind the last entry whose key is not greater.\<close>

fun child_of :: "ptr \<Rightarrow> entry_key_t \<Rightarrow> entry list \<Rightarrow> ptr" where
  "child_of lm k [] = lm"
| "child_of lm k (e # es) = (if k < e_key e then lm else child_of (e_ptr e) k es)"

lemma route_append:
  "\<forall>x \<in> set xs. e_key x \<le> k \<Longrightarrow> e_key e \<le> k \<Longrightarrow> child_of lm k (xs @ [e]) = e_ptr e"
  "k < e_key e \<Longrightarrow> child_of lm k (xs @ [e]) = child_of lm k xs"
  by (induction xs arbitrary: lm) auto

lemma inner_forward_route:
  assumes "i = length xs" and "xs \<noteq> []" and "nonnull es" and "e_ptr z = 0" and "distinct (e_ptr (last xs) # map e_ptr es)"
  shows "inner_forward k i (xs @ es @ z # ts) = Some (child_of (e_ptr (last xs)) k es)"
  using assms
proof (induction es arbitrary: xs i)
  case Nil
  then show ?case by (subst inner_forward.simps) (auto simp: nth_append last_conv_nth)
next
  case (Cons e es)
  have nth: "(xs @ (e # es) @ z # ts) ! i = e" "(xs @ (e # es) @ z # ts) ! (i - 1) = last xs"
    using Cons.prems(1,2) by (auto simp: nth_append last_conv_nth)
  have "inner_forward k (i + 1) ((xs @ [e]) @ es @ z # ts) = Some (child_of (e_ptr (last (xs @ [e]))) k es)"
    by (rule Cons.IH) (use Cons.prems in auto)
  then show ?case using Cons.prems nth by (subst inner_forward.simps) auto
qed

lemma inner_backward_route:
  assumes "i < length rs" and "nonnull (take (Suc i) rs)" and "distinct (lm # map e_ptr (take (Suc i) rs))"
    and "sorted_wrt (\<lambda>a b. e_key a < e_key b) (take (Suc i) rs)" and "lm \<noteq> 0"
  shows "(let r = inner_backward k lm i rs in if r = 0 then lm else r) = child_of lm k (take (Suc i) rs)"
  using assms
proof (induction i)
  case 0
  then show ?case by (cases rs) auto
next
  case (Suc i)
  let ?xs = "take (Suc i) rs" and ?e = "rs ! Suc i"
  have t: "take (Suc (Suc i)) rs = ?xs @ [?e]" using Suc.prems(1) by (simp add: take_Suc_conv_app_nth)
  have l: "rs ! i \<in> set ?xs" using Suc.prems(1) by (auto simp: take_Suc_conv_app_nth)
  have IH: "(let r = inner_backward k lm i rs in if r = 0 then lm else r) = child_of lm k ?xs"
    using Suc by (simp add: t sorted_wrt_append)
  have "e_ptr ?e \<notin> e_ptr ` set ?xs" using Suc.prems(3) by (simp add: t)
  then have neq: "e_ptr (rs ! i) \<noteq> e_ptr ?e" "e_ptr ?e \<noteq> 0" using Suc.prems(2) l by (metis image_eqI, simp add: t)
  have lt: "\<forall>x \<in> set ?xs. e_key x < e_key ?e" using Suc.prems(4) by (simp add: t sorted_wrt_append)
  show ?case
  proof (cases "k \<ge> e_key ?e")
    case True
    then have "\<forall>x \<in> set ?xs. e_key x \<le> k" using lt by fastforce
    then show ?thesis using True neq route_append(1) [of ?xs k ?e lm] by (simp add: t Let_def)
  next
    case False
    then show ?thesis using IH route_append(2) [of k ?e lm ?xs] by (simp add: t)
  qed
qed

text \<open>Both directions find the same child.\<close>

lemma inner_scan_route:
  assumes ok: "node_ok pg" and n: "0 < num pg" and lm: "leftmost_ptr (hdr pg) \<noteq> 0"
    and dis: "leftmost_ptr (hdr pg) \<notin> e_ptr ` set (live pg)"
  shows "\<exists>r. inner_scan k pg = Some r \<and> (if r = 0 then leftmost_ptr (hdr pg) else r) = child_of (leftmost_ptr (hdr pg)) k (live pg)"
proof -
  note d = node_okD [OF ok]
  let ?lm = "leftmost_ptr (hdr pg)"
  have rs: "records pg = live pg @ records pg ! num pg # drop (Suc (num pg)) (records pg)"
    using d(1,2) by (simp add: live_def id_take_nth_drop)
  obtain e es where e: "live pg = e # es" using d(7) n by (cases "live pg") auto
  have e0: "records pg ! 0 = e" using rs e by (metis append_Cons nth_Cons_0)
  show ?thesis
  proof (cases "IS_FORWARD (switch_counter (hdr pg))")
    case True
    have "inner_forward k 1 ([e] @ es @ records pg ! num pg # drop (Suc (num pg)) (records pg)) = Some (child_of (e_ptr e) k es)"
      using inner_forward_route [of 1 "[e]" es "records pg ! num pg" k] d(3,4,6) e by simp
    then have f: "inner_forward k 1 (records pg) = Some (child_of (e_ptr e) k es)" using rs e by simp
    have "child_of p k xs \<noteq> 0" if "p \<noteq> 0" "nonnull xs" for p xs using that by (induction xs arbitrary: p) auto
    then have "child_of (e_ptr e) k es \<noteq> 0" using d(3) e by simp
    then show ?thesis using True f dis lm e e0 by (auto simp: inner_scan_def)
  next
    case False
    have t: "take (Suc (num pg - 1)) (records pg) = live pg" using n by (simp add: live_def)
    have "(let r = inner_backward k ?lm (num pg - 1) (records pg) in if r = 0 then ?lm else r) = child_of ?lm k (live pg)"
      using inner_backward_route [of "num pg - 1" "records pg" ?lm k, unfolded t] d(1,2,3,5,6) dis lm n by simp
    then show ?thesis using False n count_node [OF ok] by (simp add: inner_scan_def Let_def)
  qed
qed

end
