(* ===== verification/FastFair_Search.thy ===== *)
theory FastFair_Search
  imports FastFair_Inv
begin

text \<open>
  The shape of the tree between two operations, and search. Every level is a set of pages, each
  with the lower bound of its keys; a page is followed by the sibling with the next bound, and
  the entries of one level are the pages of the level below. The entries of level 0 are the
  stored pairs.
\<close>

section \<open>Levels\<close>

type_synonym page_level = "(entry_key_t \<times> ptr) set"

definition LONG_MIN :: int where "LONG_MIN = - (2 ^ 63)"

text \<open>The sibling pointer of the page with bound \<open>b\<close>.\<close>

definition next_ok :: "page_level \<Rightarrow> entry_key_t \<Rightarrow> ptr \<Rightarrow> bool" where
  "next_ok C b s \<longleftrightarrow>
     (if s = 0 then \<forall>(b', q) \<in> C. b' \<le> b
      else \<exists>b'. (b', s) \<in> C \<and> b < b' \<and> (\<forall>(b'', q) \<in> C. b < b'' \<longrightarrow> b' \<le> b''))"

definition key_set :: "page \<Rightarrow> entry_key_t set" where
  "key_set pg = e_key ` set (live pg)"

definition pairs :: "page \<Rightarrow> (entry_key_t \<times> ptr) set" where
  "pairs pg = (\<lambda>e. (e_key e, e_ptr e)) ` set (live pg)"

lemma key_set_pairs: "key_set pg = fst ` pairs pg"
  by (simp add: key_set_def pairs_def image_image)

text \<open>The page with bound \<open>b\<close> on level \<open>l\<close>. All keys in the array are above the bound, also those
  behind the terminator, because \<^verbatim>\<open>records[0].key\<close> is read even in an empty page. The values in a
  leaf are not in \<open>P\<close>, the addresses of pages.\<close>

definition page_at :: "ptr set \<Rightarrow> nat \<Rightarrow> page_level \<Rightarrow> entry_key_t \<Rightarrow> page \<Rightarrow> bool" where
  "page_at P l C b pg \<longleftrightarrow>
     node_ok pg \<and> level (hdr pg) = l \<and> \<not> is_deleted (hdr pg) \<and> (leftmost_ptr (hdr pg) = 0 \<longleftrightarrow> l = 0) \<and>
     next_ok C b (sibling_ptr (hdr pg)) \<and>
     (\<forall>k \<in> e_key ` set (records pg). b \<le> k) \<and> (\<forall>k \<in> key_set pg. k \<le> LONG_MAX) \<and>
     (\<forall>(b', q) \<in> C. b < b' \<longrightarrow> (\<forall>k \<in> key_set pg. k < b')) \<and>
     (if l = 0 then \<forall>v \<in> snd ` pairs pg. v \<notin> P
      else 0 < num pg \<and> leftmost_ptr (hdr pg) \<notin> snd ` pairs pg \<and> (\<forall>k \<in> key_set pg. b < k))"

text \<open>The entries of a page, with the leftmost child under the bound of the page.\<close>

definition page_ents :: "entry_key_t \<Rightarrow> page \<Rightarrow> (entry_key_t \<times> ptr) set" where
  "page_ents b pg = (if leftmost_ptr (hdr pg) = 0 then {} else {(b, leftmost_ptr (hdr pg))}) \<union> pairs pg"

definition ents :: "(ptr \<Rightarrow> page option) \<Rightarrow> page_level \<Rightarrow> (entry_key_t \<times> ptr) set" where
  "ents h C = (\<Union>(b, p) \<in> C. page_ents b (the (h p)))"

definition level_ok :: "ptr set \<Rightarrow> (ptr \<Rightarrow> page option) \<Rightarrow> nat \<Rightarrow> page_level \<Rightarrow> bool" where
  "level_ok P h l C \<longleftrightarrow> finite C \<and> inj_on fst C \<and> inj_on snd C \<and>
     (\<forall>(b, p) \<in> C. LONG_MIN \<le> b \<and> b \<le> LONG_MAX \<and> (\<exists>pg. h p = Some pg \<and> page_at P l C b pg))"

text \<open>The addresses of the first \<open>N\<close> pages.\<close>

abbreviation addrs :: "(nat \<Rightarrow> ptr) \<Rightarrow> nat \<Rightarrow> ptr set" where
  "addrs A N \<equiv> A ` {..<N}"

text \<open>All levels, from the leaves to the root, and the links between them from level \<open>i\<close> on. The
  allocator has \<open>N\<close> pages with different addresses to give.\<close>

definition levels_ok :: "(nat \<Rightarrow> ptr) \<Rightarrow> nat \<Rightarrow> btree \<Rightarrow> page_level list \<Rightarrow> bool" where
  "levels_ok A N T L \<longleftrightarrow> inj_on A {..<N} \<and> 0 \<notin> addrs A N \<and> bt_allocs T \<le> N \<and> L \<noteq> [] \<and> bt_height T = length L \<and>
     last L = {(LONG_MIN, bt_root T)} \<and>
     (\<forall>l < length L. level_ok (addrs A N) (bt_heap T) l (L ! l) \<and> snd ` (L ! l) \<subseteq> A ` {..<bt_allocs T}) \<and>
     (\<forall>i < length L. \<forall>j < length L. i \<noteq> j \<longrightarrow> snd ` (L ! i) \<inter> snd ` (L ! j) = {})"

definition linked :: "btree \<Rightarrow> page_level list \<Rightarrow> nat \<Rightarrow> bool" where
  "linked T L i \<longleftrightarrow> (\<forall>l \<ge> i. Suc l < length L \<longrightarrow> ents (bt_heap T) (L ! Suc l) = L ! l)"

text \<open>The page responsible for a key.\<close>

definition covers :: "page_level \<Rightarrow> entry_key_t \<Rightarrow> entry_key_t \<Rightarrow> bool" where
  "covers C b k \<longleftrightarrow> b \<le> k \<and> (\<forall>(b', q) \<in> C. b < b' \<longrightarrow> k < b')"

text \<open>The tree stores the map \<open>m\<close>.\<close>

definition tree_map :: "(nat \<Rightarrow> ptr) \<Rightarrow> nat \<Rightarrow> btree \<Rightarrow> (entry_key_t \<Rightarrow> ptr option) \<Rightarrow> bool" where
  "tree_map A N T m \<longleftrightarrow>
     (\<exists>L. levels_ok A N T L \<and> linked T L 0 \<and> (\<forall>k v. m k = Some v \<longleftrightarrow> (k, v) \<in> ents (bt_heap T) (L ! 0)))"

lemma levels_okD:
  assumes "levels_ok A N T L"
  shows "inj_on A {..<N}" "0 \<notin> addrs A N" "L \<noteq> []" "bt_height T = length L" "last L = {(LONG_MIN, bt_root T)}"
    "L ! (length L - 1) = {(LONG_MIN, bt_root T)}" "l < length L \<Longrightarrow> level_ok (addrs A N) (bt_heap T) l (L ! l)"
    "l < length L \<Longrightarrow> snd ` (L ! l) \<subseteq> A ` {..<bt_allocs T}"
    "i < length L \<Longrightarrow> j < length L \<Longrightarrow> i \<noteq> j \<Longrightarrow> snd ` (L ! i) \<inter> snd ` (L ! j) = {}"
    "bt_allocs T \<le> N" "A ` {..<bt_allocs T} \<subseteq> addrs A N"
  using assms by (auto simp: levels_ok_def last_conv_nth)

lemma level_okD:
  assumes "level_ok P h l C" and "(b, p) \<in> C"
  obtains pg where "h p = Some pg" "page_at P l C b pg" "LONG_MIN \<le> b" "b \<le> LONG_MAX"
  using assms by (fastforce simp: level_ok_def)

lemma level_ok_inj:
  assumes "level_ok P h l C"
  shows "finite C" "(b, p) \<in> C \<Longrightarrow> (b, q) \<in> C \<Longrightarrow> p = q" "(b, p) \<in> C \<Longrightarrow> (b', p) \<in> C \<Longrightarrow> b = b'"
proof -
  have inj: "inj_on fst C" "inj_on snd C" using assms by (auto simp: level_ok_def)
  show "finite C" using assms by (simp add: level_ok_def)
  show "(b, p) \<in> C \<Longrightarrow> (b, q) \<in> C \<Longrightarrow> p = q" using inj_onD [OF inj(1), of "(b, p)" "(b, q)"] by simp
  show "(b, p) \<in> C \<Longrightarrow> (b', p) \<in> C \<Longrightarrow> b = b'" using inj_onD [OF inj(2), of "(b, p)" "(b', p)"] by simp
qed

lemma page_atD:
  assumes "page_at P l C b pg"
  shows "node_ok pg" "level (hdr pg) = l" "\<not> is_deleted (hdr pg)" "leftmost_ptr (hdr pg) = 0 \<longleftrightarrow> l = 0"
    "next_ok C b (sibling_ptr (hdr pg))" "k \<in> e_key ` set (records pg) \<Longrightarrow> b \<le> k" "k \<in> key_set pg \<Longrightarrow> k \<le> LONG_MAX"
    "(b', q) \<in> C \<Longrightarrow> b < b' \<Longrightarrow> k \<in> key_set pg \<Longrightarrow> k < b'"
    "l = 0 \<Longrightarrow> v \<in> snd ` pairs pg \<Longrightarrow> v \<notin> P" "0 < l \<Longrightarrow> 0 < num pg"
    "0 < l \<Longrightarrow> leftmost_ptr (hdr pg) \<notin> snd ` pairs pg" "0 < l \<Longrightarrow> k \<in> key_set pg \<Longrightarrow> b < k"
  using assms by (auto simp: page_at_def split: if_splits)

lemma key_set_sub: "key_set pg \<subseteq> e_key ` set (records pg)"
  using live_sub by (auto simp: key_set_def)

lemma page_ents_key: "(k, v) \<in> page_ents b pg \<Longrightarrow> k = b \<or> k \<in> key_set pg"
  unfolding page_ents_def key_set_pairs by (force split: if_splits)

lemma page_ents_bounds:
  assumes "page_at P l C b pg" and "(k, v) \<in> page_ents b pg"
  shows "b \<le> k" and "(b', q) \<in> C \<Longrightarrow> b < b' \<Longrightarrow> k < b'"
proof -
  have "k = b \<or> k \<in> key_set pg" by (rule page_ents_key [OF assms(2)])
  then show "b \<le> k" and "(b', q) \<in> C \<Longrightarrow> b < b' \<Longrightarrow> k < b'"
    using page_atD(6,8) [OF assms(1)] key_set_sub [of pg] by blast+
qed

text \<open>The page a key is stored in is the page that covers it.\<close>

lemma entsE:
  assumes "(k, v) \<in> ents h C" and "level_ok P h l C"
  obtains b p pg where "(b, p) \<in> C" "h p = Some pg" "page_at P l C b pg" "(k, v) \<in> page_ents b pg"
proof -
  obtain b p where "(b, p) \<in> C" "(k, v) \<in> page_ents b (the (h p))" using assms(1) by (auto simp: ents_def)
  moreover from this obtain pg where "h p = Some pg" "page_at P l C b pg" using level_okD [OF assms(2)] by metis
  ultimately show thesis using that by simp
qed

lemma ents_covering:
  assumes "level_ok P h l C" and "(b, p) \<in> C" and "h p = Some pg" and "covers C b k"
  shows "(k, v) \<in> ents h C \<longleftrightarrow> (k, v) \<in> page_ents b pg"
proof
  show "(k, v) \<in> page_ents b pg \<Longrightarrow> (k, v) \<in> ents h C" using assms(2,3) by (force simp: ents_def)
  assume "(k, v) \<in> ents h C"
  then obtain b2 p2 pg2 where p2: "(b2, p2) \<in> C" "h p2 = Some pg2" "page_at P l C b2 pg2" "(k, v) \<in> page_ents b2 pg2"
    by (rule entsE [OF _ assms(1)])
  have "b2 = b"
  proof (rule ccontr)
    assume "b2 \<noteq> b"
    then consider "b2 < b" | "b < b2" by linarith
    then show False
      using page_ents_bounds [OF p2(3,4)] assms(2,4) p2(1) by cases (fastforce simp: covers_def)+
  qed
  then have "p2 = p" using level_ok_inj(2) [OF assms(1)] p2(1) assms(2) by blast
  then show "(k, v) \<in> page_ents b pg" using p2 assms(3) \<open>b2 = b\<close> by simp
qed

section \<open>One step of the descent\<close>

lemma route_max:
  assumes "sorted_wrt (\<lambda>a b. e_key a < e_key b) es" and "b \<le> k" and "\<forall>e \<in> set es. b < e_key e"
  shows "\<exists>b'. (b', child_of lm k es) \<in> insert (b, lm) ((\<lambda>e. (e_key e, e_ptr e)) ` set es) \<and> b' \<le> k \<and>
    (\<forall>e \<in> set es. e_key e \<le> k \<longrightarrow> e_key e \<le> b')"
  using assms
proof (induction es arbitrary: lm b)
  case (Cons e es)
  show ?case
  proof (cases "k < e_key e")
    case True
    then show ?thesis using Cons.prems by (intro exI [of _ b]) fastforce
  next
    case False
    then obtain b' where b': "(b', child_of (e_ptr e) k es) \<in> insert (e_key e, e_ptr e) ((\<lambda>e. (e_key e, e_ptr e)) ` set es)"
        "b' \<le> k" "\<forall>e \<in> set es. e_key e \<le> k \<longrightarrow> e_key e \<le> b'"
      using Cons.IH [of "e_key e" "e_ptr e"] Cons.prems by auto
    moreover have "e_key e \<le> b'" using b'(1) Cons.prems(1) by auto
    ultimately show ?thesis using False by (intro exI [of _ b']) auto
  qed
qed auto

lemma go_right_no:
  assumes "level_ok P (bt_heap T) l C" and "page_at P l C b pg" and "covers C b k"
  shows "go_right k pg T = Done False" and "store_right invalid k pg T = Done False"
proof -
  have "go_right k pg T = Done False \<and> store_right invalid k pg T = Done False"
  proof (cases "sibling_ptr (hdr pg) = 0")
    case True
    then show ?thesis by (simp add: go_right_def store_right_def)
  next
    case False
    then obtain b' where b': "(b', sibling_ptr (hdr pg)) \<in> C" "b < b'"
      using page_atD(5) [OF assms(2)] by (auto simp: next_ok_def)
    then obtain s where s: "bt_heap T (sibling_ptr (hdr pg)) = Some s" "page_at P l C b' s"
      using level_okD [OF assms(1)] by metis
    have "records s \<noteq> []" using node_okD(1) [OF page_atD(1) [OF s(2)]] by (auto simp: cardinality_eq)
    then have "b' \<le> e_key (records s ! 0)" by (intro page_atD(6) [OF s(2)]) simp
    moreover have "k < b'" using b' assms(3) by (auto simp: covers_def)
    ultimately show ?thesis using False s(1) by (simp add: go_right_def store_right_def load_def)
  qed
  then show "go_right k pg T = Done False" "store_right invalid k pg T = Done False" by blast+
qed

lemma descend_step:
  assumes up: "level_ok P (bt_heap T) (Suc l) C" and low: "ents (bt_heap T) C = D"
    and p: "(b, p) \<in> C" "covers C b k" "bt_heap T p = Some pg" "page_at P (Suc l) C b pg"
  shows "\<exists>b' q. linear_search k pg T = Done q \<and> (b', q) \<in> D \<and> covers D b' k"
proof -
  note d = page_atD [OF p(4)]
  note n = node_okD [OF d(1)]
  let ?lm = "leftmost_ptr (hdr pg)"
  have lm: "?lm \<noteq> 0" using d(4) by simp
  have "?lm \<notin> e_ptr ` set (live pg)" using d(11) by (auto simp: pairs_def image_image)
  then obtain r where r: "inner_scan k pg = Some r" "(if r = 0 then ?lm else r) = child_of ?lm k (live pg)"
    using inner_scan_route [OF d(1) d(10) lm] by blast
  have "b \<le> k" using p(2) by (simp add: covers_def)
  moreover have "\<forall>e \<in> set (live pg). b < e_key e" using d(12) by (auto simp: key_set_def)
  ultimately obtain b' where b': "(b', child_of ?lm k (live pg)) \<in> insert (b, ?lm) (pairs pg)" "b' \<le> k"
      "\<forall>e \<in> set (live pg). e_key e \<le> k \<longrightarrow> e_key e \<le> b'"
    using route_max [OF n(5), of b k ?lm] by (auto simp: pairs_def)
  let ?q = "child_of ?lm k (live pg)"
  have ls: "linear_search k pg T = Done ?q"
    using lm r go_right_no(1) [OF up p(4,2)] by (auto simp: linear_search_def split: if_splits)
  have in_page: "(b', ?q) \<in> page_ents b pg" using b'(1) lm by (auto simp: page_ents_def)
  then have "(b', ?q) \<in> D" using p(1,3) low by (force simp: ents_def)
  moreover have "covers D b' k"
    unfolding covers_def
  proof (intro conjI ballI, rule b'(2), clarify)
    fix b2 q2 assume q2: "(b2, q2) \<in> D" "b' < b2"
    show "k < b2"
    proof (rule ccontr)
      assume "\<not> k < b2"
      obtain b3 p3 pg3 where p3: "(b3, p3) \<in> C" "bt_heap T p3 = Some pg3" "page_at P (Suc l) C b3 pg3" "(b2, q2) \<in> page_ents b3 pg3"
        using q2(1) entsE [OF _ up, of b2 q2] low by blast
      note bb = page_ents_bounds [OF p(4) in_page] and b2 = page_ents_bounds [OF p3(3,4)]
      consider "b3 < b" | "b3 = b" | "b < b3" by linarith
      then show False
      proof cases
        case 1
        then show ?thesis using b2(2) [OF p(1) 1] bb(1) q2(2) by simp
      next
        case 2
        then have "pg3 = pg" using level_ok_inj(2) [OF up] p3 p(1,3) by fastforce
        then have "b2 = b \<or> b2 \<in> key_set pg" using page_ents_key [OF p3(4)] 2 by simp
        then show ?thesis using b'(3) bb(1) q2(2) \<open>\<not> k < b2\<close> by (auto simp: key_set_def)
      next
        case 3
        then show ?thesis using b2(1) p3(1) p(2) \<open>\<not> k < b2\<close> by (fastforce simp: covers_def)
      qed
    qed
  qed
  ultimately show ?thesis using ls by blast
qed

lemma descend_to_covering:
  assumes lo: "levels_ok A N T L" and lk: "linked T L i" and i: "i \<le> l" "l < length L" and fuel: "fuel > l - i"
    and p: "(b, p) \<in> L ! l" "covers (L ! l) b k"
  shows "\<exists>b' q. descend_to fuel i k p T = Done q \<and> (b', q) \<in> L ! i \<and> covers (L ! i) b' k"
    and "i = 0 \<Longrightarrow> descend fuel k p T = descend_to fuel 0 k p T"
proof -
  have "(\<exists>b' q. descend_to fuel i k p T = Done q \<and> (b', q) \<in> L ! i \<and> covers (L ! i) b' k) \<and>
      (i = 0 \<longrightarrow> descend fuel k p T = descend_to fuel 0 k p T)"
    using i fuel p
  proof (induction fuel arbitrary: l b p)
    case (Suc f)
    obtain pg where pg: "bt_heap T p = Some pg" "page_at (addrs A N) l (L ! l) b pg"
      using level_okD [OF levels_okD(7) [OF lo Suc.prems(2)] Suc.prems(4)] by metis
    note d = page_atD(2,4) [OF pg(2)]
    show ?case
    proof (cases "l = i")
      case True
      then show ?thesis using Suc.prems d pg(1) by (auto simp: load_def)
    next
      case False
      then obtain l' where l': "l = Suc l'" using Suc.prems(1) by (cases l) auto
      have "ents (bt_heap T) (L ! l) = L ! l'" using lk Suc.prems(1,2) False l' by (auto simp: linked_def)
      then obtain b' q where q: "linear_search k pg T = Done q" "(b', q) \<in> L ! l'" "covers (L ! l') b' k"
        using descend_step [of "addrs A N" T l' "L ! l" "L ! l'" b p k pg] levels_okD(7) [OF lo Suc.prems(2)] Suc.prems(4,5) pg l' by auto
      have "(\<exists>b' q'. descend_to f i k q T = Done q' \<and> (b', q') \<in> L ! i \<and> covers (L ! i) b' k) \<and>
          (i = 0 \<longrightarrow> descend f k q T = descend_to f 0 k q T)"
        by (rule Suc.IH [of l' b']) (use Suc.prems False l' q in auto)
      then show ?thesis using q(1) d l' Suc.prems(1) False pg(1) by (simp add: load_def)
    qed
  qed simp
  then show "\<exists>b' q. descend_to fuel i k p T = Done q \<and> (b', q) \<in> L ! i \<and> covers (L ! i) b' k"
    and "i = 0 \<Longrightarrow> descend fuel k p T = descend_to fuel 0 k p T" by blast+
qed

lemma descend_root:
  assumes lo: "levels_ok A N T L" and lk: "linked T L i" and i: "i < length L" and fuel: "fuel \<ge> length L" and k: "LONG_MIN \<le> k"
  shows "\<exists>b' q. descend_to fuel i k (bt_root T) T = Done q \<and> (b', q) \<in> L ! i \<and> covers (L ! i) b' k"
    and "i = 0 \<Longrightarrow> descend fuel k (bt_root T) T = descend_to fuel 0 k (bt_root T) T"
proof -
  let ?l = "length L - 1"
  have top: "(LONG_MIN, bt_root T) \<in> L ! ?l" "covers (L ! ?l) LONG_MIN k"
    using levels_okD(6) [OF lo] k by (simp_all add: covers_def)
  have "i \<le> ?l" "?l < length L" "fuel > ?l - i" using i fuel by auto
  note descend_to_covering [OF lo lk this top]
  then show "\<exists>b' q. descend_to fuel i k (bt_root T) T = Done q \<and> (b', q) \<in> L ! i \<and> covers (L ! i) b' k"
    and "i = 0 \<Longrightarrow> descend fuel k (bt_root T) T = descend_to fuel 0 k (bt_root T) T" by blast+
qed

section \<open>Search\<close>

lemma find_ptr_pairs:
  assumes "sorted_wrt (\<lambda>a b. e_key a < e_key b) es" and "nonnull es"
  shows "find_ptr k es = v \<and> v \<noteq> 0 \<longleftrightarrow> (k, v) \<in> (\<lambda>e. (e_key e, e_ptr e)) ` set es"
  using assms
proof (induction es)
  case (Cons e es)
  have "(e_key e, v) \<notin> (\<lambda>e. (e_key e, e_ptr e)) ` set es" using Cons.prems(1) by auto
  then show ?case using Cons by auto
qed simp

lemma find_ptr_node: "node_ok pg \<Longrightarrow> find_ptr k (live pg) = v \<and> v \<noteq> 0 \<longleftrightarrow> (k, v) \<in> pairs pg"
  using find_ptr_pairs node_okD(3,5) unfolding pairs_def by blast

text \<open>The leaf the search ends in.\<close>

lemma leaf_at:
  assumes tm: "tree_map A N T m" and fuel: "fuel \<ge> bt_height T" and k: "LONG_MIN \<le> k"
  obtains L b p pg where "levels_ok A N T L" "linked T L 0" "\<forall>k v. m k = Some v \<longleftrightarrow> (k, v) \<in> ents (bt_heap T) (L ! 0)"
    "descend fuel k (bt_root T) T = Done p" "(b, p) \<in> L ! 0" "covers (L ! 0) b k" "bt_heap T p = Some pg"
    "page_at (addrs A N) 0 (L ! 0) b pg" "\<And>v. m k = Some v \<longleftrightarrow> (k, v) \<in> pairs pg"
proof -
  obtain L where L: "levels_ok A N T L" "linked T L 0" "\<forall>k v. m k = Some v \<longleftrightarrow> (k, v) \<in> ents (bt_heap T) (L ! 0)"
    using tm by (auto simp: tree_map_def)
  have len: "0 < length L" "length L \<le> fuel" using levels_okD(3,4) [OF L(1)] fuel by auto
  note dr = descend_root [OF L(1,2) len k]
  obtain b p where p: "descend fuel k (bt_root T) T = Done p" "(b, p) \<in> L ! 0" "covers (L ! 0) b k"
    using dr(1) unfolding dr(2) [OF refl] by blast
  note lo = levels_okD(7) [OF L(1) len(1)]
  obtain pg where pg: "bt_heap T p = Some pg" "page_at (addrs A N) 0 (L ! 0) b pg" using level_okD [OF lo p(2)] by metis
  have "page_ents b pg = pairs pg" using page_atD(4) [OF pg(2)] by (simp add: page_ents_def)
  then have "m k = Some v \<longleftrightarrow> (k, v) \<in> pairs pg" for v using L(3) ents_covering [OF lo p(2) pg(1) p(3)] by simp
  then show thesis using that L p pg by blast
qed

lemma leaf_scan_at: "page_at (addrs A N) 0 C b pg \<Longrightarrow> leaf_scan k pg = Some (find_ptr k (live pg))"
  using leaf_scan_page_ok node_ok_leaf page_atD(1,4) unfolding live_def by blast

lemma walk_leaves_at:
  assumes "level_ok (addrs A N) (bt_heap T) 0 C" and "bt_heap T p = Some pg" and "page_at (addrs A N) 0 C b pg" and "covers C b k"
    and "snd ` C \<subseteq> addrs A N"
  shows "walk_leaves (Suc f) k p T =
    Done (if find_ptr k (live pg) = 0 \<and> sibling_ptr (hdr pg) = 0 then 0 else p, find_ptr k (live pg))"
proof -
  let ?t = "find_ptr k (live pg)"
  have ls: "linear_search k pg T = Done ?t"
    using page_atD(4) [OF assms(3)] leaf_scan_at [OF assms(3)] go_right_no(1) [OF assms(1,3,4)] by (simp add: linear_search_def)
  have "?t \<noteq> sibling_ptr (hdr pg)" if "?t \<noteq> 0"
  proof
    assume eq: "?t = sibling_ptr (hdr pg)"
    have "(k, ?t) \<in> pairs pg" using find_ptr_node [OF page_atD(1) [OF assms(3)], of k ?t] that by simp
    then have "?t \<notin> addrs A N" using page_atD(9) [OF assms(3) refl, of ?t] by force
    moreover have "?t \<in> snd ` C" using page_atD(5) [OF assms(3)] that unfolding eq by (force simp: next_ok_def)
    ultimately show False using assms(5) by blast
  qed
  then show ?thesis using ls assms(2) by (auto simp: load_def)
qed

definition found :: "(entry_key_t \<Rightarrow> ptr option) \<Rightarrow> entry_key_t \<Rightarrow> ptr" where
  "found m k = (case m k of None \<Rightarrow> 0 | Some v \<Rightarrow> v)"

lemma found_find_ptr:
  assumes "node_ok pg" and "\<And>v. m k = Some v \<longleftrightarrow> (k, v) \<in> pairs pg"
  shows "find_ptr k (live pg) = found m k"
proof (cases "find_ptr k (live pg) = 0")
  case True
  then show ?thesis using assms(2) find_ptr_node [OF assms(1), of k] by (auto simp: found_def split: option.split)
next
  case False
  then have "m k = Some (find_ptr k (live pg))" using assms(2) find_ptr_node [OF assms(1), of k "find_ptr k (live pg)"] by blast
  then show ?thesis by (simp add: found_def)
qed

lemma tree_search:
  assumes "tree_map A N T m" and "LONG_MIN \<le> k" and "bt_height T \<le> fuel"
  shows "btree_search fuel k T = Done (found m k)"
proof -
  obtain L b p pg where L: "levels_ok A N T L" "descend fuel k (bt_root T) T = Done p" "(b, p) \<in> L ! 0"
      "covers (L ! 0) b k" "bt_heap T p = Some pg" "page_at (addrs A N) 0 (L ! 0) b pg" "\<And>v. m k = Some v \<longleftrightarrow> (k, v) \<in> pairs pg"
    by (rule leaf_at [OF assms(1,3,2)]) (rule that)
  note d = levels_okD [OF L(1)]
  obtain f where f: "fuel = Suc f" using assms(3) d(3,4) by (cases fuel) auto
  have "walk_leaves fuel k p T = Done (if find_ptr k (live pg) = 0 \<and> sibling_ptr (hdr pg) = 0 then 0 else p, find_ptr k (live pg))"
    unfolding f by (rule walk_leaves_at [OF _ L(5,6,4)]) (use d(3,11) d(7,8) [of 0] in \<open>auto intro: order_trans\<close>)
  moreover have "find_ptr k (live pg) = found m k" by (rule found_find_ptr) (use L page_atD(1) in auto)
  ultimately show ?thesis using L(2) by (simp add: btree_search_def)
qed


text \<open>C4: searching the tree. \<^verbatim>\<open>btree_search\<close> ends within one pass per level and returns the value stored
  under the key, \<^verbatim>\<open>NULL\<close> when there is none.\<close>

theorem btree_search_correct:
  assumes "tree_map A N T m" and "LONG_MIN \<le> k" and "bt_height T \<le> fuel"
  shows "btree_search fuel k T = Done (case m k of None \<Rightarrow> 0 | Some v \<Rightarrow> v)"
  using tree_search [OF assms] by (simp add: found_def)

text \<open>C10: a pointer is never taken for the wrong thing. In a page \<^verbatim>\<open>char *\<close> stands for child pages and for
  values; the descent for any key goes through pages only and ends in an allocated leaf, and what
  that leaf holds are values, not addresses of pages.\<close>

theorem descend_typed:
  assumes "tree_map A N T m" and "LONG_MIN \<le> k" and "bt_height T \<le> fuel"
  shows "\<exists>p pg. descend fuel k (bt_root T) T = Done p \<and> p \<in> A ` {..<bt_allocs T} \<and> bt_heap T p = Some pg \<and>
    level (hdr pg) = 0 \<and> leftmost_ptr (hdr pg) = 0 \<and> \<not> is_deleted (hdr pg) \<and>
    (\<forall>e \<in> set (live pg). e_ptr e \<noteq> 0 \<and> e_ptr e \<notin> A ` {..<N})"
proof -
  obtain L b p pg where L: "levels_ok A N T L" "descend fuel k (bt_root T) T = Done p" "(b, p) \<in> L ! 0"
      "bt_heap T p = Some pg" "page_at (addrs A N) 0 (L ! 0) b pg"
    by (rule leaf_at [OF assms(1,3,2)]) (rule that)
  note d = page_atD [OF L(5)]
  have "p \<in> A ` {..<bt_allocs T}" using levels_okD(3) levels_okD(8) [OF L(1), of 0] L(1,3) by force
  moreover have "e_ptr e \<notin> A ` {..<N}" if "e \<in> set (live pg)" for e
    by (rule d(9)) (use that in \<open>force simp: pairs_def\<close>)+
  moreover have "nonnull (live pg)" by (rule node_okD(3) [OF d(1)])
  ultimately show ?thesis using L(2,4) d(2,3,4) by blast
qed

text \<open>The page made for a new root.\<close>

lemma page_root_facts:
  assumes "left \<noteq> 0" "right \<noteq> 0" "left \<noteq> right" "LONG_MIN < k" "k \<le> LONG_MAX" "r \<noteq> 0"
  shows "page_at P (Suc l) {(LONG_MIN, r)} LONG_MIN (page_root left k right (Suc l))"
    and "page_ents LONG_MIN (page_root left k right (Suc l)) = {(LONG_MIN, left), (k, right)}"
proof -
  let ?pg = "page_root left k right (Suc l)"
  have rs: "records ?pg = \<lparr>e_key = k, e_ptr = right\<rparr> # entry_new\<lparr>e_ptr := 0\<rparr> # replicate 28 entry_new"
    by (simp add: page_root_def set_ptr_def set_key_def cardinality_eq numeral_eq_Suc entry_new_def)
  have h: "leftmost_ptr (hdr ?pg) = left" "sibling_ptr (hdr ?pg) = 0" "level (hdr ?pg) = Suc l" "\<not> is_deleted (hdr ?pg)"
      "last_index (hdr ?pg) = 0"
    by (simp_all add: page_root_def header_new_def)
  have n: "num ?pg = 1" "live ?pg = [\<lparr>e_key = k, e_ptr = right\<rparr>]" by (simp_all add: num_def live_def h rs)
  have ok: "node_ok ?pg"
    using assms(2) by (simp add: node_ok_def page_ok_def n(1) leaf_ok_def rs h cardinality_eq stutter_free_def)
  have "next_ok {(LONG_MIN, r)} LONG_MIN (sibling_ptr (hdr ?pg))" by (simp add: next_ok_def h)
  moreover have "\<forall>k' \<in> e_key ` set (records ?pg). LONG_MIN \<le> k'" using assms(4)
    by (auto simp: rs entry_new_def LONG_MAX_def LONG_MIN_def)
  ultimately show "page_at P (Suc l) {(LONG_MIN, r)} LONG_MIN ?pg"
    unfolding page_at_def using ok h assms n by (simp add: key_set_def pairs_def)
  show "page_ents LONG_MIN ?pg = {(LONG_MIN, left), (k, right)}"
    using assms(1) by (auto simp: page_ents_def h pairs_def n)
qed

section \<open>A small tree\<close>

text \<open>Two leaves below a root, for the witnesses: 10, 15 and 20 with the values 1, 2 and 3.\<close>

definition demo_alloc :: "nat \<Rightarrow> ptr" where
  "demo_alloc n = of_nat (512 * (n + 1))"

definition demo_leaf :: "ptr \<Rightarrow> entry list \<Rightarrow> page" where
  "demo_leaf sib es = \<lparr>hdr = (header_new 0)\<lparr>sibling_ptr := sib, last_index := int (length es) - 1\<rparr>,
     records = es @ replicate (cardinality - length es) entry_new\<rparr>"

definition demo_tree :: btree where
  "demo_tree = \<lparr>bt_root = 1536, bt_height = 2,
     bt_heap = [512 \<mapsto> demo_leaf 1024 [\<lparr>e_key = 10, e_ptr = 1\<rparr>, \<lparr>e_key = 15, e_ptr = 2\<rparr>],
                1024 \<mapsto> demo_leaf 0 [\<lparr>e_key = 20, e_ptr = 3\<rparr>],
                1536 \<mapsto> page_root 512 20 1024 (Suc 0)],
     bt_allocs = 3\<rparr>"

definition demo_map :: "entry_key_t \<Rightarrow> ptr option" where
  "demo_map = [10 \<mapsto> 1, 15 \<mapsto> 2, 20 \<mapsto> 3]"

lemma demo_leaf_simps:
  assumes "0 < length es" "length es < cardinality" "nonnull es" "distinct (map e_ptr es)" "sorted_wrt (\<lambda>a b. e_key a < e_key b) es"
  shows "node_ok (demo_leaf sib es)" "live (demo_leaf sib es) = es" "level (hdr (demo_leaf sib es)) = 0"
    "\<not> is_deleted (hdr (demo_leaf sib es))" "leftmost_ptr (hdr (demo_leaf sib es)) = 0" "sibling_ptr (hdr (demo_leaf sib es)) = sib"
    "e_key ` set (records (demo_leaf sib es)) = insert LONG_MAX (e_key ` set es)"
proof -
  have n: "num (demo_leaf sib es) = length es" by (simp add: num_def demo_leaf_def)
  have "stutter_free es"
    using assms(4) by (induction es rule: induct_list012) (auto simp: stutter_free_def)
  then show "node_ok (demo_leaf sib es)"
    using assms by (simp add: node_ok_def page_ok_def n leaf_ok_def) (simp add: demo_leaf_def nth_append entry_new_def header_new_def)
  show "live (demo_leaf sib es) = es" unfolding live_def n by (simp add: demo_leaf_def)
  show "level (hdr (demo_leaf sib es)) = 0" "\<not> is_deleted (hdr (demo_leaf sib es))" "leftmost_ptr (hdr (demo_leaf sib es)) = 0"
    "sibling_ptr (hdr (demo_leaf sib es)) = sib" by (simp_all add: demo_leaf_def header_new_def)
  show "e_key ` set (records (demo_leaf sib es)) = insert LONG_MAX (e_key ` set es)"
    using assms(2) by (auto simp: demo_leaf_def entry_new_def)
qed

lemmas demo_root = page_root_facts [of 512 1024 20 1536]

lemma demo_addrs: "addrs demo_alloc 10 = {512, 1024, 1536, 2048, 2560, 3072, 3584, 4096, 4608, 5120}" "inj_on demo_alloc {..<10}"
  by (auto simp: demo_alloc_def lessThan_nat_numeral lessThan_Suc inj_on_def)

lemma demo_tree_map: "tree_map demo_alloc 10 demo_tree demo_map"
proof -
  let ?C = "{(LONG_MIN, 512), (20, 1024)} :: page_level" and ?R = "{(LONG_MIN, 1536)} :: page_level"
  let ?a = "demo_leaf 1024 [\<lparr>e_key = 10, e_ptr = 1\<rparr>, \<lparr>e_key = 15, e_ptr = 2\<rparr>]" and ?b = "demo_leaf 0 [\<lparr>e_key = 20, e_ptr = 3\<rparr>]"
  note lf = demo_leaf_simps [of "[\<lparr>e_key = 10, e_ptr = 1\<rparr>, \<lparr>e_key = 15, e_ptr = 2\<rparr>]" 1024]
    demo_leaf_simps [of "[\<lparr>e_key = 20, e_ptr = 3\<rparr>]" 0]
  have "page_at (addrs demo_alloc 10) 0 ?C LONG_MIN ?a" "page_at (addrs demo_alloc 10) 0 ?C 20 ?b"
    using lf by (simp_all add: page_at_def key_set_def pairs_def next_ok_def demo_addrs LONG_MIN_def LONG_MAX_def cardinality_eq)
  then have "levels_ok demo_alloc 10 demo_tree [?C, ?R]"
    using demo_root(1) [of "addrs demo_alloc 10" 0] demo_addrs
    by (auto simp: levels_ok_def level_ok_def demo_tree_def less_Suc_eq nth_Cons LONG_MIN_def LONG_MAX_def lessThan_Suc numeral_3_eq_3
        demo_alloc_def split: nat.splits)
  moreover have "ents (bt_heap demo_tree) ?C = {(10, 1), (15, 2), (20, 3)}"
    using lf by (simp add: ents_def demo_tree_def page_ents_def pairs_def cardinality_eq) auto
  moreover have "ents (bt_heap demo_tree) ?R = ?C" using demo_root(2) [of 0] by (simp add: ents_def demo_tree_def LONG_MIN_def LONG_MAX_def)
  ultimately show ?thesis
    unfolding tree_map_def by (intro exI [of _ "[?C, ?R]"]) (auto simp: linked_def demo_map_def split: if_splits)
qed

theorem btree_search_correct_witness: "btree_search 2 15 demo_tree = Done 2 \<and> btree_search 2 16 demo_tree = Done 0"
  using btree_search_correct [OF demo_tree_map, of 15 2] btree_search_correct [OF demo_tree_map, of 16 2]
  by (simp add: demo_map_def LONG_MIN_def demo_tree_def)

theorem descend_typed_witness: "\<exists>p. descend 2 15 1536 demo_tree = Done p \<and> p \<in> {512, 1024, 1536}"
  using descend_typed [OF demo_tree_map, of 15 2]
  by (auto simp: LONG_MIN_def demo_tree_def demo_alloc_def lessThan_Suc numeral_3_eq_3)

end
