(* ===== verification/FastFair_Insert.thy ===== *)
theory FastFair_Insert
  imports FastFair_Search
begin

text \<open>
  Insertion into the tree: what one page, one level and finally the whole tree become. A split
  adds a page to its level and hands the separator to the level above, until a page has room or
  a new root is made.
\<close>

section \<open>One page\<close>

text \<open>The entry is one the page with bound \<open>b\<close> is responsible for.\<close>

definition takes :: "ptr set \<Rightarrow> nat \<Rightarrow> page_level \<Rightarrow> entry_key_t \<Rightarrow> entry_key_t \<Rightarrow> ptr \<Rightarrow> page \<Rightarrow> bool" where
  "takes P l C b k r pg \<longleftrightarrow> covers C b k \<and> k \<le> LONG_MAX \<and> r \<noteq> 0 \<and> k \<notin> fst ` page_ents b pg \<and>
     r \<notin> snd ` page_ents b pg \<and> (l = 0 \<longrightarrow> r \<notin> P)"

lemma pairs_in_ents: "pairs pg \<subseteq> page_ents b pg"
  by (auto simp: page_ents_def)

lemma takes_fits:
  assumes "takes P l C b k r pg" and "page_at P l C b pg" and "num pg + 1 < cardinality"
  shows "fits k r pg"
proof -
  have "k \<notin> fst ` pairs pg" "r \<notin> snd ` pairs pg" using assms(1) pairs_in_ents [of pg b] by (auto simp: takes_def)
  then show ?thesis using assms(1,3) page_atD(1) [OF assms(2)] by (auto simp: fits_def takes_def pairs_def image_image)
qed

lemma takes_above:
  assumes "takes P l C b k r pg" and "page_at P l C b pg" and "0 < l"
  shows "b < k" and "r \<noteq> leftmost_ptr (hdr pg)"
proof -
  have "(b, leftmost_ptr (hdr pg)) \<in> page_ents b pg" using page_atD(4) [OF assms(2)] assms(3) by (simp add: page_ents_def)
  then have "k \<noteq> b" "r \<noteq> leftmost_ptr (hdr pg)" using assms(1) by (force simp: takes_def)+
  then show "b < k" and "r \<noteq> leftmost_ptr (hdr pg)" using assms(1) by (auto simp: takes_def covers_def)
qed

lemma insert_page_at:
  assumes t: "takes P l C b k r pg" and pa: "page_at P l C b pg" and room: "num pg + 1 < cardinality"
  defines "pg' \<equiv> fst (insert_key k r (num pg) pg)"
  shows "page_at P l C b pg'" and "page_ents b pg' = insert (k, r) (page_ents b pg)"
proof -
  note d = page_atD [OF pa]
  note i = insert_key_node [OF takes_fits [OF t pa room], folded pg'_def]
  note h = insert_key_hdr [of k r "num pg" pg, folded pg'_def]
  have pr: "pairs pg' = insert (k, r) (pairs pg)" by (simp add: pairs_def i(4))
  have ks: "key_set pg' = insert k (key_set pg)" by (simp add: key_set_def i(4))
  show "page_ents b pg' = insert (k, r) (page_ents b pg)" by (auto simp: page_ents_def pr h)
  have t': "b \<le> k" "k \<le> LONG_MAX" "\<And>b' q. (b', q) \<in> C \<Longrightarrow> b < b' \<Longrightarrow> k < b'" "l = 0 \<Longrightarrow> r \<notin> P"
    using t by (auto simp: takes_def covers_def)
  have "b \<le> k'" if "k' \<in> e_key ` set (records pg')" for k'
    using that i(5) d(6) t'(1) by blast
  moreover have "(if l = 0 then \<forall>v \<in> snd ` pairs pg'. v \<notin> P
      else 0 < num pg' \<and> leftmost_ptr (hdr pg') \<notin> snd ` pairs pg' \<and> (\<forall>k \<in> key_set pg'. b < k))"
    using d(9-12) t'(4) takes_above [OF t pa] i(2) by (auto simp: pr ks h)
  moreover have "\<forall>k' \<in> key_set pg'. k' \<le> LONG_MAX" "\<forall>(b', q) \<in> C. b < b' \<longrightarrow> (\<forall>k' \<in> key_set pg'. k' < b')"
    using d(7,8) t'(2,3) by (auto simp: ks)
  ultimately show "page_at P l C b pg'"
    unfolding page_at_def using i(1) d(2-5) by (simp add: h)
qed

section \<open>One level\<close>

lemma ents_insert: "ents h (insert (b, p) C) = page_ents b (the (h p)) \<union> ents h C"
  by (simp add: ents_def)

lemma ents_cong: "\<forall>(b, p) \<in> C. h' p = h p \<Longrightarrow> ents h' C = ents h C"
  by (auto simp: ents_def split_beta)

lemma level_cong: "\<forall>(b, p) \<in> C. h' p = h p \<Longrightarrow> level_ok P h l C \<Longrightarrow> level_ok P h' l C"
  by (auto simp: level_ok_def split_beta)

text \<open>Taking one page out of its level.\<close>

lemma ents_remove:
  assumes "level_ok P h l C" and "(b, p) \<in> C" and "\<forall>p'. p' \<noteq> p \<longrightarrow> p' \<in> snd ` C \<longrightarrow> h' p' = h p'"
  shows "ents h' C = page_ents b (the (h' p)) \<union> ents h (C - {(b, p)})"
proof -
  have "h' p' = h p'" if "(b', p') \<in> C - {(b, p)}" for b' p'
  proof -
    have "p' \<noteq> p" using level_ok_inj(3) [OF assms(1,2)] that by blast
    moreover have "p' \<in> snd ` C" using that by (metis Diff_iff image_eqI snd_conv)
    ultimately show ?thesis using assms(3) by blast
  qed
  then have "\<forall>(b', p') \<in> C - {(b, p)}. h' p' = h p'" by blast
  then have "ents h' (C - {(b, p)}) = ents h (C - {(b, p)})" by (rule ents_cong)
  moreover have "C = insert (b, p) (C - {(b, p)})" using assms(2) by blast
  ultimately show ?thesis by (metis ents_insert)
qed

lemma level_update:
  assumes lo: "level_ok P h l C" and p: "(b, p) \<in> C" and pa: "page_at P l C b pg'"
  shows "level_ok P (h(p \<mapsto> pg')) l C"
proof -
  have "\<exists>pg. (h(p \<mapsto> pg')) p' = Some pg \<and> page_at P l C b' pg" if "(b', p') \<in> C" for b' p'
  proof (cases "p' = p")
    case True
    then have "b' = b" using level_ok_inj(3) [OF lo] that p by blast
    then show ?thesis using True pa by simp
  next
    case False
    then show ?thesis using level_okD [OF lo that] by (metis fun_upd_other)
  qed
  then show ?thesis using lo unfolding level_ok_def by blast
qed

text \<open>A new page between a page and its sibling leaves the others as they are.\<close>

definition between :: "page_level \<Rightarrow> entry_key_t \<Rightarrow> entry_key_t \<Rightarrow> bool" where
  "between C b sk \<longleftrightarrow> b < sk \<and> (\<forall>(b', q) \<in> C. b < b' \<longrightarrow> sk < b')"

lemma page_at_other:
  assumes pa: "page_at P l C b0 pg" and p: "(b, p) \<in> C" and ne: "b0 \<noteq> b" and p0: "(b0, p0) \<in> C" and bt: "between C b sk"
  shows "page_at P l (insert (sk, q) C) b0 pg"
proof -
  note d = page_atD [OF pa]
  have bt': "b < sk" "\<And>b' q. (b', q) \<in> C \<Longrightarrow> b < b' \<Longrightarrow> sk < b'" using bt by (auto simp: between_def)
  have up: "b < b0 \<Longrightarrow> sk < b0" by (rule bt'(2) [OF p0])
  have lt: "k < sk" if "b0 < sk" "k \<in> key_set pg" for k
  proof -
    have "b0 < b" using ne that(1) up by (meson linorder_neqE order_less_asym)
    then show ?thesis using d(8) [OF p _ that(2)] bt'(1) by simp
  qed
  have "next_ok (insert (sk, q) C) b0 (sibling_ptr (hdr pg))"
  proof (cases "sibling_ptr (hdr pg) = 0")
    case True
    then have "\<forall>(b', q) \<in> C. b' \<le> b0" using d(5) by (simp add: next_ok_def)
    then show ?thesis using True p ne up by (fastforce simp: next_ok_def)
  next
    case False
    then obtain b1 where b1: "(b1, sibling_ptr (hdr pg)) \<in> C" "b0 < b1" "\<forall>(b'', q) \<in> C. b0 < b'' \<longrightarrow> b1 \<le> b''"
      using d(5) by (auto simp: next_ok_def)
    have "b0 < sk \<Longrightarrow> b1 \<le> sk" using b1(3) p ne up bt'(1) by fastforce
    then show ?thesis using False b1 by (auto simp: next_ok_def)
  qed
  then show ?thesis unfolding page_at_def using d lt by (auto split: if_splits)
qed

section \<open>The split of a page of the tree\<close>

lemma split_page_at:
  assumes pa: "page_at P l C b pg" and full: "num pg = cardinality - 1" and p: "(b, p) \<in> C"
    and sp: "split_page q (num pg) pg = (pg', sib, cnt, sk)" and q: "q \<noteq> 0"
  defines "C' \<equiv> insert (sk, q) C"
  shows "between C b sk" "sk \<in> key_set pg" "page_at P l C' b pg'" "page_at P l C' sk sib"
    "page_ents b pg = page_ents b pg' \<union> page_ents sk sib"
proof -
  note d = page_atD [OF pa]
  note n = node_okD [OF d(1)]
  note s = split_page_node [OF d(1) full sp]
  let ?m = "num pg div 2"
  have m: "?m = 14" "num pg = 29" using full by (simp_all add: cardinality_eq)
  have len: "length (live pg) = 29" using n(7) m by simp
  have live: "live pg = take ?m (live pg) @ live pg ! ?m # drop (Suc ?m) (live pg)"
    by (rule id_take_nth_drop) (use len m in simp)
  have sk: "sk = e_key (live pg ! ?m)" "live pg ! ?m \<in> set (live pg)" using s(19) len m by simp_all
  then show skk: "sk \<in> key_set pg" by (simp add: key_set_def)
  have low: "\<forall>e \<in> set (take ?m (live pg)). e_key e < sk" and high: "\<forall>e \<in> set (drop (Suc ?m) (live pg)). sk < e_key e"
    using n(5) unfolding sk(1) by (subst (asm) live, simp add: sorted_wrt_append)+
  have "live pg ! 0 \<in> set (take ?m (live pg))" using len m by (simp add: in_set_conv_nth) (metis nth_take zero_less_numeral)
  moreover have "live pg ! 0 \<in> set (records pg)" using live_sub len by (metis nth_mem subsetD zero_less_numeral)
  ultimately have bsk: "b < sk" using low d(6) [of "e_key (live pg ! 0)"] by fastforce
  then show bt: "between C b sk" using d(8) skk by (auto simp: between_def)
  have key': "key_set pg' = e_key ` set (take ?m (live pg))" "pairs pg' = (\<lambda>e. (e_key e, e_ptr e)) ` set (take ?m (live pg))"
    by (simp_all add: key_set_def pairs_def s(3))
  have set_live: "set (live pg) = set (take ?m (live pg)) \<union> set (drop ?m (live pg))" by (metis append_take_drop_id set_append)
  have dm: "drop ?m (live pg) = live pg ! ?m # drop (Suc ?m) (live pg)" 
    by (rule Cons_nth_drop_Suc [symmetric]) (use len m in simp)
  have sub: "set (live sib) \<subseteq> set (live pg)" using s(13) set_drop_subset [of _ "live pg"] by auto
  have sib_ge: "\<forall>k \<in> key_set sib. sk \<le> k" and sib_gt: "l \<noteq> 0 \<Longrightarrow> \<forall>k \<in> key_set sib. sk < k"
    using s(13) high dm sk(1) d(4) by (auto simp: key_set_def split: if_splits)
  have ks: "key_set pg' \<subseteq> key_set pg" "key_set sib \<subseteq> key_set pg" "pairs pg' \<subseteq> pairs pg" "pairs sib \<subseteq> pairs pg"
    using sub set_live by (auto simp: key_set_def pairs_def s(3))
  have skM: "sk \<le> LONG_MAX" using d(7) skk by blast
  show "page_ents b pg = page_ents b pg' \<union> page_ents sk sib"
  proof (cases "leftmost_ptr (hdr pg) = 0")
    case True
    have "pairs sib = (\<lambda>e. (e_key e, e_ptr e)) ` set (drop ?m (live pg))" using True s(13) by (simp add: pairs_def)
    then have "pairs pg = pairs pg' \<union> pairs sib" unfolding key'(2) by (simp add: pairs_def set_live flip: image_Un)
    then show ?thesis using True by (simp add: page_ents_def s)
  next
    case False
    have "e_ptr (live pg ! ?m) \<noteq> 0" using n(3) sk(2) by blast
    moreover have "pairs sib = (\<lambda>e. (e_key e, e_ptr e)) ` set (drop (Suc ?m) (live pg))" using False s(13) by (simp add: pairs_def)
    moreover have "pairs pg = pairs pg' \<union> insert (sk, e_ptr (live pg ! ?m)) ((\<lambda>e. (e_key e, e_ptr e)) ` set (drop (Suc ?m) (live pg)))"
      unfolding key'(2) sk(1) by (simp add: pairs_def set_live dm image_Un)
    ultimately show ?thesis using False by (auto simp: page_ents_def s)
  qed
  have "next_ok C' b q" using bt q unfolding next_ok_def C'_def between_def
    by (simp, intro exI [of _ sk]) fastforce
  moreover have "\<forall>k \<in> e_key ` set (records pg'). b \<le> k" using s(4) d(6) by blast
  moreover have "\<forall>(b', q) \<in> C'. b < b' \<longrightarrow> (\<forall>k \<in> key_set pg'. k < b')"
    using low d(8) ks(1) unfolding C'_def key'(1) by auto
  moreover have "\<forall>k \<in> key_set pg'. k \<le> LONG_MAX" using d(7) ks(1) by blast
  moreover have "if l = 0 then \<forall>v \<in> snd ` pairs pg'. v \<notin> P
      else 0 < num pg' \<and> leftmost_ptr (hdr pg') \<notin> snd ` pairs pg' \<and> (\<forall>k \<in> key_set pg'. b < k)"
  proof (cases "l = 0")
    case True
    then have "\<forall>v \<in> snd ` pairs pg'. v \<notin> P" using d(9) ks(3) by blast
    then show ?thesis using True by simp
  next
    case False
    then have "leftmost_ptr (hdr pg') \<notin> snd ` pairs pg'" "\<forall>k \<in> key_set pg'. b < k"
      using d(11,12) ks(1,3) s(5) by (simp_all add: image_def) blast+
    then show ?thesis using False m s(2) by simp
  qed
  ultimately show "page_at P l C' b pg'" using d(2-4) s(1,5-8) by (simp add: page_at_def)
  have "next_ok C' sk (sibling_ptr (hdr sib))"
    using d(5) bt p unfolding s(16) next_ok_def C'_def between_def by (fastforce split: if_splits)
  moreover have "\<forall>k \<in> e_key ` set (records sib). sk \<le> k" using s(14) skM sib_ge by (auto simp: key_set_def)
  moreover have "\<forall>(b', q) \<in> C'. sk < b' \<longrightarrow> (\<forall>k \<in> key_set sib. k < b')"
    using d(8) ks(2) bsk unfolding C'_def by fastforce
  moreover have "\<forall>k \<in> key_set sib. k \<le> LONG_MAX" using d(7) ks(2) by blast
  moreover have "leftmost_ptr (hdr sib) = 0 \<longleftrightarrow> l = 0" using s(15) n(3) sk(2) d(4) by auto
  moreover have "if l = 0 then \<forall>v \<in> snd ` pairs sib. v \<notin> P
      else 0 < num sib \<and> leftmost_ptr (hdr sib) \<notin> snd ` pairs sib \<and> (\<forall>k \<in> key_set sib. sk < k)"
  proof (cases "l = 0")
    case False
    have "distinct (map e_ptr (live pg ! ?m # drop (Suc ?m) (live pg)))"
      using distinct_drop [OF n(6), of ?m] unfolding drop_map dm .
    then have "leftmost_ptr (hdr sib) \<notin> snd ` pairs sib" using s(13,15) d(4) False by (auto simp: pairs_def)
    then show ?thesis using False s(12) sib_gt by simp
  next
    case True
    then have "\<forall>v \<in> snd ` pairs sib. v \<notin> P" using d(9) ks(4) by blast
    then show ?thesis using True by simp
  qed
  ultimately show "page_at P l C' sk sib" using d(2) s(9,17,18) by (simp add: page_at_def)
qed

text \<open>The split with the insertion: both halves, and what they hold together.\<close>

lemma split_insert_at:
  assumes pa: "page_at P l C b pg" and full: "num pg = cardinality - 1" and p: "(b, p) \<in> C"
    and t: "takes P l C b k r pg" and q: "q \<noteq> 0" "q \<notin> snd ` C"
    and si: "split_insert p q (num pg) k r pg = (pg', sib, sk, ret)"
  defines "C' \<equiv> insert (sk, q) C"
  shows "between C b sk" "sk \<in> key_set pg" "page_at P l C' b pg'" "page_at P l C' sk sib" "ret \<in> {p, q}"
    "page_ents b pg' \<union> page_ents sk sib = insert (k, r) (page_ents b pg)"
proof -
  obtain pg1 sib1 cnt sk1 where sp: "split_page q (num pg) pg = (pg1, sib1, cnt, sk1)" by (metis prod_cases4)
  have sk1: "sk1 = sk" using si sp by (auto simp: split_insert_def split: if_splits)
  note s = split_page_at [OF pa full p sp q(1), unfolded sk1, folded C'_def]
  note sn = split_page_node [OF page_atD(1) [OF pa] full sp]
  have n1: "num pg1 + 1 < cardinality" "num sib1 + 1 < cardinality"
    using sn(2,11) full by (simp_all add: cardinality_eq)
  show "between C b sk" "sk \<in> key_set pg" by (rule s(1), rule s(2))
  have nk: "k \<noteq> sk" using t s(2) key_set_pairs [of pg] pairs_in_ents [of pg b] by (auto simp: takes_def)
  have cov: "covers C' b k" if "k < sk" using t that by (auto simp: takes_def covers_def C'_def)
  have cov': "covers C' sk k" if "sk < k"
    using t that s(1) by (auto simp: takes_def covers_def C'_def between_def)
  have t1: "takes P l C' b k r pg1" if "k < sk" using t cov [OF that] s(5) by (auto simp: takes_def image_Un)
  have t2: "takes P l C' sk k r sib1" if "sk < k" using t cov' [OF that] s(5) by (auto simp: takes_def image_Un)
  have li: "nat (last_index (hdr pg1) + 1) = num pg1" by (simp add: num_def)
  show "page_at P l C' b pg'" "page_at P l C' sk sib" "ret \<in> {p, q}"
    "page_ents b pg' \<union> page_ents sk sib = insert (k, r) (page_ents b pg)"
  proof -
    have "page_at P l C' b pg' \<and> page_at P l C' sk sib \<and> ret \<in> {p, q} \<and>
        page_ents b pg' \<union> page_ents sk sib = insert (k, r) (page_ents b pg)"
    proof (cases "k < sk")
      case True
      then have "pg' = fst (insert_key k r (num pg1) pg1)" "sib = sib1" "ret = p"
        using si sp sk1 li by (auto simp: split_insert_def)
      then show ?thesis using insert_page_at [OF t1 [OF True] s(3) n1(1)] s(4,5) by auto
    next
      case False
      then have gt: "sk < k" using nk by simp
      have "pg' = pg1" "sib = fst (insert_key k r (num sib1) sib1)" "ret = q"
        using si sp sk1 False sn(10) by (auto simp: split_insert_def)
      then show ?thesis using insert_page_at [OF t2 [OF gt] s(4) n1(2)] s(3,5) by auto
    qed
    then show "page_at P l C' b pg'" "page_at P l C' sk sib" "ret \<in> {p, q}"
      "page_ents b pg' \<union> page_ents sk sib = insert (k, r) (page_ents b pg)" by blast+
  qed
qed

text \<open>The level after the split.\<close>

lemma level_split:
  assumes lo: "level_ok P h l C" and p: "(b, p) \<in> C" and bt: "between C b sk" "sk \<le> LONG_MAX"
    and q: "q \<notin> snd ` C" and pa: "page_at P l (insert (sk, q) C) b pg'" "page_at P l (insert (sk, q) C) sk sib"
    and h': "h' p = Some pg'" "h' q = Some sib" "\<forall>p'. p' \<noteq> p \<longrightarrow> p' \<in> snd ` C \<longrightarrow> h' p' = h p'"
  shows "level_ok P h' l (insert (sk, q) C)"
    and "ents h' (insert (sk, q) C) = page_ents b pg' \<union> page_ents sk sib \<union> ents h (C - {(b, p)})"
proof -
  have bt': "b < sk" "\<And>b' q. (b', q) \<in> C \<Longrightarrow> b < b' \<Longrightarrow> sk < b'" using bt by (auto simp: between_def)
  have "sk \<notin> fst ` C" using bt' by fastforce
  moreover have "LONG_MIN \<le> sk" using level_okD [OF lo p] bt'(1) by (metis order_trans less_imp_le)
  moreover have "\<exists>pg. h' p' = Some pg \<and> page_at P l (insert (sk, q) C) b' pg" if b': "(b', p') \<in> C" for b' p'
  proof (cases "p' = p")
    case True
    then have "b' = b" using level_ok_inj(3) [OF lo] b' p by blast
    then show ?thesis using True pa h' by simp
  next
    case False
    obtain pg where pg: "h p' = Some pg" "page_at P l C b' pg" using level_okD [OF lo b'] by metis
    moreover have "b' \<noteq> b" using level_ok_inj(2) [OF lo] b' p False by blast
    ultimately have "page_at P l (insert (sk, q) C) b' pg" using page_at_other [OF pg(2) p _ b' bt(1)] by blast
    moreover have "p' \<in> snd ` C" using b' by (metis image_eqI snd_conv)
    ultimately show ?thesis using h'(3) False pg(1) by simp
  qed
  ultimately show "level_ok P h' l (insert (sk, q) C)"
    using lo bt(2) q pa(2) h'(2) by (auto simp: level_ok_def)
  show "ents h' (insert (sk, q) C) = page_ents b pg' \<union> page_ents sk sib \<union> ents h (C - {(b, p)})"
    using ents_remove [OF lo p h'(3)] h'(1,2) by (auto simp: ents_insert)
qed

section \<open>The tree\<close>

lemma new_page_simps:
  "new_page A pg T = (A (bt_allocs T), T\<lparr>bt_heap := (bt_heap T)(A (bt_allocs T) \<mapsto> pg), bt_allocs := bt_allocs T + 1\<rparr>)"
  by (simp add: new_page_def write_page_def Let_def)

lemma write_page_simps [simp]:
  "bt_heap (write_page p pg T) = (bt_heap T)(p \<mapsto> pg)" "bt_root (write_page p pg T) = bt_root T"
  "bt_height (write_page p pg T) = bt_height T" "bt_allocs (write_page p pg T) = bt_allocs T"
  by (simp_all add: write_page_def)

lemma fresh:
  assumes "levels_ok A N T L" and "l < length L" and "bt_allocs T \<le> n" and "n < N"
  shows "A n \<notin> snd ` (L ! l)" "A n \<noteq> 0"
proof -
  note d = levels_okD [OF assms(1)]
  show "A n \<noteq> 0" using d(2) assms(4) by (metis imageI lessThan_iff)
  have "A n \<notin> A ` {..<bt_allocs T}" using d(1) assms(3,4) by (auto dest!: inj_onD)
  then show "A n \<notin> snd ` (L ! l)" using d(8) [OF assms(2)] by blast
qed

lemma levels_disjoint:
  assumes "levels_ok A N T L" and "l < length L" and "(b, p) \<in> L ! l" and "j < length L" and "j \<noteq> l"
  shows "p \<notin> snd ` (L ! j)"
  using levels_okD(9) [OF assms(1,2,4)] assms(3,5) by force

text \<open>The new state of one level, in a tree whose other levels are unchanged.\<close>

lemma levels_update:
  assumes lo: "levels_ok A N T L" and l: "l < length L"
    and new: "level_ok (addrs A N) (bt_heap T') l C" "snd ` C \<subseteq> insert (A (bt_allocs T)) (snd ` (L ! l))" "l = length L - 1 \<longrightarrow> C = L ! l"
    and T': "bt_height T' = bt_height T" "bt_root T' = bt_root T" "bt_allocs T \<le> bt_allocs T'" "bt_allocs T' \<le> N"
      "C \<noteq> L ! l \<longrightarrow> bt_allocs T < bt_allocs T'"
    and frame: "\<forall>j < length L. j \<noteq> l \<longrightarrow> (\<forall>(b, p) \<in> L ! j. bt_heap T' p = bt_heap T p)"
  shows "levels_ok A N T' (L[l := C])"
proof -
  note d = levels_okD [OF lo]
  have lv: "level_ok (addrs A N) (bt_heap T') j (L[l := C] ! j)" if "j < length L" for j
  proof (cases "j = l")
    case False
    then have "\<forall>(b, p) \<in> L ! j. bt_heap T' p = bt_heap T p" using frame that by blast
    then show ?thesis using level_cong [OF _ d(7) [OF that]] False by simp
  qed (use new(1) l in simp)
  have mono: "A ` {..<bt_allocs T} \<subseteq> A ` {..<bt_allocs T'}" using T'(3) by auto
  have sub: "snd ` (L[l := C] ! j) \<subseteq> A ` {..<bt_allocs T'}" if "j < length L" for j
  proof (cases "j = l \<and> C \<noteq> L ! l")
    case True
    then have "A (bt_allocs T) \<in> A ` {..<bt_allocs T'}" using T'(5) by (intro imageI) simp
    moreover have "snd ` (L ! l) \<subseteq> A ` {..<bt_allocs T'}" by (rule order_trans [OF d(8) [OF l] mono])
    ultimately have "snd ` C \<subseteq> A ` {..<bt_allocs T'}" by (intro order_trans [OF new(2)]) simp
    then show ?thesis using True that by simp
  next
    case False
    then have "L[l := C] ! j = L ! j" using that by (auto simp: nth_list_update)
    then show ?thesis using d(8) [OF that] mono by simp
  qed
  have fr: "A (bt_allocs T) \<notin> snd ` (L ! j)" if "j < length L" "bt_allocs T < N" for j
    by (rule fresh(1) [OF lo that(1) order_refl that(2)])
  have dis: "snd ` (L[l := C] ! i) \<inter> snd ` (L[l := C] ! j) = {}" if ij: "i < length L" "j < length L" "i \<noteq> j" for i j
  proof -
    have *: "snd ` C \<inter> snd ` (L ! i) = {}" if "i < length L" "i \<noteq> l" for i
    proof (cases "C = L ! l")
      case False
      then have "bt_allocs T < N" using T'(4,5) by simp
      then have "insert (A (bt_allocs T)) (snd ` (L ! l)) \<inter> snd ` (L ! i) = {}"
        using d(9) [OF l that(1)] that(2) fr [OF that(1)] by simp
      then show ?thesis using Int_mono [OF new(2) order_refl, of "snd ` (L ! i)"] by simp
    qed (use d(9) [OF l that(1)] that(2) in simp)
    consider "i = l" "j \<noteq> l" | "j = l" "i \<noteq> l" | "i \<noteq> l" "j \<noteq> l" using ij(3) by blast
    then show ?thesis
      by cases (use * [OF ij(1)] * [OF ij(2)] d(9) [OF ij] l in \<open>simp_all add: Int_commute\<close>)
  qed
  have "last (L[l := C]) = {(LONG_MIN, bt_root T')}"
    using d(5) new(3) d(3) l T'(2) by (cases "l = length L - 1") (simp_all add: last_list_update)
  then show ?thesis
    unfolding levels_ok_def using d(1-4) T'(1,4) lv sub dis by simp
qed

text \<open>A page with room.\<close>

lemma store_room:
  assumes lo: "levels_ok A N T L" and l: "l < length L" and p: "(b, p) \<in> L ! l" and pg: "bt_heap T p = Some pg" "page_at (addrs A N) l (L ! l) b pg"
    and t: "takes (addrs A N) l (L ! l) b k r pg" and room: "num pg + 1 < cardinality"
  defines "T' \<equiv> write_page p (fst (insert_key k r (num pg) pg)) T"
  shows "levels_ok A N T' L" and "ents (bt_heap T') (L ! l) = insert (k, r) (ents (bt_heap T) (L ! l))"
    and "j < length L \<Longrightarrow> j \<noteq> l \<Longrightarrow> \<forall>(b, p) \<in> L ! j. bt_heap T' p = bt_heap T p"
proof -
  note lv = levels_okD(7) [OF lo l]
  note i = insert_page_at [OF t pg(2) room]
  show fr: "j < length L \<Longrightarrow> j \<noteq> l \<Longrightarrow> \<forall>(b, p) \<in> L ! j. bt_heap T' p = bt_heap T p" for j
    using levels_disjoint [OF lo l p] by (force simp: T'_def)
  have "level_ok (addrs A N) (bt_heap T') l (L ! l)" unfolding T'_def using level_update [OF lv p i(1)] by simp
  then show "levels_ok A N T' L"
    using levels_update [OF lo l, of T' "L ! l"] fr levels_okD(10) [OF lo] by (auto simp: T'_def)
  have "ents (bt_heap T') (L ! l) = page_ents b (the (bt_heap T' p)) \<union> ents (bt_heap T) (L ! l - {(b, p)})"
    by (rule ents_remove [OF lv p]) (simp add: T'_def)
  moreover have "ents (bt_heap T) (L ! l) = page_ents b (the (bt_heap T p)) \<union> ents (bt_heap T) (L ! l - {(b, p)})"
    by (rule ents_remove [OF lv p]) simp
  ultimately show "ents (bt_heap T') (L ! l) = insert (k, r) (ents (bt_heap T) (L ! l))"
    using i(2) pg(1) by (simp add: T'_def)
qed

text \<open>A full page that is not the root.\<close>

lemma store_split:
  assumes lo: "levels_ok A N T L" and l: "l < length L" and p: "(b, p) \<in> L ! l" and pg: "bt_heap T p = Some pg" "page_at (addrs A N) l (L ! l) b pg"
    and t: "takes (addrs A N) l (L ! l) b k r pg" and full: "num pg = cardinality - 1" and N: "bt_allocs T < N"
    and si: "split_insert p (A (bt_allocs T)) (num pg) k r pg = (pg', sib, sk, ret)"
  defines "q \<equiv> A (bt_allocs T)"
  defines "T' \<equiv> write_page p pg' (write_page q sib (snd (new_page A (page_new (level (hdr pg))) T)))"
  shows "level_ok (addrs A N) (bt_heap T') l (insert (sk, q) (L ! l))"
    and "ents (bt_heap T') (insert (sk, q) (L ! l)) = insert (k, r) (ents (bt_heap T) (L ! l))"
    and "j < length L \<Longrightarrow> j \<noteq> l \<Longrightarrow> \<forall>(b, p) \<in> L ! j. bt_heap T' p = bt_heap T p"
    and "between (L ! l) b sk" "sk \<le> LONG_MAX" "LONG_MIN \<le> sk" "ret \<noteq> 0" "p \<noteq> q"
    and "l \<noteq> length L - 1 \<Longrightarrow> levels_ok A N T' (L[l := insert (sk, q) (L ! l)])"
proof -
  note lv = levels_okD(7) [OF lo l]
  note q = fresh [OF lo _ order_refl N, folded q_def]
  note s = split_insert_at [OF pg(2) full p t q(2) [OF l] q(1) [OF l] si [folded q_def]]
  show skM: "sk \<le> LONG_MAX" using page_atD(7) [OF pg(2)] s(2) by blast
  show "between (L ! l) b sk" by (rule s(1))
  then show "LONG_MIN \<le> sk" using level_okD [OF lv p] by (metis between_def less_imp_le order_trans)
  show pq: "p \<noteq> q" using q(1) [OF l] p by (metis image_eqI snd_conv)
  have "p \<in> A ` {..<bt_allocs T}" using levels_okD(8) [OF lo l] p by force
  then show "ret \<noteq> 0" using s(5) levels_okD(2,11) [OF lo] q(2) [OF l] by auto
  have h': "bt_heap T' p = Some pg'" "bt_heap T' q = Some sib" "\<And>p'. p' \<noteq> p \<Longrightarrow> p' \<noteq> q \<Longrightarrow> bt_heap T' p' = bt_heap T p'"
    using pq by (simp_all add: T'_def new_page_simps q_def)
  then have h3: "\<forall>p'. p' \<noteq> p \<longrightarrow> p' \<in> snd ` (L ! l) \<longrightarrow> bt_heap T' p' = bt_heap T p'" using q(1) [OF l] by metis
  note ls = level_split [OF lv p s(1) skM q(1) [OF l] s(3,4) h'(1,2) h3]
  show lv': "level_ok (addrs A N) (bt_heap T') l (insert (sk, q) (L ! l))" by (rule ls(1))
  have "ents (bt_heap T) (L ! l) = page_ents b (the (bt_heap T p)) \<union> ents (bt_heap T) (L ! l - {(b, p)})"
    by (rule ents_remove [OF lv p]) simp
  then show "ents (bt_heap T') (insert (sk, q) (L ! l)) = insert (k, r) (ents (bt_heap T) (L ! l))"
    using ls(2) s(6) pg(1) by simp
  show fr: "j < length L \<Longrightarrow> j \<noteq> l \<Longrightarrow> \<forall>(b, p) \<in> L ! j. bt_heap T' p = bt_heap T p" for j
    using levels_disjoint [OF lo l p] q(1) h'(3) by (metis (mono_tags, lifting) case_prodI2 image_eqI snd_conv)
  show "l \<noteq> length L - 1 \<Longrightarrow> levels_ok A N T' (L[l := insert (sk, q) (L ! l)])"
    by (rule levels_update [OF lo l lv']) (use fr N in \<open>auto simp: T'_def new_page_simps q_def\<close>)
qed

text \<open>A new root above the two halves of the old one.\<close>

lemma new_root_levels:
  assumes lo: "levels_ok A N T L" and l: "l = length L - 1" and q: "q = A (bt_allocs T)"
    and C: "C = insert (sk, q) (L ! l)" "level_ok (addrs A N) (bt_heap Tn) l C" "LONG_MIN < sk" "sk \<le> LONG_MAX"
    and Tn: "bt_height Tn = bt_height T" "bt_allocs Tn = bt_allocs T + 1" "bt_allocs Tn < N"
    and frame: "\<forall>j < length L. j \<noteq> l \<longrightarrow> (\<forall>(b, p) \<in> L ! j. bt_heap Tn p = bt_heap T p)"
  defines "r \<equiv> A (bt_allocs Tn)"
  defines "T' \<equiv> setNewRoot r (snd (new_page A (page_root (bt_root T) sk q (Suc l)) Tn))"
  defines "L' \<equiv> L[l := C] @ [{(LONG_MIN, r)}]"
  shows "levels_ok A N T' L'" and "linked T' L' l" and "\<forall>j < length L. \<forall>(b, p) \<in> L' ! j. bt_heap T' p = bt_heap Tn p"
proof -
  note d = levels_okD [OF lo]
  have len: "l < length L" "length L' = Suc (length L)" using d(3) l by (auto simp: L'_def)
  have top: "L ! l = {(LONG_MIN, bt_root T)}" using d(6) l by simp
  have fr_q: "q \<notin> snd ` (L ! j)" "q \<noteq> 0" if "j < length L" for j using fresh [OF lo that order_refl] q Tn(2,3) by auto
  have fr_r: "r \<notin> snd ` (L ! j)" "r \<noteq> 0" if "j < length L" for j
    using fresh [OF lo that, of "bt_allocs Tn"] Tn(2,3) by (auto simp: r_def)
  have rq: "r \<noteq> q" using d(1) Tn(2,3) by (auto simp: r_def q dest!: inj_onD)
  have h': "bt_heap T' = (bt_heap Tn)(r \<mapsto> page_root (bt_root T) sk q (Suc l))" "bt_height T' = Suc (bt_height T)"
      "bt_root T' = r" "bt_allocs T' = Suc (bt_allocs Tn)"
    by (simp_all add: T'_def setNewRoot_def new_page_simps r_def Tn(1))
  have L': "L' ! j = (if j = l then C else if j < length L then L ! j else {(LONG_MIN, r)})" if "j < Suc (length L)" for j
    using that len by (auto simp: L'_def nth_append nth_list_update less_Suc_eq)
  have sub_r: "r \<notin> snd ` (L' ! j)" if "j < length L" for j
    using fr_r(1) [OF that] fr_r(1) [OF len(1)] rq that by (auto simp: L' C(1))
  have same: "bt_heap T' p = bt_heap Tn p" if "j < length L" "(b, p) \<in> L' ! j" for j b p
  proof -
    have "p \<in> snd ` (L' ! j)" using that(2) by force
    then show ?thesis using sub_r [OF that(1)] by (auto simp: h'(1))
  qed
  then show "\<forall>j < length L. \<forall>(b, p) \<in> L' ! j. bt_heap T' p = bt_heap Tn p" by blast
  have root: "bt_root T \<noteq> 0" "bt_root T \<noteq> q"
    using d(2,11) d(8) [OF len(1)] fr_q(1) [OF len(1)] top by auto
  note pr = page_root_facts [OF root(1) fr_q(2) [OF len(1)] root(2) C(3,4) fr_r(2) [OF len(1)]]
  have lv: "level_ok (addrs A N) (bt_heap T') j (L' ! j)" if "j < length L" for j
  proof -
    have "level_ok (addrs A N) (bt_heap Tn) j (L' ! j)"
      using C(2) level_cong [OF _ d(7) [OF that]] frame that by (cases "j = l") (auto simp: L')
    moreover have "\<forall>(b, p) \<in> L' ! j. bt_heap T' p = bt_heap Tn p" using same [OF that] by blast
    ultimately show ?thesis using level_cong by blast
  qed
  have "length L = Suc l" using len l by simp
  have lv_top: "level_ok (addrs A N) (bt_heap T') (length L) {(LONG_MIN, r)}"
  proof -
    have "page_at (addrs A N) (length L) {(LONG_MIN, r)} LONG_MIN (page_root (bt_root T) sk q (Suc l))" using pr(1) [of "addrs A N" l] \<open>length L = Suc l\<close> by simp
    moreover have "LONG_MIN \<le> LONG_MAX" by (simp add: LONG_MIN_def LONG_MAX_def)
    ultimately show ?thesis by (simp add: level_ok_def h'(1))
  qed
  have q_in: "q \<in> A ` {..<bt_allocs T'}" using q Tn(2) h'(4) by simp
  have r_in: "r \<in> A ` {..<bt_allocs T'}" using h'(4) by (simp add: r_def)
  have old_in: "snd ` (L ! j) \<subseteq> A ` {..<bt_allocs T'}" if "j < length L" for j
    using d(8) [OF that] Tn(2) h'(4) by auto
  have sub: "snd ` (L' ! j) \<subseteq> A ` {..<bt_allocs T'}" if "j < Suc (length L)" for j
    using that old_in q_in r_in len(1) by (auto simp: L' C(1))
  have dis: "snd ` (L' ! i) \<inter> snd ` (L' ! j) = {}" if ij: "i < Suc (length L)" "j < Suc (length L)" "i \<noteq> j" for i j
  proof -
    have *: "snd ` (L' ! i) \<inter> snd ` (L' ! j) = {}" if "i < length L" "j < length L" "i \<noteq> j" for i j
      using d(9) [OF that] fr_q(1) [OF that(1)] fr_q(1) [OF that(2)] that by (auto simp: L' C(1))
    consider "i < length L" "j < length L" | "i < length L" "j = length L" | "j < length L" "i = length L"
      using ij by linarith
    then show ?thesis using * [of i j] sub_r [of i] sub_r [of j] ij(3) L' [of "length L"] len(1) by cases auto
  qed
  show "levels_ok A N T' L'"
    unfolding levels_ok_def len(2)
    using d(1,2,4) Tn(3) h' lv lv_top sub dis L' [of "length L"] len(1) by (auto simp: L'_def less_Suc_eq nth_append)
  have "L' ! Suc l = {(LONG_MIN, r)}" "L' ! l = {(sk, q), (LONG_MIN, bt_root T)}"
    using L' [of "Suc l"] L' [of l] \<open>length L = Suc l\<close> unfolding C(1) top by simp_all
  moreover have "ents (bt_heap T') {(LONG_MIN, r)} = page_ents LONG_MIN (page_root (bt_root T) sk q (Suc l))"
    by (simp add: ents_def h'(1))
  ultimately have "ents (bt_heap T') (L' ! Suc l) = L' ! l" unfolding pr(2) by (simp add: insert_commute)
  then show "linked T' L' l"
    unfolding linked_def len(2) using \<open>length L = Suc l\<close> by (metis Suc_less_SucD le_less_Suc_eq order_le_less)
qed

section \<open>The whole insertion\<close>

text \<open>The entry belongs on level \<open>l\<close> and is not there yet.\<close>

definition ready :: "(nat \<Rightarrow> ptr) \<Rightarrow> nat \<Rightarrow> btree \<Rightarrow> page_level list \<Rightarrow> nat \<Rightarrow> entry_key_t \<Rightarrow> ptr \<Rightarrow> bool" where
  "ready A N T L l k r \<longleftrightarrow> LONG_MIN \<le> k \<and> k \<le> LONG_MAX \<and> r \<noteq> 0 \<and> k \<notin> fst ` ents (bt_heap T) (L ! l) \<and>
     r \<notin> snd ` ents (bt_heap T) (L ! l) \<and> (l = 0 \<longrightarrow> r \<notin> addrs A N)"

lemma ready_takes:
  assumes "ready A N T L l k r" and "(b, p) \<in> L ! l" and "bt_heap T p = Some pg" and "covers (L ! l) b k"
  shows "takes (addrs A N) l (L ! l) b k r pg"
proof -
  have "page_ents b pg \<subseteq> ents (bt_heap T) (L ! l)" using assms(2,3) by (force simp: ents_def)
  then show ?thesis using assms(1,4) by (auto simp: ready_def takes_def)
qed

text \<open>What an insertion on level \<open>l\<close> has done: the entry is on its level, the levels above are again
  linked, and the pages below are untouched.\<close>

definition inserted :: "(nat \<Rightarrow> ptr) \<Rightarrow> nat \<Rightarrow> btree \<Rightarrow> page_level list \<Rightarrow> nat \<Rightarrow> entry_key_t \<Rightarrow> ptr \<Rightarrow> btree \<Rightarrow> page_level list \<Rightarrow> bool" where
  "inserted A N T L l k r T' L' \<longleftrightarrow> levels_ok A N T' L' \<and> linked T' L' l \<and> length L \<le> length L' \<and>
     (\<forall>j < l. L' ! j = L ! j \<and> (\<forall>(b, p) \<in> L ! j. bt_heap T' p = bt_heap T p)) \<and>
     ents (bt_heap T') (L' ! l) = insert (k, r) (ents (bt_heap T) (L ! l))"

lemma linked_frame:
  assumes "linked T L i" and "\<forall>j < length L. i < j \<longrightarrow> (\<forall>(b, p) \<in> L ! j. bt_heap T' p = bt_heap T p)"
    and "\<forall>j. i \<le> j \<longrightarrow> L' ! j = L ! j" and "length L' = length L"
  shows "linked T' L' i"
  unfolding linked_def
proof (intro allI impI)
  fix j assume j: "i \<le> j" "Suc j < length L'"
  then have "ents (bt_heap T') (L ! Suc j) = ents (bt_heap T) (L ! Suc j)"
    by (intro ents_cong) (use assms(2,4) in auto)
  then show "ents (bt_heap T') (L' ! Suc j) = L' ! j" using assms(1,3,4) j by (simp add: linked_def)
qed

lemma inserted_room:
  assumes "levels_ok A N T L" "linked T L l" "l < length L" "(b, p) \<in> L ! l" "bt_heap T p = Some pg" "page_at (addrs A N) l (L ! l) b pg"
    "takes (addrs A N) l (L ! l) b k r pg" "num pg + 1 < cardinality"
  shows "inserted A N T L l k r (write_page p (fst (insert_key k r (num pg) pg)) T) L"
proof -
  note s = store_room [OF assms(1,3-8)]
  have "linked (write_page p (fst (insert_key k r (num pg) pg)) T) L l"
    by (rule linked_frame [OF assms(2)]) (use s(3) in auto)
  then show ?thesis unfolding inserted_def using s(1,2)
  proof (intro conjI allI impI order_refl, goal_cases)
    case (4 j)
    show ?case by (rule s(3)) (use 4(4) assms(3) in auto)
  qed (assumption | rule refl)+
qed

text \<open>A full page, split into \<open>p\<close> and \<open>q\<close>: the step of \<^verbatim>\<open>store\<close>, the case of the root, and the case in
  which the separator has been inserted above.\<close>

definition split_tree :: "(nat \<Rightarrow> ptr) \<Rightarrow> ptr \<Rightarrow> page \<Rightarrow> page \<Rightarrow> page \<Rightarrow> btree \<Rightarrow> btree" where
  "split_tree A p pg pg' sib T =
     write_page p pg' (write_page (A (bt_allocs T)) sib (snd (new_page A (page_new (level (hdr pg))) T)))"

lemma split_tree_simps:
  "bt_root (split_tree A p pg pg' sib T) = bt_root T" "bt_height (split_tree A p pg pg' sib T) = bt_height T"
  "bt_allocs (split_tree A p pg pg' sib T) = bt_allocs T + 1"
  by (simp_all add: split_tree_def new_page_simps)

lemma store_full:
  assumes "bt_heap T p = Some pg" "\<not> is_deleted (hdr pg)" "store_right 0 k pg T = Done False" "count pg = Some n"
    and "\<not> n < cardinality - 1" and "split_insert p (A (bt_allocs T)) n k r pg = (pg', sib, sk, ret)"
  defines "Ts \<equiv> split_tree A p pg pg' sib T"
  shows "store A (Suc f) 0 p k r T =
    (if bt_root T = p then
       Done (ret, setNewRoot (A (bt_allocs Ts)) (snd (new_page A (page_root p sk (A (bt_allocs T)) (Suc (level (hdr pg)))) Ts)))
     else andthen (btree_insert_internal A f sk (A (bt_allocs T)) (Suc (level (hdr pg))) Ts) (\<lambda>T. Done (ret, T)))"
  using assms by (simp add: load_def split_tree_def new_page_simps split: prod.splits)

lemma root_level:
  assumes "levels_ok A N T L" and "l < length L" and "(b, p) \<in> L ! l"
  shows "bt_root T = p \<longleftrightarrow> l = length L - 1" and "bt_root T = p \<Longrightarrow> b = LONG_MIN"
proof -
  have top: "L ! (length L - 1) = {(LONG_MIN, bt_root T)}" by (rule levels_okD(6) [OF assms(1)])
  have "l = length L - 1" if "bt_root T = p"
  proof (rule ccontr)
    assume "l \<noteq> length L - 1"
    then have "p \<notin> snd ` (L ! (length L - 1))" using levels_disjoint [OF assms, of "length L - 1"] assms(2) by simp
    then show False using top that by simp
  qed
  then show "bt_root T = p \<longleftrightarrow> l = length L - 1" "bt_root T = p \<Longrightarrow> b = LONG_MIN"
    using top assms(3) by auto
qed

lemma inserted_new_root:
  assumes lo: "levels_ok A N T L" and l: "l < length L" and p: "(b, p) \<in> L ! l" and pg: "bt_heap T p = Some pg" "page_at (addrs A N) l (L ! l) b pg"
    and t: "takes (addrs A N) l (L ! l) b k r pg" and full: "num pg = cardinality - 1" and root: "bt_root T = p" and N: "bt_allocs T + 1 < N"
    and si: "split_insert p (A (bt_allocs T)) (num pg) k r pg = (pg', sib, sk, ret)"
  defines "Ts \<equiv> split_tree A p pg pg' sib T"
  shows "\<exists>L'. inserted A N T L l k r
    (setNewRoot (A (bt_allocs Ts)) (snd (new_page A (page_root p sk (A (bt_allocs T)) (Suc (level (hdr pg)))) Ts))) L'"
proof -
  define q where "q = A (bt_allocs T)"
  define C where "C = insert (sk, q) (L ! l)"
  have N0: "bt_allocs T < N" using N by simp
  note s = store_split [OF lo l p pg t full N0 si, folded q_def, folded split_tree_def [of A p pg pg' sib T, folded q_def] C_def, folded Ts_def]
  have Ts: "bt_height Ts = bt_height T" "bt_allocs Ts = bt_allocs T + 1" "bt_allocs Ts < N" using N by (simp_all add: Ts_def split_tree_simps)
  have top: "l = length L - 1" "LONG_MIN < sk" using root_level [OF lo l p] root s(4) by (auto simp: between_def)
  have fr: "\<forall>j < length L. j \<noteq> l \<longrightarrow> (\<forall>(b, p) \<in> L ! j. bt_heap Ts p = bt_heap T p)" using s(3) by blast
  obtain T' L' where def: "T' = setNewRoot (A (bt_allocs Ts)) (snd (new_page A (page_root (bt_root T) sk q (Suc l)) Ts))"
      "L' = L[l := C] @ [{(LONG_MIN, A (bt_allocs Ts))}]" by blast
  note nr = new_root_levels [OF lo top(1) q_def C_def s(1) top(2) s(5) Ts fr, folded def]
  have LL: "L' ! j = (if j = l then C else L ! j)" if "j < length L" for j using that by (simp add: def(2) nth_append)
  have "\<forall>(b, p) \<in> C. bt_heap T' p = bt_heap Ts p" using nr(3) LL [OF l] l by (metis (full_types))
  then have "ents (bt_heap T') (L' ! l) = insert (k, r) (ents (bt_heap T) (L ! l))"
    using ents_cong s(2) LL [OF l] by simp
  moreover have "L' ! j = L ! j \<and> (\<forall>(b, p) \<in> L ! j. bt_heap T' p = bt_heap T p)" if "j < l" for j
  proof -
    have j: "j < length L" "j \<noteq> l" using that l by auto
    then have eq: "L' ! j = L ! j" using LL by simp
    have "\<forall>(b, p) \<in> L ! j. bt_heap T' p = bt_heap Ts p" using nr(3) j(1) unfolding eq [symmetric] by blast
    moreover have "\<forall>(b, p) \<in> L ! j. bt_heap Ts p = bt_heap T p" using fr j by blast
    ultimately show ?thesis using eq by fastforce
  qed
  ultimately have "inserted A N T L l k r T' L'" unfolding inserted_def using nr(1,2) by (simp add: def(2))
  then show ?thesis using page_atD(2) [OF pg(2)] root by (auto simp: def(1) q_def)
qed

lemma inserted_above:
  assumes l: "Suc l < length L" and lk: "linked T L l"
    and e: "ents (bt_heap Ts) C = insert (k, r) (ents (bt_heap T) (L ! l))" and C: "C = insert (sk, q) (L ! l)"
    and fr: "\<And>j. j < length L \<Longrightarrow> j \<noteq> l \<Longrightarrow> \<forall>(b, p) \<in> L ! j. bt_heap Ts p = bt_heap T p"
    and up: "inserted A N Ts (L[l := C]) (Suc l) sk q T' L'"
  shows "inserted A N T L l k r T' L'"
proof -
  note i = up [unfolded inserted_def]
  have e1: "ents (bt_heap Ts) (L[l := C] ! Suc l) = L ! l"
    using lk l ents_cong [OF fr [OF l]] by (simp add: linked_def)
  have "L' ! l = L[l := C] ! l \<and> (\<forall>(b, p) \<in> L[l := C] ! l. bt_heap T' p = bt_heap Ts p)" using i lessI by blast
  then have L'l: "L' ! l = C" "\<forall>(b, p) \<in> C. bt_heap T' p = bt_heap Ts p" using l by simp_all
  have ents': "ents (bt_heap T') (L' ! Suc l) = L' ! l" using i e1 L'l(1) by (simp add: C)
  have "linked T' L' l"
    unfolding linked_def
  proof (intro allI impI)
    fix j assume "l \<le> j" "Suc j < length L'"
    then show "ents (bt_heap T') (L' ! Suc j) = L' ! j" using i ents' by (cases "j = l") (auto simp: linked_def)
  qed
  moreover have "ents (bt_heap T') (L' ! l) = insert (k, r) (ents (bt_heap T) (L ! l))"
    using ents_cong [OF L'l(2)] L'l(1) e by simp
  moreover have "L' ! j = L ! j \<and> (\<forall>(b, p) \<in> L ! j. bt_heap T' p = bt_heap T p)" if "j < l" for j
  proof -
    have "L' ! j = L[l := C] ! j \<and> (\<forall>(b, p) \<in> L[l := C] ! j. bt_heap T' p = bt_heap Ts p)" using i less_SucI [OF that] by blast
    then have "L' ! j = L ! j" "\<forall>(b, p) \<in> L ! j. bt_heap T' p = bt_heap Ts p" using that by simp_all
    moreover have "\<forall>(b, p) \<in> L ! j. bt_heap Ts p = bt_heap T p" using fr [of j] that l by simp
    ultimately show ?thesis by fastforce
  qed
  ultimately show ?thesis using i by (simp add: inserted_def)
qed

text \<open>\<^verbatim>\<open>btree_insert_internal\<close> finds the page on its level and stores the entry there.\<close>

lemma insert_internal_step:
  assumes lo: "levels_ok A N T L" and lk: "linked T L l" and l: "l < length L" and k: "LONG_MIN \<le> k" and f: "length L \<le> f"
  obtains b p where "(b, p) \<in> L ! l" "covers (L ! l) b k"
    "\<And>ret T'. store A f 0 p k r T = Done (ret, T') \<Longrightarrow> ret \<noteq> 0 \<Longrightarrow> btree_insert_internal A (Suc f) k r l T = Done T'"
proof -
  have "(LONG_MIN, bt_root T) \<in> L ! (length L - 1)" "length L - 1 < length L" using levels_okD(6) [OF lo] l by auto
  then obtain rt where rt: "bt_heap T (bt_root T) = Some rt" "level (hdr rt) = length L - 1"
    using level_okD [OF levels_okD(7) [OF lo]] page_atD(2) by metis
  obtain b p where p: "descend_to f l k (bt_root T) T = Done p" "(b, p) \<in> L ! l" "covers (L ! l) b k"
    using descend_root(1) [OF lo lk l f k] by blast
  have "btree_insert_internal A (Suc f) k r l T = Done T'" if "store A f 0 p k r T = Done (ret, T')" "ret \<noteq> 0" for ret T'
    using rt l p(1) that by (simp add: load_def)
  then show thesis using that p by blast
qed

lemma store_inserts:
  assumes "levels_ok A N T L" "linked T L l" "l < length L" "(b, p) \<in> L ! l" "covers (L ! l) b k" "ready A N T L l k r"
    "fuel \<ge> 2 * (length L - l) + length L" "bt_allocs T + (length L - l) < N"
  shows "\<exists>ret T' L'. store A fuel 0 p k r T = Done (ret, T') \<and> ret \<noteq> 0 \<and> inserted A N T L l k r T' L'"
  using assms
proof (induction "length L - l" arbitrary: fuel T L l b p k r)
  case (Suc n)
  note lo = Suc.prems(1) and lk = Suc.prems(2) and l = Suc.prems(3) and p = Suc.prems(4)
  obtain pg where pg: "bt_heap T p = Some pg" "page_at (addrs A N) l (L ! l) b pg" using level_okD [OF levels_okD(7) [OF lo l] p] by metis
  note d = page_atD [OF pg(2)]
  note t = ready_takes [OF Suc.prems(6) p pg(1) Suc.prems(5)]
  obtain f where f: "fuel = Suc f" using Suc.prems(7) l by (cases fuel) auto
  have sr: "store_right 0 k pg T = Done False" by (rule go_right_no(2) [OF levels_okD(7) [OF lo l] pg(2) Suc.prems(5)])
  have cnt: "count pg = Some (num pg)" by (rule count_node [OF d(1)])
  show ?case
  proof (cases "num pg < cardinality - 1")
    case True
    let ?T = "write_page p (fst (insert_key k r (num pg) pg)) T"
    have "store A fuel 0 p k r T = Done (p, ?T)" using pg(1) d(3) sr cnt True by (simp add: f load_def)
    moreover have "inserted A N T L l k r ?T L" by (rule inserted_room [OF lo lk l p pg t]) (use True in simp)
    moreover have "p \<in> A ` {..<bt_allocs T}" using levels_okD(8) [OF lo l] p by force
    moreover from this have "p \<noteq> 0" using levels_okD(2,11) [OF lo] by auto
    ultimately show ?thesis by blast
  next
    case False
    then have full: "num pg = cardinality - 1" using node_okD(2) [OF d(1)] by simp
    define q where "q = A (bt_allocs T)"
    obtain pg' sib sk ret where si: "split_insert p q (num pg) k r pg = (pg', sib, sk, ret)" by (metis prod_cases4)
    note si' = si [unfolded q_def]
    define Ts where "Ts = split_tree A p pg pg' sib T"
    define C where "C = insert (sk, q) (L ! l)"
    have N: "bt_allocs T < N" using Suc.prems(8) by simp
    note s = store_split [OF lo l p pg t full N si', folded q_def, folded split_tree_def [of A p pg pg' sib T, folded q_def] C_def, folded Ts_def]
    note step = store_full [where A = A, OF pg(1) d(3) sr cnt False si', folded q_def Ts_def, of f]
    show ?thesis
    proof (cases "bt_root T = p")
      case True
      obtain L' where "inserted A N T L l k r (setNewRoot (A (bt_allocs Ts)) (snd (new_page A (page_root p sk q (Suc (level (hdr pg)))) Ts))) L'"
        using inserted_new_root [OF lo l p pg t full True _ si', folded q_def Ts_def] Suc.prems(8) l
        by fastforce
      then show ?thesis unfolding f step using True s(7) by auto
    next
      case False
      then have up: "Suc l < length L" using root_level(1) [OF lo l p] l by simp
      let ?L = "L[l := C]"
      have lo1: "levels_ok A N Ts ?L" by (rule s(9)) (use up in simp)
      have lk1: "linked Ts ?L (Suc l)"
        by (rule linked_frame [of T]) (use lk s(3) in \<open>auto simp: linked_def\<close>)
      have "ents (bt_heap Ts) (?L ! Suc l) = L ! l"
        using lk up ents_cong [OF s(3) [OF up]] by (simp add: linked_def)
      moreover have "sk \<notin> fst ` (L ! l)" using s(4) p by (fastforce simp: between_def)
      ultimately have rdy: "ready A N Ts ?L (Suc l) sk q"
        using s(5,6) fresh [OF lo l order_refl N] by (simp add: ready_def q_def)
      obtain g where g: "f = Suc g" using f Suc.prems(7) up by (cases f) auto
      have g': "g \<ge> 2 * (length ?L - Suc l) + length ?L" "length ?L \<le> g" "Suc l < length ?L" using Suc.prems(7) f g up by auto
      have Ns: "bt_allocs Ts + (length ?L - Suc l) < N" using Suc.prems(8) up by (simp add: Ts_def split_tree_simps)
      obtain b' p' where p': "(b', p') \<in> ?L ! Suc l" "covers (?L ! Suc l) b' sk"
          "\<And>ret T'. store A g 0 p' sk q Ts = Done (ret, T') \<Longrightarrow> ret \<noteq> 0 \<Longrightarrow> btree_insert_internal A (Suc g) sk q (Suc l) Ts = Done T'"
        using insert_internal_step [OF lo1 lk1 g'(3) s(6) g'(2)] by metis
      obtain ret' T' L' where st: "store A g 0 p' sk q Ts = Done (ret', T')" "ret' \<noteq> 0" "inserted A N Ts ?L (Suc l) sk q T' L'"
        using Suc.hyps(1) [OF _ lo1 lk1 g'(3) p'(1,2) rdy g'(1)] Suc.hyps(2) Ns by fastforce
      have "inserted A N T L l k r T' L'" by (rule inserted_above [OF up lk s(2) C_def s(3) st(3)])
      moreover have "store A fuel 0 p k r T = Done (ret, T')"
        unfolding f step using False p'(3) [OF st(1,2)] d(2) by (simp add: g del: btree_insert_internal.simps)
      ultimately show ?thesis using s(7) by blast
    qed
  qed
qed simp

lemma tree_insert:
  assumes "tree_map A N T m" and "m k = None" and "LONG_MIN \<le> k" "k \<le> LONG_MAX" and "v \<noteq> 0" "v \<notin> ran m" "v \<notin> addrs A N"
    and "3 * bt_height T < fuel" and "bt_allocs T + bt_height T < N"
  shows "\<exists>T'. btree_insert A fuel k v T = Done T' \<and> tree_map A N T' (m(k \<mapsto> v))"
proof -
  obtain f where f: "fuel = Suc f" "3 * bt_height T \<le> f" using assms(8) by (cases fuel) auto
  obtain L b p pg where L: "levels_ok A N T L" "linked T L 0" "\<forall>k v. m k = Some v \<longleftrightarrow> (k, v) \<in> ents (bt_heap T) (L ! 0)"
      "descend f k (bt_root T) T = Done p" "(b, p) \<in> L ! 0" "covers (L ! 0) b k"
    by (rule leaf_at [OF assms(1) _ assms(3), of f]) (use f(2) in auto)
  have l: "0 < length L" "bt_height T = length L" using levels_okD(3,4) [OF L(1)] by auto
  have new: "(k, x) \<notin> ents (bt_heap T) (L ! 0)" for x using L(3) assms(2) by (metis option.distinct(1))
  have "k \<notin> fst ` ents (bt_heap T) (L ! 0)" "v \<notin> snd ` ents (bt_heap T) (L ! 0)"
  proof -
    have "(x, v) \<notin> ents (bt_heap T) (L ! 0)" for x using L(3) assms(6) by (metis ranI)
    then show "k \<notin> fst ` ents (bt_heap T) (L ! 0)" "v \<notin> snd ` ents (bt_heap T) (L ! 0)" using new by force+
  qed
  then have "ready A N T L 0 k v" using assms(3-7) by (simp add: ready_def)
  moreover have "f \<ge> 2 * (length L - 0) + length L" using f(2) l(2) by simp
  ultimately obtain ret T' L' where st: "store A f 0 p k v T = Done (ret, T')" "ret \<noteq> 0" "inserted A N T L 0 k v T' L'"
    using store_inserts [OF L(1,2) l(1) L(5,6)] assms(9) l(2) by fastforce
  have "btree_insert A fuel k v T = Done T'" using L(4) st(1,2) by (simp add: f(1))
  moreover have "tree_map A N T' (m(k \<mapsto> v))"
    unfolding tree_map_def
  proof (intro exI [of _ L'] conjI allI)
    show "levels_ok A N T' L'" "linked T' L' 0" using st(3) by (auto simp: inserted_def)
    show "(m(k \<mapsto> v)) k' = Some v' \<longleftrightarrow> (k', v') \<in> ents (bt_heap T') (L' ! 0)" for k' v'
      using st(3) L(3) new by (auto simp: inserted_def)
  qed
  ultimately show ?thesis by blast
qed

text \<open>C1: insertion into the tree. Inserting a key that is not stored returns, keeps the tree well formed and
  adds exactly the pair: the splits and new roots on the way lose nothing. The value must not be
  \<^verbatim>\<open>NULL\<close>, not be stored already, and not be the address of a page; the allocator must have a page
  for every level and one more.\<close>

theorem btree_insert_correct:
  assumes "tree_map A N T m" and "m k = None" and "LONG_MIN \<le> k" "k \<le> LONG_MAX" and "v \<noteq> 0" "v \<notin> ran m" "v \<notin> addrs A N"
    and "3 * bt_height T < fuel" and "bt_allocs T + bt_height T < N"
  shows "\<exists>T'. btree_insert A fuel k v T = Done T' \<and> tree_map A N T' (m(k \<mapsto> v))"
  by (rule tree_insert [OF assms])

theorem btree_insert_correct_witness:
  "\<exists>T'. btree_insert demo_alloc 7 12 9 demo_tree = Done T' \<and> tree_map demo_alloc 10 T' (demo_map(12 \<mapsto> 9))"
  using btree_insert_correct [OF demo_tree_map, of 12 9 7]
  by (auto simp: demo_map_def demo_addrs demo_tree_def LONG_MIN_def LONG_MAX_def ran_def split: if_splits)

text \<open>The constructor makes an empty tree.\<close>

lemma btree_new_empty:
  assumes "inj_on A {..<N}" and "0 \<notin> addrs A N" and "0 < N"
  shows "tree_map A N (btree_new A) Map.empty"
proof -
  let ?L = "[{(LONG_MIN, A 0)}]"
  have T: "bt_root (btree_new A) = A 0" "bt_heap (btree_new A) = [A 0 \<mapsto> page_new 0]" "bt_height (btree_new A) = 1" "bt_allocs (btree_new A) = 1"
    by (simp_all add: btree_new_def new_page_simps)
  have "page_at (addrs A N) 0 {(LONG_MIN, A 0)} LONG_MIN (page_new 0)"
    using page_new_facts [of 0] by (auto simp: page_at_def next_ok_def key_set_def pairs_def LONG_MIN_def LONG_MAX_def)
  then have "levels_ok A N (btree_new A) ?L"
    using assms by (simp add: levels_ok_def level_ok_def T LONG_MIN_def LONG_MAX_def)
  moreover have "ents (bt_heap (btree_new A)) (?L ! 0) = {}"
    using page_new_facts [of 0] by (simp add: ents_def page_ents_def pairs_def T)
  ultimately show ?thesis unfolding tree_map_def by (intro exI [of _ ?L]) (simp add: linked_def)
qed

end
