(* ===== verification/FastFair_Delete.thy ===== *)
theory FastFair_Delete
  imports FastFair_Insert
begin

text \<open>
  Deletion and the range scan of the tree, and what they do outside their intended use: an absent
  key, a right-to-left page at the upper bound, a key that is stored already. The witnesses of the tree's properties use small concrete trees.
\<close>

section \<open>Deletion\<close>

lemma pairs_find_ptr:
  assumes "node_ok pg" and "node_ok pg'" and "\<And>k'. find_ptr k' (live pg') = (if k' = k then 0 else find_ptr k' (live pg))"
  shows "(k', v) \<in> pairs pg' \<longleftrightarrow> k' \<noteq> k \<and> (k', v) \<in> pairs pg"
  using find_ptr_node [OF assms(1), of k' v] find_ptr_node [OF assms(2), of k' v] assms(3) [of k'] by (cases "k' = k") auto

text \<open>A page whose keys only get fewer keeps its place.\<close>

lemma page_at_shrink:
  assumes pa: "page_at P 0 C b pg" and ok: "node_ok pg'" and rs: "set (records pg') \<subseteq> set (records pg)" and ps: "pairs pg' \<subseteq> pairs pg"
    and h: "leftmost_ptr (hdr pg') = leftmost_ptr (hdr pg)" "sibling_ptr (hdr pg') = sibling_ptr (hdr pg)"
      "level (hdr pg') = level (hdr pg)" "is_deleted (hdr pg') = is_deleted (hdr pg)"
  shows "page_at P 0 C b pg'"
proof -
  note d = page_atD [OF pa]
  have ks: "key_set pg' \<subseteq> key_set pg" using ps by (auto simp: key_set_pairs)
  have "\<forall>k \<in> e_key ` set (records pg'). b \<le> k" using rs d(6) by blast
  moreover have "\<forall>(b', q) \<in> C. b < b' \<longrightarrow> (\<forall>k \<in> key_set pg'. k < b')" "\<forall>k \<in> key_set pg'. k \<le> LONG_MAX"
    using d(7,8) ks by blast+
  moreover have "\<forall>v \<in> snd ` pairs pg'. v \<notin> P" using ps d(9) by blast
  ultimately show ?thesis unfolding page_at_def using ok h d(2-5) by simp
qed

lemma remove_key_at:
  assumes pa: "page_at P 0 C b pg" and k: "k \<in> key_set pg"
  shows "\<exists>pg'. remove_key k pg = Some (True, pg') \<and> page_at P 0 C b pg' \<and> (\<forall>k' v. (k', v) \<in> pairs pg' \<longleftrightarrow> k' \<noteq> k \<and> (k', v) \<in> pairs pg)"
proof -
  note d = page_atD [OF pa]
  have ok: "page_ok (num pg) pg" using d(1,4) by (simp add: node_ok_leaf)
  obtain states where st: "remove_loop k 0 0 False (records pg) = Some (states, True)" "states \<noteq> []"
      "leaf_ok (num pg - 1) (last states)" "distinct (map e_ptr (take (num pg - 1) (last states)))"
      "num pg - 1 = 0 \<longrightarrow> e_ptr (last states ! 1) = 0" "set (last states) \<subseteq> set (records pg)"
      "\<forall>k'. find_ptr k' (take (num pg - 1) (last states)) = (if k' = k then 0 else find_ptr k' (take (num pg) (records pg)))"
    using remove_states [OF ok k [unfolded key_set_def live_def]] by (elim exE conjE) (rule that)
  obtain pg' where pg': "remove_key k pg = Some (True, pg')" "records pg' = last states" "last_index (hdr pg') = last_index (hdr pg) - 1"
      "leftmost_ptr (hdr pg') = leftmost_ptr (hdr pg)" "sibling_ptr (hdr pg') = sibling_ptr (hdr pg)"
      "level (hdr pg') = level (hdr pg)" "is_deleted (hdr pg') = is_deleted (hdr pg)"
  proof -
    have "remove_loop k (leftmost_ptr (hdr pg)) 0 False (records pg) = Some (states, True)" using st(1) d(4) by simp
    then obtain pg1 where "remove_key k pg = Some (True, pg1)" "records pg1 = last (records pg # states)"
        "last_index (hdr pg1) = last_index (hdr pg) - (if True then 1 else 0)" "leftmost_ptr (hdr pg1) = leftmost_ptr (hdr pg)"
        "sibling_ptr (hdr pg1) = sibling_ptr (hdr pg)" "level (hdr pg1) = level (hdr pg)" "is_deleted (hdr pg1) = is_deleted (hdr pg)"
      by (rule remove_key_eval)
    then show thesis using that [of pg1] st(2) by simp
  qed
  have "0 < num pg" using k by (auto simp: key_set_def live_def intro: gr0I)
  then have n: "num pg' = num pg - 1" "last_index (hdr pg') = int (num pg - 1) - 1"
  proof -
    have li: "last_index (hdr pg') = int (num pg) - 2" unfolding pg'(3) node_okD(8) [OF d(1)] by simp
    show "num pg' = num pg - 1" unfolding num_def [of pg'] li by simp
    show "last_index (hdr pg') = int (num pg - 1) - 1" using li \<open>0 < num pg\<close> by simp
  qed
  have ok': "node_ok pg'" using st n d(4) pg'(2,4) by (simp add: node_ok_leaf page_ok_def)
  have "find_ptr k' (live pg') = (if k' = k then 0 else find_ptr k' (live pg))" for k' using st(7) pg'(2) n(1) by (simp add: live_def)
  note pr = pairs_find_ptr [OF d(1) ok' this]
  moreover have "page_at P 0 C b pg'" by (rule page_at_shrink [OF pa ok']) (use pg' st(6) pr in auto)
  ultimately show ?thesis using pg'(1) by blast
qed

text \<open>One leaf replaced.\<close>

lemma leaf_update:
  assumes lo: "levels_ok A N T L" and lk: "linked T L 0" and p: "(b, p) \<in> L ! 0" and pg: "bt_heap T p = Some pg"
    and pa: "page_at (addrs A N) 0 (L ! 0) b pg'"
  shows "levels_ok A N (write_page p pg' T) L" and "linked (write_page p pg' T) L 0"
    and "\<exists>R. ents (bt_heap T) (L ! 0) = page_ents b pg \<union> R \<and> ents (bt_heap (write_page p pg' T)) (L ! 0) = page_ents b pg' \<union> R"
proof -
  note d = levels_okD [OF lo]
  have l: "0 < length L" using d(3) by simp
  have fr: "\<forall>j < length L. j \<noteq> 0 \<longrightarrow> (\<forall>(b, p') \<in> L ! j. bt_heap (write_page p pg' T) p' = bt_heap T p')"
    using levels_disjoint [OF lo l p] by (force simp: write_page_def)
  have "level_ok (addrs A N) (bt_heap (write_page p pg' T)) 0 (L ! 0)" using level_update [OF d(7) [OF l] p pa] by simp
  from levels_update [OF lo l this _ _ _ _ _ _ _ fr] show "levels_ok A N (write_page p pg' T) L" using d(10) by auto
  show "linked (write_page p pg' T) L 0" by (rule linked_frame [OF lk]) (use fr in auto)
  have "ents (bt_heap T) (L ! 0) = page_ents b (the (bt_heap T p)) \<union> ents (bt_heap T) (L ! 0 - {(b, p)})"
    by (rule ents_remove [OF d(7) [OF l] p]) simp
  moreover have "ents (bt_heap (write_page p pg' T)) (L ! 0) =
      page_ents b (the (bt_heap (write_page p pg' T) p)) \<union> ents (bt_heap T) (L ! 0 - {(b, p)})"
    by (rule ents_remove [OF d(7) [OF l] p]) simp
  ultimately show "\<exists>R. ents (bt_heap T) (L ! 0) = page_ents b pg \<union> R \<and> ents (bt_heap (write_page p pg' T)) (L ! 0) = page_ents b pg' \<union> R"
    using pg by auto
qed

lemma leaf_ents: "page_at P 0 C b pg \<Longrightarrow> page_ents b pg = pairs pg"
  using page_atD(4) by (auto simp: page_ents_def)

text \<open>C7: deletion from the tree. Deleting a stored key returns after one pass, removes exactly its pair
  and keeps the tree well formed.\<close>

theorem btree_delete_correct:
  assumes "tree_map A N T m" and "m k = Some v" and "LONG_MIN \<le> k" and "bt_height T < fuel"
  shows "\<exists>T'. btree_delete fuel k T = Done T' \<and> tree_map A N T' (m(k := None))"
proof -
  obtain f where f: "fuel = Suc f" "bt_height T \<le> f" using assms(4) by (cases fuel) auto
  obtain L b p pg where L: "levels_ok A N T L" "linked T L 0" "\<forall>k v. m k = Some v \<longleftrightarrow> (k, v) \<in> ents (bt_heap T) (L ! 0)"
      "descend f k (bt_root T) T = Done p" "(b, p) \<in> L ! 0" "covers (L ! 0) b k" "bt_heap T p = Some pg"
      "page_at (addrs A N) 0 (L ! 0) b pg" "\<And>v. m k = Some v \<longleftrightarrow> (k, v) \<in> pairs pg"
    by (rule leaf_at [OF assms(1) f(2) assms(3)]) (rule that)
  note d = levels_okD [OF L(1)]
  have kv: "(k, v) \<in> pairs pg" by (rule iffD1 [OF L(9) assms(2)])
  then have fp: "find_ptr k (live pg) = v" "v \<noteq> 0" using find_ptr_node [OF page_atD(1) [OF L(8)], of k v] by auto
  have "k \<in> key_set pg" using kv by (force simp: key_set_pairs)
  then obtain pg' where pg': "remove_key k pg = Some (True, pg')" "page_at (addrs A N) 0 (L ! 0) b pg'"
      "\<forall>k' v. (k', v) \<in> pairs pg' \<longleftrightarrow> k' \<noteq> k \<and> (k', v) \<in> pairs pg"
    using remove_key_at [OF L(8)] by blast
  let ?T = "write_page p pg' T"
  note u = leaf_update [OF L(1,2,5,7) pg'(2)]
  obtain g where g: "f = Suc g" using f d(3,4) by (cases f) auto
  have sub: "snd ` (L ! 0) \<subseteq> addrs A N" using d(3) d(8) [of 0] d(11) by auto
  have "walk_leaves f k p T = Done (p, v)"
    unfolding g using walk_leaves_at [OF d(7) L(7,8,6) sub, of g] fp d(3) by simp
  moreover have "p \<in> A ` {..<bt_allocs T}" using d(3) d(8) [of 0] L(5) by force
  then have "p \<noteq> 0" using d(2,11) by auto
  ultimately have "btree_delete fuel k T = Done ?T" using L(4,7) pg'(1) by (simp add: f(1) page_remove_def load_def)
  moreover have "tree_map A N ?T (m(k := None))"
    unfolding tree_map_def
  proof (intro exI [of _ L] conjI allI)
    fix k' v'
    obtain R where R: "ents (bt_heap T) (L ! 0) = pairs pg \<union> R" "ents (bt_heap ?T) (L ! 0) = pairs pg' \<union> R"
      using u(3) by (auto simp: leaf_ents [OF L(8)] leaf_ents [OF pg'(2)])
    have "(k, v') \<notin> ents (bt_heap ?T) (L ! 0)"
      using ents_covering [OF levels_okD(7) [OF u(1)] L(5) _ L(6), of pg' v'] d(3) pg'(3) leaf_ents [OF pg'(2)] by simp
    then show "(m(k := None)) k' = Some v' \<longleftrightarrow> (k', v') \<in> ents (bt_heap ?T) (L ! 0)"
      using L(3) R pg'(3) by auto
  qed (use u in auto)
  ultimately show ?thesis by blast
qed

theorem btree_delete_correct_witness:
  "\<exists>T'. btree_delete 3 15 demo_tree = Done T' \<and> tree_map demo_alloc 10 T' (demo_map(15 := None))"
  using btree_delete_correct [OF demo_tree_map, of 15 2 3] by (simp add: demo_map_def LONG_MIN_def demo_tree_def)

section \<open>Deletion of an absent key\<close>

lemma descend_safe:
  assumes lo: "levels_ok A N T L" and lk: "linked T L 0" and l: "l < length L" and p: "(b, p) \<in> L ! l" "covers (L ! l) b k"
  shows "descend fuel k p T = More \<or> (\<exists>b' q. descend fuel k p T = Done q \<and> (b', q) \<in> L ! 0 \<and> covers (L ! 0) b' k)"
  using l p
proof (induction fuel arbitrary: l b p)
  case (Suc f)
  obtain pg where pg: "bt_heap T p = Some pg" "page_at (addrs A N) l (L ! l) b pg"
    using level_okD [OF levels_okD(7) [OF lo Suc.prems(1)] Suc.prems(2)] by metis
  show ?case
  proof (cases l)
    case 0
    then show ?thesis using Suc.prems(2,3) page_atD(4) [OF pg(2)] pg(1) by (auto simp: load_def)
  next
    case (Suc l')
    have "ents (bt_heap T) (L ! l) = L ! l'" using lk Suc Suc.prems(1) by (auto simp: linked_def)
    then obtain b' q where q: "linear_search k pg T = Done q" "(b', q) \<in> L ! l'" "covers (L ! l') b' k"
      using descend_step [of "addrs A N" T l' "L ! l" "L ! l'" b p k pg] levels_okD(7) [OF lo Suc.prems(1)] Suc.prems(2,3) pg Suc by auto
    then show ?thesis using Suc.IH [OF _ q(2,3)] Suc.prems(1) Suc page_atD(4) [OF pg(2)] pg(1) by (simp add: load_def)
  qed
qed simp

lemma covers_unique:
  assumes "level_ok P h l C" and "(b, p) \<in> C" "covers C b k" and "(b', q) \<in> C" "covers C b' k"
  shows "q = p"
proof -
  have "\<not> b < b'" "\<not> b' < b" using assms by (fastforce simp: covers_def)+
  then show ?thesis using level_ok_inj(2) [OF assms(1)] assms(2,4) by force
qed

lemma remove_key_absent_at:
  assumes pa: "page_at P 0 C b pg" and k: "k \<notin> key_set pg"
  shows "\<exists>pg'. remove_key k pg = Some (False, pg') \<and> page_at P 0 C b pg' \<and> pairs pg' = pairs pg \<and> sibling_ptr (hdr pg') = sibling_ptr (hdr pg)"
proof -
  note d = page_atD [OF pa]
  note n = node_okD [OF d(1)]
  have e: "live pg @ records pg ! num pg # drop (Suc (num pg)) (records pg) = records pg"
    unfolding live_def by (rule id_take_nth_drop [symmetric]) (use n(1,2) in simp)
  have "remove_loop k (leftmost_ptr (hdr pg)) 0 False (records pg) = Some ([], False)"
    using remove_miss [OF n(3,4), of k "leftmost_ptr (hdr pg)" "drop (Suc (num pg)) (records pg)"] k unfolding e key_set_def by blast
  then obtain pg' where pg': "remove_key k pg = Some (False, pg')" "records pg' = records pg" "last_index (hdr pg') = last_index (hdr pg)"
      "leftmost_ptr (hdr pg') = leftmost_ptr (hdr pg)" "sibling_ptr (hdr pg') = sibling_ptr (hdr pg)"
      "level (hdr pg') = level (hdr pg)" "is_deleted (hdr pg') = is_deleted (hdr pg)"
    by (rule remove_key_eval) simp
  have l: "num pg' = num pg" "live pg' = live pg" "pairs pg' = pairs pg" using pg'(2,3) by (simp_all add: num_def live_def pairs_def)
  have "node_ok pg'" using d(1) pg' l(1) by (simp add: node_ok_def page_ok_def)
  then have "page_at P 0 C b pg'" by (rule page_at_shrink [OF pa]) (use pg' l in auto)
  then show ?thesis using pg'(1,5) l(3) by blast
qed

text \<open>C31: deleting a key that is not stored never returns when the leaf it belongs to has a right sibling:
  the search loop leaves the page in \<^verbatim>\<open>p\<close>, \<^verbatim>\<open>remove\<close> fails and \<^verbatim>\<open>btree_delete\<close> calls itself with the same
  key, without end.\<close>

theorem btree_delete_absent_loops:
  assumes "tree_map A N T m" and "m k = None" and "LONG_MIN \<le> k"
    and "descend (bt_height T) k (bt_root T) T = Done p" and "bt_heap T p = Some pg" and "sibling_ptr (hdr pg) \<noteq> 0"
  shows "btree_delete fuel k T = More"
proof -
  obtain L b p' pg' where L: "levels_ok A N T L" "linked T L 0" "\<forall>k v. m k = Some v \<longleftrightarrow> (k, v) \<in> ents (bt_heap T) (L ! 0)"
      "descend (bt_height T) k (bt_root T) T = Done p'" "(b, p') \<in> L ! 0" "covers (L ! 0) b k" "bt_heap T p' = Some pg'"
      "page_at (addrs A N) 0 (L ! 0) b pg'" "\<And>v. m k = Some v \<longleftrightarrow> (k, v) \<in> pairs pg'"
    by (rule leaf_at [OF assms(1) order_refl assms(3)]) (rule that)
  have eq: "p' = p" "pg' = pg" using L(4,7) assms(4,5) by simp_all
  have "k \<notin> key_set pg" using L(9) assms(2) eq by (auto simp: key_set_pairs)
  then show ?thesis
    using L(1,2,5,8) assms(5,6) unfolding eq
  proof (induction fuel arbitrary: T pg)
    case (Suc f)
    note d = levels_okD [OF Suc.prems(2)]
    have l: "0 < length L" using d(3) by simp
    have top: "length L - 1 < length L" "(LONG_MIN, bt_root T) \<in> L ! (length L - 1)" "covers (L ! (length L - 1)) LONG_MIN k"
      using l d(6) assms(3) by (auto simp: covers_def)
    have sub: "snd ` (L ! 0) \<subseteq> addrs A N" using d(8) [OF l] d(11) by blast
    have f0: "find_ptr k (live pg) = 0" using Suc.prems(1) by (auto simp: find_ptr_absent key_set_def)
    have w: "walk_leaves f k p T = More \<or> walk_leaves f k p T = Done (p, 0)"
      using walk_leaves_at [OF d(7) [OF l] Suc.prems(6) Suc.prems(5) _ sub] L(6) f0 Suc.prems(7) by (cases f) auto
    obtain pg' where pg': "remove_key k pg = Some (False, pg')" "page_at (addrs A N) 0 (L ! 0) b pg'" "pairs pg' = pairs pg"
        "sibling_ptr (hdr pg') = sibling_ptr (hdr pg)"
      using remove_key_absent_at [OF Suc.prems(5,1)] by blast
    note u = leaf_update [OF Suc.prems(2,3,4,6) pg'(2)]
    have "p \<in> A ` {..<bt_allocs T}" using d(8) [OF l] Suc.prems(4) by force
    then have p0: "p \<noteq> 0" using d(2,11) by auto
    have "btree_delete f k (write_page p pg' T) = More"
      by (rule Suc.IH [of pg']) (use Suc.prems pg' u in \<open>auto simp: key_set_pairs\<close>)
    then have rest: "andthen (walk_leaves f k p T) (\<lambda>(p, t). if p = 0 then Done T
         else andthen (page_remove k p T) (\<lambda>(ret, T). if ret then Done T else btree_delete f k T)) = More"
      using w p0 pg'(1) Suc.prems(6) by (auto simp: page_remove_def load_def)
    show ?case
      using descend_safe [OF Suc.prems(2,3) top, of f]
    proof (elim disjE exE conjE)
      fix b' q
      assume q: "descend f k (bt_root T) T = Done q" "(b', q) \<in> L ! 0" "covers (L ! 0) b' k"
      then have "q = p" using covers_unique [OF d(7) [OF l] Suc.prems(4) L(6)] by blast
      then show ?thesis using q(1) rest by simp
    qed simp
  qed simp
qed

lemma demo_descend: "descend 2 12 (bt_root demo_tree) demo_tree = Done 512"
  by code_simp

theorem btree_delete_absent_loops_witness: "btree_delete 100 12 demo_tree = More"
proof -
  have d: "descend (bt_height demo_tree) 12 (bt_root demo_tree) demo_tree = Done 512"
    using demo_descend by (simp add: demo_tree_def)
  have h: "bt_heap demo_tree 512 = Some (demo_leaf 1024 [\<lparr>e_key = 10, e_ptr = 1\<rparr>, \<lparr>e_key = 15, e_ptr = 2\<rparr>])"
    by (simp add: demo_tree_def)
  show ?thesis
    by (rule btree_delete_absent_loops [OF demo_tree_map _ _ d h])
      (simp_all add: demo_map_def LONG_MIN_def demo_leaf_def header_new_def)
qed

section \<open>The range scan\<close>

definition in_range :: "entry_key_t \<Rightarrow> entry_key_t \<Rightarrow> entry \<Rightarrow> bool" where
  "in_range lo up e \<longleftrightarrow> lo < e_key e \<and> e_key e < up"

text \<open>No key above \<open>lo\<close> reaches \<open>up\<close>, so the scan goes on with the next page.\<close>

definition below :: "entry_key_t \<Rightarrow> entry_key_t \<Rightarrow> entry list \<Rightarrow> bool" where
  "below lo up es \<longleftrightarrow> (\<forall>e \<in> set es. lo < e_key e \<longrightarrow> e_key e < up)"

lemma range_forward_scan:
  assumes "i = length xs" and "xs \<noteq> []" and "nonnull es" and "e_ptr z = 0" and "distinct (e_ptr (last xs) # map e_ptr es)"
    and "sorted_wrt (\<lambda>a b. e_key a < e_key b) es"
  shows "range_forward lo up i (xs @ es @ z # ts) = Some (map e_ptr (filter (in_range lo up) es), below lo up es)"
  using assms
proof (induction es arbitrary: xs i)
  case Nil
  then show ?case by (subst range_forward.simps) (auto simp: below_def)
next
  case (Cons e es)
  have nth: "(xs @ (e # es) @ z # ts) ! i = e" "(xs @ (e # es) @ z # ts) ! (i - 1) = last xs"
    using Cons.prems(1,2) by (auto simp: nth_append last_conv_nth)
  have IH: "range_forward lo up (i + 1) ((xs @ [e]) @ es @ z # ts) = Some (map e_ptr (filter (in_range lo up) es), below lo up es)"
    by (rule Cons.IH) (use Cons.prems in auto)
  have big: "\<forall>x \<in> set es. \<not> in_range lo up x" if "up \<le> e_key e" using that Cons.prems(6) by (auto simp: in_range_def)
  show ?case
    using Cons.prems nth IH big
    by (subst range_forward.simps) (auto simp: in_range_def below_def filter_empty_conv not_less)
qed

lemma range_page_forward:
  assumes ok: "node_ok pg" and fw: "IS_FORWARD (switch_counter (hdr pg))" and n: "0 < num pg"
  shows "range_page lo up this pg = Some (map e_ptr (filter (in_range lo up) (live pg)), below lo up (live pg))"
proof -
  note d = node_okD [OF ok]
  obtain e es where e: "live pg = e # es" using d(7) n by (cases "live pg") auto
  have rs: "records pg = live pg @ records pg ! num pg # drop (Suc (num pg)) (records pg)"
    unfolding live_def by (rule id_take_nth_drop) (use d(1,2) in simp)
  have e0: "records pg ! 0 = e" by (subst rs) (simp add: e)
  have f: "range_forward lo up 1 (records pg) = Some (map e_ptr (filter (in_range lo up) es), below lo up es)"
    using range_forward_scan [of 1 "[e]" es "records pg ! num pg" lo up "drop (Suc (num pg)) (records pg)"] d(3-6) e
    by (subst rs) simp
  have "\<forall>x \<in> set es. \<not> in_range lo up x" if "up \<le> e_key e" using that d(5) e by (auto simp: in_range_def)
  then show ?thesis
    using fw e0 f d(3) by (auto simp: range_page_def range_first_def Let_def e in_range_def below_def filter_empty_conv not_less)
qed

text \<open>The leaves are scanned from left to right, and only the last one may be empty. Insertions alone
  lead to such a state.\<close>

definition scannable :: "btree \<Rightarrow> bool" where
  "scannable T \<longleftrightarrow> (\<forall>p pg. bt_heap T p = Some pg \<longrightarrow> level (hdr pg) = 0 \<longrightarrow>
     IS_FORWARD (switch_counter (hdr pg)) \<and> (num pg = 0 \<longrightarrow> sibling_ptr (hdr pg) = 0))"

lemma range_page_empty:
  assumes ok: "node_ok pg" and fw: "IS_FORWARD (switch_counter (hdr pg))" and n: "num pg = 0"
  shows "\<exists>more. range_page lo up this pg = Some ([], more)"
proof -
  note d = node_okD [OF ok]
  have "e_ptr (records pg ! 0) = 0" "e_ptr (records pg ! 1) = 0" "1 < length (records pg)" using d(1,4,9) n by (auto simp: cardinality_eq)
  moreover from this have "range_forward lo up 1 (records pg) = Some ([], True)" by (subst range_forward.simps) simp
  ultimately show ?thesis using fw by (simp add: range_page_def range_first_def Let_def) auto
qed

text \<open>The pairs of the level from the page with bound \<open>b\<close> on.\<close>

lemma range_from_leaf:
  assumes lo: "level_ok P (bt_heap T) 0 C" and sc: "scannable T" and p: "(b, p) \<in> C" "p \<noteq> 0"
    and m: "\<And>k v. m k = Some v \<longleftrightarrow> (k, v) \<in> ents (bt_heap T) C" and fuel: "card {x \<in> C. b < fst x} + 1 < fuel"
    and P0: "0 \<notin> snd ` C"
  shows "\<exists>es :: entry list. linear_search_range fuel lb ub this p T = Done (map e_ptr es) \<and> sorted_wrt (\<lambda>a b. e_key a < e_key b) es \<and>
    (\<lambda>e. (e_key e, e_ptr e)) ` set es = {(k, v). m k = Some v \<and> lb < k \<and> k < ub \<and> b \<le> k}"
  using p fuel
proof (induction fuel arbitrary: b p)
  case (Suc f)
  obtain pg where pg: "bt_heap T p = Some pg" "page_at P 0 C b pg" using level_okD [OF lo Suc.prems(1)] by metis
  note d = page_atD [OF pg(2)]
  let ?es = "filter (in_range lb ub) (live pg)" and ?sib = "sibling_ptr (hdr pg)"
  have fw: "IS_FORWARD (switch_counter (hdr pg))" and n0: "num pg = 0 \<longrightarrow> ?sib = 0"
    using sc pg(1) d(2) by (auto simp: scannable_def)
  obtain more where rp: "range_page lb ub this pg = Some (map e_ptr ?es, more)" "num pg \<noteq> 0 \<longrightarrow> more = below lb ub (live pg)"
  proof (cases "num pg = 0")
    case True
    then show thesis using range_page_empty [OF d(1) fw True, of lb ub this] that by (auto simp: live_def)
  next
    case False
    then show thesis using range_page_forward [OF d(1) fw, of lb ub this] that by auto
  qed
  have srt: "sorted_wrt (\<lambda>a b. e_key a < e_key b) ?es" using node_okD(5) [OF d(1)] by (rule sorted_wrt_filter)
  have cov: "m k = Some v \<longleftrightarrow> (k, v) \<in> pairs pg" if "covers C b k" for k v
    using m ents_covering [OF lo Suc.prems(1) pg(1) that] leaf_ents [OF pg(2)] by simp
  have in_pg: "b \<le> k \<and> covers C b k \<and> m k = Some v" if "(k, v) \<in> pairs pg" for k v
  proof -
    have "k \<in> key_set pg" using that by (force simp: key_set_pairs)
    then have "covers C b k" using d(6,8) key_set_sub [of pg] by (auto simp: covers_def)
    then show ?thesis using cov that by (auto simp: covers_def)
  qed
  have es: "(\<lambda>e. (e_key e, e_ptr e)) ` set ?es = {(k, v). (k, v) \<in> pairs pg \<and> lb < k \<and> k < ub}"
    by (auto simp: pairs_def in_range_def)
  show ?case
  proof (cases "more \<and> ?sib \<noteq> 0")
    case False
    have all: "{(k, v). (k, v) \<in> pairs pg \<and> lb < k \<and> k < ub} = {(k, v). m k = Some v \<and> lb < k \<and> k < ub \<and> b \<le> k}"
    proof (cases "?sib = 0")
      case True
      then have "covers C b k" if "b \<le> k" for k using d(5) that by (fastforce simp: covers_def next_ok_def)
      then show ?thesis using cov in_pg by auto
    next
      case sib: False
      then have "num pg \<noteq> 0" "\<not> more" using False n0 by auto
      then have "\<not> below lb ub (live pg)" using rp(2) by simp
      then obtain e where "e \<in> set (live pg)" "lb < e_key e" "ub \<le> e_key e" by (auto simp: below_def)
      then obtain x where x: "x \<in> key_set pg" "lb < x" "ub \<le> x" by (auto simp: key_set_def)
      have "covers C b k" if "b \<le> k" "k < ub" for k
        unfolding covers_def using that x d(8) [OF _ _ x(1)] by (fastforce intro: order_less_trans)
      then show ?thesis using cov in_pg by auto
    qed
    have "linear_search_range (Suc f) lb ub this p T = Done (map e_ptr ?es)"
    proof (cases "more")
      case True
      obtain g where "f = Suc g" using Suc.prems(3) by (cases f) auto
      then show ?thesis using False True rp(1) pg(1) Suc.prems(2) by (simp add: load_def)
    next
      case False
      then show ?thesis using rp(1) pg(1) Suc.prems(2) by (simp add: load_def)
    qed
    then show ?thesis using srt trans [OF es all] by (intro exI [of _ ?es] conjI)
  next
    case True
    then obtain b' where b': "(b', ?sib) \<in> C" "b < b'" "\<forall>(b'', q) \<in> C. b < b'' \<longrightarrow> b' \<le> b''"
      using d(5) by (auto simp: next_ok_def)
    have "{x \<in> C. b' < fst x} \<subset> {x \<in> C. b < fst x}" using b'(1,2) by force
    then have "card {x \<in> C. b' < fst x} < card {x \<in> C. b < fst x}"
      using level_ok_inj(1) [OF lo] by (intro psubset_card_mono) auto
    then have f: "card {x \<in> C. b' < fst x} + 1 < f" using Suc.prems(3) by simp
    obtain es' :: "entry list" where es': "linear_search_range f lb ub this ?sib T = Done (map e_ptr es')" "sorted_wrt (\<lambda>a b. e_key a < e_key b) es'"
        "(\<lambda>e. (e_key e, e_ptr e)) ` set es' = {(k, v). m k = Some v \<and> lb < k \<and> k < ub \<and> b' \<le> k}"
      using Suc.IH [OF b'(1) conjunct2 [OF True] f] by (elim exE conjE) (rule that)
    have "linear_search_range (Suc f) lb ub this p T = Done (map e_ptr (?es @ es'))"
      using rp(1) True pg(1) Suc.prems(2) es'(1) by (simp add: load_def)
    moreover have lt: "e_key x < b'" if "x \<in> set ?es" for x
      using that d(8) [OF b'(1,2)] by (auto simp: key_set_def)
    have ge: "b' \<le> e_key y" if "y \<in> set es'" for y
      using es'(3) that by (metis (mono_tags, lifting) case_prodD image_eqI mem_Collect_eq)
    have "sorted_wrt (\<lambda>a b. e_key a < e_key b) (?es @ es')"
      using srt es'(2) lt ge by (fastforce simp: sorted_wrt_append)
    moreover have "(k, v) \<in> pairs pg \<or> b' \<le> k" if "m k = Some v" "b \<le> k" for k v
    proof (rule disjCI)
      assume "\<not> b' \<le> k"
      then have "covers C b k" using that(2) b'(3) by (fastforce simp: covers_def)
      then show "(k, v) \<in> pairs pg" using cov that(1) by simp
    qed
    then have "(\<lambda>e. (e_key e, e_ptr e)) ` set (?es @ es') = {(k, v). m k = Some v \<and> lb < k \<and> k < ub \<and> b \<le> k}"
      unfolding set_append image_Un es es'(3) using in_pg b'(2) by fastforce
    ultimately show ?thesis by blast
  qed
qed simp


lemma leaf_count:
  assumes "levels_ok A N T L"
  shows "card (L ! 0) \<le> bt_allocs T" and "0 \<notin> snd ` (L ! 0)"
proof -
  note d = levels_okD [OF assms]
  have l: "0 < length L" using d(3) by simp
  have "inj_on snd (L ! 0)" using d(7) [OF l] by (simp add: level_ok_def)
  then have "card (L ! 0) = card (snd ` (L ! 0))" by (simp add: card_image)
  also have "\<dots> \<le> card (A ` {..<bt_allocs T})" by (rule card_mono [OF _ d(8) [OF l]]) simp
  also have "\<dots> \<le> bt_allocs T" using card_image_le [of "{..<bt_allocs T}" A] by simp
  finally show "card (L ! 0) \<le> bt_allocs T" .
  show "0 \<notin> snd ` (L ! 0)" using d(2,11) d(8) [OF l] by blast
qed

lemma search_range_level:
  assumes lo: "levels_ok A N T L" and lk: "linked T L 0" and sc: "scannable T"
    and m: "\<And>k v. m k = Some v \<longleftrightarrow> (k, v) \<in> ents (bt_heap T) (L ! 0)"
    and l: "l < length L" and p: "(b, p) \<in> L ! l" "covers (L ! l) b lb" and fuel: "l + bt_allocs T + 1 < fuel"
  shows "\<exists>es :: entry list. search_range_from fuel lb ub p T = Done (map e_ptr es) \<and> sorted_wrt (\<lambda>a b. e_key a < e_key b) es \<and>
    (\<lambda>e. (e_key e, e_ptr e)) ` set es = {(k, v). m k = Some v \<and> lb < k \<and> k < ub}"
  using l p fuel
proof (induction fuel arbitrary: l b p)
  case (Suc f)
  note d = levels_okD [OF lo]
  obtain pg where pg: "bt_heap T p = Some pg" "page_at (addrs A N) l (L ! l) b pg"
    using level_okD [OF d(7) [OF Suc.prems(1)] Suc.prems(2)] by metis
  have "p \<in> A ` {..<bt_allocs T}" using d(8) [OF Suc.prems(1)] Suc.prems(2) by force
  then have p0: "p \<noteq> 0" using d(2,11) by auto
  show ?case
  proof (cases l)
    case 0
    note lv = d(7) [OF Suc.prems(1)]
    have "{x \<in> L ! l. b < fst x} \<subset> L ! l" using Suc.prems(2) by force
    then have "card {x \<in> L ! l. b < fst x} < card (L ! l)"
      using level_ok_inj(1) [OF lv] by (intro psubset_card_mono)
    then have c: "card {x \<in> L ! 0. b < fst x} + 1 < f" using leaf_count(1) [OF lo] Suc.prems(4) 0 by simp
    obtain es :: "entry list" where es: "linear_search_range f lb ub pg p T = Done (map e_ptr es)" "sorted_wrt (\<lambda>a b. e_key a < e_key b) es"
        "(\<lambda>e. (e_key e, e_ptr e)) ` set es = {(k, v). m k = Some v \<and> lb < k \<and> k < ub \<and> b \<le> k}"
      using range_from_leaf [OF lv [unfolded 0] sc Suc.prems(2) [unfolded 0] p0 m c leaf_count(2) [OF lo], of lb ub pg]
      by (elim exE conjE) (rule that)
    have "b \<le> lb" using Suc.prems(3) by (simp add: covers_def)
    then have "{(k, v). m k = Some v \<and> lb < k \<and> k < ub \<and> b \<le> k} = {(k, v). m k = Some v \<and> lb < k \<and> k < ub}" by auto
    then show ?thesis using es page_atD(4) [OF pg(2)] pg(1) p0 0 by (intro exI [of _ es]) (simp add: load_def)
  next
    case (Suc l')
    have "ents (bt_heap T) (L ! l) = L ! l'" using lk Suc Suc.prems(1) by (auto simp: linked_def)
    then obtain b' q where q: "linear_search lb pg T = Done q" "(b', q) \<in> L ! l'" "covers (L ! l') b' lb"
      using descend_step [of "addrs A N" T l' "L ! l" "L ! l'" b p lb pg] d(7) [OF Suc.prems(1)] Suc.prems(2,3) pg Suc by auto
    have "search_range_from (Suc f) lb ub p T = search_range_from f lb ub q T"
      using page_atD(4) [OF pg(2)] pg(1) p0 Suc q(1) by (simp add: load_def)
    then show ?thesis using Suc.IH [OF _ q(2,3)] Suc.prems(1,4) Suc by simp
  qed
qed simp

text \<open>C8: the range scan. On a tree whose leaves are scanned from left to right, \<^verbatim>\<open>btree_search_range\<close> ends
  and puts into the buffer exactly the values of the keys strictly between \<open>min\<close> and \<open>max\<close>, in the
  order of their keys.\<close>

theorem btree_search_range_correct:
  assumes "tree_map A N T m" and "scannable T" and "LONG_MIN \<le> lo" and "bt_height T + bt_allocs T + 1 < fuel"
  shows "\<exists>es :: entry list. btree_search_range fuel lo up T = Done (map e_ptr es) \<and> sorted_wrt (\<lambda>a b. e_key a < e_key b) es \<and>
    (\<lambda>e. (e_key e, e_ptr e)) ` set es = {(k, v). m k = Some v \<and> lo < k \<and> k < up}"
proof -
  obtain L where L: "levels_ok A N T L" "linked T L 0" "\<forall>k v. m k = Some v \<longleftrightarrow> (k, v) \<in> ents (bt_heap T) (L ! 0)"
    using assms(1) by (auto simp: tree_map_def)
  note d = levels_okD [OF L(1)]
  have "length L - 1 < length L" "(LONG_MIN, bt_root T) \<in> L ! (length L - 1)" "covers (L ! (length L - 1)) LONG_MIN lo"
    using d(3,6) assms(3) by (auto simp: covers_def)
  from search_range_level [OF L(1,2) assms(2) _ this, of m fuel up] show ?thesis
    unfolding btree_search_range_def using L(3) d(4) assms(4) by fastforce
qed

lemma demo_scannable: "scannable demo_tree"
  by (auto simp: scannable_def demo_tree_def demo_leaf_def header_new_def page_root_def IS_FORWARD_def num_def split: if_splits)

theorem btree_search_range_correct_witness:
  "\<exists>es :: entry list. btree_search_range 7 10 30 demo_tree = Done (map e_ptr es) \<and>
    (\<lambda>e. (e_key e, e_ptr e)) ` set es = {(k, v). demo_map k = Some v \<and> 10 < k \<and> k < 30}"
  using btree_search_range_correct [OF demo_tree_map demo_scannable, of 10 7 30] by (auto simp: LONG_MIN_def demo_tree_def)

text \<open>C32: the scan in the other direction is not a range scan. After a deletion a leaf is scanned from
  right to left, and the first key the loop meets is the greatest one; when that key reaches
  \<^verbatim>\<open>max\<close> the function returns at once, and none of the smaller keys of the range is reported.\<close>

theorem range_backward_drops:
  assumes "page_ok n pg" and "bt_heap T p = Some pg" and "p \<noteq> 0" and "\<not> IS_FORWARD (switch_counter (hdr pg))"
    and "0 < n" and "lo < e_key (records pg ! (n - 1))" and "up \<le> e_key (records pg ! (n - 1))" and "0 < fuel"
  shows "linear_search_range fuel lo up pg p T = Done []"
proof -
  obtain f where f: "fuel = Suc f" using assms(8) by (cases fuel) auto
  have "range_backward lo up (n - 1) (records pg) = ([], False)"
    using assms(5-7) by (cases "n - 1") (auto simp: range_first_def)
  then show ?thesis
    using assms(2-4) count_page_ok [OF assms(1)] by (simp add: f load_def range_page_def)
qed

definition demo_back :: page where
  "demo_back = \<lparr>hdr = (header_new 0)\<lparr>last_index := 2, switch_counter := 1\<rparr>, records = demo_entries @ replicate 27 entry_new\<rparr>"

theorem range_backward_drops_witness:
  "linear_search_range 3 5 25 demo_back 512 \<lparr>bt_root = 512, bt_height = 1, bt_heap = [512 \<mapsto> demo_back], bt_allocs = 1\<rparr> = Done [] \<and>
   leaf_scan 10 demo_back = Some 1"
proof -
  have ok: "page_ok 3 demo_back"
    by (simp add: page_ok_def leaf_ok_def demo_back_def demo_entries_def cardinality_eq header_new_def entry_new_def stutter_free_def nth_append)
  have "leaf_scan 10 demo_back = Some 1"
    using leaf_scan_page_ok [OF ok] by (simp add: demo_back_def demo_entries_def)
  then show ?thesis
    using range_backward_drops [OF ok, of "\<lparr>bt_root = 512, bt_height = 1, bt_heap = [512 \<mapsto> demo_back], bt_allocs = 1\<rparr>" 512 5 25 3]
    by (simp add: demo_back_def demo_entries_def header_new_def IS_FORWARD_def nth_append)
qed

section \<open>Inserting a key again\<close>

lemma fast_result_hidden:
  assumes "k \<in> e_key ` set xs" and "sorted_wrt (\<lambda>a b. e_key a < e_key b) xs"
  shows "find_ptr k' (fast_result k p xs) = find_ptr k' xs"
proof -
  obtain pre post where sp: "split_at k xs = (pre, post)" by fastforce
  have xs: "xs = pre @ post" by (rule split_at_append [OF sp])
  have "k \<in> e_key ` set pre" using assms(1) split_at_keys(1) [OF sp] unfolding xs by fastforce
  moreover have "fast_result k p xs = pre @ \<lparr>e_key = k, e_ptr = p\<rparr> # post" by (simp add: fast_result_def sp)
  ultimately show ?thesis unfolding xs by (auto simp: find_ptr_append)
qed

lemma fast_result_length: "length (fast_result k p xs) = length xs + 1"
proof -
  obtain pre post where sp: "split_at k xs = (pre, post)" by fastforce
  then show ?thesis using split_at_append [OF sp] by (simp add: fast_result_def)
qed

lemma odd_plus1: "\<not> IS_FORWARD c \<Longrightarrow> IS_FORWARD (c + 1)"
  unfolding IS_FORWARD_def by (metis even_plus_one_iff mod_2_eq_odd odd_iff_mod_2_eq_one even_iff_mod_2_eq_zero)

lemma fast_result_nonnull:
  assumes "nonnull xs" and "p \<noteq> 0"
  shows "nonnull (fast_result k p xs)"
proof -
  obtain pre post where sp: "split_at k xs = (pre, post)" by fastforce
  then have "fast_result k p xs = pre @ \<lparr>e_key = k, e_ptr = p\<rparr> # post" "xs = pre @ post"
    using split_at_append [OF sp] by (simp_all add: fast_result_def)
  then show ?thesis using assms by auto
qed

text \<open>C33: inserting a key that is stored does not update it. The new pair goes behind the old one, so
  every search in the page, for the key itself and for any other, gives what it gave before; only
  the page is fuller by one entry.\<close>

theorem insert_key_again_hidden:
  assumes "page_ok n pg" and "k \<in> e_key ` set (take n (records pg))" and "n + 1 < cardinality" and "p \<noteq> 0"
    and "p \<notin> e_ptr ` set (take n (records pg))"
  shows "\<exists>pg'. insert_key k p n pg = (pg', n + 1) \<and> (\<forall>k'. leaf_scan k' pg' = leaf_scan k' pg) \<and>
    take (n + 1) (records pg') = fast_result k p (take n (records pg))"
proof -
  note ok = page_okD [OF assms(1)]
  note d = leaf_okD [OF ok(1)]
  let ?xs = "take n (records pg)" and ?z = "records pg ! (n + 1)" and ?ts = "drop (n + 2) (records pg)"
  let ?zs = "?z\<lparr>e_ptr := 0\<rparr> # ?ts"
  have n0: "n \<noteq> 0" using assms(2) by (cases n) auto
  have rs: "records pg = ?xs @ records pg ! n # ?z # ?ts" by (rule array_decomp) (use assms(3) d(1) in simp)
  have lx: "length ?xs = n" "?xs \<noteq> []" using d(1,2) n0 by auto
  let ?r = "?xs @ records pg ! n # ?zs"
  have "set_ptr (n + 1) (e_ptr (records pg ! n)) (records pg) = ?r"
    using set_app(1) [of "?xs @ [records pg ! n]" "n + 1" 0 ?z ?ts] lx rs d(4) by simp
  then have st: "last (insert_states k p 0 n (records pg)) = last (fast_loop k p 0 n ?r)"
    using n0 by (simp add: insert_states_def Let_def fast_loop_nonempty)
  have L: "last (fast_loop k p 0 n ?r) = fast_result k p ?xs @ ?zs"
    using fast_loop_states [of ?xs ?zs k p "records pg ! n"] d(3) lx by auto
  obtain pg' where pg': "insert_key k p n pg = (pg', n + 1)" by (metis insert_key_hdr(5) surjective_pairing)
  have r': "records pg' = fast_result k p ?xs @ ?zs" "IS_FORWARD (switch_counter (hdr pg'))"
  proof -
    have "records pg' = last (insert_states k p 0 n (records pg))"
      using pg' ok(3) by (auto simp: insert_key_def Let_def)
    then show "records pg' = fast_result k p ?xs @ ?zs" unfolding st L .
    show "IS_FORWARD (switch_counter (hdr pg'))"
      using pg' by (auto simp: insert_key_def Let_def odd_plus1 split: if_splits)
  qed
  have fr: "nonnull (fast_result k p ?xs)" "stutter_free (fast_result k p ?xs)" "length (fast_result k p ?xs) = n + 1"
    using fast_result_nonnull [OF d(3) assms(4)] fast_result_stutter [OF d(6) assms(5)] fast_result_length lx by auto
  then obtain e es where es: "fast_result k p ?xs = e # es" by (cases "fast_result k p ?xs") auto
  have "vis (records pg') = fast_result k p ?xs"
    unfolding r'(1) by (rule vis_terminated [OF fr(1,2)]) (simp_all add: es)
  moreover have "leaf_scan k' pg' = Some (find_ptr k' (vis (records pg')))" for k'
    by (rule leaf_scan_forward [OF r'(2), of e "es @ ?zs"]) (simp_all add: r'(1) es)
  ultimately have "leaf_scan k' pg' = leaf_scan k' pg" for k'
    using fast_result_hidden [OF assms(2) d(5)] leaf_scan_page_ok [OF assms(1)] by simp
  moreover have "take (n + 1) (records pg') = fast_result k p ?xs" using r'(1) fr(3) by simp
  ultimately show ?thesis using pg' by blast
qed

theorem insert_key_again_hidden_witness: "\<exists>pg'. insert_key 20 9 3 demo_page = (pg', 4) \<and> leaf_scan 20 pg' = leaf_scan 20 demo_page"
proof -
  have "20 \<in> e_key ` set (take 3 (records demo_page))" "9 \<notin> e_ptr ` set (take 3 (records demo_page))"
    by (simp_all add: demo_page_def demo_entries_def)
  then show ?thesis using insert_key_again_hidden [OF demo_page_ok(1), of 20 9] by (auto simp: cardinality_eq)
qed

end
