(* ===== verification/FastFair_Wrap.thy ===== *)
theory FastFair_Wrap
  imports FastFair_Delete
begin

text \<open>
  The wrapper \<^verbatim>\<open>fast_fair\<close> of \<^verbatim>\<open>fastfair/wrap.cpp\<close>, the index the benchmark calls. The properties state
  what a caller sees through \<^verbatim>\<open>Insert\<close>, \<^verbatim>\<open>Get\<close> and \<^verbatim>\<open>Update\<close> on 64-bit keys.
\<close>

section \<open>The wrapper\<close>

text \<open>Keys are \<^verbatim>\<open>uint64_t\<close> on this side and are converted to \<^verbatim>\<open>int64_t\<close>. \<^verbatim>\<open>Update\<close> inserts the addresses of
  its parameters, which are arguments here. \<^verbatim>\<open>Delete\<close>, \<^verbatim>\<open>Touch\<close> and \<^verbatim>\<open>CleanUp\<close> do nothing.\<close>

definition ff_Init :: "(nat \<Rightarrow> ptr) \<Rightarrow> btree" where
  "ff_Init A = btree_new A"

definition ff_Insert :: "(nat \<Rightarrow> ptr) \<Rightarrow> nat \<Rightarrow> 64 word \<Rightarrow> 64 word \<Rightarrow> btree \<Rightarrow> btree exec" where
  "ff_Insert A fuel key val T = btree_insert A fuel (sint key) val T"


definition ff_Get :: "nat \<Rightarrow> 64 word \<Rightarrow> btree \<Rightarrow> 64 word exec" where
  "ff_Get fuel key T = btree_search fuel (sint key) T"

definition ff_Delete :: "64 word \<Rightarrow> btree \<Rightarrow> btree exec" where
  "ff_Delete key T = Done T"

text \<open>The conversion of the key loses nothing.\<close>

lemma sint_key:
  "LONG_MIN \<le> sint (key :: 64 word)" "sint (key :: 64 word) \<le> LONG_MAX" "sint key = sint key' \<longleftrightarrow> key = key'"
proof -
  have "- (2 ^ 63) \<le> sint key" "sint key < 2 ^ 63"
    using sint_greater_eq [of key] sint_less [of key] by simp_all
  then show "LONG_MIN \<le> sint key" "sint key \<le> LONG_MAX" by (simp_all add: LONG_MIN_def LONG_MAX_def)
  show "sint key = sint key' \<longleftrightarrow> key = key'" using signed_word_eqI by blast
qed

text \<open>C9: a new pair that is inserted comes back. Let a 64-bit key be not stored yet and a value be not
  zero, not stored under any key and not the address of a page of the tree. After \<^verbatim>\<open>Insert\<close> of the pair
  into a well-formed tree \<^verbatim>\<open>Get\<close> of the key returns the value, and \<^verbatim>\<open>Get\<close> of every other 64-bit key
  returns what it returned before. The conditions on the value are needed: a scan skips an entry
  with the same pointer as its neighbour, and 0 stands for not found; so the pair of a key 0 with the value 0,
  which the driver would make of it, is not covered, nor is the insertion of a stored key, which hides
  the new value (see theory \<open>FastFair_Delete\<close>). \<open>N\<close> bounds the pages that are allocated, \<open>fuel\<close> the
  steps of the descent and of the passes back up.\<close>

theorem ff_roundtrip:
  assumes "tree_map A N T m" and "m (sint key) = None" and "val \<noteq> 0" "val \<notin> ran m" "val \<notin> addrs A N"
    and "3 * bt_height T < fuel" and "bt_allocs T + bt_height T < N"
  shows "\<exists>T'. ff_Insert A fuel key val T = Done T' \<and>
    (\<forall>fuel' \<ge> bt_height T'. \<forall>key'. ff_Get fuel' key' T' = (if key' = key then Done val else ff_Get fuel key' T))"
proof -
  obtain T' where T': "btree_insert A fuel (sint key) val T = Done T'" "tree_map A N T' (m(sint key \<mapsto> val))"
    using tree_insert [OF assms(1,2) sint_key(1,2) assms(3-7)] by blast
  have "ff_Get fuel' key' T' = Done (found (m(sint key \<mapsto> val)) (sint key'))" if "fuel' \<ge> bt_height T'" for fuel' key'
    unfolding ff_Get_def by (rule tree_search [OF T'(2) sint_key(1) that])
  moreover have "ff_Get fuel key' T = Done (found m (sint key'))" for key'
    unfolding ff_Get_def by (rule tree_search [OF assms(1) sint_key(1)]) (use assms(6) in simp)
  ultimately show ?thesis using T'(1) by (intro exI [of _ T']) (auto simp: ff_Insert_def found_def sint_key(3))
qed

lemma demo_new:
  "v \<notin> {1, 2, 3} \<Longrightarrow> v \<notin> ran demo_map" "bt_height demo_tree = 2" "bt_allocs demo_tree = 3"
  by (auto simp: demo_map_def ran_def demo_tree_def split: if_splits)

theorem ff_roundtrip_witness:
  "\<exists>T'. ff_Insert demo_alloc 7 12 9 demo_tree = Done T' \<and> ff_Get (bt_height T') 12 T' = Done 9"
proof -
  have "demo_map (sint (12 :: 64 word)) = None" by (simp add: demo_map_def)
  then show ?thesis
    using ff_roundtrip [OF demo_tree_map, of 12 9 7] by (auto simp: demo_new demo_addrs)
qed



end
