(* ===== verification/Hash_Funcs.thy ===== *)
theory Hash_Funcs
  imports PM_Prelude
begin

text \<open>
  The hash functions of \<^verbatim>\<open>util/hash.h\<close> (and its copy in \<^verbatim>\<open>CCEH-PMDK/src/hash.h\<close>) on byte
  sequences: \<open>jenkins\<close>, \<open>murmur2\<close> and \<open>xxhash\<close> with their inner loops, the dispatch table
  \<open>hash_funcs\<close> and its default entry \<open>hash_h\<close>. The first entry of the table forwards to
  \<^verbatim>\<open>std::_Hash_bytes\<close>, an internal routine of the C++ run-time library; it is the parameter
  \<open>std\<close> of every definition that hashes with it. The lemmas give the algebra of the mixing
  steps (rotations, multiplication by odd constants, xor-shifts) and from it that the
  xxhash code never maps two 8-byte keys to the same value.
\<close>

unbundle bit_operations_syntax

type_synonym std_hash = "8 word list \<Rightarrow> size_t \<Rightarrow> size_t"

section \<open>Jenkins\<close>

text \<open>The key bytes are read through a \<^verbatim>\<open>const char*\<close>, which is signed on x86-64, so a byte is
  sign-extended when it is added. The seed is not used.\<close>

definition jenkins_step :: "64 word \<Rightarrow> 8 word \<Rightarrow> 64 word" where
  "jenkins_step hash0 c =
     (let hash1 = hash0 + scast c;
          hash2 = hash1 + push_bit 10 hash1
      in hash2 XOR drop_bit 6 hash2)"

definition jenkins :: "8 word list \<Rightarrow> size_t \<Rightarrow> size_t" where
  "jenkins bytes seed =
     (let hash = foldl jenkins_step 0 bytes;
          hash = hash + push_bit 3 hash;
          hash = hash XOR drop_bit 11 hash
      in hash + push_bit 15 hash)"

section \<open>Murmur 2\<close>

text \<open>Little-endian reads of the first bytes behind a pointer.\<close>

fun le_bytes :: "8 word list \<Rightarrow> 64 word" where
  "le_bytes [] = 0"
| "le_bytes (b # bs) = ucast b + push_bit 8 (le_bytes bs)"

definition read32 :: "8 word list \<Rightarrow> 32 word" where
  "read32 bs = ucast (le_bytes (take 4 bs))"

definition murmur2_m :: "32 word" where
  "murmur2_m = 0x5bd1e995"

text \<open>The loop that mixes four bytes at a time: the hash and the bytes left.\<close>

function murmur2_loop :: "32 word \<Rightarrow> 8 word list \<Rightarrow> 32 word \<times> 8 word list" where
  "murmur2_loop hash0 data =
     (if 4 \<le> length data then
        let k = read32 data;
            k = k * murmur2_m;
            k = k XOR drop_bit 24 k;
            k = k * murmur2_m;
            hash1 = hash0 * murmur2_m;
            hash2 = hash1 XOR k
        in murmur2_loop hash2 (drop 4 data)
      else (hash0, data))"
  by pat_completeness auto
termination
  by (relation "measure (\<lambda>(h, d). length d)") auto

declare murmur2_loop.simps [simp del]

text \<open>The \<^verbatim>\<open>switch\<close> on the remaining length falls through from 3 to 2 to 1.\<close>

definition murmur2_tail :: "32 word \<Rightarrow> 8 word list \<Rightarrow> 32 word" where
  "murmur2_tail hash0 data =
     (let len = length data;
          h3 = (if len = 3 then hash0 XOR push_bit 16 (ucast (data ! 2)) else hash0);
          h2 = (if len = 3 \<or> len = 2 then h3 XOR push_bit 8 (ucast (data ! 1)) else h3)
      in if len = 3 \<or> len = 2 \<or> len = 1 then (h2 XOR ucast (data ! 0)) * murmur2_m else h2)"

definition murmur2 :: "8 word list \<Rightarrow> size_t \<Rightarrow> size_t" where
  "murmur2 key seed =
     (let h0 = ucast (seed XOR of_nat (length key)) :: 32 word;
          (h1, rest) = murmur2_loop h0 key;
          h2 = murmur2_tail h1 rest;
          h3 = h2 XOR drop_bit 13 h2;
          h4 = h3 * murmur2_m;
          h5 = h4 XOR drop_bit 15 h4
      in ucast h5)"

section \<open>xxhash\<close>

definition NUMBER64_1 :: "64 word" where "NUMBER64_1 = 11400714785074694791"
definition NUMBER64_2 :: "64 word" where "NUMBER64_2 = 14029467366897019727"
definition NUMBER64_3 :: "64 word" where "NUMBER64_3 = 1609587929392839161"
definition NUMBER64_4 :: "64 word" where "NUMBER64_4 = 9650029242287828579"
definition NUMBER64_5 :: "64 word" where "NUMBER64_5 = 2870177450012600261"

definition shifting_hash :: "64 word \<Rightarrow> nat \<Rightarrow> 64 word" where
  "shifting_hash x r = push_bit r x OR drop_bit (64 - r) x"

text \<open>Both arms of the two reads load the same bytes, one through a struct field.\<close>

definition hash_read64_align :: "8 word list \<Rightarrow> nat \<Rightarrow> 64 word" where
  "hash_read64_align ptr align =
     (if align = 0 then le_bytes (take 8 ptr) else le_bytes (take 8 ptr))"

definition hash_read32_align :: "8 word list \<Rightarrow> nat \<Rightarrow> 32 word" where
  "hash_read32_align ptr align = (if align = 0 then read32 ptr else read32 ptr)"

text \<open>One accumulator of the 32-byte stripe loop.\<close>

definition stripe_round :: "64 word \<Rightarrow> 64 word \<Rightarrow> 64 word" where
  "stripe_round v input = shifting_hash (v + input * NUMBER64_2) 31 * NUMBER64_1"

text \<open>The \<^verbatim>\<open>do ... while (p <= limitation)\<close> loop; \<open>p <= end - 32\<close> says that 32 bytes are left.\<close>

function stripe_loop ::
    "64 word \<times> 64 word \<times> 64 word \<times> 64 word \<Rightarrow> 8 word list \<Rightarrow> nat
     \<Rightarrow> (64 word \<times> 64 word \<times> 64 word \<times> 64 word) \<times> 8 word list" where
  "stripe_loop (v1, v2, v3, v4) p align =
     (let v1' = stripe_round v1 (hash_read64_align p align);
          v2' = stripe_round v2 (hash_read64_align (drop 8 p) align);
          v3' = stripe_round v3 (hash_read64_align (drop 16 p) align);
          v4' = stripe_round v4 (hash_read64_align (drop 24 p) align);
          p' = drop 32 p
      in if 32 \<le> length p' then stripe_loop (v1', v2', v3', v4') p' align
         else ((v1', v2', v3', v4'), p'))"
  by pat_completeness auto
termination
  by (relation "measure (\<lambda>(v, p, a). length p)") auto

declare stripe_loop.simps [simp del]

definition merge_round :: "64 word \<Rightarrow> 64 word \<Rightarrow> 64 word" where
  "merge_round hash v =
     (hash XOR (shifting_hash (v * NUMBER64_2) 31 * NUMBER64_1)) * NUMBER64_1 + NUMBER64_4"

text \<open>The tail: eight bytes at a time, then at most one four-byte read, then single bytes.\<close>

function tail8_loop :: "64 word \<Rightarrow> 8 word list \<Rightarrow> nat \<Rightarrow> 64 word \<times> 8 word list" where
  "tail8_loop hash p align =
     (if 8 \<le> length p then
        let k1 = hash_read64_align p align;
            k1 = k1 * NUMBER64_2;
            k1 = shifting_hash k1 31;
            k1 = k1 * NUMBER64_1;
            hash = hash XOR k1;
            hash = shifting_hash hash 27 * NUMBER64_1 + NUMBER64_4
        in tail8_loop hash (drop 8 p) align
      else (hash, p))"
  by pat_completeness auto
termination
  by (relation "measure (\<lambda>(h, p, a). length p)") auto

declare tail8_loop.simps [simp del]

definition tail4 :: "64 word \<Rightarrow> 8 word list \<Rightarrow> nat \<Rightarrow> 64 word \<times> 8 word list" where
  "tail4 hash p align =
     (if 4 \<le> length p then
        (shifting_hash (hash XOR (ucast (hash_read32_align p align) * NUMBER64_1)) 23
           * NUMBER64_2 + NUMBER64_3, drop 4 p)
      else (hash, p))"

fun tail1_loop :: "64 word \<Rightarrow> 8 word list \<Rightarrow> 64 word" where
  "tail1_loop hash [] = hash"
| "tail1_loop hash (b # p) =
     tail1_loop (shifting_hash (hash XOR (ucast b * NUMBER64_5)) 11 * NUMBER64_1) p"

definition avalanche :: "64 word \<Rightarrow> 64 word" where
  "avalanche hash =
     (let hash = hash XOR drop_bit 33 hash;
          hash = hash * NUMBER64_2;
          hash = hash XOR drop_bit 29 hash;
          hash = hash * NUMBER64_3
      in hash XOR drop_bit 32 hash)"

definition hash_compute :: "8 word list \<Rightarrow> 64 word \<Rightarrow> nat \<Rightarrow> 64 word" where
  "hash_compute input seed align =
     (let (hash, p) =
        (if 32 \<le> length input then
           let ((v1, v2, v3, v4), p) =
                 stripe_loop (seed + NUMBER64_1 + NUMBER64_2, seed + NUMBER64_2, seed + 0,
                              seed - NUMBER64_1) input align;
               hash = shifting_hash v1 1 + shifting_hash v2 7 + shifting_hash v3 12
                      + shifting_hash v4 18
           in (merge_round (merge_round (merge_round (merge_round hash v1) v2) v3) v4, p)
         else (seed + NUMBER64_5, input));
          hash = hash + of_nat (length input);
          (hash, p) = tail8_loop hash p align;
          (hash, p) = tail4 hash p align
      in avalanche (tail1_loop hash p))"

text \<open>The alignment of the data decides the last argument only.\<close>

definition xxhash :: "64 word \<Rightarrow> 8 word list \<Rightarrow> size_t \<Rightarrow> size_t" where
  "xxhash address data seed =
     (if address AND 7 = 0 then hash_compute data seed 1 else hash_compute data seed 0)"

section \<open>The dispatch table\<close>

text \<open>The keys of all tables are 8-byte integers, hashed through their address.\<close>

definition key_bytes :: "Key_t \<Rightarrow> 8 word list" where
  "key_bytes k = map (\<lambda>i. ucast (drop_bit (8 * i) k)) [0..<8]"

definition hash_funcs :: "std_hash \<Rightarrow> nat \<Rightarrow> (64 word \<Rightarrow> 8 word list \<Rightarrow> size_t \<Rightarrow> size_t) option" where
  "hash_funcs std i =
     (if i = 0 then Some (\<lambda>_. std)
      else if i = 1 then Some (\<lambda>_. murmur2)
      else if i = 2 then Some (\<lambda>_. jenkins)
      else if i = 3 then Some xxhash
      else None)"

definition h_seed :: size_t where
  "h_seed = 0xc70697"

definition hash_h :: "std_hash \<Rightarrow> 8 word list \<Rightarrow> size_t \<Rightarrow> size_t" where
  "hash_h std key seed = std key seed"

section \<open>Reading keys back\<close>

lemma ucast_byte_64: "(ucast (ucast (w :: 64 word) :: 8 word) :: 64 word) = take_bit 8 w"
  by (rule bit_word_eqI) (auto simp: bit_simps)

lemma le_bytes_from: "j \<le> 8 \<Longrightarrow> le_bytes (map (\<lambda>i. ucast (drop_bit (8 * i) k)) [j..<8]) = drop_bit (8 * j) k"
proof (induction j rule: inc_induct)
  case base
  have "drop_bit 64 k = 0"
    by (rule bit_word_eqI) (auto simp: bit_simps dest: bit_imp_le_length)
  then show ?case by simp
next
  case (step j)
  have "take_bit 8 (drop_bit (8 * j) k) + push_bit 8 (drop_bit 8 (drop_bit (8 * j) k))
        = drop_bit (8 * j) k"
    by (metis add.commute bits_ident)
  with step show ?case
    by (simp add: upt_conv_Cons ucast_byte_64 drop_bit_drop_bit add.commute)
qed

lemma le_bytes_key_bytes [simp]: "le_bytes (key_bytes k) = k"
  using le_bytes_from [of 0 k] by (simp add: key_bytes_def)

lemma length_key_bytes [simp]: "length (key_bytes k) = 8"
  by (simp add: key_bytes_def)

section \<open>Invertible mixing steps\<close>

lemma mult_inverse_inj:
  assumes "a * c = (1 :: 64 word)" and "x * a = y * a"
  shows "x = y"
proof -
  have "x * a * c = y * a * c" by (simp only: assms(2))
  then show ?thesis by (simp only: mult.assoc assms(1) mult_1_right)
qed

lemma NUMBER64_1_inj: "x * NUMBER64_1 = y * NUMBER64_1 \<Longrightarrow> x = y"
  by (rule mult_inverse_inj [of NUMBER64_1 614540362697595703]) (simp only: NUMBER64_1_def, simp)

lemma NUMBER64_2_inj: "x * NUMBER64_2 = y * NUMBER64_2 \<Longrightarrow> x = y"
  by (rule mult_inverse_inj [of NUMBER64_2 839798700976720815]) (simp only: NUMBER64_2_def, simp)

lemma NUMBER64_3_inj: "x * NUMBER64_3 = y * NUMBER64_3 \<Longrightarrow> x = y"
  by (rule mult_inverse_inj [of NUMBER64_3 16855272203555305545]) (simp only: NUMBER64_3_def, simp)

lemma drop_bit_fixpoint: "0 < n \<Longrightarrow> drop_bit n z = z \<Longrightarrow> z = (0 :: 64 word)"
proof -
  assume n: "0 < n" and z: "drop_bit n z = z"
  have "unat z div 2 ^ n = unat z"
    using arg_cong [OF z, of unat] by (simp only: unat_drop_bit_eq) (simp only: drop_bit_eq_div)
  moreover have "1 < (2::nat) ^ n" using n by (intro one_less_power) simp_all
  ultimately have "unat z = 0"
    by (metis div_less_dividend less_irrefl neq0_conv)
  then show ?thesis by (simp add: unat_eq_0)
qed

lemma xor_swap_eq: "a XOR b = c XOR d \<Longrightarrow> b XOR d = a XOR (c :: 64 word)"
  unfolding bit_eq_iff by (auto simp: bit_xor_iff)

lemma xor_left_inj: "c XOR a = c XOR b \<Longrightarrow> a = (b :: 64 word)"
  unfolding bit_eq_iff by (auto simp: bit_xor_iff)

lemma xor_shift_inj:
  assumes "0 < n" and "x XOR drop_bit n x = y XOR drop_bit n (y :: 64 word)"
  shows "x = y"
proof -
  have "drop_bit n (x XOR y) = x XOR y"
    using xor_swap_eq [OF assms(2)] by simp
  then have "x XOR y = 0" by (rule drop_bit_fixpoint [OF assms(1)])
  then have "x XOR y = x XOR x" by simp
  then show ?thesis using xor_left_inj by blast
qed

lemma bit_shifting_hash:
  "0 < r \<Longrightarrow> r < 64 \<Longrightarrow> n < 64 \<Longrightarrow>
   bit (shifting_hash x r) n = (if r \<le> n then bit x (n - r) else bit x (n + (64 - r)))"
  by (auto simp: shifting_hash_def bit_simps add.commute dest: bit_imp_le_length)

lemma shifting_hash_inj:
  assumes "0 < r" "r < 64" "shifting_hash x r = shifting_hash y r"
  shows "x = y"
proof (rule bit_word_eqI)
  fix n
  assume "n < LENGTH(64)"
  then have n: "n < 64" by simp
  show "bit x n = bit y n"
  proof (cases "n + r < 64")
    case True
    then show ?thesis
      using bit_shifting_hash [of r "n + r" x] bit_shifting_hash [of r "n + r" y] assms by simp
  next
    case False
    then show ?thesis
      using bit_shifting_hash [of r "n + r - 64" x] bit_shifting_hash [of r "n + r - 64" y] assms n
      by (simp add: le_diff_conv2)
  qed
qed

lemma shifting_hash_rotl: "0 < r \<Longrightarrow> r < 64 \<Longrightarrow> shifting_hash x r = word_rotl r x"
  by (rule bit_word_eqI) (simp add: bit_shifting_hash bit_word_rotl_iff mod_if)

lemma avalanche_inj: "avalanche x = avalanche y \<Longrightarrow> x = y"
  unfolding avalanche_def Let_def
  by (drule xor_shift_inj [rotated], simp, drule NUMBER64_3_inj, drule xor_shift_inj [rotated], simp,
      drule NUMBER64_2_inj, drule xor_shift_inj [rotated], simp)

section \<open>xxhash on 8-byte keys\<close>

definition key_round :: "64 word \<Rightarrow> Key_t \<Rightarrow> 64 word" where
  "key_round seed k =
     shifting_hash ((seed + NUMBER64_5 + 8) XOR (shifting_hash (k * NUMBER64_2) 31 * NUMBER64_1)) 27
       * NUMBER64_1 + NUMBER64_4"

lemma tail8_loop_key: "tail8_loop x (key_bytes k) align =
   (shifting_hash (x XOR (shifting_hash (k * NUMBER64_2) 31 * NUMBER64_1)) 27 * NUMBER64_1 + NUMBER64_4, [])"
  by (subst tail8_loop.simps, subst tail8_loop.simps) (simp add: hash_read64_align_def Let_def)

lemma hash_compute_key: "hash_compute (key_bytes k) seed align = avalanche (key_round seed k)"
  by (simp add: hash_compute_def tail8_loop_key tail4_def key_round_def)

lemma key_round_inj: "key_round seed k = key_round seed k' \<Longrightarrow> k = k'"
  unfolding key_round_def add_right_cancel
  by (drule NUMBER64_1_inj, drule shifting_hash_inj [rotated 2], simp, simp, drule xor_left_inj,
      drule NUMBER64_1_inj, drule shifting_hash_inj [rotated 2], simp, simp, drule NUMBER64_2_inj)

text \<open>The xxhash code is collision free on the 8-byte keys the tables store: for one seed,
  two keys with the same hash are equal, whatever the alignment of the two addresses they
  are hashed at.\<close>

theorem xxhash_key_injective:
  "xxhash a (key_bytes k) seed = xxhash b (key_bytes k') seed \<longleftrightarrow> k = k'"
  by (auto simp: xxhash_def hash_compute_key dest!: avalanche_inj key_round_inj)

text \<open>\<open>murmur2\<close> only ever fills the low 32 bits of its 64-bit result.\<close>

theorem murmur2_32bit: "drop_bit 32 (murmur2 key seed) = 0"
  by (rule bit_word_eqI)
     (auto simp: murmur2_def Let_def bit_simps split: prod.splits dest: bit_imp_le_length)

text \<open>The published test vector of the 64-bit function for the empty input.\<close>

lemma hash_compute_empty_vector: "hash_compute [] 0 1 = 0xEF46DB3751D8E999"
  by code_simp

end
