(* ===== verification/Slot_Table.thy ===== *)
theory Slot_Table
  imports PM_Prelude
begin

text \<open>
  What the flat tables of \<^verbatim>\<open>cceh/src\<close> share: an array of key-value cells in which an
  \<open>INVALID\<close> key marks a free cell, and for every key a sequence of candidate cells. The map a
  cell array stores, how it changes when a free cell is filled or a pair is carried to a free
  cell, and the locale \<open>slot_table\<close> of tables in which every key sits in one of its
  candidates: there the search through the candidates computes the stored map.
\<close>

section \<open>The stored map\<close>

definition cell_map :: "Pair list \<Rightarrow> Key_t \<Rightarrow> Value_t option" where
  "cell_map b k = (if k = INVALID then None else map_option p_value (find (\<lambda>p. p_key p = k) b))"

text \<open>The number of cells in use.\<close>

definition used :: "Pair list \<Rightarrow> nat" where
  "used b = length (filter (\<lambda>p. p_key p \<noteq> INVALID) b)"

text \<open>No key occurs twice.\<close>

definition one_cell :: "Pair list \<Rightarrow> bool" where
  "one_cell b \<longleftrightarrow> (\<forall>i < length b. \<forall>j < length b. p_key (b ! i) = p_key (b ! j) \<longrightarrow> p_key (b ! i) \<noteq> INVALID \<longrightarrow> i = j)"

lemma one_cellD: "one_cell b \<Longrightarrow> i < length b \<Longrightarrow> j < length b \<Longrightarrow> p_key (b ! i) = p_key (b ! j) \<Longrightarrow>
    p_key (b ! i) \<noteq> INVALID \<Longrightarrow> i = j"
  by (auto simp: one_cell_def)

lemma cell_map_INVALID [simp]: "cell_map b INVALID = None"
  by (simp add: cell_map_def)

lemma cell_map_None: "k \<noteq> INVALID \<Longrightarrow> cell_map b k = None \<longleftrightarrow> (\<forall>i < length b. p_key (b ! i) \<noteq> k)"
  by (auto simp: cell_map_def find_None_iff in_set_conv_nth)

lemma cell_map_SomeD:
  assumes "cell_map b k = Some v"
  shows "\<exists>i < length b. p_key (b ! i) = k \<and> p_value (b ! i) = v \<and> k \<noteq> INVALID"
proof -
  from assms obtain p where "find (\<lambda>p. p_key p = k) b = Some p" "p_value p = v" "k \<noteq> INVALID"
    by (auto simp: cell_map_def split: if_splits)
  then show ?thesis by (auto simp: find_Some_iff)
qed

lemma cell_map_at:
  assumes "one_cell b" and "i < length b" and "p_key (b ! i) \<noteq> INVALID"
  shows "cell_map b (p_key (b ! i)) = Some (p_value (b ! i))"
proof (cases "cell_map b (p_key (b ! i))")
  case None
  then show ?thesis using assms by (auto simp: cell_map_None)
next
  case (Some v)
  then obtain j where j: "j < length b" "p_key (b ! j) = p_key (b ! i)" "p_value (b ! j) = v"
    using cell_map_SomeD by blast
  then have "j = i" using one_cellD [OF assms(1) j(1) assms(2)] assms(3) by simp
  then show ?thesis using Some j by simp
qed

lemma cell_map_iff:
  assumes "one_cell b"
  shows "cell_map b k = Some v \<longleftrightarrow> k \<noteq> INVALID \<and> (\<exists>i < length b. b ! i = Pair_make k v)"
proof
  assume "cell_map b k = Some v"
  then show "k \<noteq> INVALID \<and> (\<exists>i < length b. b ! i = Pair_make k v)"
    by (auto dest!: cell_map_SomeD simp: Pair_make_def)
next
  assume "k \<noteq> INVALID \<and> (\<exists>i < length b. b ! i = Pair_make k v)"
  then show "cell_map b k = Some v" using cell_map_at [OF assms] by fastforce
qed

lemma cell_map_ext:
  assumes "one_cell b" and "one_cell b'"
    and "\<And>k v. k \<noteq> INVALID \<Longrightarrow> (\<exists>i < length b. b ! i = Pair_make k v) = (\<exists>i < length b'. b' ! i = Pair_make k v)"
  shows "cell_map b = cell_map b'"
proof
  fix k
  show "cell_map b k = cell_map b' k"
  proof (cases "cell_map b k")
    case (Some v)
    then show ?thesis using cell_map_iff [OF assms(1), of k v] cell_map_iff [OF assms(2), of k v] assms(3) by auto
  next
    case None
    moreover have "cell_map b' k \<noteq> Some v" for v
      using None cell_map_iff [OF assms(1), of k v] cell_map_iff [OF assms(2), of k v] assms(3) [of k v] by auto
    ultimately show ?thesis by (cases "cell_map b' k") auto
  qed
qed

lemma one_cell_distinct: "one_cell d \<Longrightarrow> distinct (map p_key (filter (\<lambda>p. p_key p \<noteq> INVALID) d))"
proof (induction d)
  case (Cons p d)
  have "one_cell d"
    unfolding one_cell_def using one_cellD [OF Cons.prems, of "Suc i" "Suc j" for i j] by force
  moreover have "p_key q \<noteq> p_key p" if "p_key p \<noteq> INVALID" "q \<in> set d" for q
    using one_cellD [OF Cons.prems, of 0 "Suc j" for j] that by (fastforce simp: in_set_conv_nth)
  ultimately show ?case using Cons.IH by fastforce
qed simp

lemma card_dom_cell_map:
  assumes "one_cell b"
  shows "finite (dom (cell_map b)) \<and> card (dom (cell_map b)) = used b"
proof -
  let ?ks = "map p_key (filter (\<lambda>p. p_key p \<noteq> INVALID) b)"
  have "dom (cell_map b) = set ?ks"
    using cell_map_at [OF assms] by (auto simp: dom_def in_set_conv_nth dest!: cell_map_SomeD)
  then show ?thesis using distinct_card [OF one_cell_distinct [OF assms]] by (simp add: used_def)
qed

section \<open>Filling a free cell\<close>

lemma place_one_cell:
  assumes "one_cell b" and "i < length b" and "p_key (b ! i) = INVALID" and "cell_map b k = None" and "k \<noteq> INVALID"
  shows "one_cell (b[i := Pair_make k v])"
  using assms unfolding one_cell_def by (auto simp: nth_list_update cell_map_None)

lemma place_cell_map:
  assumes "one_cell b" and "i < length b" and "p_key (b ! i) = INVALID" and "cell_map b k = None" and "k \<noteq> INVALID"
  shows "cell_map (b[i := Pair_make k v]) = (cell_map b)(k \<mapsto> v)"
proof
  fix k'
  let ?b = "b[i := Pair_make k v]"
  note o = place_one_cell [OF assms, of v]
  show "cell_map ?b k' = ((cell_map b)(k \<mapsto> v)) k'"
  proof (cases "k' = k")
    case True
    then show ?thesis using cell_map_at [OF o, of i] assms(2,5) by simp
  next
    case False
    have "cell_map ?b k' = Some w \<longleftrightarrow> cell_map b k' = Some w" for w
    proof -
      have "?b ! l = Pair_make k' w \<longleftrightarrow> b ! l = Pair_make k' w" if "l < length b" "k' \<noteq> INVALID" for l
        using that assms(2,3) False by (cases "l = i") (auto simp: Pair_make_def)
      then show ?thesis unfolding cell_map_iff [OF o] cell_map_iff [OF assms(1)] by auto
    qed
    then have "cell_map ?b k' = cell_map b k'" by (metis option.exhaust)
    then show ?thesis using False by simp
  qed
qed

lemma used_update:
  assumes "i < length b"
  shows "used (b[i := p]) + of_bool (p_key (b ! i) \<noteq> INVALID) = used b + of_bool (p_key p \<noteq> INVALID)"
  using assms
proof (induction b arbitrary: i)
  case (Cons q b)
  then show ?case by (cases i) (auto simp: used_def)
qed simp

lemma place_used:
  "i < length b \<Longrightarrow> p_key (b ! i) = INVALID \<Longrightarrow> k \<noteq> INVALID \<Longrightarrow> used (b[i := Pair_make k v]) = used b + 1"
  using used_update [of i b "Pair_make k v"] by simp

lemma used_le: "used b \<le> length b"
  by (simp add: used_def)

lemma used_less_free: "used b < length b \<Longrightarrow> \<exists>i < length b. p_key (b ! i) = INVALID"
proof (rule ccontr)
  assume "used b < length b" "\<not> (\<exists>i < length b. p_key (b ! i) = INVALID)"
  then have "filter (\<lambda>p. p_key p \<noteq> INVALID) b = b" by (intro filter_True) (auto simp: in_set_conv_nth)
  then show False using \<open>used b < length b\<close> by (simp add: used_def)
qed

lemma used_eq_card: "used b = card {i. i < length b \<and> p_key (b ! i) \<noteq> INVALID}"
  by (simp add: used_def length_filter_conv_card)

section \<open>Carrying a pair to a free cell\<close>

lemma move_cell:
  assumes "one_cell b" and "i < length b" and "j < length b" and "i \<noteq> j"
    and "p_key (b ! j) = INVALID" and "p_key hole = INVALID"
  shows "one_cell (b[j := b ! i, i := hole])" and "cell_map (b[j := b ! i, i := hole]) = cell_map b"
proof -
  let ?b = "b[j := b ! i, i := hole]"
  show o: "one_cell ?b"
    unfolding one_cell_def
  proof (intro allI impI)
    fix l m
    assume lm: "l < length ?b" "m < length ?b" "p_key (?b ! l) = p_key (?b ! m)" "p_key (?b ! l) \<noteq> INVALID"
    have nth: "?b ! x = (if x = i then hole else if x = j then b ! i else b ! x)" if "x < length b" for x
      using that assms(2,3) by (auto simp: nth_list_update)
    have "l \<noteq> i" "m \<noteq> i" using lm assms(6) nth by auto
    moreover define src where "src x = (if x = j then i else x)" for x
    ultimately have "?b ! l = b ! src l" "?b ! m = b ! src m" "src l < length b" "src m < length b"
      using lm assms(2) nth by auto
    then have "src l = src m" using one_cellD [OF assms(1), of "src l" "src m"] lm by simp
    then show "l = m" using \<open>l \<noteq> i\<close> \<open>m \<noteq> i\<close> by (auto simp: src_def split: if_splits)
  qed
  show "cell_map (b[j := b ! i, i := hole]) = cell_map b"
  proof (rule cell_map_ext [OF o assms(1)])
    fix k v
    assume k: "k \<noteq> INVALID"
    show "(\<exists>l < length (b[j := b ! i, i := hole]). b[j := b ! i, i := hole] ! l = Pair_make k v) =
          (\<exists>l < length b. b ! l = Pair_make k v)"
    proof
      assume "\<exists>l < length (b[j := b ! i, i := hole]). b[j := b ! i, i := hole] ! l = Pair_make k v"
      then show "\<exists>l < length b. b ! l = Pair_make k v"
        using assms k by (auto simp: nth_list_update Pair_make_def split: if_splits)
    next
      assume "\<exists>l < length b. b ! l = Pair_make k v"
      then obtain l where l: "l < length b" "b ! l = Pair_make k v" by blast
      then have "l \<noteq> j" using assms(5) k by auto
      then show "\<exists>l < length (b[j := b ! i, i := hole]). b[j := b ! i, i := hole] ! l = Pair_make k v"
        using l assms(2-4) by (intro exI [of _ "if l = i then j else l"]) (auto simp: nth_list_update)
    qed
  qed
qed

section \<open>Copying the pairs of one array into another table\<close>

lemma cell_map_Nil [simp]: "cell_map [] = Map.empty"
  by (rule ext) (simp add: cell_map_def)

lemma cell_map_Cons: "cell_map (p # ps) =
    (if p_key p = INVALID then cell_map ps else (cell_map ps)(p_key p \<mapsto> p_value p))"
  by (rule ext) (auto simp: cell_map_def)

text \<open>The keys of \<open>ps\<close> are distinct and none of them is in \<open>m\<close>.\<close>

definition fresh_for :: "(Key_t \<Rightarrow> Value_t option) \<Rightarrow> Pair list \<Rightarrow> bool" where
  "fresh_for m ps \<longleftrightarrow> distinct (map p_key (filter (\<lambda>p. p_key p \<noteq> INVALID) ps)) \<and>
     (\<forall>p \<in> set ps. p_key p \<noteq> INVALID \<longrightarrow> m (p_key p) = None)"

lemma fresh_for_one_cell: "one_cell b \<Longrightarrow> fresh_for Map.empty b"
  by (simp add: fresh_for_def one_cell_distinct)

lemma fresh_for_skip: "fresh_for m (p # ps) \<Longrightarrow> p_key p = INVALID \<Longrightarrow> fresh_for m ps"
  by (simp add: fresh_for_def)

lemma fresh_for_mono: "fresh_for m ps \<Longrightarrow> m' \<subseteq>\<^sub>m m \<Longrightarrow> fresh_for m' ps"
  unfolding fresh_for_def map_le_def dom_def by fastforce

lemma fresh_for_Cons:
  assumes "fresh_for m (p # ps)" and "p_key p \<noteq> INVALID"
  shows "m (p_key p) = None" and "fresh_for (m(p_key p \<mapsto> v)) ps" and "fresh_for m ps"
    and "m(p_key p \<mapsto> p_value p) ++ cell_map ps = m ++ cell_map (p # ps)"
proof -
  show "m (p_key p) = None" "fresh_for m ps" using assms by (auto simp: fresh_for_def)
  have new: "p_key q \<noteq> p_key p" if "q \<in> set ps" for q
  proof
    assume "p_key q = p_key p"
    then have "p_key p \<in> set (map p_key (filter (\<lambda>p. p_key p \<noteq> INVALID) ps))" 
      using that assms(2) by (auto simp: image_iff intro: bexI [of _ q])
    then show False using assms by (simp add: fresh_for_def)
  qed
  then show "fresh_for (m(p_key p \<mapsto> v)) ps" using assms by (auto simp: fresh_for_def)
  have c: "cell_map ps (p_key p) = None" using new assms(2) by (metis cell_map_None nth_mem)
  show "m(p_key p \<mapsto> p_value p) ++ cell_map ps = m ++ cell_map (p # ps)"
  proof
    fix k
    show "(m(p_key p \<mapsto> p_value p) ++ cell_map ps) k = (m ++ cell_map (p # ps)) k"
      using c assms(2) by (cases "k = p_key p") (simp_all add: cell_map_Cons map_add_def split: option.split)
  qed
qed

section \<open>An array of fresh cells\<close>

lemma cell_map_fresh: "\<forall>p \<in> set b. p_key p = INVALID \<Longrightarrow> cell_map b = Map.empty"
  by (rule ext) (auto simp: cell_map_def find_None_iff)

lemma one_cell_fresh: "\<forall>p \<in> set b. p_key p = INVALID \<Longrightarrow> one_cell b"
  by (auto simp: one_cell_def)

lemma used_fresh: "\<forall>p \<in> set b. p_key p = INVALID \<Longrightarrow> used b = 0"
  by (auto simp: used_def filter_empty_conv)

section \<open>Tables with candidate cells\<close>

definition slots_ok :: "nat \<Rightarrow> (Key_t \<Rightarrow> nat list) \<Rightarrow> Pair list \<Rightarrow> bool" where
  "slots_ok n cand b \<longleftrightarrow> length b = n \<and> one_cell b \<and>
     (\<forall>i < n. p_key (b ! i) \<noteq> INVALID \<longrightarrow> i \<in> set (cand (p_key (b ! i))))"

lemma slots_okD: "slots_ok n cand b \<Longrightarrow> length b = n" "slots_ok n cand b \<Longrightarrow> one_cell b"
  "slots_ok n cand b \<Longrightarrow> i < n \<Longrightarrow> p_key (b ! i) \<noteq> INVALID \<Longrightarrow> i \<in> set (cand (p_key (b ! i)))"
  by (auto simp: slots_ok_def)

lemma slots_ok_fresh: "length b = n \<Longrightarrow> \<forall>p \<in> set b. p_key p = INVALID \<Longrightarrow> slots_ok n cand b"
  by (auto simp: slots_ok_def one_cell_fresh)

text \<open>A table gives every key a sequence of cells of its array.\<close>

locale slot_table =
  fixes n :: nat and cand :: "Key_t \<Rightarrow> nat list"
  assumes cand_bound: "0 < n \<Longrightarrow> loc \<in> set (cand k) \<Longrightarrow> loc < n"
begin

lemma search_map:
  assumes "slots_ok n cand b" and "k \<noteq> INVALID" and "0 < n"
  shows "map_option (\<lambda>i. p_value (b ! i)) (find (\<lambda>i. p_key (b ! i) = k) (cand k)) = cell_map b k"
proof (cases "find (\<lambda>i. p_key (b ! i) = k) (cand k)")
  case None
  then have "\<forall>i \<in> set (cand k). p_key (b ! i) \<noteq> k" by (auto simp: find_None_iff)
  then have "\<forall>i < n. p_key (b ! i) \<noteq> k" using slots_okD(3) [OF assms(1)] assms(2) by blast
  then have "cell_map b k = None" using slots_okD(1) [OF assms(1)] assms(2) by (simp add: cell_map_None)
  then show ?thesis using None by simp
next
  case (Some i)
  then have i: "i \<in> set (cand k)" "p_key (b ! i) = k" by (auto dest: find_SomeD)
  have "i < length b" using cand_bound [OF assms(3) i(1)] slots_okD(1) [OF assms(1)] by simp
  then show ?thesis using cell_map_at [OF slots_okD(2) [OF assms(1)], of i] i assms(2) Some by simp
qed

lemma place:
  assumes "slots_ok n cand b" and "0 < n" and "loc \<in> set (cand k)" and "p_key (b ! loc) = INVALID"
    and "cell_map b k = None" and "k \<noteq> INVALID"
  shows "slots_ok n cand (b[loc := Pair_make k v])"
    and "cell_map (b[loc := Pair_make k v]) = (cell_map b)(k \<mapsto> v)"
    and "used (b[loc := Pair_make k v]) = used b + 1"
proof -
  have l: "loc < length b" using cand_bound [OF assms(2,3)] slots_okD(1) [OF assms(1)] by simp
  note o = slots_okD(2) [OF assms(1)]
  show "cell_map (b[loc := Pair_make k v]) = (cell_map b)(k \<mapsto> v)"
    by (rule place_cell_map [OF o l assms(4-6)])
  show "used (b[loc := Pair_make k v]) = used b + 1" by (rule place_used [OF l assms(4,6)])
  show "slots_ok n cand (b[loc := Pair_make k v])"
    unfolding slots_ok_def
  proof (intro conjI allI impI)
    fix i
    assume "i < n" "p_key (b[loc := Pair_make k v] ! i) \<noteq> INVALID"
    then show "i \<in> set (cand (p_key (b[loc := Pair_make k v] ! i)))"
      using slots_okD(1,3) [OF assms(1)] assms(3) by (cases "i = loc") auto
  qed (use place_one_cell [OF o l assms(4-6)] slots_okD(1) [OF assms(1)] in auto)
qed

text \<open>A pair may be carried from one of its candidates to another, free one.\<close>

lemma move:
  assumes "slots_ok n cand b" and "i < n" and "j < n" and "i \<noteq> j" and "p_key (b ! j) = INVALID"
    and "p_key (b ! i) \<noteq> INVALID \<Longrightarrow> j \<in> set (cand (p_key (b ! i)))" and "p_key hole = INVALID"
  shows "slots_ok n cand (b[j := b ! i, i := hole])" and "cell_map (b[j := b ! i, i := hole]) = cell_map b"
proof -
  have l: "length b = n" by (rule slots_okD(1) [OF assms(1)])
  note m = move_cell [OF slots_okD(2) [OF assms(1)] _ _ assms(4,5,7)]
  show "cell_map (b[j := b ! i, i := hole]) = cell_map b" using m(2) assms(2,3) l by simp
  show "slots_ok n cand (b[j := b ! i, i := hole])"
    unfolding slots_ok_def
  proof (intro conjI allI impI)
    fix l
    assume l': "l < n" "p_key (b[j := b ! i, i := hole] ! l) \<noteq> INVALID"
    show "l \<in> set (cand (p_key (b[j := b ! i, i := hole] ! l)))"
    proof (cases "l = i \<or> l = j")
      case True
      then show ?thesis using l' l assms(2-4,6,7) by auto
    next
      case False
      then show ?thesis using l' l slots_okD(3) [OF assms(1), of l] by auto
    qed
  qed (use m(1) assms(2,3) l in auto)
qed

end

end
