(* ===== verification/Hash_Interface.thy ===== *)
theory Hash_Interface
  imports PM_Prelude
begin

text \<open>
  The abstract class \<^verbatim>\<open>Hash\<close> of \<^verbatim>\<open>cceh/src/hash.h\<close> that every hash table implements, the test
  program \<^verbatim>\<open>cceh/src/test.cpp\<close> that drives a table through it, and the contract \<open>kv_store\<close> of
  a key-value store. The contract is stated with the keys the store may lose, because some of
  the tables drop pairs while they are resized; the lemmas of the locale say what is left
  after a sequence of insertions.
\<close>

section \<open>The class\<close>

text \<open>The virtual functions; \<open>None\<close> stands for a call that does not return, because it loops or
  ends the process.\<close>

record 's Hash =
  InsertOnly_fn :: "Key_t \<Rightarrow> Value_t \<Rightarrow> 's \<Rightarrow> (bool \<times> 's) option"
  Insert_fn :: "Key_t \<Rightarrow> Value_t \<Rightarrow> 's \<Rightarrow> 's option"
  Delete_fn :: "Key_t \<Rightarrow> 's \<Rightarrow> (bool \<times> 's) option"
  Get_fn :: "Key_t \<Rightarrow> 's \<Rightarrow> Value_t option"

section \<open>The test program\<close>

text \<open>The insertion loop with a thread's range of the keys, each key being its own value.\<close>

fun test_insert :: "'s Hash \<Rightarrow> Key_t list \<Rightarrow> 's \<Rightarrow> 's option" where
  "test_insert H [] s = Some s"
| "test_insert H (k # keys) s =
     (case Insert_fn H k k s of None \<Rightarrow> None | Some s' \<Rightarrow> test_insert H keys s')"

text \<open>The search loop; the result is \<^verbatim>\<open>failedSearch\<close>.\<close>

fun test_search :: "'s Hash \<Rightarrow> Key_t list \<Rightarrow> 's \<Rightarrow> nat \<Rightarrow> nat option" where
  "test_search H [] s failedSearch = Some failedSearch"
| "test_search H (k # keys) s failedSearch =
     (case Get_fn H k s of
        None \<Rightarrow> None
      | Some ret \<Rightarrow> test_search H keys s (if ret \<noteq> k then failedSearch + 1 else failedSearch))"

text \<open>The loops count with an \<^verbatim>\<open>int\<close>, which more than \<open>2 ^ 31 - 1\<close> keys would overflow; \<^verbatim>\<open>atoi\<close>, which reads
  the number of keys, yields no such number.\<close>

definition test_main :: "'s Hash \<Rightarrow> Key_t list \<Rightarrow> 's \<Rightarrow> ('s \<times> nat) option" where
  "test_main H keys s =
     (if 2 ^ 31 \<le> length keys then None
      else case test_insert H keys s of
        None \<Rightarrow> None
      | Some s' \<Rightarrow> map_option (\<lambda>n. (s', n)) (test_search H keys s' 0))"

text \<open>The ranges \<open>[from, to)\<close> the threads of the multi-threaded build get.\<close>

definition test_ranges :: "nat \<Rightarrow> nat \<Rightarrow> (nat \<times> nat) list" where
  "test_ranges numData numThreads =
     (let chunk = numData div numThreads
      in map (\<lambda>i. if i \<noteq> numThreads - 1 then (chunk * i, chunk * (i + 1)) else (chunk * i, numData)) [0..<numThreads])"

text \<open>The search with several threads: each counts its failures, and the counts are summed.\<close>

definition test_search_threads :: "'s Hash \<Rightarrow> Key_t list \<Rightarrow> nat \<Rightarrow> 's \<Rightarrow> nat option" where
  "test_search_threads H keys numThreads s =
     (let failed = map (\<lambda>(lo, to). test_search H (map (\<lambda>i. keys ! i) [lo..<to]) s 0) (test_ranges (length keys) numThreads)
      in if None \<in> set failed then None else Some (sum_list (map the failed)))"

text \<open>Inserting a list of pairs.\<close>

fun insert_all :: "(Key_t \<Rightarrow> Value_t \<Rightarrow> 's \<Rightarrow> 's option) \<Rightarrow> (Key_t \<times> Value_t) list \<Rightarrow> 's \<Rightarrow> 's option" where
  "insert_all ins [] s = Some s"
| "insert_all ins (kv # kvs) s =
     (case ins (fst kv) (snd kv) s of None \<Rightarrow> None | Some s' \<Rightarrow> insert_all ins kvs s')"

lemma test_insert_all: "test_insert H keys s = insert_all (Insert_fn H) (map (\<lambda>k. (k, k)) keys) s"
  by (induction keys arbitrary: s) (auto split: option.splits)

section \<open>The ranges cover the keys\<close>

lemma upt_split: "i \<le> j \<Longrightarrow> j \<le> k \<Longrightarrow> [i..<k] = [i..<j] @ [j..<k]"
  using upt_add_eq_append [of i j "k - j"] by simp

lemma chunks_upt: "concat (map (\<lambda>i. [c * i..<c * (i + 1)]) [0..<n]) = [0..<c * n]"
proof (induction n)
  case (Suc n)
  have "c * n \<le> c * (n + 1)" by simp
  then have "[0..<c * (n + 1)] = [0..<c * n] @ [c * n..<c * (n + 1)]" by (metis le0 upt_split)
  then show ?case using Suc by simp
qed simp

lemma test_ranges_cover:
  assumes "0 < numThreads"
  shows "concat (map (\<lambda>(lo, to). [lo..<to]) (test_ranges numData numThreads)) = [0..<numData]"
proof -
  obtain m where m: "numThreads = Suc m" using assms by (cases numThreads) auto
  let ?c = "numData div numThreads"
  have "map (\<lambda>(lo, to). [lo..<to]) (test_ranges numData numThreads) =
      map (\<lambda>i. [?c * i..<?c * (i + 1)]) [0..<m] @ [[?c * m..<numData]]"
    by (simp add: test_ranges_def m Let_def comp_def cong: map_cong)
  moreover have "?c * m \<le> numData"
    using times_div_less_eq_dividend [of numThreads numData] m by (simp add: mult.commute)
  ultimately show ?thesis using upt_split [of 0 "?c * m" numData]
    by (simp only: concat_append chunks_upt concat.simps append_Nil2 le0)
qed

lemma test_search_add: "test_search H keys s n = map_option (\<lambda>m. n + m) (test_search H keys s 0)"
proof (induction keys arbitrary: n)
  case (Cons k keys)
  note IH = Cons.IH [of "Suc n"] Cons.IH [of "Suc 0"] Cons.IH [of n]
  show ?case by (auto simp: IH(1,2) option.map_comp comp_def split: option.splits) (use IH(3) in simp)
qed (simp)

lemma test_search_append: "test_search H (xs @ ys) s 0 =
    (case test_search H xs s 0 of None \<Rightarrow> None | Some n \<Rightarrow> map_option (\<lambda>m. n + m) (test_search H ys s 0))"
proof -
  have "test_search H (xs @ ys) s n =
      (case test_search H xs s n of None \<Rightarrow> None | Some n \<Rightarrow> test_search H ys s n)" for n
    by (induction xs arbitrary: n) (auto split: option.splits)
  note app = this [of 0]
  show ?thesis
  proof (cases "test_search H xs s 0")
    case (Some n)
    then show ?thesis using app test_search_add [of H ys s n] by simp
  qed (simp add: app)
qed

lemma test_search_concat: "test_search H (concat xss) s 0 =
    (let failed = map (\<lambda>xs. test_search H xs s 0) xss
     in if None \<in> set failed then None else Some (sum_list (map the failed)))"
  by (induction xss) (auto simp: test_search_append Let_def split: option.splits)

text \<open>However many threads the search phase uses, the failures they report add up to what a
  single thread reports: the ranges cut the keys into consecutive pieces without gaps or
  overlaps.\<close>

theorem test_search_threads_equal:
  assumes "0 < numThreads"
  shows "test_search_threads H keys numThreads s = test_search H keys s 0"
proof -
  have "concat (map (\<lambda>(lo, to). map (\<lambda>i. keys ! i) [lo..<to]) (test_ranges (length keys) numThreads)) =
      map (\<lambda>i. keys ! i) (concat (map (\<lambda>(lo, to). [lo..<to]) (test_ranges (length keys) numThreads)))"
    by (simp add: map_concat comp_def case_prod_unfold)
  then have "keys = concat (map (\<lambda>(lo, to). map (\<lambda>i. keys ! i) [lo..<to]) (test_ranges (length keys) numThreads))"
    by (simp add: test_ranges_cover [OF assms] map_nth)
  then have "test_search H keys s 0 =
      test_search H (concat (map (\<lambda>(lo, to). map (\<lambda>i. keys ! i) [lo..<to]) (test_ranges (length keys) numThreads))) s 0"
    by simp
  then show ?thesis
    unfolding test_search_concat test_search_threads_def by (simp add: comp_def case_prod_unfold)
qed

definition map_hash :: "(Key_t \<Rightarrow> Value_t option) Hash" where
  "map_hash = \<lparr>InsertOnly_fn = (\<lambda>k v m. Some (True, m(k \<mapsto> v))), Insert_fn = (\<lambda>k v m. Some (m(k \<mapsto> v))),
     Delete_fn = (\<lambda>k m. Some (False, m)),
     Get_fn = (\<lambda>k m. Some (case m k of None \<Rightarrow> NONE | Some v \<Rightarrow> v))\<rparr>"

theorem test_search_threads_equal_witness:
  "test_search_threads map_hash [5, 6, 7] 2 [5 \<mapsto> 5, 7 \<mapsto> 7] = Some 1"
  unfolding test_search_threads_equal [where numThreads = 2 and keys = "[5, 6, 7]", simplified]
  by (simp add: map_hash_def NONE_def)

section \<open>The contract\<close>

text \<open>
  \<open>content\<close> is the map a state stands for, \<open>lost\<close> the keys the store has discarded so far,
  \<open>valid\<close> the keys it can hold and \<open>fits\<close> the sets of keys it has room for.
\<close>

locale kv_store =
  fixes ins :: "Key_t \<Rightarrow> Value_t \<Rightarrow> 's \<Rightarrow> 's option" and get :: "Key_t \<Rightarrow> 's \<Rightarrow> Value_t option"
    and inv :: "'s \<Rightarrow> bool" and content :: "'s \<Rightarrow> Key_t \<Rightarrow> Value_t option"
    and lost :: "'s \<Rightarrow> Key_t set" and valid :: "Key_t \<Rightarrow> bool" and fits :: "Key_t set \<Rightarrow> bool"
  assumes get_content: "inv s \<Longrightarrow> valid k \<Longrightarrow>
      get k s = Some (case content s k of None \<Rightarrow> NONE | Some v \<Rightarrow> v)"
    and insert_returns: "inv s \<Longrightarrow> valid k \<Longrightarrow> content s k = None \<Longrightarrow> fits (insert k (dom (content s))) \<Longrightarrow>
      \<exists>s'. ins k v s = Some s'"
    and insert_inv: "inv s \<Longrightarrow> valid k \<Longrightarrow> content s k = None \<Longrightarrow> fits (insert k (dom (content s))) \<Longrightarrow>
      ins k v s = Some s' \<Longrightarrow> inv s'"
    and insert_sub: "inv s \<Longrightarrow> valid k \<Longrightarrow> content s k = None \<Longrightarrow> fits (insert k (dom (content s))) \<Longrightarrow>
      ins k v s = Some s' \<Longrightarrow> content s' \<subseteq>\<^sub>m (content s)(k \<mapsto> v)"
    and insert_lost: "inv s \<Longrightarrow> valid k \<Longrightarrow> content s k = None \<Longrightarrow> fits (insert k (dom (content s))) \<Longrightarrow>
      ins k v s = Some s' \<Longrightarrow> lost s \<subseteq> lost s'"
    and insert_keeps: "inv s \<Longrightarrow> valid k \<Longrightarrow> content s k = None \<Longrightarrow> fits (insert k (dom (content s))) \<Longrightarrow>
      ins k v s = Some s' \<Longrightarrow> k' \<notin> lost s' \<Longrightarrow> content s' k' = ((content s)(k \<mapsto> v)) k'"
    and fits_mono: "fits K \<Longrightarrow> K' \<subseteq> K \<Longrightarrow> fits K'"
begin

text \<open>Distinct new keys are all inserted.\<close>

lemma insert_all_effect:
  assumes "inv s" and "\<forall>k \<in> set (map fst kvs). valid k \<and> content s k = None" and "distinct (map fst kvs)"
    and "fits (dom (content s) \<union> set (map fst kvs))"
  shows "\<exists>s'. insert_all ins kvs s = Some s' \<and> inv s' \<and> lost s \<subseteq> lost s' \<and>
     (\<forall>k. k \<notin> lost s' \<longrightarrow> content s' k = (content s ++ map_of kvs) k)"
  using assms
proof (induction kvs arbitrary: s)
  case (Cons kv kvs)
  obtain k v where kv: "kv = (k, v)" by fastforce
  have k: "valid k" "content s k = None" "k \<notin> set (map fst kvs)" using Cons.prems(2,3) by (auto simp: kv)
  have f: "fits (insert k (dom (content s)))" using Cons.prems(4) by (rule fits_mono) (auto simp: kv)
  obtain s1 where s1: "ins k v s = Some s1" using insert_returns [OF Cons.prems(1) k(1,2) f] by blast
  note i = insert_inv [OF Cons.prems(1) k(1,2) f s1] and l = insert_lost [OF Cons.prems(1) k(1,2) f s1]
    and m = insert_sub [OF Cons.prems(1) k(1,2) f s1] and c = insert_keeps [OF Cons.prems(1) k(1,2) f s1]
  have sub: "dom (content s1) \<subseteq> insert k (dom (content s))" using map_le_implies_dom_le [OF m] by simp
  have "\<exists>s'. insert_all ins kvs s1 = Some s' \<and> inv s' \<and> lost s1 \<subseteq> lost s' \<and>
     (\<forall>k. k \<notin> lost s' \<longrightarrow> content s' k = (content s1 ++ map_of kvs) k)"
  proof (rule Cons.IH [OF i])
    show "\<forall>k' \<in> set (map fst kvs). valid k' \<and> content s1 k' = None"
    proof
      fix k'
      assume k': "k' \<in> set (map fst kvs)"
      then have "k' \<notin> insert k (dom (content s))" using Cons.prems(2) k(3) by (auto simp: kv)
      then have "k' \<notin> dom (content s1)" using sub by blast
      then show "valid k' \<and> content s1 k' = None" using Cons.prems(2) k' by (auto simp: domIff)
    qed
    show "fits (dom (content s1) \<union> set (map fst kvs))"
      using Cons.prems(4) by (rule fits_mono) (use sub in \<open>auto simp: kv\<close>)
  qed (use Cons.prems(3) in simp)
  then obtain s' where r: "insert_all ins kvs s1 = Some s'" "inv s'" "lost s1 \<subseteq> lost s'"
     "\<forall>k. k \<notin> lost s' \<longrightarrow> content s' k = (content s1 ++ map_of kvs) k" by blast
  have "content s' k' = (content s ++ map_of (kv # kvs)) k'" if "k' \<notin> lost s'" for k'
  proof -
    have "k' \<notin> lost s1" using that r(3) by blast
    moreover have "map_of kvs k = None" using k(3) by (simp add: map_of_eq_None_iff)
    ultimately show ?thesis
      using r(4) that c [of k'] by (cases "k' = k") (auto simp: kv map_add_def split: option.splits)
  qed
  moreover have "insert_all ins (kv # kvs) s = Some s'" using r(1) by (simp add: kv s1)
  moreover have "lost s \<subseteq> lost s'" using l r(3) by blast
  ultimately show ?case using r(2) by blast
qed simp

text \<open>A pair that was inserted is found again unless its key was lost.\<close>

lemma insert_all_get:
  assumes "inv s" and "\<forall>k \<in> set (map fst kvs). valid k \<and> content s k = None" and "distinct (map fst kvs)"
    and "fits (dom (content s) \<union> set (map fst kvs))"
  shows "\<exists>s'. insert_all ins kvs s = Some s' \<and> inv s' \<and>
     (\<forall>(k, v) \<in> set kvs. k \<notin> lost s' \<longrightarrow> get k s' = Some v)"
proof -
  obtain s' where s': "insert_all ins kvs s = Some s'" "inv s'"
     "\<forall>k. k \<notin> lost s' \<longrightarrow> content s' k = (content s ++ map_of kvs) k"
    using insert_all_effect [OF assms] by blast
  have "get k s' = Some v" if "(k, v) \<in> set kvs" "k \<notin> lost s'" for k v
  proof -
    have "map_of kvs k = Some v" using that(1) assms(3) by (simp add: map_of_is_SomeI)
    then have "content s' k = Some v" using s'(3) that(2) by (simp add: map_add_Some_iff)
    moreover have "valid k" using assms(2) that(1) by force
    ultimately show ?thesis using get_content [OF s'(2)] by simp
  qed
  then show ?thesis using s' by blast
qed

lemma get_returns: "inv s \<Longrightarrow> valid k \<Longrightarrow> \<exists>v. get k s = Some v"
  using get_content by blast

end

text \<open>The contract from a single statement about the effect of an insertion.\<close>

lemma kv_storeI:
  assumes "\<And>s k. ok s \<Longrightarrow> valid k \<Longrightarrow> get k s = Some (case content s k of None \<Rightarrow> NONE | Some v \<Rightarrow> v)"
    and "\<And>s k v. ok s \<Longrightarrow> valid k \<Longrightarrow> content s k = None \<Longrightarrow> fits (insert k (dom (content s))) \<Longrightarrow>
      \<exists>s'. ins k v s = Some s' \<and> ok s' \<and> content s' \<subseteq>\<^sub>m (content s)(k \<mapsto> v) \<and> lost s \<subseteq> lost s' \<and>
        (\<forall>k'. k' \<notin> lost s' \<longrightarrow> content s' k' = ((content s)(k \<mapsto> v)) k')"
    and "\<And>K K'. fits K \<Longrightarrow> K' \<subseteq> K \<Longrightarrow> fits K'"
  shows "kv_store ins get ok content lost valid fits"
proof
  show "get k s = Some (case content s k of None \<Rightarrow> NONE | Some v \<Rightarrow> v)" if "ok s" "valid k" for s k
    using that by (rule assms(1))
  show "fits K'" if "fits K" "K' \<subseteq> K" for K K' using that by (rule assms(3))
next
  fix s k v
  assume a: "ok s" "valid k" "content s k = None" "fits (insert k (dom (content s)))"
  from assms(2) [OF this, of v] show "\<exists>s'. ins k v s = Some s'" by blast
  fix s'
  assume "ins k v s = Some s'"
  then have "ok s' \<and> content s' \<subseteq>\<^sub>m (content s)(k \<mapsto> v) \<and> lost s \<subseteq> lost s' \<and>
      (\<forall>k'. k' \<notin> lost s' \<longrightarrow> content s' k' = ((content s)(k \<mapsto> v)) k')"
    using assms(2) [OF a, of v] by simp
  then show "ok s'" "content s' \<subseteq>\<^sub>m (content s)(k \<mapsto> v)" "lost s \<subseteq> lost s'"
    "k' \<notin> lost s' \<Longrightarrow> content s' k' = ((content s)(k \<mapsto> v)) k'" for k' by auto
qed

text \<open>A table that is a \<open>kv_store\<close> passes the test program up to the keys it loses.\<close>

locale hash_store = kv_store "Insert_fn H" "Get_fn H" inv content lost valid fits
  for H :: "'s Hash" and inv content lost valid fits
begin

lemma test_search_counts:
  assumes "inv s" and "\<forall>k \<in> set keys. valid k"
  shows "test_search H keys s 0 = Some (length (filter (\<lambda>k. Get_fn H k s \<noteq> Some k) keys))"
  using assms(2)
proof (induction keys)
  case (Cons k keys)
  obtain v where "Get_fn H k s = Some v" using get_returns [OF assms(1)] Cons.prems by auto
  then show ?case using Cons by (simp add: test_search_add [of H keys s "Suc 0"])
qed simp

lemma test_main_passes:
  assumes "inv s" and "\<forall>k \<in> set keys. valid k \<and> content s k = None" and "distinct keys"
    and "fits (dom (content s) \<union> set keys)" and "length keys < 2 ^ 31"
  shows "\<exists>s' n. test_main H keys s = Some (s', n) \<and> inv s' \<and> n \<le> length (filter (\<lambda>k. k \<in> lost s') keys)"
proof -
  let ?kvs = "map (\<lambda>k. (k, k)) keys"
  have f: "map fst ?kvs = keys" by (simp add: comp_def)
  obtain s' where s': "insert_all (Insert_fn H) ?kvs s = Some s'" "inv s'"
      "\<forall>(k, v) \<in> set ?kvs. k \<notin> lost s' \<longrightarrow> Get_fn H k s' = Some v"
    using insert_all_get [OF assms(1), of ?kvs] assms(2-4) by (auto simp only: f)
  let ?n = "length (filter (\<lambda>k. Get_fn H k s' \<noteq> Some k) keys)"
  have "test_main H keys s = Some (s', ?n)"
    using s'(1,2) test_search_counts [of s' keys] assms(2,5) by (simp add: test_main_def test_insert_all)
  moreover have "?n \<le> length (filter (\<lambda>k. k \<in> lost s') keys)"
    unfolding length_filter_conv_card using s'(3) by (intro card_mono) (auto intro: nth_mem)
  ultimately show ?thesis using s'(2) by blast
qed

end

lemmas hash_storeI = hash_store.intro [OF kv_storeI]

end
