(* ===== verification/Table_Env.thy ===== *)
theory Table_Env
  imports Hash_Funcs Slot_Table Hash_Interface
begin

text \<open>
  What the volatile tables of \<^verbatim>\<open>cceh/src\<close> have in common besides their cells: the default hash
  \<^verbatim>\<open>h\<close>, freshly allocated cell arrays, and the single-precision arithmetic of their growth
  rules. A capacity is multiplied by a \<^verbatim>\<open>float\<close>, so it is first rounded to 24 significant bits;
  \<open>rnd24\<close> is that rounding (to nearest, ties to even), and its error bounds are proved here.
\<close>

section \<open>Surroundings\<close>

text \<open>The library hash behind \<^verbatim>\<open>hash_funcs[0]\<close>, and the values in freshly allocated cells, which
  the default constructor of \<^verbatim>\<open>Pair\<close> leaves as they are.\<close>

record tenv =
  lib_hash :: std_hash
  junk :: "nat \<Rightarrow> Value_t"

text \<open>\<^verbatim>\<open>h(&key, sizeof(key))\<close> with its default seed.\<close>

definition h_key :: "tenv \<Rightarrow> Key_t \<Rightarrow> nat" where
  "h_key T k = unat (hash_h (lib_hash T) (key_bytes k) h_seed)"

text \<open>\<^verbatim>\<open>new Pair[n]\<close>.\<close>

definition new_Pairs :: "tenv \<Rightarrow> nat \<Rightarrow> Pair list" where
  "new_Pairs T n = map (\<lambda>i. Pair_init (junk T i)) [0..<n]"

lemma length_new_Pairs [simp]: "length (new_Pairs T n) = n"
  by (simp add: new_Pairs_def)

lemma new_Pairs_INVALID: "\<forall>p \<in> set (new_Pairs T n). p_key p = INVALID"
  by (auto simp: new_Pairs_def)

text \<open>An instance for examples: keys are their own hashes.\<close>

definition demo_tenv :: tenv where
  "demo_tenv = \<lparr>lib_hash = (\<lambda>bs seed. le_bytes bs), junk = (\<lambda>i. 0)\<rparr>"

section \<open>Retry loops that may end the process\<close>

text \<open>Repeating a pass at most \<open>fuel\<close> times. The result tells a return from an exit or a fault;
  \<open>Retry\<close> means that the passes were used up.\<close>

fun run_until :: "('s \<Rightarrow> 's outcome) \<Rightarrow> nat \<Rightarrow> 's \<Rightarrow> 's outcome" where
  "run_until pass 0 s = Retry s"
| "run_until pass (Suc fuel) s = (case pass s of Retry s' \<Rightarrow> run_until pass fuel s' | r \<Rightarrow> r)"

definition returned :: "'s outcome \<Rightarrow> 's option" where
  "returned r = (case r of Return s \<Rightarrow> Some s | _ \<Rightarrow> None)"

lemma run_until_retry: "returned (run_until pass fuel s) = run_retry pass fuel s"
  by (induction fuel arbitrary: s) (auto simp: returned_def split: outcome.splits)

text \<open>An invariant with a measure that every repeated pass raises, up to a bound.\<close>

lemma run_until_ends_fault:
  assumes "I s" and "\<mu> s + fuel > bound"
    and "\<And>s. I s \<Longrightarrow> \<mu> s \<le> bound"
    and "\<And>s s'. I s \<Longrightarrow> pass s = Retry s' \<Longrightarrow> I s' \<and> \<mu> s < \<mu> s'"
    and "\<And>s s'. I s \<Longrightarrow> pass s = Return s' \<Longrightarrow> Q s'"
    and "\<And>s. I s \<Longrightarrow> pass s \<noteq> Spin"
    and "\<And>s. I s \<Longrightarrow> pass s = Fault \<Longrightarrow> F"
  shows "case run_until pass fuel s of Return s' \<Rightarrow> Q s' | Fault \<Rightarrow> F | _ \<Rightarrow> False"
  using assms(1,2)
proof (induction fuel arbitrary: s)
  case 0
  then show ?case using assms(3) [of s] by simp
next
  case (Suc fuel)
  show ?case
  proof (cases "pass s")
    case (Retry s')
    then have "I s'" "\<mu> s < \<mu> s'" using assms(4) Suc.prems(1) by blast+
    then show ?thesis using Suc.IH [of s'] Suc.prems(2) Retry by simp
  qed (use Suc.prems(1) assms(5-7) in auto)
qed

lemmas run_until_ends = run_until_ends_fault [where F = True, OF _ _ _ _ _ _ TrueI]

section \<open>Single precision\<close>

text \<open>The position of the leading bit.\<close>

fun msb_pos :: "nat \<Rightarrow> nat" where
  "msb_pos n = (if n < 2 then 0 else Suc (msb_pos (n div 2)))"

declare msb_pos.simps [simp del]

definition rnd24 :: "nat \<Rightarrow> nat" where
  "rnd24 n =
     (if n < 2 ^ 24 then n
      else let e = msb_pos n - 23; q = n div 2 ^ e; r = n mod 2 ^ e
           in if 2 * r > 2 ^ e \<or> (2 * r = 2 ^ e \<and> odd q) then (q + 1) * 2 ^ e else q * 2 ^ e)"

text \<open>\<^verbatim>\<open>n * 2.0f\<close> converted back to \<^verbatim>\<open>size_t\<close>; the conversion of a larger number is undefined.\<close>

definition float_double :: "nat \<Rightarrow> nat option" where
  "float_double n = (let m = rnd24 n * 2 in if m < 2 ^ 64 then Some m else None)"

lemma msb_pos_le: "0 < n \<Longrightarrow> 2 ^ msb_pos n \<le> n"
proof (induction n rule: msb_pos.induct)
  case (1 n)
  show ?case
  proof (cases "n < 2")
    case False
    then have "2 ^ msb_pos (n div 2) \<le> n div 2" using 1 by auto
    then show ?thesis using False by (simp add: msb_pos.simps [of n])
  qed (use 1 in \<open>simp add: msb_pos.simps [of n]\<close>)
qed

lemma msb_pos_less: "n < 2 ^ Suc (msb_pos n)"
proof (induction n rule: msb_pos.induct)
  case (1 n)
  show ?case
  proof (cases "n < 2")
    case False
    then have "n div 2 < 2 ^ Suc (msb_pos (n div 2))" by (rule 1)
    then have "n < 2 * 2 ^ Suc (msb_pos (n div 2))" by linarith
    then show ?thesis using False by (simp add: msb_pos.simps [of n])
  qed (simp add: msb_pos.simps [of n])
qed

lemma rnd24_small [simp]: "n < 2 ^ 24 \<Longrightarrow> rnd24 n = n"
  by (simp add: rnd24_def)

lemma rnd24_bounds: "n - n div 2 ^ 23 \<le> rnd24 n \<and> rnd24 n \<le> n + n div 2 ^ 23"
proof (cases "n < 2 ^ 24")
  case False
  define e where "e = msb_pos n - 23"
  have "(2::nat) ^ 24 < 2 ^ Suc (msb_pos n)" using False msb_pos_less [of n] by linarith
  then have "24 < Suc (msb_pos n)" by (rule power_less_imp_less_exp [rotated]) simp
  then have "msb_pos n = e + 23" by (simp add: e_def)
  moreover have "2 ^ msb_pos n \<le> n" using False by (intro msb_pos_le) simp
  ultimately have "2 ^ e * 2 ^ 23 \<le> n" by (simp only: power_add)
  then have u: "2 ^ e \<le> n div 2 ^ 23" by (metis div_le_mono nonzero_mult_div_cancel_right power_not_zero zero_neq_numeral)
  have n: "n = n div 2 ^ e * 2 ^ e + n mod 2 ^ e" by (rule div_mult_mod_eq [symmetric])
  have m: "n mod 2 ^ e < 2 ^ e" by simp
  have "rnd24 n = (n div 2 ^ e + 1) * 2 ^ e \<or> rnd24 n = n div 2 ^ e * 2 ^ e"
    using False by (simp add: rnd24_def e_def Let_def)
  moreover have "n - 2 ^ e \<le> n div 2 ^ e * 2 ^ e" "(n div 2 ^ e + 1) * 2 ^ e \<le> n + 2 ^ e"
    using n m unfolding distrib_right mult_1 by linarith+
  ultimately show ?thesis using u by (auto simp only: distrib_right mult_1)
qed simp

lemma rnd24_lower: "n * (2 ^ 23 - 1) \<le> rnd24 n * 2 ^ 23"
  using rnd24_bounds [of n] by (simp add: algebra_simps) linarith

lemma rnd24_upper: "rnd24 n * 2 ^ 23 \<le> n * (2 ^ 23 + 1)"
  using rnd24_bounds [of n] by (simp add: algebra_simps) linarith

lemma rnd24_pos: "0 < n \<Longrightarrow> 0 < rnd24 n"
  using rnd24_lower [of n] by (cases "rnd24 n") auto

text \<open>Doubling raises the leading bit, rounding notwithstanding.\<close>

lemma msb_pos_ge: "2 ^ j \<le> n \<Longrightarrow> j \<le> msb_pos n"
proof -
  assume "2 ^ j \<le> n"
  then have "(2::nat) ^ j < 2 ^ Suc (msb_pos n)" using msb_pos_less [of n] by linarith
  then have "j < Suc (msb_pos n)" by (rule power_less_imp_less_exp [rotated]) simp
  then show ?thesis by simp
qed

lemma rnd24_msb: "0 < n \<Longrightarrow> 2 ^ msb_pos n \<le> rnd24 n"
proof (cases "n < 2 ^ 24")
  case False
  assume n: "0 < n"
  define e where "e = msb_pos n - 23"
  have "24 \<le> msb_pos n" using False by (intro msb_pos_ge) simp
  then have "msb_pos n = 23 + e" by (simp add: e_def)
  then have p: "(2::nat) ^ msb_pos n = 2 ^ 23 * 2 ^ e" by (simp only: power_add)
  then have "2 ^ 23 * 2 ^ e \<le> n" using msb_pos_le [OF n] by simp
  then have "2 ^ 23 \<le> n div 2 ^ e" by (metis div_le_mono nonzero_mult_div_cancel_right power_not_zero zero_neq_numeral)
  then have "2 ^ 23 * 2 ^ e \<le> n div 2 ^ e * 2 ^ e" by simp
  moreover have "n div 2 ^ e * 2 ^ e \<le> rnd24 n" using False by (simp add: rnd24_def e_def Let_def)
  ultimately show ?thesis unfolding p by (rule order_trans)
qed (simp add: msb_pos_le)

lemma msb_pos_doubled: "0 < n \<Longrightarrow> msb_pos n < msb_pos (rnd24 n * 2)"
  using rnd24_msb [of n] msb_pos_ge [of "Suc (msb_pos n)" "rnd24 n * 2"] by simp

lemma msb_pos_64: "n < 2 ^ 64 \<Longrightarrow> msb_pos n \<le> 63"
proof (rule ccontr)
  assume "n < 2 ^ 64" "\<not> msb_pos n \<le> 63"
  then have "(2::nat) ^ 64 \<le> 2 ^ msb_pos n" by (intro power_increasing) auto
  moreover have "n = 0 \<or> 2 ^ msb_pos n \<le> n" using msb_pos_le by blast
  ultimately show False using \<open>n < 2 ^ 64\<close> \<open>\<not> msb_pos n \<le> 63\<close> by (auto simp: msb_pos.simps [of 0])
qed

end
