(* ===== verification/Linear_Probing.thy ===== *)
theory Linear_Probing
  imports Table_Env
begin

text \<open>
  The linear-probing table (\<^verbatim>\<open>linear_probing.h\<close>, \<^verbatim>\<open>linear_probing.cpp\<close>): insertion at the first
  free cell after the hash, growth by doubling when 95 per cent of the cells are in use,
  \<^verbatim>\<open>InsertOnly\<close>, \<^verbatim>\<open>Get\<close> and \<^verbatim>\<open>Utilization\<close>, as one thread runs them. The invariant says that a key
  is reached from its hash over used cells only, which is what the early exit of \<^verbatim>\<open>Get\<close> relies
  on. Two loops count with an \<^verbatim>\<open>int\<close>, the probing of \<^verbatim>\<open>Insert\<close> and the copying of \<^verbatim>\<open>resize\<close>; the model ends
  in a \<open>Fault\<close> where they overflow. The others count with a \<^verbatim>\<open>size_t\<close> that no capacity wraps around.
  The array of locks that \<^verbatim>\<open>resize\<close> puts on the stack is not modelled.
\<close>

section \<open>State\<close>

record LinearProbingHash =
  lp_capacity :: nat
  lp_dict :: "Pair list"
  lp_old_cap :: nat
  lp_old_dic :: "Pair list option"
  lp_size :: nat
  lp_resizing_lock :: int
  lp_nlocks :: nat

definition lp_locksize :: nat where
  "lp_locksize = 256"

definition lp_new :: "tenv \<Rightarrow> nat \<Rightarrow> LinearProbingHash" where
  "lp_new T cap =
     \<lparr>lp_capacity = cap, lp_dict = new_Pairs T cap, lp_old_cap = 0, lp_old_dic = None, lp_size = 0,
      lp_resizing_lock = 0, lp_nlocks = cap div lp_locksize + 1\<rparr>"

text \<open>The cells from the hash on, in probing order.\<close>

definition lp_probe :: "tenv \<Rightarrow> nat \<Rightarrow> Key_t \<Rightarrow> nat list" where
  "lp_probe T cap k = probe cap cap (h_key T k mod cap)"

text \<open>\<^verbatim>\<open>size < capacity * kResizingThreshold\<close> with the threshold \<^verbatim>\<open>0.95f\<close>, which is
  \<open>15938355 / 2 ^ 24\<close>: both sides are scaled by \<open>2 ^ 24\<close>.\<close>

definition lp_below_threshold :: "LinearProbingHash \<Rightarrow> bool" where
  "lp_below_threshold t \<longleftrightarrow> rnd24 (lp_size t) * 2 ^ 24 < rnd24 (rnd24 (lp_capacity t) * 15938355)"

section \<open>getLocation and resize\<close>

text \<open>The loop of \<^verbatim>\<open>getLocation\<close>; its bound on the number of steps is the member \<^verbatim>\<open>capacity\<close>, not
  the argument \<open>cap'\<close>. \<open>None\<close> is the result \<^verbatim>\<open>INVALID\<close>.\<close>

function lp_getLocation_loop :: "nat \<Rightarrow> nat \<Rightarrow> Pair list \<Rightarrow> nat \<Rightarrow> nat \<Rightarrow> nat option" where
  "lp_getLocation_loop cap cap' d cur i =
     (if p_key (d ! cur) \<noteq> INVALID then
        let cur' = (cur + 1) mod cap'; i' = i + 1
        in if \<not> i' < cap then None else lp_getLocation_loop cap cap' d cur' i'
      else Some cur)"
  by pat_completeness auto
termination
  by (relation "measure (\<lambda>(cap, cap', d, cur, i). cap - i)") auto

declare lp_getLocation_loop.simps [simp del]

text \<open>The cell found is claimed with \<open>SENTINEL\<close>.\<close>

definition lp_getLocation :: "nat \<Rightarrow> nat \<Rightarrow> nat \<Rightarrow> Pair list \<Rightarrow> (nat \<times> Pair list) option" where
  "lp_getLocation cap hash_value cap' d =
     map_option (\<lambda>cur. (cur, d[cur := (d ! cur)\<lparr>p_key := SENTINEL\<rparr>])) (lp_getLocation_loop cap cap' d hash_value 0)"

text \<open>The copy loop of \<^verbatim>\<open>resize\<close> over the old cells. A failed \<^verbatim>\<open>getLocation\<close> would be used as an
  index; the result is then \<open>None\<close>. So it is when the table has more cells than the \<^verbatim>\<open>int\<close> that
  counts them in \<^verbatim>\<open>resize\<close> can.\<close>

fun lp_rehash :: "tenv \<Rightarrow> nat \<Rightarrow> nat \<Rightarrow> Pair list \<Rightarrow> Pair list \<Rightarrow> Pair list option" where
  "lp_rehash T cap cap' [] newDict = Some newDict"
| "lp_rehash T cap cap' (p # ps) newDict =
     (if p_key p \<noteq> INVALID then
        (case lp_getLocation cap (h_key T (p_key p) mod cap') cap' newDict of
           None \<Rightarrow> None
         | Some (loc, newDict') \<Rightarrow> lp_rehash T cap cap' ps (newDict'[loc := Pair_make (p_key p) (p_value p)]))
      else lp_rehash T cap cap' ps newDict)"

definition lp_resize :: "tenv \<Rightarrow> nat \<Rightarrow> LinearProbingHash \<Rightarrow> LinearProbingHash option" where
  "lp_resize T cap' t =
     (if 2 ^ 31 \<le> lp_capacity t then None
      else case lp_rehash T (lp_capacity t) cap' (lp_dict t) (new_Pairs T cap') of
        None \<Rightarrow> None
      | Some newDict \<Rightarrow>
          let t = t\<lparr>lp_nlocks := cap' div lp_locksize + 1\<rparr>;
              t = t\<lparr>lp_old_cap := lp_capacity t, lp_old_dic := Some (lp_dict t)\<rparr>;
              t = t\<lparr>lp_dict := newDict\<rparr>;
              t = t\<lparr>lp_capacity := cap'\<rparr>
          in Some (t\<lparr>lp_old_cap := 0, lp_old_dic := None\<rparr>))"

section \<open>Operations\<close>

text \<open>One pass of \<^verbatim>\<open>Insert\<close> from \<^verbatim>\<open>RETRY\<close>. The two nested loops visit the cells in probing order;
  the inner one only keeps the mutex of a group of 256 cells. Their common counter is an \<^verbatim>\<open>int\<close>: it
  takes \<open>2 ^ 31\<close> values, and overflows when as many cells were found in use and there are more.\<close>

definition lp_insert_pass :: "tenv \<Rightarrow> Key_t \<Rightarrow> Value_t \<Rightarrow> LinearProbingHash \<Rightarrow> LinearProbingHash outcome" where
  "lp_insert_pass T k v t =
     (if lp_resizing_lock t = 1 then Spin
      else if lp_capacity t = 0 then Fault
      else if lp_below_threshold t then
        (case find (\<lambda>slot. p_key (lp_dict t ! slot) = INVALID) (take (2 ^ 31) (lp_probe T (lp_capacity t) k)) of
           Some slot \<Rightarrow> Return (t\<lparr>lp_dict := (lp_dict t)[slot := Pair_make k v], lp_size := lp_size t + 1\<rparr>)
         | None \<Rightarrow> if 2 ^ 31 \<le> lp_capacity t then Fault else Retry t)
      else
        (case CAS (lp_resizing_lock t) 0 1 of
           (True, lk, _) \<Rightarrow>
             (case Option.bind (float_double (lp_capacity t)) (\<lambda>cap'. lp_resize T cap' (t\<lparr>lp_resizing_lock := lk\<rparr>)) of
                None \<Rightarrow> Fault
              | Some t' \<Rightarrow> Retry (t'\<lparr>lp_resizing_lock := 0\<rparr>))
         | (False, _, _) \<Rightarrow> Retry t))"

definition lp_Insert :: "tenv \<Rightarrow> nat \<Rightarrow> Key_t \<Rightarrow> Value_t \<Rightarrow> LinearProbingHash \<Rightarrow> LinearProbingHash option" where
  "lp_Insert T fuel k v t = run_retry (lp_insert_pass T k v) fuel t"

definition lp_InsertOnly :: "tenv \<Rightarrow> Key_t \<Rightarrow> Value_t \<Rightarrow> LinearProbingHash \<Rightarrow> (bool \<times> LinearProbingHash) option" where
  "lp_InsertOnly T k v t =
     (if lp_capacity t = 0 then None
      else case lp_getLocation (lp_capacity t) (h_key T k mod lp_capacity t) (lp_capacity t) (lp_dict t) of
             None \<Rightarrow> Some (False, t)
           | Some (loc, d) \<Rightarrow> Some (True, t\<lparr>lp_dict := d[loc := Pair_make k v], lp_size := lp_size t + 1\<rparr>))"

definition lp_Delete :: "Key_t \<Rightarrow> LinearProbingHash \<Rightarrow> (bool \<times> LinearProbingHash) option" where
  "lp_Delete k t = Some (False, t)"

fun lp_get_loop :: "Pair list \<Rightarrow> Key_t \<Rightarrow> nat list \<Rightarrow> Value_t" where
  "lp_get_loop d k [] = NONE"
| "lp_get_loop d k (idx # ids) =
     (if p_key (d ! idx) = INVALID then NONE
      else if p_key (d ! idx) = k then p_value (d ! idx)
      else lp_get_loop d k ids)"

definition lp_Get :: "tenv \<Rightarrow> Key_t \<Rightarrow> LinearProbingHash \<Rightarrow> Value_t option" where
  "lp_Get T k t =
     (if lp_capacity t = 0 then None else Some (lp_get_loop (lp_dict t) k (lp_probe T (lp_capacity t) k)))"

text \<open>Numerator and denominator of the ratio.\<close>

definition lp_Utilization :: "LinearProbingHash \<Rightarrow> nat \<times> nat" where
  "lp_Utilization t =
     (foldl (\<lambda>size i. if p_key (lp_dict t ! i) \<noteq> INVALID then size + 1 else size) 0 [0..<lp_capacity t], lp_capacity t)"

definition lp_Capacity :: "LinearProbingHash \<Rightarrow> nat" where
  "lp_Capacity t = lp_capacity t"

text \<open>The pass bound 2 is enough: a pass that grows the table is followed by one that stores.\<close>

definition lp_hash :: "tenv \<Rightarrow> LinearProbingHash Hash" where
  "lp_hash T = \<lparr>InsertOnly_fn = lp_InsertOnly T, Insert_fn = lp_Insert T 2, Delete_fn = lp_Delete, Get_fn = lp_Get T\<rparr>"

section \<open>Probing order\<close>

lemma set_probe_full: "0 < n \<Longrightarrow> set (probe n n base) = {..<n}"
proof (rule card_subset_eq)
  assume "0 < n"
  show "set (probe n n base) \<subseteq> {..<n}" using probe_bound [OF \<open>0 < n\<close>] by blast
  show "card (set (probe n n base)) = card {..<n}"
    using probe_distinct [of n n base] by (simp add: distinct_card) (simp add: probe_def)
qed simp

interpretation lp: slot_table cap "lp_probe T cap" for T cap
  by unfold_locales (auto simp: lp_probe_def probe_bound)

text \<open>Cells in use from the start of a probing sequence on.\<close>

definition chain :: "Pair list \<Rightarrow> nat list \<Rightarrow> nat list" where
  "chain d ids = takeWhile (\<lambda>l. p_key (d ! l) \<noteq> INVALID) ids"

lemma chain_mono:
  assumes "\<And>l. l \<in> set ids \<Longrightarrow> p_key (d ! l) \<noteq> INVALID \<Longrightarrow> p_key (d' ! l) \<noteq> INVALID"
  shows "set (chain d ids) \<subseteq> set (chain d' ids)"
  using assms by (induction ids) (auto simp: chain_def)

lemma chain_fill:
  assumes "find (\<lambda>l. p_key (d ! l) = INVALID) ids = Some loc" and "p_key (d' ! loc) \<noteq> INVALID"
    and "\<And>l. l \<in> set ids \<Longrightarrow> p_key (d ! l) \<noteq> INVALID \<Longrightarrow> p_key (d' ! l) \<noteq> INVALID"
  shows "loc \<in> set (chain d' ids)"
  using assms by (induction ids) (auto simp: chain_def split: if_splits)

lemma get_loop_chain: "lp_get_loop d k ids =
    (case find (\<lambda>l. p_key (d ! l) = k) (chain d ids) of None \<Rightarrow> NONE | Some l \<Rightarrow> p_value (d ! l))"
  by (induction ids) (auto simp: chain_def)

section \<open>The invariant\<close>

definition dict_ok :: "tenv \<Rightarrow> nat \<Rightarrow> Pair list \<Rightarrow> bool" where
  "dict_ok T cap d \<longleftrightarrow> length d = cap \<and> one_cell d \<and>
     (\<forall>i < cap. p_key (d ! i) \<noteq> INVALID \<longrightarrow> i \<in> set (chain d (lp_probe T cap (p_key (d ! i)))))"

definition lp_ok :: "tenv \<Rightarrow> LinearProbingHash \<Rightarrow> bool" where
  "lp_ok T t \<longleftrightarrow> 0 < lp_capacity t \<and> dict_ok T (lp_capacity t) (lp_dict t) \<and>
     lp_size t = used (lp_dict t) \<and> lp_resizing_lock t = 0"

lemma dict_ok_slots: "dict_ok T cap d \<Longrightarrow> slots_ok cap (lp_probe T cap) d"
  unfolding dict_ok_def slots_ok_def chain_def using set_takeWhileD by fastforce

lemma dict_ok_get:
  assumes "dict_ok T cap d" and "0 < cap" and "k \<noteq> INVALID"
  shows "lp_get_loop d k (lp_probe T cap k) = (case cell_map d k of None \<Rightarrow> NONE | Some v \<Rightarrow> v)"
proof -
  let ?ids = "lp_probe T cap k"
  have "map_option (\<lambda>i. p_value (d ! i)) (find (\<lambda>l. p_key (d ! l) = k) (chain d ?ids)) = cell_map d k"
  proof (cases "find (\<lambda>l. p_key (d ! l) = k) (chain d ?ids)")
    case None
    then have "p_key (d ! l) \<noteq> k" if "l \<in> set (chain d ?ids)" for l using that by (auto simp: find_None_iff)
    then have "\<forall>i < length d. p_key (d ! i) \<noteq> k" using assms(1,3) unfolding dict_ok_def by blast
    then have "cell_map d k = None" using assms(3) by (simp add: cell_map_None)
    then show ?thesis using None by simp
  next
    case (Some l)
    then have "l \<in> set ?ids" "p_key (d ! l) = k"
      by (auto dest!: find_SomeD simp: chain_def dest: set_takeWhileD)
    moreover then have "l < length d" using lp.cand_bound [OF assms(2), of l T k] assms(1) by (simp add: dict_ok_def)
    ultimately show ?thesis using cell_map_at [of d l] assms(1,3) Some by (simp add: dict_ok_def)
  qed
  then show ?thesis by (auto simp: get_loop_chain split: option.splits)
qed

text \<open>Storing at the first free cell keeps every chain and starts none at a gap.\<close>

lemma dict_ok_store:
  assumes "dict_ok T cap d" and "0 < cap" and "k \<noteq> INVALID" and "cell_map d k = None"
    and "find (\<lambda>l. p_key (d ! l) = INVALID) (lp_probe T cap k) = Some loc"
  shows "dict_ok T cap (d[loc := Pair_make k v])" and "cell_map (d[loc := Pair_make k v]) = (cell_map d)(k \<mapsto> v)"
    and "used (d[loc := Pair_make k v]) = used d + 1"
proof -
  note f = find_SomeD [OF assms(5)]
  note p = lp.place [OF dict_ok_slots [OF assms(1)] assms(2) f [THEN conjunct1] f [THEN conjunct2] assms(4,3)]
  show "cell_map (d[loc := Pair_make k v]) = (cell_map d)(k \<mapsto> v)" by (rule p(2))
  show "used (d[loc := Pair_make k v]) = used d + 1" by (rule p(3))
  have len: "length d = cap" "loc < cap" using assms(1) lp.cand_bound [OF assms(2)] f by (auto simp: dict_ok_def)
  have grow: "p_key (d[loc := Pair_make k v] ! l) \<noteq> INVALID" if "p_key (d ! l) \<noteq> INVALID" for l
    using that assms(3) len by (cases "l = loc") auto
  show "dict_ok T cap (d[loc := Pair_make k v])"
    unfolding dict_ok_def
  proof (intro conjI allI impI)
    fix i
    assume i: "i < cap" "p_key (d[loc := Pair_make k v] ! i) \<noteq> INVALID"
    show "i \<in> set (chain (d[loc := Pair_make k v]) (lp_probe T cap (p_key (d[loc := Pair_make k v] ! i))))"
    proof (cases "i = loc")
      case True
      then show ?thesis using chain_fill [OF assms(5)] grow len assms(3) by simp
    next
      case False
      then have "i \<in> set (chain d (lp_probe T cap (p_key (d ! i))))" using assms(1) i by (simp add: dict_ok_def)
      then show ?thesis using chain_mono [of _ d "d[loc := Pair_make k v]"] grow False by auto
    qed
  qed (use p(1) in \<open>auto simp: slots_ok_def\<close>)
qed

section \<open>getLocation finds the first free cell\<close>

lemma getLocation_loop_least:
  assumes "\<forall>j < f. p_key (d ! ((base + j) mod cap')) \<noteq> INVALID" and "p_key (d ! ((base + f) mod cap')) = INVALID"
    and "f < cap" and "i \<le> f"
  shows "lp_getLocation_loop cap cap' d ((base + i) mod cap') i = Some ((base + f) mod cap')"
  using assms(4)
proof (induction "f - i" arbitrary: i)
  case 0
  then have "i = f" by simp
  then show ?case using assms(2) by (simp add: lp_getLocation_loop.simps)
next
  case (Suc m)
  then have "i < f" by simp
  then have IH: "lp_getLocation_loop cap cap' d ((base + (i + 1)) mod cap') (i + 1) = Some ((base + f) mod cap')"
    using Suc by (intro Suc.hyps(1)) auto
  have "((base + i) mod cap' + 1) mod cap' = (base + (i + 1)) mod cap'" by (simp add: mod_Suc_eq)
  then show ?case
    using IH \<open>i < f\<close> assms(1,3)
    by (subst lp_getLocation_loop.simps) (simp add: Let_def)
qed

lemma free_cell_in_probe:
  assumes "length d = n" and "used d < n"
  shows "\<exists>loc. find (\<lambda>l. p_key (d ! l) = INVALID) (probe n n base) = Some loc"
proof -
  obtain i where "i < n" "p_key (d ! i) = INVALID" using used_less_free [of d] assms by auto
  then have "i \<in> set (probe n n base)" using set_probe_full [of n base] by auto
  then show ?thesis using \<open>p_key (d ! i) = INVALID\<close> by (cases "find (\<lambda>l. p_key (d ! l) = INVALID) (probe n n base)") (auto simp: find_None_iff)
qed

text \<open>The first free cell is no farther from the hash than there are cells in use.\<close>

lemma first_free_offset:
  assumes "length d = cap'" and "used d < cap'"
  obtains f where "f < cap'" "f \<le> used d" "find (\<lambda>l. p_key (d ! l) = INVALID) (probe cap' cap' base) = Some ((base + f) mod cap')"
    "p_key (d ! ((base + f) mod cap')) = INVALID" "\<forall>j < f. p_key (d ! ((base + j) mod cap')) \<noteq> INVALID"
proof -
  obtain loc where loc: "find (\<lambda>l. p_key (d ! l) = INVALID) (probe cap' cap' base) = Some loc"
    using free_cell_in_probe [OF assms] by blast
  then obtain f where f: "f < cap'" "loc = (base + f) mod cap'" "p_key (d ! loc) = INVALID"
      "\<forall>j < f. p_key (d ! ((base + j) mod cap')) \<noteq> INVALID"
    by (auto simp: find_Some_iff probe_def)
  have "f = card (set (probe cap' f base))"
    using probe_distinct [of f cap' base] f(1) by (simp add: distinct_card) (simp add: probe_def)
  also have "\<dots> \<le> used d"
    unfolding used_eq_card using f(1,4) assms(1) by (intro card_mono) (auto simp: probe_def intro: mod_less_divisor)
  finally show thesis using that [of f] f loc by simp
qed

lemma find_first_free_take:
  assumes "length d = cap" and "used d < cap" and "used d < m"
  shows "find (\<lambda>l. p_key (d ! l) = INVALID) (take m (probe cap cap base)) = find (\<lambda>l. p_key (d ! l) = INVALID) (probe cap cap base)"
proof -
  obtain f where f: "f < cap" "f \<le> used d" "find (\<lambda>l. p_key (d ! l) = INVALID) (probe cap cap base) = Some ((base + f) mod cap)"
    "p_key (d ! ((base + f) mod cap)) = INVALID" "\<forall>j < f. p_key (d ! ((base + j) mod cap)) \<noteq> INVALID"
    using first_free_offset [OF assms(1,2)] by blast
  then have "find (\<lambda>l. p_key (d ! l) = INVALID) (take m (probe cap cap base)) = Some ((base + f) mod cap)"
    using assms(3) by (auto simp: find_Some_iff probe_def intro!: exI [of _ f])
  then show ?thesis using f(3) by simp
qed

lemma getLocation_first_free:
  assumes "length d = cap'" and "used d < cap'" and "used d < cap" and "base < cap'"
  shows "lp_getLocation_loop cap cap' d base 0 = find (\<lambda>l. p_key (d ! l) = INVALID) (probe cap' cap' base)"
proof -
  obtain f where f: "f < cap'" "f \<le> used d" "find (\<lambda>l. p_key (d ! l) = INVALID) (probe cap' cap' base) = Some ((base + f) mod cap')"
    "p_key (d ! ((base + f) mod cap')) = INVALID" "\<forall>j < f. p_key (d ! ((base + j) mod cap')) \<noteq> INVALID"
    using first_free_offset [OF assms(1,2)] by blast
  then show ?thesis
    using getLocation_loop_least [of f d base cap' cap 0] assms(3,4) by simp
qed

section \<open>Resizing keeps the map\<close>

lemma rehash_ok:
  assumes "dict_ok T cap' d" and "0 < cap'" and "used d + used ps \<le> cap" and "used d + used ps \<le> cap'"
    and "fresh_for (cell_map d) ps"
  shows "\<exists>d'. lp_rehash T cap cap' ps d = Some d' \<and> dict_ok T cap' d' \<and>
     cell_map d' = cell_map d ++ cell_map ps \<and> used d' = used d + used ps"
  using assms
proof (induction ps arbitrary: d)
  case Nil
  then show ?case by (auto simp: used_def)
next
  case (Cons p ps)
  show ?case
  proof (cases "p_key p = INVALID")
    case True
    then have "cell_map (p # ps) = cell_map ps" "used (p # ps) = used ps" by (auto simp: cell_map_Cons used_def)
    then show ?thesis using Cons.IH [of d] Cons.prems fresh_for_skip [OF Cons.prems(5) True] True by simp
  next
    case False
    let ?k = "p_key p"
    have u: "used (p # ps) = Suc (used ps)" using False by (simp add: used_def)
    let ?base = "h_key T ?k mod cap'"
    obtain loc where loc: "find (\<lambda>l. p_key (d ! l) = INVALID) (lp_probe T cap' ?k) = Some loc"
      using free_cell_in_probe [of d cap' ?base] Cons.prems(1,4) u by (auto simp: dict_ok_def lp_probe_def)
    have "lp_getLocation_loop cap cap' d ?base 0 = Some loc"
      using getLocation_first_free [of d cap' cap ?base] loc Cons.prems(1-4) u
      by (simp add: dict_ok_def lp_probe_def)
    then have g: "lp_getLocation cap ?base cap' d = Some (loc, d[loc := (d ! loc)\<lparr>p_key := SENTINEL\<rparr>])"
      by (simp add: lp_getLocation_def)
    let ?d = "d[loc := Pair_make ?k (p_value p)]"
    note fresh = fresh_for_Cons [OF Cons.prems(5) False]
    note st = dict_ok_store [OF Cons.prems(1,2) False fresh(1) loc, of "p_value p"]
    have "\<exists>d'. lp_rehash T cap cap' ps ?d = Some d' \<and> dict_ok T cap' d' \<and>
       cell_map d' = cell_map ?d ++ cell_map ps \<and> used d' = used ?d + used ps"
      using Cons.prems(3,4) st(3) u fresh(2) by (intro Cons.IH [OF st(1) Cons.prems(2)]) (auto simp only: st(2))
    then show ?thesis using g False u st(2,3) fresh(4) by simp
  qed
qed

lemma new_dict_ok: "dict_ok T cap (new_Pairs T cap)"
proof -
  have "p_key (new_Pairs T cap ! i) = INVALID" if "i < cap" for i
    using new_Pairs_INVALID [of T cap] that by (metis length_new_Pairs nth_mem)
  then show ?thesis using one_cell_fresh [OF new_Pairs_INVALID] by (simp add: dict_ok_def)
qed

lemma lp_resize_ok:
  assumes "0 < lp_capacity t" and "dict_ok T (lp_capacity t) (lp_dict t)" and "lp_capacity t \<le> cap' \<or> used (lp_dict t) \<le> cap'"
    and "0 < cap'" and "lp_capacity t < 2 ^ 31"
  shows "\<exists>d. lp_resize T cap' t = Some (t\<lparr>lp_nlocks := cap' div lp_locksize + 1, lp_dict := d,
       lp_capacity := cap', lp_old_cap := 0, lp_old_dic := None\<rparr>) \<and> dict_ok T cap' d \<and> cell_map d = cell_map (lp_dict t) \<and> used d = used (lp_dict t)"
proof -
  let ?new = "new_Pairs T cap'"
  have n: "used ?new = 0" "cell_map ?new = Map.empty"
    by (intro used_fresh cell_map_fresh new_Pairs_INVALID)+
  have "used (lp_dict t) \<le> lp_capacity t" using used_le [of "lp_dict t"] assms(2) by (simp add: dict_ok_def)
  then have "\<exists>d. lp_rehash T (lp_capacity t) cap' (lp_dict t) ?new = Some d \<and> dict_ok T cap' d \<and>
     cell_map d = cell_map ?new ++ cell_map (lp_dict t) \<and> used d = used ?new + used (lp_dict t)"
    using assms(1-4) n by (intro rehash_ok new_dict_ok) (auto simp: dict_ok_def fresh_for_one_cell)
  then show ?thesis using assms(5) by (auto simp: lp_resize_def n)
qed

section \<open>The threshold\<close>

lemma below_threshold_free:
  assumes "lp_below_threshold t" and "0 < lp_capacity t"
  shows "lp_size t < lp_capacity t"
proof (rule ccontr)
  assume "\<not> lp_size t < lp_capacity t"
  moreover have "rnd24 (lp_size t) * 2 ^ 24 < rnd24 (rnd24 (lp_capacity t) * 15938355)"
    using assms(1) by (simp add: lp_below_threshold_def)
  ultimately show False
    using rnd24_lower [of "lp_size t"] rnd24_upper [of "lp_capacity t"]
      rnd24_upper [of "rnd24 (lp_capacity t) * 15938355"] by simp
qed

lemma doubled_below_threshold:
  assumes "lp_size t \<le> cap" and "lp_capacity t = rnd24 cap * 2" and "0 < cap"
  shows "lp_below_threshold t"
  unfolding lp_below_threshold_def assms(2)
  using rnd24_upper [of "lp_size t"] rnd24_lower [of cap] rnd24_lower [of "rnd24 cap * 2"]
    rnd24_lower [of "rnd24 (rnd24 cap * 2) * 15938355"] assms(1,3) by simp

section \<open>Insertion\<close>

definition lp_stored :: "tenv \<Rightarrow> Key_t \<Rightarrow> Value_t \<Rightarrow> LinearProbingHash \<Rightarrow> LinearProbingHash \<Rightarrow> bool" where
  "lp_stored T k v t t' \<longleftrightarrow> lp_ok T t' \<and> cell_map (lp_dict t') = (cell_map (lp_dict t))(k \<mapsto> v) \<and> lp_size t' = lp_size t + 1"

lemma insert_pass_below:
  assumes "lp_ok T t" and "k \<noteq> INVALID" and "cell_map (lp_dict t) k = None" and "lp_below_threshold t" and "lp_size t < 2 ^ 31"
  shows "\<exists>t'. lp_insert_pass T k v t = Return t' \<and> lp_stored T k v t t' \<and> lp_capacity t' = lp_capacity t"
proof -
  have a: "0 < lp_capacity t" "dict_ok T (lp_capacity t) (lp_dict t)" "lp_size t = used (lp_dict t)" "lp_resizing_lock t = 0"
    using assms(1) by (auto simp: lp_ok_def)
  then have "used (lp_dict t) < lp_capacity t" using below_threshold_free [OF assms(4)] by simp
  then obtain loc where loc: "find (\<lambda>l. p_key (lp_dict t ! l) = INVALID) (lp_probe T (lp_capacity t) k) = Some loc"
    using free_cell_in_probe [of "lp_dict t" "lp_capacity t"] a(2) by (auto simp: dict_ok_def lp_probe_def)
  have "length (lp_dict t) = lp_capacity t" using a(2) by (simp add: dict_ok_def)
  then have "find (\<lambda>l. p_key (lp_dict t ! l) = INVALID) (take (2 ^ 31) (lp_probe T (lp_capacity t) k)) = Some loc"
    using find_first_free_take [of "lp_dict t" "lp_capacity t" "2 ^ 31"] \<open>used (lp_dict t) < lp_capacity t\<close> loc a(3) assms(5)
    by (simp add: lp_probe_def)
  moreover note dict_ok_store [OF a(2,1) assms(2,3) loc, of v]
  ultimately show ?thesis using a assms(4) by (simp add: lp_insert_pass_def lp_stored_def lp_ok_def)
qed

lemma insert_pass_grow:
  assumes "lp_ok T t" and "lp_capacity t < 2 ^ 31" and "\<not> lp_below_threshold t"
  shows "\<exists>t'. lp_insert_pass T k v t = Retry t' \<and> lp_ok T t' \<and> cell_map (lp_dict t') = cell_map (lp_dict t) \<and>
     lp_size t' = lp_size t \<and> lp_below_threshold t' \<and> lp_capacity t' = rnd24 (lp_capacity t) * 2"
proof -
  let ?cap = "rnd24 (lp_capacity t) * 2"
  have a: "0 < lp_capacity t" "dict_ok T (lp_capacity t) (lp_dict t)" "lp_size t = used (lp_dict t)" "lp_resizing_lock t = 0"
    using assms(1) by (auto simp: lp_ok_def)
  have f: "float_double (lp_capacity t) = Some ?cap"
    using assms(2) rnd24_upper [of "lp_capacity t"] by (simp add: float_double_def)
  have c: "0 < ?cap" "lp_capacity t \<le> ?cap" using rnd24_pos [OF a(1)] rnd24_lower [of "lp_capacity t"] by auto
  let ?t = "t\<lparr>lp_resizing_lock := 1\<rparr>"
  obtain d where d: "lp_resize T ?cap ?t = Some (?t\<lparr>lp_nlocks := ?cap div lp_locksize + 1, lp_dict := d, lp_capacity := ?cap,
       lp_old_cap := 0, lp_old_dic := None\<rparr>)" "dict_ok T ?cap d" "cell_map d = cell_map (lp_dict t)" "used d = used (lp_dict t)"
    using lp_resize_ok [of ?t T ?cap] a c assms(2) by auto
  have "lp_size t \<le> lp_capacity t" using a(2,3) used_le [of "lp_dict t"] by (simp add: dict_ok_def)
  then show ?thesis
    using a c d f assms(3) by (auto simp: lp_insert_pass_def lp_ok_def intro: doubled_below_threshold)
qed

lemma lp_Insert_effect:
  assumes "lp_ok T t" and "k \<noteq> INVALID" and "cell_map (lp_dict t) k = None" and "lp_capacity t < 2 ^ 31"
  shows "\<exists>t'. lp_Insert T 2 k v t = Some t' \<and> lp_stored T k v t t' \<and>
     lp_capacity t' = (if lp_below_threshold t then lp_capacity t else rnd24 (lp_capacity t) * 2)"
proof -
  have sz: "lp_size t < 2 ^ 31"
    using assms(1,4) used_le [of "lp_dict t"] by (simp add: lp_ok_def dict_ok_def)
  show ?thesis
  proof (cases "lp_below_threshold t")
    case True
    then show ?thesis using insert_pass_below [OF assms(1-3) True sz, of v] by (auto simp: lp_Insert_def numeral_2_eq_2)
  next
    case False
    then obtain t1 where t1: "lp_insert_pass T k v t = Retry t1" "lp_ok T t1" "cell_map (lp_dict t1) = cell_map (lp_dict t)"
        "lp_size t1 = lp_size t" "lp_below_threshold t1" "lp_capacity t1 = rnd24 (lp_capacity t) * 2"
      using insert_pass_grow [OF assms(1,4)] by blast
    obtain t2 where "lp_insert_pass T k v t1 = Return t2" "lp_stored T k v t1 t2" "lp_capacity t2 = lp_capacity t1"
      using insert_pass_below [OF t1(2) assms(2) _ t1(5)] t1(3,4) assms(3) sz by fastforce
    then show ?thesis using t1 False by (simp add: lp_Insert_def numeral_2_eq_2 lp_stored_def)
  qed
qed

text \<open>C19: insertion into a linear-probing table of fewer than \<open>2 ^ 31\<close> cells ends after at most two
  passes. It stores the pair and keeps all others, counts it, and grows the table exactly when the
  threshold was reached. Larger tables are out of reach of the \<^verbatim>\<open>int\<close> counters of \<^verbatim>\<open>Insert\<close> and \<^verbatim>\<open>resize\<close>.\<close>

theorem lp_Insert_correct:
  assumes "lp_ok T t" and "k \<noteq> INVALID" and "cell_map (lp_dict t) k = None" and "lp_capacity t < 2 ^ 31"
  shows "\<exists>t'. lp_Insert T 2 k v t = Some t' \<and> lp_ok T t' \<and>
     cell_map (lp_dict t') = (cell_map (lp_dict t))(k \<mapsto> v) \<and> lp_size t' = lp_size t + 1 \<and>
     lp_capacity t' = (if lp_below_threshold t then lp_capacity t else rnd24 (lp_capacity t) * 2) \<and>
     lp_Get T k t' = Some v"
proof -
  obtain t' where t': "lp_Insert T 2 k v t = Some t'" "lp_stored T k v t t'"
      "lp_capacity t' = (if lp_below_threshold t then lp_capacity t else rnd24 (lp_capacity t) * 2)"
    using lp_Insert_effect [OF assms] by blast
  then have "lp_Get T k t' = Some v"
    using dict_ok_get [of T "lp_capacity t'" "lp_dict t'" k] assms(2) by (simp add: lp_stored_def lp_ok_def lp_Get_def)
  then show ?thesis using t' by (auto simp: lp_stored_def)
qed

lemma lp_new_ok: "0 < cap \<Longrightarrow> lp_ok T (lp_new T cap)"
  by (simp add: lp_ok_def lp_new_def new_dict_ok used_fresh new_Pairs_INVALID)

lemma lp_new_map: "cell_map (lp_dict (lp_new T cap)) = Map.empty"
  by (simp add: lp_new_def cell_map_fresh new_Pairs_INVALID)

theorem lp_Insert_correct_witness:
  "\<exists>t'. lp_Insert demo_tenv 2 7 70 (lp_new demo_tenv 1000) = Some t' \<and> lp_Get demo_tenv 7 t' = Some 70 \<and> lp_size t' = 1"
  using lp_Insert_correct [of demo_tenv "lp_new demo_tenv 1000" 7 70] lp_new_ok [of 1000 demo_tenv]
  by (auto simp: lp_new_map INVALID_def) (auto simp: lp_new_def)

section \<open>InsertOnly, Get and Utilization\<close>

text \<open>\<open>InsertOnly\<close> succeeds exactly when the table has a free cell, and then stores the pair; a
  full table is left alone.\<close>

theorem lp_InsertOnly_correct:
  assumes "lp_ok T t" and "k \<noteq> INVALID" and "cell_map (lp_dict t) k = None"
  shows "if lp_size t < lp_capacity t
     then \<exists>t'. lp_InsertOnly T k v t = Some (True, t') \<and> lp_ok T t' \<and>
       cell_map (lp_dict t') = (cell_map (lp_dict t))(k \<mapsto> v) \<and> lp_size t' = lp_size t + 1
     else lp_InsertOnly T k v t = Some (False, t)"
proof -
  have a: "0 < lp_capacity t" "dict_ok T (lp_capacity t) (lp_dict t)" "lp_size t = used (lp_dict t)" "lp_resizing_lock t = 0"
    using assms(1) by (auto simp: lp_ok_def)
  let ?base = "h_key T k mod lp_capacity t"
  show ?thesis
  proof (cases "lp_size t < lp_capacity t")
    case True
    have l: "length (lp_dict t) = lp_capacity t" using a(2) by (simp add: dict_ok_def)
    obtain loc where loc: "find (\<lambda>l. p_key (lp_dict t ! l) = INVALID) (lp_probe T (lp_capacity t) k) = Some loc"
      using free_cell_in_probe [OF l] True a(3) by (auto simp: lp_probe_def)
    have "lp_getLocation_loop (lp_capacity t) (lp_capacity t) (lp_dict t) ?base 0 = Some loc"
      using getLocation_first_free [OF l, of "lp_capacity t" ?base] loc True a(1,3) by (simp add: lp_probe_def)
    then show ?thesis
      using True a dict_ok_store [OF a(2,1) assms(2,3) loc, of v]
      by (simp add: lp_InsertOnly_def lp_getLocation_def lp_ok_def)
  next
    case False
    have occ: "p_key (lp_dict t ! i) \<noteq> INVALID" if "i < lp_capacity t" for i
    proof
      assume "p_key (lp_dict t ! i) = INVALID"
      then have "used (lp_dict t) < length (lp_dict t)"
        using that a(2) unfolding used_def by (intro length_filter_less [of "lp_dict t ! i"]) (auto simp: dict_ok_def)
      then show False using False a(2,3) by (simp add: dict_ok_def)
    qed
    have "lp_getLocation_loop (lp_capacity t) (lp_capacity t) (lp_dict t) cur i = None"
      if "cur < lp_capacity t" for cur i
      using that
    proof (induction "lp_capacity t - i" arbitrary: cur i rule: less_induct)
      case less
      then show ?case
        using occ [of cur] a(1) by (subst lp_getLocation_loop.simps) (simp add: Let_def)
    qed
    then show ?thesis using False a(1) by (simp add: lp_InsertOnly_def lp_getLocation_def)
  qed
qed

theorem lp_InsertOnly_correct_witness:
  "\<exists>t'. lp_InsertOnly demo_tenv 7 70 (lp_new demo_tenv 10) = Some (True, t') \<and> lp_size t' = 1"
  using lp_InsertOnly_correct [of demo_tenv "lp_new demo_tenv 10" 7 70] lp_new_ok [of 10 demo_tenv]
  by (auto simp: lp_new_map INVALID_def) (auto simp: lp_new_def)

lemma lp_Utilization_used:
  assumes "lp_ok T t"
  shows "lp_Utilization t = (used (lp_dict t), lp_capacity t)"
proof -
  have "foldl (\<lambda>size i. if p_key (d ! i) \<noteq> INVALID then size + 1 else size) n [0..<length d] = n + used d" for d :: "Pair list" and n
  proof (induction d arbitrary: n)
    case (Cons p d)
    have "foldl (\<lambda>size i. if p_key ((p # d) ! i) \<noteq> INVALID then size + 1 else size) m (map Suc [0..<length d]) = m + used d" for m
      using Cons.IH [of m] by (simp add: foldl_map)
    then show ?case by (auto simp: upt_conv_Cons used_def simp flip: map_Suc_upt simp del: upt_Suc)
  qed (simp add: used_def)
  note fold = this [of "lp_dict t" 0]
  have "length (lp_dict t) = lp_capacity t" using assms by (simp add: lp_ok_def dict_ok_def)
  then show ?thesis using fold by (simp add: lp_Utilization_def)
qed

section \<open>The contract\<close>

text \<open>A table that has grown is at least a quarter full, so its capacity stays in the range of
  the counters as long as it holds fewer than \<open>2 ^ 29\<close> keys.\<close>

definition lp_inv :: "tenv \<Rightarrow> LinearProbingHash \<Rightarrow> bool" where
  "lp_inv T t \<longleftrightarrow> lp_ok T t \<and> (lp_capacity t < 2 ^ 30 \<or> lp_capacity t \<le> 4 * lp_size t)"

definition lp_fits :: "Key_t set \<Rightarrow> bool" where
  "lp_fits K \<longleftrightarrow> finite K \<and> card K < 2 ^ 29"

definition lp_valid :: "Key_t \<Rightarrow> bool" where
  "lp_valid k \<longleftrightarrow> k \<noteq> INVALID"

lemma over_threshold_full:
  assumes "\<not> lp_below_threshold t"
  shows "rnd24 (lp_capacity t) * 2 \<le> 4 * lp_size t"
  using assms rnd24_upper [of "lp_size t"] rnd24_lower [of "rnd24 (lp_capacity t) * 15938355"]
  by (simp add: lp_below_threshold_def)

lemma lp_insert_step:
  assumes "lp_inv T t" and "lp_valid k" and "cell_map (lp_dict t) k = None" and "lp_fits (insert k (dom (cell_map (lp_dict t))))"
  shows "\<exists>t'. lp_Insert T 2 k v t = Some t' \<and> lp_inv T t' \<and> cell_map (lp_dict t') = (cell_map (lp_dict t))(k \<mapsto> v)"
proof -
  have o: "lp_ok T t" "one_cell (lp_dict t)" "lp_size t = used (lp_dict t)"
    using assms(1) by (auto simp: lp_inv_def lp_ok_def dict_ok_def)
  have "card (insert k (dom (cell_map (lp_dict t)))) = lp_size t + 1"
    using card_dom_cell_map [OF o(2)] assms(3) o(3) by (simp add: domIff)
  then have "lp_size t + 1 < 2 ^ 29" using assms(4) by (simp add: lp_fits_def)
  then have c: "lp_capacity t < 2 ^ 31" using assms(1) by (auto simp: lp_inv_def)
  obtain t' where t': "lp_Insert T 2 k v t = Some t'" "lp_stored T k v t t'"
      "lp_capacity t' = (if lp_below_threshold t then lp_capacity t else rnd24 (lp_capacity t) * 2)"
    using lp_Insert_effect [OF o(1) _ assms(3) c] assms(2) by (auto simp: lp_valid_def)
  moreover have "lp_inv T t'"
    using t'(2,3) assms(1) over_threshold_full [of t] by (auto simp: lp_inv_def lp_stored_def split: if_splits)
  ultimately show ?thesis by (auto simp: lp_stored_def)
qed

interpretation lp_store: hash_store "lp_hash T" "lp_inv T" "\<lambda>t. cell_map (lp_dict t)" "\<lambda>t. {}" lp_valid lp_fits for T
proof (rule hash_storeI)
  fix t k
  assume "lp_inv T t" "lp_valid k"
  then show "Get_fn (lp_hash T) k t = Some (case cell_map (lp_dict t) k of None \<Rightarrow> NONE | Some v \<Rightarrow> v)"
    by (simp add: lp_hash_def lp_Get_def lp_inv_def lp_ok_def lp_valid_def dict_ok_get)
next
  fix K K'
  assume "lp_fits K" "K' \<subseteq> K"
  then show "lp_fits K'" unfolding lp_fits_def by (meson card_mono finite_subset order_le_less_trans)
qed (use lp_insert_step in \<open>fastforce simp: lp_hash_def\<close>)

text \<open>The linear-probing table behind the loops of \<^verbatim>\<open>test.cpp\<close>, which itself instantiates CCEH only: with
  fewer than \<open>2 ^ 29\<close> distinct keys other than \<open>INVALID\<close>, all insertions end and no search fails.\<close>

theorem lp_test_passes:
  assumes "0 < cap" and "cap < 2 ^ 30" and "distinct keys" and "INVALID \<notin> set keys" and "length keys < 2 ^ 29"
  shows "\<exists>t'. test_main (lp_hash T) keys (lp_new T cap) = Some (t', 0)"
proof -
  have "lp_inv T (lp_new T cap)" using lp_new_ok [OF assms(1)] assms(2) by (simp add: lp_inv_def lp_new_def)
  moreover have "lp_fits (set keys)" using assms(5) card_length [of keys] by (simp add: lp_fits_def)
  ultimately show ?thesis
    using lp_store.test_main_passes [of T "lp_new T cap" keys] assms(3-5) lp_new_map [of T cap] by (auto simp: lp_valid_def)
qed

theorem lp_test_passes_witness: "\<exists>t'. test_main (lp_hash demo_tenv) [3, 4, 3000] (lp_new demo_tenv 16) = Some (t', 0)"
  by (rule lp_test_passes) (simp_all add: INVALID_def)

end
