(* ===== verification/Cuckoo_Hash.thy ===== *)
theory Cuckoo_Hash
  imports Table_Env
begin

text \<open>
  The cuckoo table (\<^verbatim>\<open>cuckoo_hash.h\<close>, \<^verbatim>\<open>cuckoo_hash.cpp\<close>): two candidate cells per key, the search
  for a displacement path of fewer than 16 steps, the displacement in both its forms, growth
  by repeated doubling until every pair finds a place, and \<^verbatim>\<open>Get\<close>, as one thread runs them. The
  lemmas show that a path that was found visits no cell twice, so that carrying the pairs
  along it loses none.
\<close>

section \<open>State and hashing\<close>

record CuckooHash =
  ck_capacity :: nat
  ck_table :: "Pair list"
  ck_pushed :: "Pair list"
  ck_old_cap :: nat
  ck_old_tab :: "Pair list option"
  ck_resizing_lock :: int
  ck_nlocks :: nat

definition ck_kCuckooThreshold :: nat where "ck_kCuckooThreshold = 16"
definition ck_kMaxGrows :: nat where "ck_kMaxGrows = 128"
definition ck_locksize :: nat where "ck_locksize = 256"
definition ck_seed :: size_t where "ck_seed = 0xc70f6907"

text \<open>\<^verbatim>\<open>pushed\<close> is zeroed by the constructor.\<close>

definition ck_new :: "tenv \<Rightarrow> nat \<Rightarrow> CuckooHash" where
  "ck_new T cap =
     \<lparr>ck_capacity = cap, ck_table = new_Pairs T cap, ck_pushed = [Pair_make 0 0, Pair_make 0 0],
      ck_old_cap = 0, ck_old_tab = None, ck_resizing_lock = 0, ck_nlocks = cap div ck_locksize + 1\<rparr>"

text \<open>\<^verbatim>\<open>hash_funcs[0]\<close> and \<^verbatim>\<open>hash_funcs[1]\<close>.\<close>

definition ck_f_hash :: "tenv \<Rightarrow> Key_t \<Rightarrow> nat" where
  "ck_f_hash T k = unat (lib_hash T (key_bytes k) ck_seed)"

definition ck_s_hash :: "Key_t \<Rightarrow> nat" where
  "ck_s_hash k = unat (murmur2 (key_bytes k) ck_seed)"

definition ck_cand :: "tenv \<Rightarrow> nat \<Rightarrow> Key_t \<Rightarrow> nat list" where
  "ck_cand T cap k = [ck_f_hash T k mod cap, ck_s_hash k mod cap]"

section \<open>Displacement\<close>

text \<open>The other cell of a key that sits at \<open>cur\<close>; \<open>None\<close> is the case in which the program
  complains and exits.\<close>

definition ck_other :: "tenv \<Rightarrow> nat \<Rightarrow> Key_t \<Rightarrow> nat \<Rightarrow> nat option" where
  "ck_other T cap k cur =
     (let f_idx = ck_f_hash T k mod cap; s_idx = ck_s_hash k mod cap
      in if f_idx = cur then Some s_idx else if s_idx = cur then Some f_idx else None)"

text \<open>The loop of \<^verbatim>\<open>find_path\<close> with \<open>n\<close> steps left: the steps made and the cells appended.\<close>

fun ck_path_loop :: "tenv \<Rightarrow> nat \<Rightarrow> Pair list \<Rightarrow> nat \<Rightarrow> nat \<Rightarrow> (nat \<times> (nat \<times> Key_t) list) option" where
  "ck_path_loop T cap tab 0 cur = Some (0, [])"
| "ck_path_loop T cap tab (Suc n) cur =
     (let k = p_key (tab ! cur)
      in if k = INVALID then Some (0, [])
         else case ck_other T cap k cur of
                None \<Rightarrow> None
              | Some nxt \<Rightarrow>
                  (case ck_path_loop T cap tab n nxt of
                     None \<Rightarrow> None
                   | Some (i, path) \<Rightarrow> Some (Suc i, (nxt, p_key (tab ! nxt)) # path)))"

definition ck_find_path :: "tenv \<Rightarrow> nat \<Rightarrow> Pair list \<Rightarrow> nat \<Rightarrow> (nat \<times> Key_t) list option" where
  "ck_find_path T cap tab target =
     (case ck_path_loop T cap tab ck_kCuckooThreshold target of
        None \<Rightarrow> None
      | Some (i, path) \<Rightarrow>
          Some (if i = ck_kCuckooThreshold then [] else (target, p_key (tab ! target)) # path))"

text \<open>\<^verbatim>\<open>execute_path\<close> with a new pair: the pairs move one cell along the path, the last one
  first, and the new pair takes the cell at its head.\<close>

fun ck_shift :: "Pair list \<Rightarrow> nat list \<Rightarrow> Pair list" where
  "ck_shift tab [] = tab"
| "ck_shift tab [l] = tab"
| "ck_shift tab (l # l' # ls) = (let tab' = ck_shift tab (l' # ls) in tab'[l' := tab' ! l])"

definition ck_execute_path :: "Pair list \<Rightarrow> (nat \<times> Key_t) list \<Rightarrow> Key_t \<Rightarrow> Value_t \<Rightarrow> Pair list" where
  "ck_execute_path tab path k v =
     (ck_shift tab (map fst path))[fst (hd path) := Pair_make k v]"

text \<open>\<^verbatim>\<open>execute_path\<close> during a resize: the two cells of \<^verbatim>\<open>pushed\<close> take turns in holding the pair
  that is displaced next.\<close>

fun ck_push :: "Pair list \<times> Pair list \<Rightarrow> nat \<Rightarrow> nat list \<Rightarrow> Pair list \<times> Pair list" where
  "ck_push (tab, pushed) i [] = (tab, pushed)"
| "ck_push (tab, pushed) i (l # ls) =
     (let j = (i + 1) mod 2; pushed' = pushed[j := tab ! l]; tab' = tab[l := pushed' ! i]
      in ck_push (tab', pushed') j ls)"

section \<open>Resizing\<close>

text \<open>\<open>None\<close> when \<^verbatim>\<open>find_path\<close> exits.\<close>

definition ck_insert4resize :: "tenv \<Rightarrow> Key_t \<Rightarrow> Value_t \<Rightarrow> CuckooHash \<Rightarrow> (bool \<times> CuckooHash) option" where
  "ck_insert4resize T k v t =
     (let cap = ck_capacity t; tab = ck_table t;
          f_idx = ck_f_hash T k mod cap; s_idx = ck_s_hash k mod cap
      in if p_key (tab ! f_idx) = INVALID then Some (True, t\<lparr>ck_table := tab[f_idx := Pair_make k v]\<rparr>)
         else if p_key (tab ! s_idx) = INVALID then Some (True, t\<lparr>ck_table := tab[s_idx := Pair_make k v]\<rparr>)
         else case (ck_find_path T cap tab f_idx, ck_find_path T cap tab s_idx) of
                (Some path1, Some path2) \<Rightarrow>
                  (let t' = t\<lparr>ck_pushed := (ck_pushed t)[0 := Pair_make k v]\<rparr>;
                       run = (\<lambda>path. (case ck_push (tab, ck_pushed t') 0 (map fst path) of
                                (tab', pushed') \<Rightarrow> Some (True, t'\<lparr>ck_table := tab', ck_pushed := pushed'\<rparr>)))
                   in if path1 = [] \<and> path2 = [] then Some (False, t')
                      else if path1 = [] then run path2
                      else if path2 = [] then run path1
                      else if length path1 < length path2 then run path1
                      else run path2)
              | _ \<Rightarrow> None)"

text \<open>The loop over the old table, left at the first failure.\<close>

fun ck_rehash_from :: "tenv \<Rightarrow> Pair list \<Rightarrow> CuckooHash \<Rightarrow> (bool \<times> CuckooHash) option" where
  "ck_rehash_from T [] t = Some (True, t)"
| "ck_rehash_from T (p # ps) t =
     (if p_key p \<noteq> INVALID then
        (case ck_insert4resize T (p_key p) (p_value p) t of
           None \<Rightarrow> None
         | Some (ok, t') \<Rightarrow> if \<not> ok then Some (False, t') else ck_rehash_from T ps t')
      else ck_rehash_from T ps t)"

text \<open>Its counter is an \<^verbatim>\<open>unsigned\<close>, which never reaches an \<^verbatim>\<open>old_cap\<close> of \<open>2 ^ 32\<close> or more: from there on the
  loop wraps around and starts over with the cell 0, and can only end with a pair that finds no
  place. The growth then never succeeds; the result is \<open>None\<close>.\<close>

definition ck_rehash :: "tenv \<Rightarrow> Pair list \<Rightarrow> CuckooHash \<Rightarrow> (bool \<times> CuckooHash) option" where
  "ck_rehash T old t = (if 2 ^ 32 \<le> length old then None else ck_rehash_from T old t)"

text \<open>The \<^verbatim>\<open>do ... while (!success && i < kMaxGrows)\<close> loop, \<open>n\<close> rounds left; without success the
  program exits. \<open>None\<close> is a growth that does not return.\<close>

fun ck_grow :: "tenv \<Rightarrow> Pair list \<Rightarrow> nat \<Rightarrow> CuckooHash \<Rightarrow> CuckooHash option" where
  "ck_grow T old 0 t = None"
| "ck_grow T old (Suc n) t =
     (case float_double (ck_capacity t) of
        None \<Rightarrow> None
      | Some cap' \<Rightarrow>
          (case ck_rehash T old (t\<lparr>ck_capacity := cap', ck_table := new_Pairs T cap'\<rparr>) of
             None \<Rightarrow> None
           | Some (success, t') \<Rightarrow> if success then Some t' else ck_grow T old n t'))"

definition ck_resize :: "tenv \<Rightarrow> CuckooHash \<Rightarrow> CuckooHash option" where
  "ck_resize T t =
     (let t = t\<lparr>ck_old_cap := ck_capacity t, ck_old_tab := Some (ck_table t)\<rparr>
      in map_option (\<lambda>t'. t'\<lparr>ck_nlocks := ck_capacity t' div ck_locksize + 1\<rparr>)
           (ck_grow T (ck_table t) ck_kMaxGrows t))"

section \<open>Operations\<close>

definition ck_choose_path :: "(nat \<times> Key_t) list \<Rightarrow> (nat \<times> Key_t) list \<Rightarrow> (nat \<times> Key_t) list" where
  "ck_choose_path path1 path2 =
     (if path1 = [] \<or> (path2 \<noteq> [] \<and> length path2 < length path1) \<or> (path2 \<noteq> [] \<and> snd (path1 ! 0) = INVALID)
      then path2 else path1)"

text \<open>The part of \<^verbatim>\<open>Insert\<close> behind the two failed stores. A path whose cells changed since it was
  read is searched again, which without other threads would never end.\<close>

definition ck_displace :: "tenv \<Rightarrow> Key_t \<Rightarrow> Value_t \<Rightarrow> CuckooHash \<Rightarrow> CuckooHash outcome" where
  "ck_displace T k v t =
     (let cap = ck_capacity t; tab = ck_table t
      in case (ck_find_path T cap tab (ck_f_hash T k mod cap), ck_find_path T cap tab (ck_s_hash k mod cap)) of
           (Some path1, Some path2) \<Rightarrow>
             if path1 \<noteq> [] \<or> path2 \<noteq> [] then
               (let path = ck_choose_path path1 path2
                in if \<exists>p \<in> set path. p_key (tab ! fst p) \<noteq> snd p then Spin
                   else let t = t\<lparr>ck_resizing_lock := 0\<rparr>
                        in Return (t\<lparr>ck_table := ck_execute_path tab path k v\<rparr>))
             else (case ck_resize T t of
                     None \<Rightarrow> Fault
                   | Some t' \<Rightarrow> Retry (t'\<lparr>ck_resizing_lock := 0\<rparr>))
         | _ \<Rightarrow> Fault)"

definition ck_insert_pass :: "tenv \<Rightarrow> Key_t \<Rightarrow> Value_t \<Rightarrow> CuckooHash \<Rightarrow> CuckooHash outcome" where
  "ck_insert_pass T k v t =
     (if ck_resizing_lock t = 1 then Spin
      else if ck_capacity t = 0 then Fault
      else let f_idx = ck_f_hash T k mod ck_capacity t; s_idx = ck_s_hash k mod ck_capacity t
           in case CAS (p_key (ck_table t ! f_idx)) INVALID SENTINEL of
                (True, _, _) \<Rightarrow> Return (t\<lparr>ck_table := (ck_table t)[f_idx := Pair_make k v]\<rparr>)
              | (False, _, _) \<Rightarrow>
                  (case CAS (p_key (ck_table t ! s_idx)) INVALID SENTINEL of
                     (True, _, _) \<Rightarrow> Return (t\<lparr>ck_table := (ck_table t)[s_idx := Pair_make k v]\<rparr>)
                   | (False, _, _) \<Rightarrow>
                       (case CAS (ck_resizing_lock t) 0 1 of
                          (True, lk, _) \<Rightarrow> ck_displace T k v (t\<lparr>ck_resizing_lock := lk\<rparr>)
                        | (False, _, _) \<Rightarrow> Retry t)))"

definition ck_Insert :: "tenv \<Rightarrow> nat \<Rightarrow> Key_t \<Rightarrow> Value_t \<Rightarrow> CuckooHash \<Rightarrow> CuckooHash outcome" where
  "ck_Insert T fuel k v t = run_until (ck_insert_pass T k v) fuel t"

definition ck_InsertOnly :: "tenv \<Rightarrow> Key_t \<Rightarrow> Value_t \<Rightarrow> CuckooHash \<Rightarrow> (bool \<times> CuckooHash) option" where
  "ck_InsertOnly T k v t =
     (if ck_capacity t = 0 then None
      else let f_idx = ck_f_hash T k mod ck_capacity t; s_idx = ck_s_hash k mod ck_capacity t
           in case CAS (p_key (ck_table t ! f_idx)) INVALID SENTINEL of
                (True, _, _) \<Rightarrow> Some (True, t\<lparr>ck_table := (ck_table t)[f_idx := Pair_make k v]\<rparr>)
              | (False, _, _) \<Rightarrow>
                  (case CAS (p_key (ck_table t ! s_idx)) INVALID SENTINEL of
                     (True, _, _) \<Rightarrow> Some (True, t\<lparr>ck_table := (ck_table t)[s_idx := Pair_make k v]\<rparr>)
                   | (False, _, _) \<Rightarrow> Some (False, t)))"

definition ck_Delete :: "Key_t \<Rightarrow> CuckooHash \<Rightarrow> (bool \<times> CuckooHash) option" where
  "ck_Delete k t = Some (False, t)"

text \<open>While \<^verbatim>\<open>resizing_lock\<close> is held \<^verbatim>\<open>Get\<close> reads the old table, which need not exist.\<close>

definition ck_Get :: "tenv \<Rightarrow> Key_t \<Rightarrow> CuckooHash \<Rightarrow> Value_t option" where
  "ck_Get T k t =
     (let look = (\<lambda>tab cap. if cap = 0 then None else
            Some (case find (\<lambda>idx. p_key (tab ! idx) = k) (ck_cand T cap k) of
                    Some idx \<Rightarrow> p_value (tab ! idx)
                  | None \<Rightarrow> NONE))
      in if ck_resizing_lock t \<noteq> 0 then Option.bind (ck_old_tab t) (\<lambda>old. look old (ck_old_cap t))
         else look (ck_table t) (ck_capacity t))"

text \<open>Numerator and denominator of the ratio.\<close>

definition ck_Utilization :: "CuckooHash \<Rightarrow> nat \<times> nat" where
  "ck_Utilization t =
     (foldl (\<lambda>n i. if p_key (ck_table t ! i) \<noteq> INVALID then n + 1 else n) 0 [0..<ck_capacity t], ck_capacity t)"

definition ck_Capacity :: "CuckooHash \<Rightarrow> nat" where
  "ck_Capacity t = ck_capacity t"

section \<open>The invariant\<close>

definition ck_ok :: "tenv \<Rightarrow> CuckooHash \<Rightarrow> bool" where
  "ck_ok T t \<longleftrightarrow> 0 < ck_capacity t \<and> slots_ok (ck_capacity t) (ck_cand T (ck_capacity t)) (ck_table t) \<and>
     length (ck_pushed t) = 2"

interpretation ck: slot_table cap "ck_cand T cap" for T cap
  by unfold_locales (auto simp: ck_cand_def)

lemma set_ck_cand: "set (ck_cand T cap k) = {ck_f_hash T k mod cap, ck_s_hash k mod cap}"
  by (simp add: ck_cand_def)

section \<open>Paths\<close>

text \<open>A trail leads from cell to cell, each the other candidate of the pair before, to a free
  cell.\<close>

fun trail :: "tenv \<Rightarrow> nat \<Rightarrow> Pair list \<Rightarrow> nat list \<Rightarrow> bool" where
  "trail T cap tab [] \<longleftrightarrow> False"
| "trail T cap tab [l] \<longleftrightarrow> l < cap \<and> p_key (tab ! l) = INVALID"
| "trail T cap tab (l # l' # ls) \<longleftrightarrow> l < cap \<and> p_key (tab ! l) \<noteq> INVALID \<and>
     ck_other T cap (p_key (tab ! l)) l = Some l' \<and> trail T cap tab (l' # ls)"

lemma ck_other_cand: "ck_other T cap k cur = Some l \<Longrightarrow> l \<in> set (ck_cand T cap k)"
  by (auto simp: ck_other_def ck_cand_def Let_def split: if_splits)

lemma ck_other_total: "cur \<in> set (ck_cand T cap k) \<Longrightarrow> \<exists>l. ck_other T cap k cur = Some l"
  by (auto simp: ck_other_def ck_cand_def Let_def)

text \<open>The end of a trail is determined by its start, so a trail cannot meet itself.\<close>

lemma trail_length_unique: "trail T cap tab (l # ls) \<Longrightarrow> trail T cap tab (l # ls') \<Longrightarrow> length ls = length ls'"
proof (induction ls arbitrary: l ls')
  case Nil
  then show ?case by (cases ls') auto
next
  case (Cons m ls)
  then obtain ms where "ls' = m # ms" by (cases ls') auto
  then show ?case using Cons by auto
qed

lemma trail_suffix: "trail T cap tab (xs @ l # ls) \<Longrightarrow> trail T cap tab (l # ls)"
proof (induction xs)
  case (Cons x xs)
  then show ?case by (cases "xs @ l # ls") auto
qed simp

lemma trail_distinct: "trail T cap tab ls \<Longrightarrow> distinct ls"
proof (induction ls)
  case (Cons l ls)
  have "l \<notin> set ls"
  proof
    assume "l \<in> set ls"
    then obtain xs ys where "ls = xs @ l # ys" by (auto simp: in_set_conv_decomp)
    moreover then have "trail T cap tab (l # ys)" using trail_suffix [of T cap tab "l # xs" l ys] Cons.prems by simp
    ultimately show False using trail_length_unique [OF Cons.prems] by fastforce
  qed
  moreover have "ls = [] \<or> trail T cap tab ls" using Cons.prems by (cases ls) auto
  ultimately show ?case using Cons.IH by auto
qed simp

lemma trail_bound: "trail T cap tab ls \<Longrightarrow> l \<in> set ls \<Longrightarrow> l < cap"
  by (induction T cap tab ls rule: trail.induct) auto

lemma ck_path_loop_trail:
  assumes "slots_ok cap (ck_cand T cap) tab" and "0 < cap" and "cur < cap"
  shows "\<exists>i path. ck_path_loop T cap tab n cur = Some (i, path) \<and> i \<le> n \<and> (\<forall>p \<in> set path. snd p = p_key (tab ! fst p)) \<and>
     (i < n \<longrightarrow> trail T cap tab (cur # map fst path))"
  using assms(3)
proof (induction n arbitrary: cur)
  case (Suc n)
  show ?case
  proof (cases "p_key (tab ! cur) = INVALID")
    case False
    then have "cur \<in> set (ck_cand T cap (p_key (tab ! cur)))" using slots_okD(3) [OF assms(1) Suc.prems] by blast
    then obtain nxt where nxt: "ck_other T cap (p_key (tab ! cur)) cur = Some nxt" using ck_other_total by blast
    then have "nxt < cap" using ck_other_cand ck.cand_bound [OF assms(2)] by blast
    from Suc.IH [OF this] obtain i path where "ck_path_loop T cap tab n nxt = Some (i, path)" "i \<le> n"
        "\<forall>p \<in> set path. snd p = p_key (tab ! fst p)" "i < n \<longrightarrow> trail T cap tab (nxt # map fst path)" by blast
    then show ?thesis using False nxt Suc.prems by (auto simp: Let_def)
  qed (use Suc.prems in auto)
qed simp

lemma ck_find_path_spec:
  assumes "slots_ok cap (ck_cand T cap) tab" and "0 < cap" and "target < cap"
  shows "\<exists>path. ck_find_path T cap tab target = Some path \<and> (\<forall>p \<in> set path. snd p = p_key (tab ! fst p)) \<and>
     (path \<noteq> [] \<longrightarrow> fst (hd path) = target \<and> trail T cap tab (map fst path))"
  using ck_path_loop_trail [OF assms, of ck_kCuckooThreshold] by (auto simp: ck_find_path_def)

lemma ck_find_path_free:
  assumes "p_key (tab ! target) = INVALID"
  shows "ck_find_path T cap tab target = Some [(target, INVALID)]"
proof -
  have "ck_path_loop T cap tab (Suc n) target = Some (0, [])" for n using assms by simp
  from this [of 15] show ?thesis using assms by (simp add: ck_find_path_def ck_kCuckooThreshold_def)
qed

section \<open>Displacement keeps the map\<close>

lemma length_ck_shift [simp]: "length (ck_shift tab ls) = length tab"
  by (induction tab ls rule: ck_shift.induct) (auto simp: Let_def)

lemma ck_shift_other: "x \<notin> set (tl ls) \<Longrightarrow> ck_shift tab ls ! x = tab ! x"
  by (induction tab ls rule: ck_shift.induct) (auto simp: Let_def)

lemma ck_shift_update: "x \<notin> set ls \<Longrightarrow> ck_shift (tab[x := p]) ls = (ck_shift tab ls)[x := p]"
  by (induction tab ls rule: ck_shift.induct) (auto simp: Let_def list_update_swap)

text \<open>Moving the hole from the end of a trail to its head.\<close>

lemma ck_shift_hole:
  assumes "slots_ok cap (ck_cand T cap) tab" and "0 < cap" and "trail T cap tab ls" and "p_key hole = INVALID"
  shows "slots_ok cap (ck_cand T cap) ((ck_shift tab ls)[hd ls := hole]) \<and>
     cell_map ((ck_shift tab ls)[hd ls := hole]) = cell_map tab"
  using assms(3) trail_distinct [OF assms(3)]
proof (induction ls)
  case (Cons l ls)
  show ?case
  proof (cases ls)
    case Nil
    then have l: "l < cap" "p_key (tab ! l) = INVALID" using Cons.prems by auto
    let ?b = "tab[l := hole]"
    have len: "length tab = cap" by (rule slots_okD(1) [OF assms(1)])
    have keys: "p_key (?b ! i) = p_key (tab ! i)" if "i < cap" for i
      using that l assms(4) len by (cases "i = l") auto
    have one: "one_cell ?b" using slots_okD(2) [OF assms(1)] len keys unfolding one_cell_def by simp
    have "cell_map ?b = cell_map tab"
    proof (rule cell_map_ext [OF one slots_okD(2) [OF assms(1)]])
      fix k v
      assume "k \<noteq> INVALID"
      then have "?b ! i = Pair_make k v \<longleftrightarrow> tab ! i = Pair_make k v" if "i < cap" for i
        using that l len assms(4) by (cases "i = l") auto
      then show "(\<exists>i < length ?b. ?b ! i = Pair_make k v) = (\<exists>i < length tab. tab ! i = Pair_make k v)"
        using len by auto
    qed
    moreover have "slots_ok cap (ck_cand T cap) ?b"
      using one keys assms(1) len unfolding slots_ok_def by simp
    ultimately show ?thesis using Nil by simp
  next
    case (Cons l' ls')
    let ?B = "(ck_shift tab (l' # ls'))[l' := hole]"
    have l: "l < cap" "l' < cap" "l \<noteq> l'" "ck_other T cap (p_key (tab ! l)) l = Some l'" "l \<notin> set ls"
      using Cons.prems trail_bound [OF Cons.prems(1)] unfolding Cons by auto
    have B: "slots_ok cap (ck_cand T cap) ?B" "cell_map ?B = cell_map tab"
      using Cons.IH Cons.prems unfolding Cons by auto
    have len: "length tab = cap" by (rule slots_okD(1) [OF assms(1)])
    have Bl: "?B ! l = tab ! l" using ck_shift_other [of l "l' # ls'" tab] l unfolding Cons by auto
    have e: "(ck_shift tab (l # ls))[hd (l # ls) := hole] = ?B[l' := ?B ! l, l := hole]"
      using l by (simp add: Cons Let_def)
    have "p_key (?B ! l') = INVALID" using l(2) len assms(4) by simp
    moreover have "l' \<in> set (ck_cand T cap (p_key (?B ! l)))" using ck_other_cand l(4) Bl by metis
    ultimately show ?thesis
      unfolding e using ck.move [OF B(1) l(1,2,3)] B(2) assms(4) by simp
  qed
qed simp

lemma ck_shift_place:
  assumes "slots_ok cap (ck_cand T cap) tab" and "0 < cap" and "trail T cap tab ls" and "hd ls \<in> set (ck_cand T cap k)"
    and "k \<noteq> INVALID" and "cell_map tab k = None"
  shows "slots_ok cap (ck_cand T cap) ((ck_shift tab ls)[hd ls := Pair_make k v]) \<and>
     cell_map ((ck_shift tab ls)[hd ls := Pair_make k v]) = (cell_map tab)(k \<mapsto> v)"
proof -
  define hole :: Pair where "hole = Pair_init 0"
  let ?B = "(ck_shift tab ls)[hd ls := hole]"
  have h: "p_key hole = INVALID" by (simp add: hole_def)
  note s = ck_shift_hole [OF assms(1-3) h]
  have "hd ls < cap" using trail_bound [OF assms(3)] assms(3) by (cases ls) auto
  then have "p_key (?B ! hd ls) = INVALID" using h slots_okD(1) [OF assms(1)] by simp
  then have "slots_ok cap (ck_cand T cap) (?B[hd ls := Pair_make k v]) \<and>
      cell_map (?B[hd ls := Pair_make k v]) = (cell_map ?B)(k \<mapsto> v)"
    using ck.place [OF s [THEN conjunct1] assms(2,4), of v] s assms(5,6) by simp
  then show ?thesis using s by simp
qed

text \<open>The displacement with the two buffers does the same.\<close>

lemma ck_push_shift:
  assumes "distinct ls" and "ls \<noteq> []" and "length pushed = 2" and "i < 2"
  shows "fst (ck_push (tab, pushed) i ls) = (ck_shift tab ls)[hd ls := pushed ! i]"
    and "length (snd (ck_push (tab, pushed) i ls)) = 2"
proof -
  have "fst (ck_push (tab, pushed) i ls) = (ck_shift tab ls)[hd ls := pushed ! i] \<and>
      length (snd (ck_push (tab, pushed) i ls)) = 2"
    using assms
  proof (induction ls arbitrary: tab pushed i)
    case (Cons l ls)
    have ij: "(i + 1) mod 2 \<noteq> i" "(i + 1) mod 2 < 2" using Cons.prems(4) by (auto simp: mod_Suc)
    let ?j = "(i + 1) mod 2" and ?p = "pushed[(i + 1) mod 2 := tab ! l]" and ?t = "tab[l := pushed ! i]"
    have step: "ck_push (tab, pushed) i (l # ls) = ck_push (?t, ?p) ?j ls" using ij by (simp add: Let_def)
    show ?case
    proof (cases ls)
      case Nil
      then show ?thesis using Cons.prems(3) ij by (simp add: Let_def)
    next
      case (Cons l' ls')
      have d: "l \<notin> set ls" "l \<noteq> l'" "distinct ls" using Cons.prems(1) Cons by auto
      have "fst (ck_push (?t, ?p) ?j ls) = (ck_shift ?t ls)[l' := ?p ! ?j] \<and> length (snd (ck_push (?t, ?p) ?j ls)) = 2"
        using Cons.IH [of ?p ?j ?t] d(3) Cons Cons.prems(3) ij(2) by simp
      moreover have "?p ! ?j = tab ! l" using ij(2) Cons.prems(3) by simp
      moreover have "ck_shift tab ls ! l = tab ! l" using d(1) Cons by (intro ck_shift_other) auto
      ultimately show ?thesis
        unfolding step using d ck_shift_update [OF d(1)] Cons by (simp add: Let_def list_update_swap)
    qed
  qed simp
  then show "fst (ck_push (tab, pushed) i ls) = (ck_shift tab ls)[hd ls := pushed ! i]"
    "length (snd (ck_push (tab, pushed) i ls)) = 2" by simp_all
qed

section \<open>Resizing keeps the map\<close>

lemma ck_insert4resize_effect:
  assumes "ck_ok T t" and "k \<noteq> INVALID" and "cell_map (ck_table t) k = None"
  shows "\<exists>ok t'. ck_insert4resize T k v t = Some (ok, t') \<and> ck_ok T t' \<and> ck_capacity t' = ck_capacity t \<and>
     cell_map (ck_table t') = (if ok then (cell_map (ck_table t))(k \<mapsto> v) else cell_map (ck_table t))"
proof -
  let ?cap = "ck_capacity t" and ?tab = "ck_table t"
  let ?f = "ck_f_hash T k mod ?cap" and ?s = "ck_s_hash k mod ?cap"
  have a: "0 < ?cap" "slots_ok ?cap (ck_cand T ?cap) ?tab" "length (ck_pushed t) = 2"
    using assms(1) by (auto simp: ck_ok_def)
  have c: "?f \<in> set (ck_cand T ?cap k)" "?s \<in> set (ck_cand T ?cap k)" "?f < ?cap" "?s < ?cap"
    using a(1) by (auto simp: ck_cand_def)
  obtain p1 where p1: "ck_find_path T ?cap ?tab ?f = Some p1" "p1 \<noteq> [] \<longrightarrow> fst (hd p1) = ?f \<and> trail T ?cap ?tab (map fst p1)"
    using ck_find_path_spec [OF a(2,1) c(3)] by blast
  obtain p2 where p2: "ck_find_path T ?cap ?tab ?s = Some p2" "p2 \<noteq> [] \<longrightarrow> fst (hd p2) = ?s \<and> trail T ?cap ?tab (map fst p2)"
    using ck_find_path_spec [OF a(2,1) c(4)] by blast
  let ?pushed = "(ck_pushed t)[0 := Pair_make k v]"
  define good where "good t' \<longleftrightarrow> ck_ok T t' \<and> ck_capacity t' = ?cap \<and> cell_map (ck_table t') = (cell_map ?tab)(k \<mapsto> v)" for t'
  have run: "good (t\<lparr>ck_table := fst (ck_push (?tab, ?pushed) 0 (map fst p)),
       ck_pushed := snd (ck_push (?tab, ?pushed) 0 (map fst p))\<rparr>)"
    if "p \<noteq> []" "fst (hd p) \<in> set (ck_cand T ?cap k)" "trail T ?cap ?tab (map fst p)" for p
  proof -
    have h: "hd (map fst p) = fst (hd p)" using that(1) by (cases p) auto
    have "fst (ck_push (?tab, ?pushed) 0 (map fst p)) = (ck_shift ?tab (map fst p))[hd (map fst p) := Pair_make k v]"
      "length (snd (ck_push (?tab, ?pushed) 0 (map fst p))) = 2"
      using ck_push_shift [OF trail_distinct [OF that(3)], of ?pushed 0 ?tab] that(1) a(3) by auto
    then show ?thesis
      using ck_shift_place [OF a(2,1) that(3), of k v] that(2) h assms(2,3) a(1) by (simp add: good_def ck_ok_def)
  qed
  have store: "good (t\<lparr>ck_table := ?tab[l := Pair_make k v]\<rparr>)" if "l \<in> set (ck_cand T ?cap k)" "p_key (?tab ! l) = INVALID" for l
    using ck.place [OF a(2,1) that assms(3,2), of v] a by (simp add: good_def ck_ok_def)
  have r1: "p1 \<noteq> [] \<Longrightarrow> good (t\<lparr>ck_table := fst (ck_push (?tab, ?pushed) 0 (map fst p1)),
      ck_pushed := snd (ck_push (?tab, ?pushed) 0 (map fst p1))\<rparr>)" using p1(2) c(1) by (intro run) auto
  have r2: "p2 \<noteq> [] \<Longrightarrow> good (t\<lparr>ck_table := fst (ck_push (?tab, ?pushed) 0 (map fst p2)),
      ck_pushed := snd (ck_push (?tab, ?pushed) 0 (map fst p2))\<rparr>)" using p2(2) c(2) by (intro run) auto
  have "(\<exists>t'. ck_insert4resize T k v t = Some (True, t') \<and> good t') \<or>
      ck_insert4resize T k v t = Some (False, t\<lparr>ck_pushed := ?pushed\<rparr>)"
    using r1 r2 store [OF c(1)] store [OF c(2)]
    by (simp add: ck_insert4resize_def Let_def case_prod_beta p1(1) p2(1))
  then show ?thesis using a by (auto simp: good_def ck_ok_def)
qed

lemma ck_rehash_from_effect:
  assumes "ck_ok T t" and "fresh_for (cell_map (ck_table t)) ps"
  shows "\<exists>ok t'. ck_rehash_from T ps t = Some (ok, t') \<and> ck_ok T t' \<and> ck_capacity t' = ck_capacity t \<and>
     (ok \<longrightarrow> cell_map (ck_table t') = cell_map (ck_table t) ++ cell_map ps)"
  using assms
proof (induction ps arbitrary: t)
  case (Cons p ps)
  show ?case
  proof (cases "p_key p = INVALID")
    case True
    then show ?thesis using Cons.IH [of t] Cons.prems fresh_for_skip [OF Cons.prems(2) True] by (simp add: cell_map_Cons)
  next
    case False
    note fresh = fresh_for_Cons [OF Cons.prems(2) False]
    obtain ok t1 where t1: "ck_insert4resize T (p_key p) (p_value p) t = Some (ok, t1)" "ck_ok T t1" "ck_capacity t1 = ck_capacity t"
        "cell_map (ck_table t1) = (if ok then (cell_map (ck_table t))(p_key p \<mapsto> p_value p) else cell_map (ck_table t))"
      using ck_insert4resize_effect [OF Cons.prems(1) False fresh(1)] by blast
    show ?thesis
    proof (cases ok)
      case True
      then obtain ok' t2 where "ck_rehash_from T ps t1 = Some (ok', t2)" "ck_ok T t2" "ck_capacity t2 = ck_capacity t1"
          "ok' \<longrightarrow> cell_map (ck_table t2) = cell_map (ck_table t1) ++ cell_map ps"
        using Cons.IH [OF t1(2)] fresh(2) t1(4) by metis
      then show ?thesis using t1 True False fresh(4) by simp
    next
      case notok: False
      then show ?thesis using t1 False by (intro exI [of _ False] exI [of _ t1]) simp
    qed
  qed
qed auto

lemma ck_grow_effect:
  assumes "0 < ck_capacity t" and "length (ck_pushed t) = 2" and "one_cell old" and "ck_grow T old n t = Some t'"
  shows "ck_ok T t' \<and> cell_map (ck_table t') = cell_map old \<and> msb_pos (ck_capacity t) < msb_pos (ck_capacity t') \<and> ck_capacity t' < 2 ^ 64"
  using assms(1,2,4)
proof (induction n arbitrary: t)
  case (Suc n)
  let ?cap = "rnd24 (ck_capacity t) * 2"
  let ?t = "t\<lparr>ck_capacity := ?cap, ck_table := new_Pairs T ?cap\<rparr>"
  have f: "float_double (ck_capacity t) = Some ?cap" "?cap < 2 ^ 64"
    using Suc.prems(3) by (auto simp: float_double_def Let_def split: option.splits if_splits)
  have g: "0 < ?cap" "msb_pos (ck_capacity t) < msb_pos ?cap"
    using rnd24_pos [OF Suc.prems(1)] msb_pos_doubled [OF Suc.prems(1)] by auto
  have ok: "ck_ok T ?t" "cell_map (ck_table ?t) = Map.empty"
    using g(1) Suc.prems(2) by (auto simp: ck_ok_def slots_ok_fresh new_Pairs_INVALID cell_map_fresh)
  have "\<not> 2 ^ 32 \<le> length old" using Suc.prems(3) f by (auto simp: ck_rehash_def)
  then obtain s t1 where t1: "ck_rehash T old ?t = Some (s, t1)" "ck_ok T t1" "ck_capacity t1 = ?cap"
      "s \<longrightarrow> cell_map (ck_table t1) = cell_map old"
    using ck_rehash_from_effect [OF ok(1), of old] ok(2) fresh_for_one_cell [OF assms(3)] by (auto simp: ck_rehash_def)
  show ?case
  proof (cases s)
    case True
    then show ?thesis using Suc.prems(3) f g t1 by simp
  next
    case False
    then have "ck_grow T old n t1 = Some t'" using Suc.prems(3) f t1 by simp
    then show ?thesis using Suc.IH [of t1] t1 g by (auto simp: ck_ok_def)
  qed
qed simp

lemma ck_resize_effect:
  assumes "ck_ok T t" and "ck_resize T t = Some t'"
  shows "ck_ok T t' \<and> cell_map (ck_table t') = cell_map (ck_table t) \<and> msb_pos (ck_capacity t) < msb_pos (ck_capacity t') \<and> ck_capacity t' < 2 ^ 64"
proof -
  let ?t = "t\<lparr>ck_old_cap := ck_capacity t, ck_old_tab := Some (ck_table t)\<rparr>"
  obtain t1 where t1: "ck_grow T (ck_table t) ck_kMaxGrows ?t = Some t1" "t' = t1\<lparr>ck_nlocks := ck_capacity t1 div ck_locksize + 1\<rparr>"
    using assms(2) by (auto simp: ck_resize_def Let_def)
  have "one_cell (ck_table t)" using assms(1) by (auto simp: ck_ok_def slots_ok_def)
  then show ?thesis
    using ck_grow_effect [of ?t "ck_table t" T ck_kMaxGrows t1] t1 assms(1) by (auto simp: ck_ok_def)
qed

section \<open>Insertion\<close>

lemma ck_choose_path_cases:
  assumes "p1 \<noteq> [] \<or> p2 \<noteq> []"
  shows "(ck_choose_path p1 p2 = p1 \<and> p1 \<noteq> []) \<or> (ck_choose_path p1 p2 = p2 \<and> p2 \<noteq> [])"
  using assms by (auto simp: ck_choose_path_def)

text \<open>What one pass may do: store the pair, or grow the table and try again, or end the process.\<close>

definition ck_pass_ok :: "tenv \<Rightarrow> Key_t \<Rightarrow> Value_t \<Rightarrow> CuckooHash \<Rightarrow> CuckooHash outcome \<Rightarrow> bool" where
  "ck_pass_ok T k v t r =
     (case r of
        Return t' \<Rightarrow> ck_ok T t' \<and> ck_resizing_lock t' = 0 \<and> cell_map (ck_table t') = (cell_map (ck_table t))(k \<mapsto> v)
      | Retry t' \<Rightarrow> ck_ok T t' \<and> ck_resizing_lock t' = 0 \<and> cell_map (ck_table t') = cell_map (ck_table t) \<and>
          msb_pos (ck_capacity t) < msb_pos (ck_capacity t') \<and> ck_capacity t' < 2 ^ 64
      | Spin \<Rightarrow> False
      | Fault \<Rightarrow> True)"

lemma ck_displace_effect:
  assumes "ck_ok T t" and "k \<noteq> INVALID" and "cell_map (ck_table t) k = None"
  shows "ck_pass_ok T k v t (ck_displace T k v t)"
proof -
  let ?cap = "ck_capacity t" and ?tab = "ck_table t"
  let ?f = "ck_f_hash T k mod ?cap" and ?s = "ck_s_hash k mod ?cap"
  have a: "0 < ?cap" "slots_ok ?cap (ck_cand T ?cap) ?tab" "length (ck_pushed t) = 2"
    using assms(1) by (auto simp: ck_ok_def)
  have c: "?f \<in> set (ck_cand T ?cap k)" "?s \<in> set (ck_cand T ?cap k)" "?f < ?cap" "?s < ?cap"
    using a(1) by (auto simp: ck_cand_def)
  obtain p1 where p1: "ck_find_path T ?cap ?tab ?f = Some p1" "\<forall>p \<in> set p1. snd p = p_key (?tab ! fst p)"
      "p1 \<noteq> [] \<longrightarrow> fst (hd p1) = ?f \<and> trail T ?cap ?tab (map fst p1)"
    using ck_find_path_spec [OF a(2,1) c(3)] by blast
  obtain p2 where p2: "ck_find_path T ?cap ?tab ?s = Some p2" "\<forall>p \<in> set p2. snd p = p_key (?tab ! fst p)"
      "p2 \<noteq> [] \<longrightarrow> fst (hd p2) = ?s \<and> trail T ?cap ?tab (map fst p2)"
    using ck_find_path_spec [OF a(2,1) c(4)] by blast
  show ?thesis
  proof (cases "p1 \<noteq> [] \<or> p2 \<noteq> []")
    case True
    let ?p = "ck_choose_path p1 p2"
    have p: "?p \<noteq> []" "fst (hd ?p) \<in> set (ck_cand T ?cap k)" "trail T ?cap ?tab (map fst ?p)" "\<forall>p \<in> set ?p. snd p = p_key (?tab ! fst p)"
      using ck_choose_path_cases [OF True] p1(2,3) p2(2,3) c(1,2) by auto
    have h: "hd (map fst ?p) = fst (hd ?p)" using p(1) by (rule hd_map)
    have "\<not> (\<exists>p \<in> set ?p. p_key (?tab ! fst p) \<noteq> snd p)" using p(4) by simp
    then have "ck_displace T k v t = Return (t\<lparr>ck_resizing_lock := 0, ck_table := ck_execute_path ?tab ?p k v\<rparr>)"
      using True by (simp only: ck_displace_def Let_def p1(1) p2(1) prod.case option.case if_True if_False)
    then show ?thesis
      using ck_shift_place [OF a(2,1) p(3), of k v] p(2) h assms(2,3) a
      by (simp add: ck_pass_ok_def ck_execute_path_def ck_ok_def)
  next
    case False
    then have d: "ck_displace T k v t = (case ck_resize T t of None \<Rightarrow> Fault | Some t' \<Rightarrow> Retry (t'\<lparr>ck_resizing_lock := 0\<rparr>))"
      by (simp add: ck_displace_def Let_def p1(1) p2(1))
    then show ?thesis using ck_resize_effect [OF assms(1)] by (auto simp: ck_pass_ok_def ck_ok_def split: option.splits)
  qed
qed

lemma ck_insert_pass_effect:
  assumes "ck_ok T t" and "ck_resizing_lock t = 0" and "k \<noteq> INVALID" and "cell_map (ck_table t) k = None"
  shows "ck_pass_ok T k v t (ck_insert_pass T k v t)"
proof -
  let ?cap = "ck_capacity t" and ?tab = "ck_table t"
  have a: "0 < ?cap" "slots_ok ?cap (ck_cand T ?cap) ?tab" "length (ck_pushed t) = 2"
    using assms(1) by (auto simp: ck_ok_def)
  have store: "ck_pass_ok T k v t (Return (t\<lparr>ck_table := ?tab[l := Pair_make k v]\<rparr>))"
    if "l \<in> set (ck_cand T ?cap k)" "p_key (?tab ! l) = INVALID" for l
    using ck.place [OF a(2,1) that assms(4,3), of v] a assms(2) by (simp add: ck_pass_ok_def ck_ok_def)
  have "ck_ok T (t\<lparr>ck_resizing_lock := 1\<rparr>)" using assms(1) by (simp add: ck_ok_def)
  then have d: "ck_pass_ok T k v t (ck_displace T k v (t\<lparr>ck_resizing_lock := 1\<rparr>))"
    using ck_displace_effect [of T "t\<lparr>ck_resizing_lock := 1\<rparr>" k v] assms(3,4) by (simp add: ck_pass_ok_def cong: outcome.case_cong)
  show ?thesis
    using store [of "ck_f_hash T k mod ?cap"] store [of "ck_s_hash k mod ?cap"] d a(1) assms(2)
    by (simp add: ck_insert_pass_def Let_def CAS_def set_ck_cand)
qed

text \<open>A pass that does not store found no path from either cell.\<close>

definition ck_stuck :: "tenv \<Rightarrow> Key_t \<Rightarrow> CuckooHash \<Rightarrow> bool" where
  "ck_stuck T k t \<longleftrightarrow>
     ck_find_path T (ck_capacity t) (ck_table t) (ck_f_hash T k mod ck_capacity t) = Some [] \<and>
     ck_find_path T (ck_capacity t) (ck_table t) (ck_s_hash k mod ck_capacity t) = Some []"

lemma ck_insert_pass_not_stuck:
  assumes "ck_ok T t" and "ck_resizing_lock t = 0"
  shows "\<not> ck_stuck T k t \<Longrightarrow> ck_insert_pass T k v t = Spin \<or> (\<exists>t'. ck_insert_pass T k v t = Return t')"
    and "ck_insert_pass T k v t = Fault \<Longrightarrow> ck_stuck T k t \<and> ck_resize T (t\<lparr>ck_resizing_lock := 1\<rparr>) = None"
proof -
  let ?cap = "ck_capacity t" and ?tab = "ck_table t" and ?t = "t\<lparr>ck_resizing_lock := 1\<rparr>"
  have a: "0 < ?cap" "slots_ok ?cap (ck_cand T ?cap) ?tab" using assms(1) by (auto simp: ck_ok_def)
  then obtain p1 p2 where p: "ck_find_path T ?cap ?tab (ck_f_hash T k mod ?cap) = Some p1"
      "ck_find_path T ?cap ?tab (ck_s_hash k mod ?cap) = Some p2"
    using ck_find_path_spec [OF a(2,1), of "ck_f_hash T k mod ?cap"] ck_find_path_spec [OF a(2,1), of "ck_s_hash k mod ?cap"] by auto
  show "ck_insert_pass T k v t = Spin \<or> (\<exists>t'. ck_insert_pass T k v t = Return t')" if "\<not> ck_stuck T k t"
  proof -
    have "p1 \<noteq> [] \<or> p2 \<noteq> []" using p that by (auto simp: ck_stuck_def)
    then have "ck_displace T k v ?t = Spin \<or> (\<exists>t'. ck_displace T k v ?t = Return t')"
      using p by (auto simp: ck_displace_def Let_def)
    then show ?thesis using a(1) assms(2) by (auto simp: ck_insert_pass_def Let_def CAS_def)
  qed
  show "ck_stuck T k t \<and> ck_resize T ?t = None" if f: "ck_insert_pass T k v t = Fault"
  proof -
    have d: "ck_displace T k v ?t = Fault"
      using f a(1) assms(2) by (auto simp: ck_insert_pass_def Let_def CAS_def split: if_splits)
    then have "p1 = [] \<and> p2 = []" using p by (auto simp: ck_displace_def Let_def split: if_splits option.splits)
    then show ?thesis using d p by (auto simp: ck_displace_def Let_def ck_stuck_def split: option.splits)
  qed
qed

text \<open>C20: insertion into a cuckoo table of fewer than \<open>2 ^ 32\<close> cells goes round at most 64 times,
  because every repeated pass follows a growth that raises the leading bit of the capacity.
  Either it returns, with the pair stored and all others kept, or a growth does not return. In
  that case no path of fewer than 16 steps led from either cell of the key to a free one, neither
  in the table at first nor in the table with the same pairs that was last to be grown; and
  growing that one failed: its pairs found no place in 128 larger tables, or the next size is not
  representable, or the table had reached \<open>2 ^ 32\<close> cells, which the \<^verbatim>\<open>unsigned\<close> counter of the copy loop
  never does.\<close>

theorem ck_Insert_ends:
  assumes "ck_ok T t" and "ck_resizing_lock t = 0" and "ck_capacity t < 2 ^ 32"
    and "k \<noteq> INVALID" and "cell_map (ck_table t) k = None"
  shows "case ck_Insert T 64 k v t of
       Return t' \<Rightarrow> ck_ok T t' \<and> ck_resizing_lock t' = 0 \<and> cell_map (ck_table t') = (cell_map (ck_table t))(k \<mapsto> v) \<and>
         ck_Get T k t' = Some v
     | Fault \<Rightarrow> ck_stuck T k t \<and>
         (\<exists>s. ck_ok T s \<and> cell_map (ck_table s) = cell_map (ck_table t) \<and> ck_stuck T k s \<and>
            ck_resize T (s\<lparr>ck_resizing_lock := 1\<rparr>) = None)
     | _ \<Rightarrow> False"
proof -
  define I where "I s \<longleftrightarrow> ck_ok T s \<and> ck_resizing_lock s = 0 \<and> ck_capacity s < 2 ^ 64 \<and>
      cell_map (ck_table s) = cell_map (ck_table t)" for s
  let ?F = "\<exists>s. ck_ok T s \<and> cell_map (ck_table s) = cell_map (ck_table t) \<and> ck_stuck T k s \<and>
            ck_resize T (s\<lparr>ck_resizing_lock := 1\<rparr>) = None"
  have pass: "ck_pass_ok T k v s (ck_insert_pass T k v s)" if "I s" for s
    using that assms(4,5) ck_insert_pass_effect [of T s k v] by (simp add: I_def)
  have get: "ck_Get T k t' = Some v" if "ck_ok T t'" "ck_resizing_lock t' = 0" "cell_map (ck_table t') k = Some v" for t'
    using ck.search_map [of "ck_capacity t'" T "ck_table t'" k] that assms(4)
    by (auto simp: ck_ok_def ck_Get_def split: option.splits)
  have fault: "ck_stuck T k t" if "ck_Insert T 64 k v t = Fault"
  proof (rule ccontr)
    assume "\<not> ck_stuck T k t"
    then have "ck_insert_pass T k v t = Spin \<or> (\<exists>t'. ck_insert_pass T k v t = Return t')"
      by (rule ck_insert_pass_not_stuck(1) [OF assms(1,2)])
    then show False using that by (auto simp: ck_Insert_def run_until.simps(2) [of _ 63, simplified])
  qed
  have "case ck_Insert T 64 k v t of
       Return t' \<Rightarrow> ck_ok T t' \<and> ck_resizing_lock t' = 0 \<and> cell_map (ck_table t') = (cell_map (ck_table t))(k \<mapsto> v) \<and>
         ck_Get T k t' = Some v
     | Fault \<Rightarrow> ?F
     | _ \<Rightarrow> False"
    unfolding ck_Insert_def
  proof (rule run_until_ends_fault [where I = I and \<mu> = "\<lambda>s. msb_pos (ck_capacity s)" and bound = 63])
    show "I t" using assms by (simp add: I_def)
    show "msb_pos (ck_capacity s) \<le> 63" if "I s" for s using that msb_pos_64 by (simp add: I_def)
    show "I s' \<and> msb_pos (ck_capacity s) < msb_pos (ck_capacity s')" if "I s" "ck_insert_pass T k v s = Retry s'" for s s'
      using pass [OF that(1)] that by (simp add: ck_pass_ok_def I_def)
    show "ck_ok T s' \<and> ck_resizing_lock s' = 0 \<and> cell_map (ck_table s') = (cell_map (ck_table t))(k \<mapsto> v) \<and> ck_Get T k s' = Some v"
      if "I s" "ck_insert_pass T k v s = Return s'" for s s'
      using pass [OF that(1)] that get [of s'] by (simp add: ck_pass_ok_def I_def)
    show "ck_insert_pass T k v s \<noteq> Spin" if "I s" for s using pass [OF that] by (auto simp: ck_pass_ok_def)
    show ?F if "I s" "ck_insert_pass T k v s = Fault" for s
      using that ck_insert_pass_not_stuck(2) [of T s k v] by (auto simp: I_def)
  qed simp
  then show ?thesis using fault by (cases "ck_Insert T 64 k v t") auto
qed

lemma ck_new_ok: "0 < cap \<Longrightarrow> ck_ok T (ck_new T cap)"
  by (simp add: ck_ok_def ck_new_def slots_ok_fresh new_Pairs_INVALID)

lemma ck_new_map: "cell_map (ck_table (ck_new T cap)) = Map.empty"
  by (simp add: ck_new_def cell_map_fresh new_Pairs_INVALID)

theorem ck_Insert_ends_witness:
  "\<exists>t'. ck_Insert demo_tenv 64 7 70 (ck_new demo_tenv 1000) = Return t' \<and> ck_Get demo_tenv 7 t' = Some 70"
proof -
  let ?t = "ck_new demo_tenv 1000"
  have "ck_f_hash demo_tenv 7 mod 1000 < 1000" by simp
  then have "p_key (ck_table ?t ! (ck_f_hash demo_tenv 7 mod ck_capacity ?t)) = INVALID"
    unfolding ck_new_def new_Pairs_def CuckooHash.simps by (simp only: nth_map_upt Pair_init_simps add_0 diff_zero)
  then have "\<not> ck_stuck demo_tenv 7 ?t" using ck_find_path_free by (simp add: ck_stuck_def)
  then show ?thesis
    using ck_Insert_ends [of demo_tenv ?t 7 70] ck_new_ok [of 1000 demo_tenv]
    by (cases "ck_Insert demo_tenv 64 7 70 ?t") (simp_all add: ck_new_map INVALID_def, simp_all add: ck_new_def)
qed

end
