(* ===== verification/Path_Hashing.thy ===== *)
theory Path_Hashing
  imports Table_Env
begin

text \<open>
  The path-hashing table (\<^verbatim>\<open>path_hashing.hpp\<close>, \<^verbatim>\<open>path_hashing.cpp\<close>): the cells form the lower
  levels of an inverted binary tree, a key has two leaves and may be stored in any cell on the
  two paths upwards. Insertion, \<^verbatim>\<open>InsertOnly\<close>, \<^verbatim>\<open>Get\<close>, \<^verbatim>\<open>Utilization\<close>, the seeds and \<^verbatim>\<open>resize\<close>, as
  one thread runs them. The resize loop ignores whether a pair found a place; the lemmas show
  that every pair does, because the pairs are copied level by level. Levels are limited to 30:
  beyond that the code converts \<^verbatim>\<open>pow(2, levels)\<close> to an \<^verbatim>\<open>int\<close> that cannot hold it.
\<close>

section \<open>State\<close>

record PathHashing =
  ph_levels :: nat
  ph_reserved_levels :: nat
  ph_addr_capacity :: nat
  ph_total_capacity :: nat
  ph_size :: nat
  ph_f_seed :: "64 word"
  ph_s_seed :: "64 word"
  ph_resizing_lock :: int
  ph_nlocks :: nat
  ph_table :: "Pair list"

definition ph_locksize :: nat where "ph_locksize = 256"

text \<open>\<^verbatim>\<open>new Node[n]\<close>; unlike \<^verbatim>\<open>Pair\<close>, a fresh \<^verbatim>\<open>Node\<close> has a value.\<close>

definition new_Nodes :: "nat \<Rightarrow> Pair list" where
  "new_Nodes n = replicate n (Pair_make INVALID NONE)"

text \<open>The seeds are drawn until they differ; \<open>rand\<close> gives the results of \<^verbatim>\<open>rand()\<close> from the
  \<open>i\<close>-th call on.\<close>

fun ph_generate_seeds :: "(nat \<Rightarrow> 31 word) \<Rightarrow> nat \<Rightarrow> nat \<Rightarrow> (64 word \<times> 64 word) option" where
  "ph_generate_seeds rand 0 i = None"
| "ph_generate_seeds rand (Suc fuel) i =
     (let f_seed = ucast (rand i) :: 64 word;
          s_seed = ucast (rand (i + 1)) :: 64 word;
          f_seed = push_bit (unat (rand (i + 2)) mod 63) f_seed;
          s_seed = push_bit (unat (rand (i + 3)) mod 63) s_seed
      in if f_seed = s_seed then ph_generate_seeds rand fuel (i + 4) else Some (f_seed, s_seed))"

definition ph_new :: "nat \<Rightarrow> nat \<Rightarrow> 64 word \<times> 64 word \<Rightarrow> PathHashing" where
  "ph_new levels reserved_levels seeds =
     (let total = 2 ^ levels - 2 ^ (levels - reserved_levels)
      in \<lparr>ph_levels = levels, ph_reserved_levels = reserved_levels, ph_addr_capacity = 2 ^ (levels - 1),
          ph_total_capacity = total, ph_size = 0, ph_f_seed = fst seeds, ph_s_seed = snd seeds,
          ph_resizing_lock = 0, ph_nlocks = total div ph_locksize + 1, ph_table = new_Nodes total\<rparr>)"

section \<open>The cells of a key\<close>

definition ph_F_HASH :: "tenv \<Rightarrow> PathHashing \<Rightarrow> Key_t \<Rightarrow> nat" where
  "ph_F_HASH T t k = unat (hash_h (lib_hash T) (key_bytes k) (ph_f_seed t))"

definition ph_S_HASH :: "tenv \<Rightarrow> PathHashing \<Rightarrow> Key_t \<Rightarrow> nat" where
  "ph_S_HASH T t k = unat (hash_h (lib_hash T) (key_bytes k) (ph_s_seed t))"

definition ph_F_IDX :: "nat \<Rightarrow> nat \<Rightarrow> nat" where
  "ph_F_IDX hashKey capacity = hashKey mod (capacity div 2)"

definition ph_S_IDX :: "nat \<Rightarrow> nat \<Rightarrow> nat" where
  "ph_S_IDX hashKey capacity = hashKey mod (capacity div 2) + capacity div 2"

text \<open>The loop over the reserved levels that all operations share: \<open>n\<close> levels are left, \<open>i\<close> is the
  loop variable. The result lists the cells in the order they are visited.\<close>

fun ph_walk :: "nat \<Rightarrow> nat \<Rightarrow> nat \<Rightarrow> nat \<Rightarrow> nat \<Rightarrow> nat \<Rightarrow> nat \<Rightarrow> nat list" where
  "ph_walk levels 0 i f_idx s_idx sub_f_idx sub_s_idx = []"
| "ph_walk levels (Suc n) i f_idx s_idx sub_f_idx sub_s_idx =
     f_idx # s_idx #
       (let sub_f_idx = sub_f_idx div 2; sub_s_idx = sub_s_idx div 2;
            capacity = 2 ^ levels - 2 ^ (levels - i - 1)
        in ph_walk levels n (i + 1) (sub_f_idx + capacity) (sub_s_idx + capacity) sub_f_idx sub_s_idx)"

definition ph_cells :: "tenv \<Rightarrow> PathHashing \<Rightarrow> Key_t \<Rightarrow> nat list" where
  "ph_cells T t k =
     (let f_idx = ph_F_IDX (ph_F_HASH T t k) (ph_addr_capacity t);
          s_idx = ph_S_IDX (ph_S_HASH T t k) (ph_addr_capacity t)
      in ph_walk (ph_levels t) (ph_reserved_levels t) 0 f_idx s_idx f_idx s_idx)"

section \<open>Operations\<close>

text \<open>The loop over the old cells in \<^verbatim>\<open>resize\<close>; a pair without a free cell would be dropped.\<close>

definition ph_copy :: "tenv \<Rightarrow> PathHashing \<Rightarrow> Pair \<Rightarrow> Pair list \<Rightarrow> Pair list" where
  "ph_copy T t p tab =
     (if p_key p \<noteq> INVALID then
        (case find (\<lambda>idx. p_key (tab ! idx) = INVALID) (ph_cells T t (p_key p)) of
           Some idx \<Rightarrow> tab[idx := Pair_make (p_key p) (p_value p)]
         | None \<Rightarrow> tab)
      else tab)"

definition ph_resize :: "tenv \<Rightarrow> PathHashing \<Rightarrow> PathHashing option" where
  "ph_resize T t =
     (let levels = ph_levels t + 1;
          total = 2 ^ levels - 2 ^ (levels - ph_reserved_levels t);
          t' = t\<lparr>ph_levels := levels, ph_addr_capacity := 2 ^ (levels - 1), ph_total_capacity := total,
                 ph_nlocks := total div ph_locksize + 1\<rparr>
      in if levels > 30 then None
         else Some (t'\<lparr>ph_table := fold (ph_copy T t') (ph_table t) (new_Nodes total)\<rparr>))"

definition ph_insert_pass :: "tenv \<Rightarrow> Key_t \<Rightarrow> Value_t \<Rightarrow> PathHashing \<Rightarrow> PathHashing outcome" where
  "ph_insert_pass T k v t =
     (if ph_resizing_lock t = 1 then Spin
      else if ph_addr_capacity t div 2 = 0 then Fault
      else case find (\<lambda>idx. p_key (ph_table t ! idx) = INVALID) (ph_cells T t k) of
             Some idx \<Rightarrow> Return (t\<lparr>ph_table := (ph_table t)[idx := Pair_make k v], ph_size := ph_size t + 1\<rparr>)
           | None \<Rightarrow>
               (case CAS (ph_resizing_lock t) 0 1 of
                  (True, lk, _) \<Rightarrow>
                    (case ph_resize T (t\<lparr>ph_resizing_lock := lk\<rparr>) of
                       None \<Rightarrow> Fault
                     | Some t' \<Rightarrow> Retry (t'\<lparr>ph_resizing_lock := 0\<rparr>))
                | (False, _, _) \<Rightarrow> Retry t))"

definition ph_Insert :: "tenv \<Rightarrow> nat \<Rightarrow> Key_t \<Rightarrow> Value_t \<Rightarrow> PathHashing \<Rightarrow> PathHashing outcome" where
  "ph_Insert T fuel k v t = run_until (ph_insert_pass T k v) fuel t"

definition ph_InsertOnly :: "tenv \<Rightarrow> Key_t \<Rightarrow> Value_t \<Rightarrow> PathHashing \<Rightarrow> (bool \<times> PathHashing) option" where
  "ph_InsertOnly T k v t =
     (if ph_addr_capacity t div 2 = 0 then None
      else case find (\<lambda>idx. p_key (ph_table t ! idx) = INVALID) (ph_cells T t k) of
             Some idx \<Rightarrow> Some (True, t\<lparr>ph_table := (ph_table t)[idx := Pair_make k v], ph_size := ph_size t + 1\<rparr>)
           | None \<Rightarrow> Some (False, t))"

definition ph_Delete :: "Key_t \<Rightarrow> PathHashing \<Rightarrow> (bool \<times> PathHashing) option" where
  "ph_Delete k t = Some (False, t)"

definition ph_Get :: "tenv \<Rightarrow> Key_t \<Rightarrow> PathHashing \<Rightarrow> Value_t option" where
  "ph_Get T k t =
     (if ph_addr_capacity t div 2 = 0 then None
      else Some (case find (\<lambda>idx. p_key (ph_table t ! idx) = k) (ph_cells T t k) of
                   Some idx \<Rightarrow> p_value (ph_table t ! idx)
                 | None \<Rightarrow> NONE))"

definition ph_Utilization :: "PathHashing \<Rightarrow> nat \<times> nat" where
  "ph_Utilization t =
     (foldl (\<lambda>sum i. if p_key (ph_table t ! i) \<noteq> INVALID then sum + 1 else sum) 0 [0..<ph_total_capacity t], ph_total_capacity t)"

definition ph_Capacity :: "PathHashing \<Rightarrow> nat" where
  "ph_Capacity t = ph_total_capacity t"

section \<open>Where the cells lie\<close>

text \<open>The first cell of a level.\<close>

definition level_start :: "nat \<Rightarrow> nat \<Rightarrow> nat" where
  "level_start levels j = 2 ^ levels - 2 ^ (levels - j)"

lemma level_start_Suc: "j < levels \<Longrightarrow> level_start levels (Suc j) = level_start levels j + 2 ^ (levels - Suc j)"
proof -
  assume "j < levels"
  then have "2 ^ (levels - j) = 2 * (2 :: nat) ^ (levels - Suc j)" by (metis Suc_diff_Suc power_Suc)
  moreover have "(2 :: nat) ^ (levels - j) \<le> 2 ^ levels" by (rule power_increasing) auto
  ultimately show ?thesis by (simp add: level_start_def)
qed

lemma level_start_mono: "i \<le> j \<Longrightarrow> level_start levels i \<le> level_start levels j"
  unfolding level_start_def by (intro diff_le_mono2 power_increasing) auto

text \<open>The cells of a key in closed form.\<close>

definition path_cells :: "nat \<Rightarrow> nat \<Rightarrow> nat \<Rightarrow> nat \<Rightarrow> nat list" where
  "path_cells levels n f s =
     concat (map (\<lambda>j. [f div 2 ^ j + level_start levels j, s div 2 ^ j + level_start levels j]) [0..<n])"

lemma ph_walk_path_from: "ph_walk levels n i (f div 2 ^ i + level_start levels i) (s div 2 ^ i + level_start levels i)
      (f div 2 ^ i) (s div 2 ^ i) =
    concat (map (\<lambda>j. [f div 2 ^ j + level_start levels j, s div 2 ^ j + level_start levels j]) [i..<i + n])"
proof (induction n arbitrary: i)
  case (Suc n)
  have e: "x div 2 ^ i div 2 = x div 2 ^ Suc i" for x :: nat by (metis div_mult2_eq power_Suc2)
  have "[i..<i + Suc n] = i # [Suc i..<Suc i + n]" by (simp add: upt_conv_Cons)
  then show ?case using Suc.IH [of "Suc i"] by (simp add: Let_def e level_start_def [of levels "Suc i"])
qed simp

lemma ph_walk_path: "ph_walk levels n 0 f s f s = path_cells levels n f s"
  using ph_walk_path_from [of levels n 0 f s] by (simp add: path_cells_def level_start_def)

text \<open>The leaves of a key in a tree of the given height.\<close>

definition leaf_f :: "tenv \<Rightarrow> PathHashing \<Rightarrow> nat \<Rightarrow> Key_t \<Rightarrow> nat" where
  "leaf_f T t levels k = ph_F_HASH T t k mod 2 ^ (levels - 2)"

definition leaf_s :: "tenv \<Rightarrow> PathHashing \<Rightarrow> nat \<Rightarrow> Key_t \<Rightarrow> nat" where
  "leaf_s T t levels k = ph_S_HASH T t k mod 2 ^ (levels - 2) + 2 ^ (levels - 2)"

definition ph_shape :: "PathHashing \<Rightarrow> bool" where
  "ph_shape t \<longleftrightarrow> 2 \<le> ph_levels t \<and> ph_levels t \<le> 30 \<and> 1 \<le> ph_reserved_levels t \<and> ph_reserved_levels t \<le> ph_levels t \<and>
     ph_addr_capacity t = 2 ^ (ph_levels t - 1) \<and> ph_total_capacity t = level_start (ph_levels t) (ph_reserved_levels t)"

lemma half_addr: "2 \<le> levels \<Longrightarrow> (2::nat) ^ (levels - 1) div 2 = 2 ^ (levels - 2)"
proof -
  assume "2 \<le> levels"
  then obtain m where "levels = m + 2" by (metis add.commute le_Suc_ex)
  then show ?thesis by simp
qed

lemma ph_cells_path:
  assumes "ph_shape t"
  shows "ph_cells T t k = path_cells (ph_levels t) (ph_reserved_levels t)
     (leaf_f T t (ph_levels t) k) (leaf_s T t (ph_levels t) k)"
  using assms half_addr [of "ph_levels t"]
  by (simp add: ph_cells_def ph_walk_path ph_F_IDX_def ph_S_IDX_def leaf_f_def leaf_s_def ph_shape_def Let_def)

lemma leaf_bounds: "2 \<le> levels \<Longrightarrow> leaf_f T t levels k < 2 ^ (levels - 1) \<and> leaf_s T t levels k < 2 ^ (levels - 1)"
proof -
  assume l: "2 \<le> levels"
  then have "levels - 1 = Suc (levels - 2)" by simp
  then have "(2::nat) ^ (levels - 1) = 2 ^ (levels - 2) + 2 ^ (levels - 2)" by (simp add: mult_2)
  moreover have "x mod 2 ^ (levels - 2) < 2 ^ (levels - 2)" for x :: nat by simp
  ultimately show ?thesis unfolding leaf_f_def leaf_s_def by (metis add_less_mono1 trans_less_add1)
qed

lemma shift_bound: "(x::nat) < 2 ^ (levels - 1) \<Longrightarrow> j < levels \<Longrightarrow> x div 2 ^ j < 2 ^ (levels - Suc j)"
proof -
  assume x: "x < 2 ^ (levels - 1)" and "j < levels"
  then have "(2::nat) ^ (levels - 1) = 2 ^ (levels - Suc j) * 2 ^ j" by (simp flip: power_add)
  then show ?thesis using x by (simp add: less_mult_imp_div_less)
qed

lemma path_cells_level:
  assumes "c \<in> set (path_cells levels n f s)" and "f < 2 ^ (levels - 1)" and "s < 2 ^ (levels - 1)" and "n \<le> levels"
  shows "\<exists>j < n. level_start levels j \<le> c \<and> c < level_start levels (Suc j)"
proof -
  from assms(1) obtain j where j: "j < n" "c = f div 2 ^ j + level_start levels j \<or> c = s div 2 ^ j + level_start levels j"
    by (auto simp: path_cells_def)
  then show ?thesis
    using shift_bound [OF assms(2)] shift_bound [OF assms(3)] level_start_Suc [of j levels] assms(4)
    by (intro exI [of _ j]) fastforce
qed

lemma ph_cells_in_table:
  assumes "ph_shape t" and "c \<in> set (ph_cells T t k)"
  shows "c < ph_total_capacity t"
proof -
  have p: "2 \<le> ph_levels t" "ph_reserved_levels t \<le> ph_levels t" "ph_total_capacity t = level_start (ph_levels t) (ph_reserved_levels t)"
    using assms(1) by (auto simp: ph_shape_def)
  obtain j where "j < ph_reserved_levels t" "c < level_start (ph_levels t) (Suc j)"
    using path_cells_level [of c "ph_levels t"] assms(2) leaf_bounds [OF p(1)] p(2) unfolding ph_cells_path [OF assms(1)] by blast
  then show ?thesis using level_start_mono [of "Suc j" "ph_reserved_levels t" "ph_levels t"] p(3) by simp
qed

section \<open>Old and new cells\<close>

text \<open>
  After a resize every cell of the old table has counterparts in the new one, on the same level
  and in the same half of it. \<open>home\<close> leads from the offset of a cell in a level of the new table
  back to the offset in the same level of the old one.
\<close>

definition home :: "nat \<Rightarrow> nat \<Rightarrow> nat \<Rightarrow> nat" where
  "home L j y =
     (if j = L - 1 then 0
      else if y < 2 ^ (L - 1 - j) then y mod 2 ^ (L - 2 - j)
      else y mod 2 ^ (L - 2 - j) + 2 ^ (L - 2 - j))"

lemma home_top: "j = L - 1 \<Longrightarrow> home L j y = 0"
  by (simp add: home_def)

lemma home_low: "j \<noteq> L - 1 \<Longrightarrow> y < 2 ^ (L - 1 - j) \<Longrightarrow> home L j y = y mod 2 ^ (L - 2 - j)"
  by (simp only: home_def if_True if_False)

lemma home_high: "j \<noteq> L - 1 \<Longrightarrow> \<not> y < 2 ^ (L - 1 - j) \<Longrightarrow> home L j y = y mod 2 ^ (L - 2 - j) + 2 ^ (L - 2 - j)"
  by (simp only: home_def if_True if_False)

lemma nth_path_cells:
  "p < 2 * n \<Longrightarrow> path_cells levels n f s ! p = (if even p then f else s) div 2 ^ (p div 2) + level_start levels (p div 2)"
proof (induction n)
  case (Suc n)
  let ?c = "\<lambda>j. [f div 2 ^ j + level_start levels j, s div 2 ^ j + level_start levels j]"
  have len: "length (path_cells levels n f s) = 2 * n" by (induction n) (auto simp: path_cells_def)
  have app: "path_cells levels (Suc n) f s = path_cells levels n f s @ ?c n" by (simp add: path_cells_def)
  show ?case
  proof (cases "p < 2 * n")
    case True
    then show ?thesis using Suc.IH by (simp add: app nth_append len)
  next
    case False
    then have "p = 2 * n \<or> p = Suc (2 * n)" using Suc.prems by auto
    then show ?thesis by (auto simp: app nth_append len)
  qed
qed simp

lemma length_path_cells [simp]: "length (path_cells levels n f s) = 2 * n"
  by (induction n) (auto simp: path_cells_def)

lemma div_mod_shift: "(x mod 2 ^ (a + b)) div 2 ^ b = (x div 2 ^ b) mod (2::nat) ^ a"
  by (simp add: power_add mult.commute [of "2 ^ a"] mod_mult2_eq)

lemma home_bound: "j < L \<Longrightarrow> home L j y < 2 ^ (L - 1 - j)"
proof -
  assume j: "j < L"
  show ?thesis
  proof (cases "j = L - 1")
    case False
    then have "L - 1 - j = Suc (L - 2 - j)" using j by simp
    then have "(2::nat) ^ (L - 1 - j) = 2 ^ (L - 2 - j) + 2 ^ (L - 2 - j)" by (simp add: mult_2)
    moreover have "y mod 2 ^ (L - 2 - j) < 2 ^ (L - 2 - j)" by simp
    ultimately show ?thesis
      using home_low [OF False, of y] home_high [OF False, of y] by (cases "y < 2 ^ (L - 1 - j)") linarith+
  qed (simp add: home_top)
qed

text \<open>The counterpart on the first path, and on the second one.\<close>

lemma home_f:
  assumes "j < L" and "2 \<le> L"
  shows "home L j (h mod 2 ^ (L - 1) div 2 ^ j) = h mod 2 ^ (L - 2) div 2 ^ j"
    and "h mod 2 ^ (L - 1) div 2 ^ j < 2 ^ (L - 1 - j)"
proof -
  have e: "L - 1 = (L - 1 - j) + j" using assms by simp
  have "h mod 2 ^ (L - 1) div 2 ^ j = h div 2 ^ j mod 2 ^ (L - 1 - j)" by (subst e) (rule div_mod_shift)
  then show b: "h mod 2 ^ (L - 1) div 2 ^ j < 2 ^ (L - 1 - j)" by simp
  show "home L j (h mod 2 ^ (L - 1) div 2 ^ j) = h mod 2 ^ (L - 2) div 2 ^ j"
  proof (cases "j = L - 1")
    case True
    have "h mod 2 ^ (L - 2) < 2 ^ (L - 2)" by simp
    also have "(2::nat) ^ (L - 2) \<le> 2 ^ (L - 1)" by (rule power_increasing) auto
    finally show ?thesis using True by (simp add: home_top)
  next
    case False
    then have e2: "L - 2 = (L - 2 - j) + j" "L - 2 - j \<le> L - 1 - j" using assms by auto
    have "h mod 2 ^ (L - 2) div 2 ^ j = h div 2 ^ j mod 2 ^ (L - 2 - j)" by (subst e2(1)) (rule div_mod_shift)
    moreover have "h mod 2 ^ (L - 1) div 2 ^ j = h div 2 ^ j mod 2 ^ (L - 1 - j)" by (subst e) (rule div_mod_shift)
    moreover have "x mod 2 ^ (L - 1 - j) mod 2 ^ (L - 2 - j) = x mod (2::nat) ^ (L - 2 - j)" for x
      using e2(2) by (simp add: mod_mod_cancel le_imp_power_dvd)
    ultimately show ?thesis unfolding home_low [OF False b] by (simp only:)
  qed
qed

lemma div_add_shift: "j \<le> m \<Longrightarrow> (x + 2 ^ m) div 2 ^ j = x div 2 ^ j + (2::nat) ^ (m - j)"
proof -
  assume "j \<le> m"
  then have "(2::nat) ^ m = 2 ^ (m - j) * 2 ^ j" by (simp flip: power_add)
  then show ?thesis by simp
qed

lemma home_s:
  assumes "j < L" and "2 \<le> L"
  shows "home L j ((h mod 2 ^ (L - 1) + 2 ^ (L - 1)) div 2 ^ j) = (h mod 2 ^ (L - 2) + 2 ^ (L - 2)) div 2 ^ j"
    and "(h mod 2 ^ (L - 1) + 2 ^ (L - 1)) div 2 ^ j = h mod 2 ^ (L - 1) div 2 ^ j + 2 ^ (L - 1 - j)"
proof -
  show y: "(h mod 2 ^ (L - 1) + 2 ^ (L - 1)) div 2 ^ j = h mod 2 ^ (L - 1) div 2 ^ j + 2 ^ (L - 1 - j)"
    using assms by (intro div_add_shift) simp
  show "home L j ((h mod 2 ^ (L - 1) + 2 ^ (L - 1)) div 2 ^ j) = (h mod 2 ^ (L - 2) + 2 ^ (L - 2)) div 2 ^ j"
  proof (cases "j = L - 1")
    case True
    have "h mod 2 ^ (L - 2) < 2 ^ (L - 2)" by simp
    then have "h mod 2 ^ (L - 2) + 2 ^ (L - 2) < 2 * 2 ^ (L - 2)" by linarith
    also have "2 * (2::nat) ^ (L - 2) = 2 ^ (L - 1)" using assms(2) by (simp flip: power_Suc add: Suc_diff_Suc numeral_2_eq_2)
    finally show ?thesis using True by (simp add: home_top)
  next
    case False
    have p: "(2::nat) ^ (L - 1 - j) = 2 * 2 ^ (L - 2 - j)" using False assms by (simp flip: power_Suc add: Suc_diff_Suc numeral_2_eq_2)
    have "(z + 2 * m) mod m = z mod m" for z m :: nat by simp
    then have "home L j (h mod 2 ^ (L - 1) div 2 ^ j + 2 ^ (L - 1 - j)) = home L j (h mod 2 ^ (L - 1) div 2 ^ j) + 2 ^ (L - 2 - j)"
      unfolding home_low [OF False home_f(2) [OF assms]] by (subst home_high [OF False]) (simp_all only: p not_less le_add2)
    also have "\<dots> = (h mod 2 ^ (L - 2) + 2 ^ (L - 2)) div 2 ^ j"
      unfolding home_f(1) [OF assms] using False assms by (intro div_add_shift [symmetric]) simp
    finally show ?thesis unfolding y .
  qed
qed

text \<open>For every cell \<open>i\<close> of a key in the old table, a position in its list of new cells.\<close>

definition twin :: "nat \<Rightarrow> nat \<Rightarrow> nat \<Rightarrow> nat \<Rightarrow> bool" where
  "twin L i p c \<longleftrightarrow> p div 2 < L \<and> level_start (Suc L) (p div 2) \<le> c \<and> c < level_start (Suc L) (Suc (p div 2)) \<and>
     i = level_start L (p div 2) + home L (p div 2) (c - level_start (Suc L) (p div 2)) \<and>
     (even p \<longleftrightarrow> c - level_start (Suc L) (p div 2) < 2 ^ (L - 1 - p div 2))"

lemma twin_position:
  assumes "2 \<le> L" and "n \<le> L" and "q < 2 * n"
  shows "\<exists>i. twin L i q (path_cells (Suc L) n (hf mod 2 ^ (L - 1)) (hs mod 2 ^ (L - 1) + 2 ^ (L - 1)) ! q) \<and>
     i = path_cells L n (hf mod 2 ^ (L - 2)) (hs mod 2 ^ (L - 2) + 2 ^ (L - 2)) ! q"
proof -
  let ?j = "q div 2"
  have j: "?j < L" using assms(2,3) by linarith
  have e: "level_start (Suc L) (Suc ?j) = level_start (Suc L) ?j + 2 ^ (L - ?j)"
    using level_start_Suc [of ?j "Suc L"] j by simp
  have p: "(2::nat) ^ (L - ?j) = 2 ^ (L - 1 - ?j) + 2 ^ (L - 1 - ?j)"
    using j by (cases "L - ?j") (auto simp: mult_2 simp flip: Suc_diff_Suc)
  note f = home_f [OF j assms(1)] and s = home_s [OF j assms(1)]
  have yf: "hf mod 2 ^ (L - 1) div 2 ^ ?j < 2 ^ (L - ?j)" and
    ys: "(hs mod 2 ^ (L - 1) + 2 ^ (L - 1)) div 2 ^ ?j < 2 ^ (L - ?j)"
    "\<not> (hs mod 2 ^ (L - 1) + 2 ^ (L - 1)) div 2 ^ ?j < 2 ^ (L - 1 - ?j)"
    using f(2) [of hf] f(2) [of hs] unfolding p s(2) by linarith+
  have s1: "home L ?j ((2 ^ (L - 1) + hs mod 2 ^ (L - 1)) div 2 ^ ?j) = (2 ^ (L - 2) + hs mod 2 ^ (L - 2)) div 2 ^ ?j"
    using s(1) [of hs] by (simp only: add.commute)
  show ?thesis
  proof (cases "even q")
    case True
    show ?thesis
      unfolding twin_def nth_path_cells [OF assms(3)] e using True j yf f(2) [of hf]
      by (intro exI conjI refl) (simp_all only: if_True add_diff_cancel_left' add_diff_cancel_right' f(1) le_add1 le_add2 add.commute nat_add_left_cancel_less)
  next
    case False
    show ?thesis
      unfolding twin_def nth_path_cells [OF assms(3)] e using False j ys
      by (intro exI conjI refl) (simp_all only: if_False add_diff_cancel_left' add_diff_cancel_right' s1 le_add1 le_add2 add.commute nat_add_left_cancel_less)
  qed
qed

text \<open>A position not after the twin of \<open>i\<close> is no twin of a later cell.\<close>

lemma twin_order:
  assumes "twin L i p c" and "twin L i' p' c'" and "q \<le> p" and "twin L x q c'" and "q = p \<Longrightarrow> c' = c"
  shows "i' \<le> i"
proof (rule ccontr)
  let ?j = "p div 2" and ?j' = "p' div 2" and ?q = "q div 2"
  assume "\<not> i' \<le> i"
  have lev: "?j' = ?q"
  proof (rule ccontr)
    assume "?j' \<noteq> ?q"
    then have "Suc ?j' \<le> ?q \<or> Suc ?q \<le> ?j'" by linarith
    then show False
      using assms(2,4) level_start_mono [of "Suc ?j'" ?q "Suc L"] level_start_mono [of "Suc ?q" ?j' "Suc L"]
      by (auto simp: twin_def)
  qed
  have i: "level_start L ?j \<le> i" using assms(1) by (simp add: twin_def)
  have i': "i' < level_start L (Suc ?j')"
    using assms(2) home_bound [of ?j' L] level_start_Suc [of ?j' L] by (auto simp: twin_def)
  have "\<not> ?j' < ?j" using i i' \<open>\<not> i' \<le> i\<close> level_start_mono [of "Suc ?j'" ?j L] by (auto simp: Suc_le_eq)
  then have eq: "?q = ?j" "?j' = ?j" using lev div_le_mono [OF assms(3), of 2] by linarith+
  have x: "x = i'" using assms(2,4) unfolding twin_def eq by simp
  show False
  proof (cases "q = p")
    case True
    then have "x = i" using assms(1,4,5) unfolding twin_def by simp
    then show False using x \<open>\<not> i' \<le> i\<close> by simp
  next
    case False
    then have "even q" "odd p" using eq(1) assms(3) by presburger+
    then have h: "c' - level_start (Suc L) ?j < 2 ^ (L - 1 - ?j)" "\<not> c - level_start (Suc L) ?j < 2 ^ (L - 1 - ?j)"
        "x = level_start L ?j + home L ?j (c' - level_start (Suc L) ?j)" "i = level_start L ?j + home L ?j (c - level_start (Suc L) ?j)"
      using assms(1,4) unfolding twin_def eq(1) by simp_all
    have "(c' - level_start (Suc L) ?j) mod 2 ^ (L - 2 - ?j) < 2 ^ (L - 2 - ?j)" by simp
    then have "home L ?j (c' - level_start (Suc L) ?j) \<le> home L ?j (c - level_start (Suc L) ?j)"
    proof (cases "?j = L - 1")
      case False
      then show ?thesis
        using home_low [OF False h(1)] home_high [OF False h(2)] \<open>_ mod _ < _\<close> by linarith
    qed (simp add: home_top)
    then show False using h(3,4) x \<open>\<not> i' \<le> i\<close> by simp
  qed
qed

section \<open>The invariant\<close>

definition ph_ok :: "tenv \<Rightarrow> PathHashing \<Rightarrow> bool" where
  "ph_ok T t \<longleftrightarrow> ph_shape t \<and> slots_ok (ph_total_capacity t) (ph_cells T t) (ph_table t)"

lemma ph_slot_table: "ph_shape t \<Longrightarrow> slot_table (ph_total_capacity t) (ph_cells T t)"
  by unfold_locales (rule ph_cells_in_table)

lemma ph_new_shape:
  assumes "2 \<le> levels" and "levels \<le> 30" and "1 \<le> reserved" and "reserved \<le> levels"
  shows "ph_shape (ph_new levels reserved seeds)"
  using assms by (simp add: ph_shape_def ph_new_def level_start_def Let_def)

text \<open>Every freshly constructed table, of any admissible height.\<close>

interpretation ph: slot_table "ph_total_capacity (ph_new (min m 28 + 2) (min (r + 1) (min m 28 + 2)) seeds)"
    "ph_cells T (ph_new (min m 28 + 2) (min (r + 1) (min m 28 + 2)) seeds)" for T m r seeds
  by (rule ph_slot_table) (auto intro: ph_new_shape)

lemma ph_total_pos: "ph_shape t \<Longrightarrow> 0 < ph_total_capacity t"
proof -
  assume s: "ph_shape t"
  then have "level_start (ph_levels t) (Suc 0) \<le> ph_total_capacity t"
    using level_start_mono [of "Suc 0" "ph_reserved_levels t" "ph_levels t"] by (simp add: ph_shape_def)
  moreover have "0 < level_start (ph_levels t) (Suc 0)" using s level_start_Suc [of 0 "ph_levels t"] by (simp add: ph_shape_def)
  ultimately show ?thesis by simp
qed

section \<open>Resizing loses nothing\<close>

text \<open>The table \<open>resize\<close> copies into.\<close>

definition ph_grown :: "PathHashing \<Rightarrow> PathHashing" where
  "ph_grown t =
     (let levels = ph_levels t + 1; total = 2 ^ levels - 2 ^ (levels - ph_reserved_levels t)
      in t\<lparr>ph_levels := levels, ph_addr_capacity := 2 ^ (levels - 1), ph_total_capacity := total,
           ph_nlocks := total div ph_locksize + 1\<rparr>)"

lemma ph_resize_grown: "ph_resize T t = (if ph_levels t + 1 > 30 then None
    else Some ((ph_grown t)\<lparr>ph_table := fold (ph_copy T (ph_grown t)) (ph_table t) (new_Nodes (ph_total_capacity (ph_grown t)))\<rparr>))"
  by (simp add: ph_resize_def ph_grown_def Let_def)

lemma ph_grown_shape: "ph_shape t \<Longrightarrow> ph_levels t < 30 \<Longrightarrow> ph_shape (ph_grown t)"
  by (auto simp: ph_shape_def ph_grown_def Let_def level_start_def)

lemma ph_cells_twin:
  assumes "ph_shape t" and "ph_levels t < 30" and "q < 2 * ph_reserved_levels t"
  shows "twin (ph_levels t) (ph_cells T t k ! q) q (ph_cells T (ph_grown t) k ! q)"
    and "length (ph_cells T (ph_grown t) k) = 2 * ph_reserved_levels t" and "length (ph_cells T t k) = 2 * ph_reserved_levels t"
proof -
  have l: "2 \<le> ph_levels t" "ph_reserved_levels t \<le> ph_levels t" using assms(1) by (auto simp: ph_shape_def)
  have g: "ph_levels (ph_grown t) = Suc (ph_levels t)" "ph_reserved_levels (ph_grown t) = ph_reserved_levels t"
      "ph_F_HASH T (ph_grown t) = ph_F_HASH T t" "ph_S_HASH T (ph_grown t) = ph_S_HASH T t"
    by (auto simp: ph_grown_def Let_def ph_F_HASH_def ph_S_HASH_def)
  show "length (ph_cells T (ph_grown t) k) = 2 * ph_reserved_levels t" "length (ph_cells T t k) = 2 * ph_reserved_levels t"
    using ph_cells_path [OF assms(1)] ph_cells_path [OF ph_grown_shape [OF assms(1,2)]] g by simp_all
  have "Suc (ph_levels t) - 2 = ph_levels t - 1" using l by simp
  then show "twin (ph_levels t) (ph_cells T t k ! q) q (ph_cells T (ph_grown t) k ! q)"
    using twin_position [OF l assms(3), of "ph_F_HASH T t k" "ph_S_HASH T t k"]
    unfolding ph_cells_path [OF assms(1)] ph_cells_path [OF ph_grown_shape [OF assms(1,2)]] g leaf_f_def leaf_s_def
    by (simp only:) blast
qed

text \<open>While the cells from \<open>i\<close> on are still to be copied, each of them has a free twin.\<close>

definition twins_free :: "tenv \<Rightarrow> PathHashing \<Rightarrow> nat \<Rightarrow> Pair list \<Rightarrow> bool" where
  "twins_free T t i tab \<longleftrightarrow> (\<forall>i' < ph_total_capacity t. i \<le> i' \<longrightarrow> p_key (ph_table t ! i') \<noteq> INVALID \<longrightarrow>
     (\<exists>p < 2 * ph_reserved_levels t. twin (ph_levels t) i' p (ph_cells T (ph_grown t) (p_key (ph_table t ! i')) ! p) \<and>
        p_key (tab ! (ph_cells T (ph_grown t) (p_key (ph_table t ! i')) ! p)) = INVALID))"

lemma twins_free_start:
  assumes "ph_ok T t" and "ph_levels t < 30"
  shows "twins_free T t 0 (new_Nodes (ph_total_capacity (ph_grown t)))"
  unfolding twins_free_def
proof (intro allI impI)
  fix i
  let ?k = "p_key (ph_table t ! i)"
  assume i: "i < ph_total_capacity t" "?k \<noteq> INVALID"
  have s: "ph_shape t" using assms(1) by (simp add: ph_ok_def)
  have "i \<in> set (ph_cells T t ?k)" using assms(1) i slots_okD(3) unfolding ph_ok_def by blast
  then obtain q where q: "q < length (ph_cells T t ?k)" "ph_cells T t ?k ! q = i" by (auto simp: in_set_conv_nth)
  then have q2: "q < 2 * ph_reserved_levels t" using ph_cells_path [OF s, of T ?k] by simp
  note tw = ph_cells_twin [OF s assms(2) q2]
  have "ph_cells T (ph_grown t) ?k ! q \<in> set (ph_cells T (ph_grown t) ?k)" using tw(2) q2 by simp
  then have "ph_cells T (ph_grown t) ?k ! q < ph_total_capacity (ph_grown t)"
    by (rule ph_cells_in_table [OF ph_grown_shape [OF s assms(2)]])
  then show "\<exists>p < 2 * ph_reserved_levels t. twin (ph_levels t) i p (ph_cells T (ph_grown t) ?k ! p) \<and>
      p_key (new_Nodes (ph_total_capacity (ph_grown t)) ! (ph_cells T (ph_grown t) ?k ! p)) = INVALID"
    using q2 tw(1) [of T ?k] q(2) by (intro exI [of _ q]) (simp add: new_Nodes_def)
qed

lemma ph_copy_step:
  assumes "ph_shape t" and "ph_levels t < 30" and "twins_free T t i tab" and "i < ph_total_capacity t"
    and "p_key (ph_table t ! i) \<noteq> INVALID"
  shows "\<exists>idx \<in> set (ph_cells T (ph_grown t) (p_key (ph_table t ! i))). p_key (tab ! idx) = INVALID \<and>
     ph_copy T (ph_grown t) (ph_table t ! i) tab = tab[idx := Pair_make (p_key (ph_table t ! i)) (p_value (ph_table t ! i))] \<and>
     twins_free T t (Suc i) (tab[idx := Pair_make (p_key (ph_table t ! i)) (p_value (ph_table t ! i))])"
proof -
  let ?k = "p_key (ph_table t ! i)" and ?v = "p_value (ph_table t ! i)"
  let ?C = "ph_cells T (ph_grown t) ?k"
  obtain p where p: "p < 2 * ph_reserved_levels t" "twin (ph_levels t) i p (?C ! p)" "p_key (tab ! (?C ! p)) = INVALID"
    using assms(3-5) unfolding twins_free_def by blast
  have len: "length ?C = 2 * ph_reserved_levels t" by (rule ph_cells_twin(2) [OF assms(1,2) p(1)])
  have "?C ! p \<in> set ?C" using p(1) len by simp
  then obtain idx where idx: "find (\<lambda>idx. p_key (tab ! idx) = INVALID) ?C = Some idx"
    using p(3) by (cases "find (\<lambda>idx. p_key (tab ! idx) = INVALID) ?C") (auto simp: find_None_iff)
  then obtain q where q: "q < length ?C" "idx = ?C ! q" "p_key (tab ! idx) = INVALID" "\<forall>j < q. p_key (tab ! (?C ! j)) \<noteq> INVALID"
    by (auto simp: find_Some_iff)
  have "q \<le> p" using q(4) p(3) by (meson not_less)
  have tq: "twin (ph_levels t) (ph_cells T t ?k ! q) q idx" using ph_cells_twin(1) [OF assms(1,2), of q T ?k] q(1,2) len by simp
  have "twins_free T t (Suc i) (tab[idx := Pair_make ?k ?v])"
    unfolding twins_free_def
  proof (intro allI impI)
    fix i'
    let ?C' = "ph_cells T (ph_grown t) (p_key (ph_table t ! i'))"
    assume i': "i' < ph_total_capacity t" "Suc i \<le> i'" "p_key (ph_table t ! i') \<noteq> INVALID"
    then obtain p' where p': "p' < 2 * ph_reserved_levels t" "twin (ph_levels t) i' p' (?C' ! p')" "p_key (tab ! (?C' ! p')) = INVALID"
      using assms(3) unfolding twins_free_def by (meson Suc_leD)
    have "?C' ! p' \<noteq> idx"
    proof
      assume e: "?C' ! p' = idx"
      have "i' \<le> i" by (rule twin_order [OF p(2) p'(2) \<open>q \<le> p\<close>]) (use e tq q(2) in auto)
      then show False using i'(2) by simp
    qed
    then show "\<exists>p < 2 * ph_reserved_levels t. twin (ph_levels t) i' p (?C' ! p) \<and> p_key (tab[idx := Pair_make ?k ?v] ! (?C' ! p)) = INVALID"
      using p' by (intro exI [of _ p']) simp
  qed
  moreover have "ph_copy T (ph_grown t) (ph_table t ! i) tab = tab[idx := Pair_make ?k ?v]"
    using idx assms(5) by (simp add: ph_copy_def)
  ultimately show ?thesis using q(1-3) by (auto intro!: bexI [of _ idx])
qed

lemma ph_copy_all:
  assumes "ph_shape t" and "ph_levels t < 30" and "length (ph_table t) = ph_total_capacity t"
    and "i \<le> ph_total_capacity t" and "twins_free T t i tab"
    and "slots_ok (ph_total_capacity (ph_grown t)) (ph_cells T (ph_grown t)) tab"
    and "fresh_for (cell_map tab) (drop i (ph_table t))"
  shows "slots_ok (ph_total_capacity (ph_grown t)) (ph_cells T (ph_grown t)) (fold (ph_copy T (ph_grown t)) (drop i (ph_table t)) tab) \<and>
     cell_map (fold (ph_copy T (ph_grown t)) (drop i (ph_table t)) tab) = cell_map tab ++ cell_map (drop i (ph_table t))"
  using assms(4-7)
proof (induction "ph_total_capacity t - i" arbitrary: i tab)
  case 0
  then show ?case using assms(3) by simp
next
  case (Suc n)
  let ?p = "ph_table t ! i" and ?g = "ph_grown t"
  have i: "i < ph_total_capacity t" using Suc.hyps(2) by simp
  have d: "drop i (ph_table t) = ?p # drop (Suc i) (ph_table t)" using i assms(3) by (simp add: Cons_nth_drop_Suc)
  note IH = Suc.hyps(1) [of "Suc i"]
  show ?case
  proof (cases "p_key ?p = INVALID")
    case True
    then have "ph_copy T ?g ?p tab = tab" by (simp add: ph_copy_def)
    moreover have "twins_free T t (Suc i) tab" using Suc.prems(2) unfolding twins_free_def by (meson Suc_leD)
    ultimately show ?thesis
      using IH [of tab] Suc.prems i Suc.hyps(2) True unfolding d by (simp add: cell_map_Cons fresh_for_skip)
  next
    case False
    let ?u = "\<lambda>idx. tab[idx := Pair_make (p_key ?p) (p_value ?p)]"
    obtain idx where idx: "idx \<in> set (ph_cells T ?g (p_key ?p))" "p_key (tab ! idx) = INVALID"
        "ph_copy T ?g ?p tab = ?u idx" "twins_free T t (Suc i) (?u idx)"
      using ph_copy_step [OF assms(1,2) Suc.prems(2) i False] by blast
    note fresh = fresh_for_Cons [OF Suc.prems(4) [unfolded d] False]
    note g = ph_grown_shape [OF assms(1,2)]
    note st = slot_table.place [OF ph_slot_table [OF g] Suc.prems(3) ph_total_pos [OF g] idx(1,2) fresh(1) False, of "p_value ?p"]
    have "fresh_for (cell_map (?u idx)) (drop (Suc i) (ph_table t))" unfolding st(2) by (rule fresh(2))
    then have "slots_ok (ph_total_capacity ?g) (ph_cells T ?g) (fold (ph_copy T ?g) (drop (Suc i) (ph_table t)) (?u idx)) \<and>
       cell_map (fold (ph_copy T ?g) (drop (Suc i) (ph_table t)) (?u idx)) = cell_map (?u idx) ++ cell_map (drop (Suc i) (ph_table t))"
      using IH [of "?u idx"] idx(4) st(1) i Suc.hyps(2) by simp
    then show ?thesis unfolding d using idx(3) st(2) fresh(4) by simp
  qed
qed

lemma new_Nodes_INVALID: "\<forall>p \<in> set (new_Nodes n). p_key p = INVALID"
  by (simp add: new_Nodes_def)

lemma ph_resize_effect:
  assumes "ph_ok T t" and "ph_levels t < 30"
  shows "\<exists>t'. ph_resize T t = Some t' \<and> ph_ok T t' \<and> cell_map (ph_table t') = cell_map (ph_table t) \<and>
     ph_levels t' = ph_levels t + 1 \<and> ph_size t' = ph_size t"
proof -
  have s: "ph_shape t" "length (ph_table t) = ph_total_capacity t" "one_cell (ph_table t)"
    using assms(1) by (auto simp: ph_ok_def slots_ok_def)
  let ?g = "ph_grown t"
  let ?new = "new_Nodes (ph_total_capacity ?g)"
  let ?tab = "fold (ph_copy T ?g) (ph_table t) ?new"
  have fresh: "cell_map ?new = Map.empty" by (intro cell_map_fresh new_Nodes_INVALID)
  have "slots_ok (ph_total_capacity ?g) (ph_cells T ?g) ?tab \<and> cell_map ?tab = cell_map ?new ++ cell_map (ph_table t)"
    using ph_copy_all [OF s(1) assms(2) s(2) _ twins_free_start [OF assms]] fresh_for_one_cell [OF s(3)]
    by (simp add: slots_ok_fresh new_Nodes_INVALID fresh) (simp add: new_Nodes_def slots_ok_fresh)
  moreover have "ph_cells T (?g\<lparr>ph_table := b\<rparr>) = ph_cells T ?g" for b
    by (rule ext) (simp add: ph_cells_def ph_F_HASH_def ph_S_HASH_def)
  moreover have "ph_shape (?g\<lparr>ph_table := b\<rparr>)" for b using ph_grown_shape [OF s(1) assms(2)] by (simp add: ph_shape_def)
  ultimately show ?thesis
    using assms(2) fresh by (simp add: ph_resize_grown ph_ok_def) (simp add: ph_grown_def Let_def)
qed

text \<open>C18: growing the path-hashing table loses no pair although the code never checks that a pair
  found a place: after a resize the table holds exactly the pairs it held before.\<close>

theorem ph_resize_lossless:
  assumes "ph_ok T t" and "ph_levels t < 30"
  shows "\<exists>t'. ph_resize T t = Some t' \<and> ph_ok T t' \<and> cell_map (ph_table t') = cell_map (ph_table t) \<and>
     ph_levels t' = ph_levels t + 1 \<and> ph_size t' = ph_size t"
  using assms by (rule ph_resize_effect)

lemma ph_new_ok:
  assumes "2 \<le> levels" and "levels \<le> 30" and "1 \<le> reserved" and "reserved \<le> levels"
  shows "ph_ok T (ph_new levels reserved seeds)"
  using ph_new_shape [OF assms] by (simp add: ph_ok_def slots_ok_fresh new_Nodes_def ph_new_def Let_def)

lemma ph_new_map: "cell_map (ph_table (ph_new levels reserved seeds)) = Map.empty"
  by (simp add: ph_new_def Let_def cell_map_fresh new_Nodes_INVALID)

theorem ph_resize_lossless_witness:
  "\<exists>t'. ph_resize demo_tenv (ph_new 4 2 (1, 2)) = Some t' \<and> ph_levels t' = 5 \<and> cell_map (ph_table t') = Map.empty"
  using ph_resize_lossless [of demo_tenv "ph_new 4 2 (1, 2)"] ph_new_ok [of 4 2 demo_tenv]
  by (auto simp: ph_new_map) (auto simp: ph_new_def Let_def)

section \<open>Insertion\<close>

lemma ph_cells_nonempty: "ph_shape t \<Longrightarrow> ph_cells T t k \<noteq> []"
proof -
  assume s: "ph_shape t"
  have "length (ph_cells T t k) = 2 * ph_reserved_levels t" unfolding ph_cells_path [OF s] by simp
  then show ?thesis using s by (auto simp: ph_shape_def)
qed

text \<open>No operation of the path-hashing table leaves the cell array: every cell on the two paths
  of a key is one of the allocated ones.\<close>

theorem ph_cells_bound:
  assumes "ph_ok T t" and "c \<in> set (ph_cells T t k)"
  shows "c < length (ph_table t)"
  using assms ph_cells_in_table [of t c T k] by (auto simp: ph_ok_def slots_ok_def)

theorem ph_cells_bound_witness: "hd (ph_cells demo_tenv (ph_new 4 2 (1, 2)) 5) < length (ph_table (ph_new 4 2 (1, 2)))"
proof (rule ph_cells_bound)
  show "ph_ok demo_tenv (ph_new 4 2 (1, 2))" by (rule ph_new_ok) simp_all
  show "hd (ph_cells demo_tenv (ph_new 4 2 (1, 2)) 5) \<in> set (ph_cells demo_tenv (ph_new 4 2 (1, 2)) 5)"
    by (intro hd_in_set ph_cells_nonempty ph_new_shape) simp_all
qed

lemma ph_addr_pos: "ph_shape t \<Longrightarrow> ph_addr_capacity t div 2 \<noteq> 0"
  using half_addr [of "ph_levels t"] by (simp add: ph_shape_def)

lemma ph_cells_cong: "ph_cells T (t\<lparr>ph_table := b, ph_size := n\<rparr>) = ph_cells T t" "ph_cells T (t\<lparr>ph_resizing_lock := l\<rparr>) = ph_cells T t"
  by (rule ext, simp add: ph_cells_def ph_F_HASH_def ph_S_HASH_def)+

lemma ph_ok_lock: "ph_ok T (t\<lparr>ph_resizing_lock := l\<rparr>) \<longleftrightarrow> ph_ok T t"
  by (simp add: ph_ok_def ph_shape_def ph_cells_cong)

lemma ph_Get_map:
  assumes "ph_ok T t" and "k \<noteq> INVALID"
  shows "ph_Get T k t = Some (case cell_map (ph_table t) k of None \<Rightarrow> NONE | Some v \<Rightarrow> v)"
proof -
  have s: "ph_shape t" "slots_ok (ph_total_capacity t) (ph_cells T t) (ph_table t)" using assms(1) by (auto simp: ph_ok_def)
  show ?thesis
    using slot_table.search_map [OF ph_slot_table [OF s(1)] s(2) assms(2) ph_total_pos [OF s(1)], symmetric] ph_addr_pos [OF s(1)]
    by (simp add: ph_Get_def split: option.split)
qed

text \<open>What one pass may do.\<close>

definition ph_pass_ok :: "tenv \<Rightarrow> Key_t \<Rightarrow> Value_t \<Rightarrow> PathHashing \<Rightarrow> PathHashing outcome \<Rightarrow> bool" where
  "ph_pass_ok T k v t r =
     (case r of
        Return t' \<Rightarrow> ph_ok T t' \<and> ph_resizing_lock t' = 0 \<and> cell_map (ph_table t') = (cell_map (ph_table t))(k \<mapsto> v) \<and>
          ph_size t' = ph_size t + 1
      | Retry t' \<Rightarrow> ph_ok T t' \<and> ph_resizing_lock t' = 0 \<and> cell_map (ph_table t') = cell_map (ph_table t) \<and>
          ph_size t' = ph_size t \<and> ph_levels t' = ph_levels t + 1 \<and> (\<forall>c \<in> set (ph_cells T t k). p_key (ph_table t ! c) \<noteq> INVALID)
      | Spin \<Rightarrow> False
      | Fault \<Rightarrow> (\<forall>c \<in> set (ph_cells T t k). p_key (ph_table t ! c) \<noteq> INVALID))"

lemma ph_insert_pass_effect:
  assumes "ph_ok T t" and "ph_resizing_lock t = 0" and "k \<noteq> INVALID" and "cell_map (ph_table t) k = None"
  shows "ph_pass_ok T k v t (ph_insert_pass T k v t)"
proof -
  have s: "ph_shape t" "slots_ok (ph_total_capacity t) (ph_cells T t) (ph_table t)" using assms(1) by (auto simp: ph_ok_def)
  show ?thesis
  proof (cases "find (\<lambda>idx. p_key (ph_table t ! idx) = INVALID) (ph_cells T t k)")
    case (Some idx)
    note f = find_SomeD [OF Some]
    note st = slot_table.place [OF ph_slot_table [OF s(1)] s(2) ph_total_pos [OF s(1)] f [THEN conjunct1] f [THEN conjunct2] assms(4,3), of v]
    have "ph_shape (t\<lparr>ph_table := b, ph_size := n\<rparr>)" for b n using s(1) by (simp add: ph_shape_def)
    then show ?thesis
      using Some st assms(2) ph_addr_pos [OF s(1)]
      by (simp add: ph_insert_pass_def ph_pass_ok_def ph_ok_def ph_cells_cong)
  next
    case None
    then have full: "\<forall>c \<in> set (ph_cells T t k). p_key (ph_table t ! c) \<noteq> INVALID" by (auto simp: find_None_iff)
    let ?t = "t\<lparr>ph_resizing_lock := 1\<rparr>"
    have pass: "ph_insert_pass T k v t = (case ph_resize T ?t of None \<Rightarrow> Fault | Some t' \<Rightarrow> Retry (t'\<lparr>ph_resizing_lock := 0\<rparr>))"
      using None assms(2) ph_addr_pos [OF s(1)] by (simp add: ph_insert_pass_def)
    show ?thesis
    proof (cases "ph_levels t < 30")
      case True
      then obtain t' where "ph_resize T ?t = Some t'" "ph_ok T t'" "cell_map (ph_table t') = cell_map (ph_table t)"
          "ph_levels t' = ph_levels t + 1" "ph_size t' = ph_size t"
        using ph_resize_effect [of T ?t] assms(1) ph_ok_lock by auto
      then show ?thesis using pass full by (simp add: ph_pass_ok_def ph_ok_lock)
    next
      case False
      then show ?thesis using pass full by (simp add: ph_resize_grown ph_pass_ok_def)
    qed
  qed
qed

text \<open>Insertion into the path-hashing table always ends, after at most 29 resizes: it stores the
  pair, counts it and keeps all others; or the table cannot grow any more, which needs that
  all cells on the two paths of the key were in use.\<close>

theorem ph_Insert_ends:
  assumes "ph_ok T t" and "ph_resizing_lock t = 0" and "k \<noteq> INVALID" and "cell_map (ph_table t) k = None"
  shows "case ph_Insert T 29 k v t of
       Return t' \<Rightarrow> ph_ok T t' \<and> cell_map (ph_table t') = (cell_map (ph_table t))(k \<mapsto> v) \<and>
         ph_size t' = ph_size t + 1 \<and> ph_Get T k t' = Some v
     | Fault \<Rightarrow> (\<forall>c \<in> set (ph_cells T t k). p_key (ph_table t ! c) \<noteq> INVALID)
     | _ \<Rightarrow> False"
proof -
  define I where "I s \<longleftrightarrow> ph_ok T s \<and> ph_resizing_lock s = 0 \<and> cell_map (ph_table s) = cell_map (ph_table t) \<and>
      ph_size s = ph_size t" for s
  have pass: "ph_pass_ok T k v s (ph_insert_pass T k v s)" if "I s" for s
    using that assms(3,4) ph_insert_pass_effect [of T s k v] by (simp add: I_def)
  have lev: "2 \<le> ph_levels s \<and> ph_levels s \<le> 30" if "I s" for s using that by (auto simp: I_def ph_ok_def ph_shape_def)
  have It: "I t" using assms by (simp add: I_def)
  have "case ph_Insert T 29 k v t of
       Return t' \<Rightarrow> ph_ok T t' \<and> cell_map (ph_table t') = (cell_map (ph_table t))(k \<mapsto> v) \<and>
         ph_size t' = ph_size t + 1 \<and> ph_Get T k t' = Some v
     | Fault \<Rightarrow> True
     | _ \<Rightarrow> False"
    unfolding ph_Insert_def
  proof (rule run_until_ends [where I = I and \<mu> = ph_levels and bound = 30])
    show "30 < ph_levels t + 29" using lev [OF It] by simp
    show "ph_levels s \<le> 30" if "I s" for s using lev [OF that] by simp
    show "I s' \<and> ph_levels s < ph_levels s'" if "I s" "ph_insert_pass T k v s = Retry s'" for s s'
      using pass [OF that(1)] that by (simp add: ph_pass_ok_def I_def)
    show "ph_ok T s' \<and> cell_map (ph_table s') = (cell_map (ph_table t))(k \<mapsto> v) \<and> ph_size s' = ph_size t + 1 \<and> ph_Get T k s' = Some v"
      if "I s" "ph_insert_pass T k v s = Return s'" for s s'
      using pass [OF that(1)] that ph_Get_map [OF _ assms(3)] by (simp add: ph_pass_ok_def I_def)
    show "ph_insert_pass T k v s \<noteq> Spin" if "I s" for s using pass [OF that] by (auto simp: ph_pass_ok_def)
  qed (rule It)
  moreover have "\<forall>c \<in> set (ph_cells T t k). p_key (ph_table t ! c) \<noteq> INVALID" if "ph_Insert T 29 k v t = Fault"
    using pass [OF It] that
    by (cases "ph_insert_pass T k v t") (auto simp: ph_Insert_def ph_pass_ok_def run_until.simps(2) [of _ 28, simplified])
  ultimately show ?thesis by (cases "ph_Insert T 29 k v t") auto
qed

theorem ph_Insert_ends_witness:
  "\<exists>t'. ph_Insert demo_tenv 29 7 70 (ph_new 4 2 (1, 2)) = Return t' \<and> ph_Get demo_tenv 7 t' = Some 70 \<and> ph_size t' = 1"
proof -
  let ?t = "ph_new 4 2 (1, 2)"
  have ok: "ph_ok demo_tenv ?t" by (rule ph_new_ok) simp_all
  have "ph_cells demo_tenv ?t 7 \<noteq> []" by (intro ph_cells_nonempty ph_new_shape) simp_all
  then obtain c where c: "c \<in> set (ph_cells demo_tenv ?t 7)" by (meson hd_in_set)
  then have "c < length (ph_table ?t)" using ok ph_cells_in_table [of ?t c demo_tenv 7] by (auto simp: ph_ok_def slots_ok_def)
  then have "p_key (ph_table ?t ! c) = INVALID" by (simp add: ph_new_def Let_def new_Nodes_def)
  then have "\<not> (\<forall>c \<in> set (ph_cells demo_tenv ?t 7). p_key (ph_table ?t ! c) \<noteq> INVALID)" using c by blast
  moreover have "ph_resizing_lock ?t = 0" "ph_size ?t = 0" by (simp_all add: ph_new_def Let_def)
  ultimately show ?thesis
    using ph_Insert_ends [OF ok, of 7 70] by (cases "ph_Insert demo_tenv 29 7 70 ?t") (auto simp: ph_new_map INVALID_def)
qed

end
