(* ===== verification/Level_Hashing.thy ===== *)
theory Level_Hashing
  imports Table_Env
begin

text \<open>
  The level-hashing table (\<^verbatim>\<open>Level_hashing.h\<close>, \<^verbatim>\<open>Level_hashing.cpp\<close>): two levels of buckets with
  three slots each, a top level of \<^verbatim>\<open>addr_capacity\<close> buckets and a bottom level of half the size.
  Insertion with its three fallbacks (moving a pair within a level, moving one from the bottom
  to the top level, resizing), \<^verbatim>\<open>Get\<close> and \<^verbatim>\<open>Utilization\<close>, as one thread runs them. A slot is in use
  when its token is 1; the constructor of \<^verbatim>\<open>Node\<close> does not set the tokens, so what a fresh bucket
  array holds there is a parameter. Bucket indices are 32 bits wide in the code, so tables are
  modelled up to 32 levels.
\<close>

section \<open>State\<close>

definition ASSOC_NUM :: nat where "ASSOC_NUM = 3"

record lnode =
  token :: "8 word list"
  slot :: "Pair list"

record LevelHashing =
  lv_buckets :: "lnode list list"
  lv_level_item_num :: "nat list"
  lv_levels :: nat
  lv_addr_capacity :: nat
  lv_total_capacity :: nat
  lv_f_seed :: "64 word"
  lv_s_seed :: "64 word"
  lv_resize_num :: nat
  lv_resizing_lock :: int
  lv_nlocks :: nat

text \<open>The surroundings with the tokens in freshly allocated buckets.\<close>

record lenv = tenv +
  fresh_token :: "nat \<Rightarrow> nat \<Rightarrow> 8 word"

definition lv_locksize :: nat where "lv_locksize = 256"

text \<open>\<^verbatim>\<open>new Node[n]\<close>.\<close>

definition new_lnodes :: "lenv \<Rightarrow> nat \<Rightarrow> lnode list" where
  "new_lnodes T n =
     map (\<lambda>i. \<lparr>token = map (fresh_token T i) [0..<ASSOC_NUM], slot = replicate ASSOC_NUM (Pair_make INVALID NONE)\<rparr>) [0..<n]"

fun lv_generate_seeds :: "(nat \<Rightarrow> 31 word) \<Rightarrow> nat \<Rightarrow> nat \<Rightarrow> (64 word \<times> 64 word) option" where
  "lv_generate_seeds rand 0 i = None"
| "lv_generate_seeds rand (Suc fuel) i =
     (let f_seed = push_bit (unat (rand (i + 2)) mod 63) (ucast (rand i)) :: 64 word;
          s_seed = push_bit (unat (rand (i + 3)) mod 63) (ucast (rand (i + 1))) :: 64 word
      in if f_seed = s_seed then lv_generate_seeds rand fuel (i + 4) else Some (f_seed, s_seed))"

definition lv_new :: "lenv \<Rightarrow> nat \<Rightarrow> 64 word \<times> 64 word \<Rightarrow> LevelHashing" where
  "lv_new T levels seeds =
     \<lparr>lv_buckets = [new_lnodes T (2 ^ levels), new_lnodes T (2 ^ levels div 2)], lv_level_item_num = [0, 0],
      lv_levels = levels, lv_addr_capacity = 2 ^ levels, lv_total_capacity = 2 ^ levels + 2 ^ (levels - 1),
      lv_f_seed = fst seeds, lv_s_seed = snd seeds, lv_resize_num = 0, lv_resizing_lock = 0,
      lv_nlocks = (3 * 2 ^ levels div 2) div lv_locksize + 1\<rparr>"

section \<open>Buckets of a key\<close>

definition lv_F_HASH :: "lenv \<Rightarrow> LevelHashing \<Rightarrow> Key_t \<Rightarrow> nat" where
  "lv_F_HASH T t k = unat (hash_h (lib_hash T) (key_bytes k) (lv_f_seed t))"

definition lv_S_HASH :: "lenv \<Rightarrow> LevelHashing \<Rightarrow> Key_t \<Rightarrow> nat" where
  "lv_S_HASH T t k = unat (hash_h (lib_hash T) (key_bytes k) (lv_s_seed t))"

definition lv_F_IDX :: "nat \<Rightarrow> nat \<Rightarrow> nat" where
  "lv_F_IDX hash capacity = hash mod (capacity div 2)"

definition lv_S_IDX :: "nat \<Rightarrow> nat \<Rightarrow> nat" where
  "lv_S_IDX hash capacity = hash mod (capacity div 2) + capacity div 2"

text \<open>The two buckets of a key in a level with the given number of buckets.\<close>

definition lv_fs :: "lenv \<Rightarrow> LevelHashing \<Rightarrow> nat \<Rightarrow> Key_t \<Rightarrow> nat \<times> nat" where
  "lv_fs T t capacity k = (lv_F_IDX (lv_F_HASH T t k) capacity, lv_S_IDX (lv_S_HASH T t k) capacity)"

text \<open>Slots in the order of the insertion loop: first slot of both buckets, second slot, third.\<close>

definition pair_slots :: "nat \<times> nat \<Rightarrow> (nat \<times> nat) list" where
  "pair_slots fs = concat (map (\<lambda>j. [(fst fs, j), (snd fs, j)]) [0..<ASSOC_NUM])"

definition lv_slots :: "lenv \<Rightarrow> LevelHashing \<Rightarrow> Key_t \<Rightarrow> (nat \<times> nat \<times> nat) list" where
  "lv_slots T t k =
     map (Pair 0) (pair_slots (lv_fs T t (lv_addr_capacity t) k)) @
     map (Pair 1) (pair_slots (lv_fs T t (lv_addr_capacity t div 2) k))"

text \<open>The slots in the order \<^verbatim>\<open>Get\<close> looks at them: bucket by bucket.\<close>

definition lv_get_slots :: "lenv \<Rightarrow> LevelHashing \<Rightarrow> Key_t \<Rightarrow> (nat \<times> nat \<times> nat) list" where
  "lv_get_slots T t k =
     concat (map (\<lambda>(i, cap). (case lv_fs T t cap k of
         (f_idx, s_idx) \<Rightarrow> map (\<lambda>j. (i, f_idx, j)) [0..<ASSOC_NUM] @ map (\<lambda>j. (i, s_idx, j)) [0..<ASSOC_NUM]))
       [(0, lv_addr_capacity t), (1, lv_addr_capacity t div 2)])"

section \<open>Slots\<close>

definition tok :: "lnode list \<Rightarrow> nat \<Rightarrow> nat \<Rightarrow> 8 word" where
  "tok nodes idx j = token (nodes ! idx) ! j"

definition ent :: "lnode list \<Rightarrow> nat \<Rightarrow> nat \<Rightarrow> Pair" where
  "ent nodes idx j = slot (nodes ! idx) ! j"

text \<open>Value, key and token are stored in this order.\<close>

definition put_entry :: "lnode list \<Rightarrow> nat \<Rightarrow> nat \<Rightarrow> Key_t \<Rightarrow> Value_t \<Rightarrow> lnode list" where
  "put_entry nodes idx j k v =
     nodes[idx := (nodes ! idx)\<lparr>slot := (slot (nodes ! idx))[j := Pair_make k v], token := (token (nodes ! idx))[j := 1]\<rparr>]"

definition clear_token :: "lnode list \<Rightarrow> nat \<Rightarrow> nat \<Rightarrow> lnode list" where
  "clear_token nodes idx j = nodes[idx := (nodes ! idx)\<lparr>token := (token (nodes ! idx))[j := 0]\<rparr>]"

definition bump_items :: "nat \<Rightarrow> LevelHashing \<Rightarrow> LevelHashing" where
  "bump_items i t = t\<lparr>lv_level_item_num := (lv_level_item_num t)[i := lv_level_item_num t ! i + 1]\<rparr>"

definition lv_put :: "nat \<Rightarrow> nat \<Rightarrow> nat \<Rightarrow> Key_t \<Rightarrow> Value_t \<Rightarrow> LevelHashing \<Rightarrow> LevelHashing" where
  "lv_put i idx j k v t = t\<lparr>lv_buckets := (lv_buckets t)[i := put_entry (lv_buckets t ! i) idx j k v]\<rparr>"

definition lv_clear :: "nat \<Rightarrow> nat \<Rightarrow> nat \<Rightarrow> LevelHashing \<Rightarrow> LevelHashing" where
  "lv_clear i idx j t = t\<lparr>lv_buckets := (lv_buckets t)[i := clear_token (lv_buckets t ! i) idx j]\<rparr>"

section \<open>Movements\<close>

text \<open>\<^verbatim>\<open>try_movement\<close>: for each pair of the bucket, its other bucket in the same level, and the first
  free slot there. \<open>None\<close> is the result 1, a state the result 0.\<close>

definition lv_try_movement :: "lenv \<Rightarrow> nat \<Rightarrow> nat \<Rightarrow> Key_t \<Rightarrow> Value_t \<Rightarrow> LevelHashing \<Rightarrow> LevelHashing option" where
  "lv_try_movement T idx level_num k v t =
     (let nodes = lv_buckets t ! level_num;
          jdx = (\<lambda>i. case lv_fs T t (lv_addr_capacity t div (1 + level_num)) (p_key (ent nodes idx i)) of
                  (f_idx, s_idx) \<Rightarrow> if f_idx = idx then s_idx else f_idx)
      in case find (\<lambda>(i, j). tok nodes (jdx i) j = 0) (List.product [0..<ASSOC_NUM] [0..<ASSOC_NUM]) of
           None \<Rightarrow> None
         | Some (i, j) \<Rightarrow>
             let m = ent nodes idx i;
                 t1 = lv_put level_num (jdx i) j (p_key m) (p_value m) t;
                 t2 = lv_clear level_num idx i t1;
                 t3 = lv_put level_num idx i k v t2
             in Some (bump_items level_num t3))"

text \<open>\<^verbatim>\<open>b2t_movement\<close>: the first pair of a bottom bucket with a free slot in the top level, and the
  state in which it has been moved there; \<open>None\<close> is the result \<open>-1\<close>.\<close>

definition lv_b2t_movement :: "lenv \<Rightarrow> nat \<Rightarrow> LevelHashing \<Rightarrow> (nat \<times> LevelHashing) option" where
  "lv_b2t_movement T idx t =
     (let top = lv_buckets t ! 0; bottom = lv_buckets t ! 1;
          places = concat (map (\<lambda>i. map (Pair i) (pair_slots (lv_fs T t (lv_addr_capacity t) (p_key (ent bottom idx i))))) [0..<ASSOC_NUM])
      in case find (\<lambda>(i, x, j). tok top x j = 0) places of
           None \<Rightarrow> None
         | Some (i, x, j) \<Rightarrow>
             let m = ent bottom idx i;
                 t1 = lv_put 0 x j (p_key m) (p_value m) t;
                 t2 = lv_clear 1 idx i t1;
                 items = lv_level_item_num t2
             in Some (i, t2\<lparr>lv_level_item_num := items[0 := items ! 0 + 1, 1 := items ! 1 - 1]\<rparr>))"

section \<open>Resizing\<close>

text \<open>One pair of the bottom level goes to the first free slot of its two buckets in the interim
  level; when both are full it is dropped.\<close>

definition lv_copy :: "lenv \<Rightarrow> LevelHashing \<Rightarrow> nat \<Rightarrow> Pair \<Rightarrow> lnode list \<times> nat \<Rightarrow> lnode list \<times> nat" where
  "lv_copy T t new_addr_capacity p = (\<lambda>(interim, n).
     (case find (\<lambda>(x, j). tok interim x j = 0) (pair_slots (lv_fs T t new_addr_capacity (p_key p))) of
        None \<Rightarrow> (interim, n)
      | Some (x, j) \<Rightarrow> (put_entry interim x j (p_key p) (p_value p), n + 1)))"

definition lv_resize :: "lenv \<Rightarrow> LevelHashing \<Rightarrow> LevelHashing option" where
  "lv_resize T t =
     (let levels = lv_levels t; new_addr_capacity = 2 ^ (levels + 1); bottom = lv_buckets t ! 1;
          nlocks = lv_nlocks t + 2 * lv_addr_capacity t div lv_locksize + 1;
          (interim, n) = fold (\<lambda>(old_idx, i). if tok bottom old_idx i = 1 then lv_copy T t new_addr_capacity (ent bottom old_idx i) else (\<lambda>s. s))
              (List.product [0..<2 ^ (levels - 1)] [0..<ASSOC_NUM]) (new_lnodes T new_addr_capacity, 0)
      in if levels + 1 > 32 then None
         else Some (t\<lparr>lv_buckets := [interim, lv_buckets t ! 0],
                      lv_level_item_num := [n, lv_level_item_num t ! 0],
                      lv_levels := levels + 1, lv_addr_capacity := new_addr_capacity,
                      lv_total_capacity := 2 ^ (levels + 1) + 2 ^ levels,
                      lv_resize_num := lv_resize_num t + 1, lv_nlocks := nlocks\<rparr>))"

section \<open>Operations\<close>

text \<open>The part of \<^verbatim>\<open>Insert\<close> under the resizing lock: movements in both levels, from the bottom to
  the top once the table has grown, and the resize.\<close>

definition lv_make_room :: "lenv \<Rightarrow> Key_t \<Rightarrow> Value_t \<Rightarrow> LevelHashing \<Rightarrow> LevelHashing outcome" where
  "lv_make_room T k v t =
     (let (f0, s0) = lv_fs T t (lv_addr_capacity t) k;
          (f1, s1) = lv_fs T t (lv_addr_capacity t div 2) k;
          unlock = (\<lambda>t. t\<lparr>lv_resizing_lock := 0\<rparr>);
          b2t = (\<lambda>idx. if lv_resize_num t > 0
             then map_option (\<lambda>(empty_loc, t'). bump_items 1 (lv_put 1 idx empty_loc k v t')) (lv_b2t_movement T idx t)
             else None);
          tries = [lv_try_movement T f0 0 k v t, lv_try_movement T s0 0 k v t,
                   lv_try_movement T f1 1 k v t, lv_try_movement T s1 1 k v t, b2t f1, b2t s1]
      in case find (\<lambda>r. r \<noteq> None) tries of
           Some (Some t') \<Rightarrow> Return (unlock t')
         | _ \<Rightarrow> (case lv_resize T t of None \<Rightarrow> Fault | Some t' \<Rightarrow> Retry (unlock t')))"

definition lv_insert_pass :: "lenv \<Rightarrow> Key_t \<Rightarrow> Value_t \<Rightarrow> LevelHashing \<Rightarrow> LevelHashing outcome" where
  "lv_insert_pass T k v t =
     (if lv_resizing_lock t = 1 then Spin
      else if lv_addr_capacity t div 2 div 2 = 0 then Fault
      else case find (\<lambda>(i, idx, j). tok (lv_buckets t ! i) idx j = 0) (lv_slots T t k) of
             Some (i, idx, j) \<Rightarrow> Return (bump_items i (lv_put i idx j k v t))
           | None \<Rightarrow>
               (case CAS (lv_resizing_lock t) 0 1 of
                  (True, lk, _) \<Rightarrow> lv_make_room T k v (t\<lparr>lv_resizing_lock := lk\<rparr>)
                | (False, _, _) \<Rightarrow> Retry t))"

definition lv_Insert :: "lenv \<Rightarrow> nat \<Rightarrow> Key_t \<Rightarrow> Value_t \<Rightarrow> LevelHashing \<Rightarrow> LevelHashing outcome" where
  "lv_Insert T fuel k v t = run_until (lv_insert_pass T k v) fuel t"

definition lv_InsertOnly :: "Key_t \<Rightarrow> Value_t \<Rightarrow> LevelHashing \<Rightarrow> (bool \<times> LevelHashing) option" where
  "lv_InsertOnly k v t = Some (False, t)"

definition lv_Delete :: "Key_t \<Rightarrow> LevelHashing \<Rightarrow> (bool \<times> LevelHashing) option" where
  "lv_Delete k t = Some (False, t)"

definition lv_Get :: "lenv \<Rightarrow> Key_t \<Rightarrow> LevelHashing \<Rightarrow> Value_t option" where
  "lv_Get T k t =
     (if lv_addr_capacity t div 2 div 2 = 0 then None
      else Some (case find (\<lambda>(i, idx, j). tok (lv_buckets t ! i) idx j = 1 \<and> p_key (ent (lv_buckets t ! i) idx j) = k)
                        (lv_get_slots T t k) of
                   Some (i, idx, j) \<Rightarrow> p_value (ent (lv_buckets t ! i) idx j)
                 | None \<Rightarrow> NONE))"

text \<open>Numerator and denominator of the ratio; the loops look at the keys, not at the tokens.\<close>

definition lv_Utilization :: "LevelHashing \<Rightarrow> nat \<times> nat" where
  "lv_Utilization t =
     (let count = (\<lambda>nodes n sum. fold (\<lambda>(i, j) sum. if p_key (ent nodes i j) \<noteq> INVALID then sum + 1 else sum)
                     (List.product [0..<n] [0..<ASSOC_NUM]) sum)
      in (count (lv_buckets t ! 1) (lv_addr_capacity t div 2) (count (lv_buckets t ! 0) (lv_addr_capacity t) 0),
          lv_total_capacity t * ASSOC_NUM))"

definition lv_Capacity :: "LevelHashing \<Rightarrow> nat" where
  "lv_Capacity t = (lv_addr_capacity t + lv_addr_capacity t div 2) * ASSOC_NUM"

section \<open>The cells of a level\<close>

text \<open>A level as an array of cells in which the slots without a token are free.\<close>

definition cell :: "lnode \<Rightarrow> nat \<Rightarrow> Pair" where
  "cell node j = (if token node ! j = 1 then slot node ! j else Pair_make INVALID NONE)"

definition cells :: "lnode list \<Rightarrow> Pair list" where
  "cells nodes = map (\<lambda>(idx, j). cell (nodes ! idx) j) (List.product [0..<length nodes] [0..<ASSOC_NUM])"

definition node_ok :: "lnode \<Rightarrow> bool" where
  "node_ok node \<longleftrightarrow> length (token node) = ASSOC_NUM \<and> length (slot node) = ASSOC_NUM \<and>
     (\<forall>j < ASSOC_NUM. token node ! j = 0 \<or> token node ! j = 1 \<and> p_key (slot node ! j) \<noteq> INVALID)"

definition nodes_ok :: "nat \<Rightarrow> lnode list \<Rightarrow> bool" where
  "nodes_ok n nodes \<longleftrightarrow> length nodes = n \<and> (\<forall>node \<in> set nodes. node_ok node)"

definition cell_no :: "nat \<Rightarrow> nat \<Rightarrow> nat" where
  "cell_no idx j = ASSOC_NUM * idx + j"

lemma ASSOC_pos [simp]: "0 < ASSOC_NUM"
  by (simp add: ASSOC_NUM_def)

lemma length_cells [simp]: "length (cells nodes) = length nodes * ASSOC_NUM"
  by (simp add: cells_def)

lemma cell_no_bound: "idx < n \<Longrightarrow> j < ASSOC_NUM \<Longrightarrow> cell_no idx j < n * ASSOC_NUM"
proof -
  assume "idx < n" "j < ASSOC_NUM"
  then have "ASSOC_NUM * idx + j < ASSOC_NUM * idx + ASSOC_NUM" by simp
  also have "\<dots> = ASSOC_NUM * Suc idx" by simp
  also have "\<dots> \<le> ASSOC_NUM * n" using \<open>idx < n\<close> by (intro mult_le_mono2) simp
  finally show ?thesis by (simp add: cell_no_def mult.commute)
qed

lemma cell_no_inj: "j < ASSOC_NUM \<Longrightarrow> j' < ASSOC_NUM \<Longrightarrow> cell_no idx j = cell_no idx' j' \<longleftrightarrow> idx = idx' \<and> j = j'"
proof -
  assume j: "j < ASSOC_NUM" "j' < ASSOC_NUM"
  have "cell_no idx j div ASSOC_NUM = idx" "cell_no idx' j' div ASSOC_NUM = idx'"
    "cell_no idx j mod ASSOC_NUM = j" "cell_no idx' j' mod ASSOC_NUM = j'" using j by (simp_all add: cell_no_def)
  then show ?thesis by metis
qed

lemma cells_nth: "x < length nodes * ASSOC_NUM \<Longrightarrow> cells nodes ! x = cell (nodes ! (x div ASSOC_NUM)) (x mod ASSOC_NUM)"
proof -
  assume x: "x < length nodes * ASSOC_NUM"
  then have "x div ASSOC_NUM < length nodes" by (simp add: less_mult_imp_div_less)
  then show ?thesis using x by (simp add: cells_def product_nth)
qed

lemma cells_cell_no:
  "idx < length nodes \<Longrightarrow> j < ASSOC_NUM \<Longrightarrow> cells nodes ! cell_no idx j = cell (nodes ! idx) j"
  using cells_nth [of "cell_no idx j" nodes] cell_no_bound [of idx "length nodes" j] by (simp add: cell_no_def)

lemma nodes_ok_node: "nodes_ok n nodes \<Longrightarrow> idx < n \<Longrightarrow> node_ok (nodes ! idx)"
  by (auto simp: nodes_ok_def)

lemma cells_update:
  assumes "idx < length nodes" and "j < ASSOC_NUM"
    and "\<And>j'. j' < ASSOC_NUM \<Longrightarrow> cell node j' = (if j' = j then p else cell (nodes ! idx) j')"
  shows "cells (nodes[idx := node]) = (cells nodes)[cell_no idx j := p]"
proof (rule nth_equalityI)
  fix x
  assume "x < length (cells (nodes[idx := node]))"
  then have x: "x < length nodes * ASSOC_NUM" by simp
  have d: "x = cell_no (x div ASSOC_NUM) (x mod ASSOC_NUM)" by (simp add: cell_no_def)
  have m: "x mod ASSOC_NUM < ASSOC_NUM" by simp
  have b: "x div ASSOC_NUM < length nodes" using x by (simp add: less_mult_imp_div_less)
  have e: "x = cell_no idx j \<longleftrightarrow> x div ASSOC_NUM = idx \<and> x mod ASSOC_NUM = j" using d cell_no_inj [OF m assms(2)] by metis
  have "cells (nodes[idx := node]) ! x = cell (nodes[idx := node] ! (x div ASSOC_NUM)) (x mod ASSOC_NUM)"
    using x by (simp add: cells_nth)
  also have "\<dots> = (cells nodes)[cell_no idx j := p] ! x"
  proof (cases "x div ASSOC_NUM = idx")
    case True
    then show ?thesis using assms(1,3) m e x cells_nth [OF x] by (cases "x mod ASSOC_NUM = j") auto
  next
    case False
    then show ?thesis using e cells_nth [OF x] by (auto simp: nth_list_update)
  qed
  finally show "cells (nodes[idx := node]) ! x = (cells nodes)[cell_no idx j := p] ! x" .
qed simp

lemma cells_put:
  assumes "nodes_ok n nodes" and "idx < n" and "j < ASSOC_NUM"
  shows "cells (put_entry nodes idx j k v) = (cells nodes)[cell_no idx j := Pair_make k v]"
  using assms nodes_ok_node [OF assms(1,2)] unfolding put_entry_def
  by (intro cells_update) (auto simp: nodes_ok_def cell_def node_ok_def nth_list_update)

lemma cells_clear:
  assumes "nodes_ok n nodes" and "idx < n" and "j < ASSOC_NUM"
  shows "cells (clear_token nodes idx j) = (cells nodes)[cell_no idx j := Pair_make INVALID NONE]"
  using assms nodes_ok_node [OF assms(1,2)] unfolding clear_token_def
  by (intro cells_update) (auto simp: nodes_ok_def cell_def node_ok_def nth_list_update)

lemma nodes_ok_update: "nodes_ok n nodes \<Longrightarrow> node_ok node \<Longrightarrow> nodes_ok n (nodes[idx := node])"
  by (auto simp: nodes_ok_def dest: set_update_subset_insert [THEN subsetD])

lemma node_ok_put:
  assumes "node_ok node" and "k \<noteq> INVALID"
  shows "node_ok (node\<lparr>slot := (slot node)[j := Pair_make k v], token := (token node)[j := 1]\<rparr>)"
  unfolding node_ok_def
proof (intro conjI allI impI)
  fix x
  assume "x < ASSOC_NUM"
  then show "token (node\<lparr>slot := (slot node)[j := Pair_make k v], token := (token node)[j := 1]\<rparr>) ! x = 0 \<or>
      token (node\<lparr>slot := (slot node)[j := Pair_make k v], token := (token node)[j := 1]\<rparr>) ! x = 1 \<and>
      p_key (slot (node\<lparr>slot := (slot node)[j := Pair_make k v], token := (token node)[j := 1]\<rparr>) ! x) \<noteq> INVALID"
    using assms by (cases "x = j") (auto simp: node_ok_def)
qed (use assms in \<open>auto simp: node_ok_def\<close>)

lemma node_ok_clear:
  assumes "node_ok node"
  shows "node_ok (node\<lparr>token := (token node)[j := 0]\<rparr>)"
  unfolding node_ok_def
proof (intro conjI allI impI)
  fix x
  assume "x < ASSOC_NUM"
  then show "token (node\<lparr>token := (token node)[j := 0]\<rparr>) ! x = 0 \<or>
      token (node\<lparr>token := (token node)[j := 0]\<rparr>) ! x = 1 \<and> p_key (slot (node\<lparr>token := (token node)[j := 0]\<rparr>) ! x) \<noteq> INVALID"
    using assms by (cases "x = j") (auto simp: node_ok_def)
qed (use assms in \<open>auto simp: node_ok_def\<close>)

lemma nodes_ok_put: "nodes_ok n nodes \<Longrightarrow> idx < n \<Longrightarrow> k \<noteq> INVALID \<Longrightarrow> nodes_ok n (put_entry nodes idx j k v)"
  unfolding put_entry_def by (intro nodes_ok_update node_ok_put nodes_ok_node [of n])

lemma nodes_ok_clear: "nodes_ok n nodes \<Longrightarrow> idx < n \<Longrightarrow> nodes_ok n (clear_token nodes idx j)"
  unfolding clear_token_def by (intro nodes_ok_update node_ok_clear nodes_ok_node [of n])

text \<open>A token tells whether the cell is free.\<close>

lemma tok_free:
  assumes "nodes_ok n nodes" and "idx < n" and "j < ASSOC_NUM"
  shows "tok nodes idx j = 0 \<longleftrightarrow> p_key (cells nodes ! cell_no idx j) = INVALID"
    and "tok nodes idx j = 1 \<longleftrightarrow> p_key (cells nodes ! cell_no idx j) \<noteq> INVALID"
    and "tok nodes idx j = 1 \<Longrightarrow> cells nodes ! cell_no idx j = ent nodes idx j"
proof -
  have c: "cells nodes ! cell_no idx j = cell (nodes ! idx) j" using assms by (simp add: cells_cell_no nodes_ok_def)
  have t: "token (nodes ! idx) ! j = 0 \<or> token (nodes ! idx) ! j = 1 \<and> p_key (slot (nodes ! idx) ! j) \<noteq> INVALID"
    using nodes_ok_node [OF assms(1,2)] assms(3) by (simp add: node_ok_def)
  show "tok nodes idx j = 0 \<longleftrightarrow> p_key (cells nodes ! cell_no idx j) = INVALID"
    "tok nodes idx j = 1 \<longleftrightarrow> p_key (cells nodes ! cell_no idx j) \<noteq> INVALID"
    "tok nodes idx j = 1 \<Longrightarrow> cells nodes ! cell_no idx j = ent nodes idx j"
    using t unfolding c by (auto simp: tok_def ent_def cell_def)
qed

lemma length_new_lnodes [simp]: "length (new_lnodes T n) = n"
  by (simp add: new_lnodes_def)

lemma new_lnodes_ok: "\<forall>i j. fresh_token T i j = 0 \<Longrightarrow> nodes_ok n (new_lnodes T n)"
  by (auto simp: nodes_ok_def new_lnodes_def node_ok_def)

lemma cells_new: "\<forall>i j. fresh_token T i j = 0 \<Longrightarrow> \<forall>p \<in> set (cells (new_lnodes T n)). p_key p = INVALID"
  by (auto simp: cells_def new_lnodes_def cell_def)

section \<open>The invariant\<close>

text \<open>Both levels in one array of cells, and the cells of a key in it.\<close>

definition lv_array :: "LevelHashing \<Rightarrow> Pair list" where
  "lv_array t = cells (lv_buckets t ! 0) @ cells (lv_buckets t ! 1)"

definition lv_no :: "nat \<Rightarrow> nat \<times> nat \<times> nat \<Rightarrow> nat" where
  "lv_no cap = (\<lambda>(i, idx, j). (if i = 0 then 0 else cap * ASSOC_NUM) + cell_no idx j)"

definition lv_cand :: "lenv \<Rightarrow> LevelHashing \<Rightarrow> Key_t \<Rightarrow> nat list" where
  "lv_cand T t k = map (lv_no (lv_addr_capacity t)) (lv_slots T t k)"

definition lv_cells_num :: "LevelHashing \<Rightarrow> nat" where
  "lv_cells_num t = (lv_addr_capacity t + lv_addr_capacity t div 2) * ASSOC_NUM"

definition lv_shape :: "LevelHashing \<Rightarrow> bool" where
  "lv_shape t \<longleftrightarrow> 2 \<le> lv_levels t \<and> lv_levels t \<le> 32 \<and> lv_addr_capacity t = 2 ^ lv_levels t"

definition lv_ok :: "lenv \<Rightarrow> LevelHashing \<Rightarrow> bool" where
  "lv_ok T t \<longleftrightarrow> lv_shape t \<and> length (lv_buckets t) = 2 \<and> nodes_ok (lv_addr_capacity t) (lv_buckets t ! 0) \<and>
     nodes_ok (lv_addr_capacity t div 2) (lv_buckets t ! 1) \<and> slots_ok (lv_cells_num t) (lv_cand T t) (lv_array t) \<and>
     lv_level_item_num t = [used (cells (lv_buckets t ! 0)), used (cells (lv_buckets t ! 1))]"

abbreviation lv_map :: "LevelHashing \<Rightarrow> Key_t \<Rightarrow> Value_t option" where
  "lv_map t \<equiv> cell_map (lv_array t)"

text \<open>The number of buckets of a level.\<close>

definition lv_width :: "LevelHashing \<Rightarrow> nat \<Rightarrow> nat" where
  "lv_width t i = (if i = 0 then lv_addr_capacity t else lv_addr_capacity t div 2)"

lemma set_pair_slots: "set (pair_slots (f, s)) = {f, s} \<times> {..<ASSOC_NUM}"
  by (auto simp: pair_slots_def)

lemma set_lv_slots: "(i, idx, j) \<in> set (lv_slots T t k) \<longleftrightarrow>
    i < 2 \<and> j < ASSOC_NUM \<and> (idx = fst (lv_fs T t (lv_width t i) k) \<or> idx = snd (lv_fs T t (lv_width t i) k))"
  by (cases "lv_fs T t (lv_addr_capacity t) k"; cases "lv_fs T t (lv_addr_capacity t div 2) k")
    (auto simp: lv_slots_def set_pair_slots lv_width_def less_2_cases_iff)

lemma set_lv_get_slots: "set (lv_get_slots T t k) = set (lv_slots T t k)"
proof -
  have "(i, idx, j) \<in> set (lv_get_slots T t k) \<longleftrightarrow> (i, idx, j) \<in> set (lv_slots T t k)" for i idx j
    unfolding set_lv_slots
    by (cases "lv_fs T t (lv_addr_capacity t) k"; cases "lv_fs T t (lv_addr_capacity t div 2) k")
      (auto simp: lv_get_slots_def lv_width_def less_2_cases_iff)
  then show ?thesis by auto
qed

lemma lv_shape_width:
  assumes "lv_shape t" and "i < 2"
  shows "0 < lv_width t i div 2" and "2 * (lv_width t i div 2) = lv_width t i"
proof -
  obtain m where m: "lv_levels t = m + 2" using assms(1) by (auto simp: lv_shape_def dest: le_Suc_ex)
  then have "lv_addr_capacity t = 4 * 2 ^ m" using assms(1) by (simp add: lv_shape_def)
  then show "0 < lv_width t i div 2" "2 * (lv_width t i div 2) = lv_width t i" by (auto simp: lv_width_def)
qed

text \<open>The two buckets of a key lie in different halves of a level.\<close>

lemma lv_fs_bounds:
  assumes "lv_shape t" and "i < 2"
  shows "fst (lv_fs T t (lv_width t i) k) < lv_width t i div 2"
    and "lv_width t i div 2 \<le> snd (lv_fs T t (lv_width t i) k)" and "snd (lv_fs T t (lv_width t i) k) < lv_width t i"
  using lv_shape_width [OF assms] mod_less_divisor [OF lv_shape_width(1) [OF assms], of "lv_S_HASH T t k"]
  by (auto simp: lv_fs_def lv_F_IDX_def lv_S_IDX_def)

lemma lv_slots_bound:
  assumes "lv_shape t" and "(i, idx, j) \<in> set (lv_slots T t k)"
  shows "i < 2" and "idx < lv_width t i" and "j < ASSOC_NUM" and "lv_no (lv_addr_capacity t) (i, idx, j) < lv_cells_num t"
proof -
  show i: "i < 2" and j: "j < ASSOC_NUM" using assms(2) by (auto simp: set_lv_slots)
  show x: "idx < lv_width t i"
    using assms(2) lv_fs_bounds [OF assms(1) i, of T k] lv_shape_width(2) [OF assms(1) i] by (auto simp: set_lv_slots)
  show "lv_no (lv_addr_capacity t) (i, idx, j) < lv_cells_num t"
    using cell_no_bound [OF x j] by (auto simp: lv_no_def lv_cells_num_def lv_width_def distrib_right split: if_splits)
qed

lemma lv_slot_table: "lv_shape t \<Longrightarrow> slot_table (lv_cells_num t) (lv_cand T t)"
  by unfold_locales (auto simp: lv_cand_def intro: lv_slots_bound(4))

definition lv_nodes :: "LevelHashing \<Rightarrow> bool" where
  "lv_nodes t \<longleftrightarrow> length (lv_buckets t) = 2 \<and> nodes_ok (lv_addr_capacity t) (lv_buckets t ! 0) \<and>
     nodes_ok (lv_addr_capacity t div 2) (lv_buckets t ! 1)"

lemma lv_nodes_level: "lv_nodes t \<Longrightarrow> i < 2 \<Longrightarrow> nodes_ok (lv_width t i) (lv_buckets t ! i)"
  by (auto simp: lv_nodes_def lv_width_def less_2_cases_iff)

text \<open>A slot of a level in the common array.\<close>

lemma lv_array_nth:
  assumes "lv_nodes t" and "i < 2" and "idx < lv_width t i" and "j < ASSOC_NUM"
  shows "lv_array t ! lv_no (lv_addr_capacity t) (i, idx, j) = cells (lv_buckets t ! i) ! cell_no idx j"
proof -
  have "length (lv_buckets t ! 0) = lv_addr_capacity t" using assms(1) by (simp add: lv_nodes_def nodes_ok_def)
  then show ?thesis
    using assms(2,3) cell_no_bound [OF assms(3,4)]
    by (auto simp: lv_array_def lv_no_def nth_append lv_width_def less_2_cases_iff)
qed

lemma lv_tok:
  assumes "lv_nodes t" and "i < 2" and "idx < lv_width t i" and "j < ASSOC_NUM"
  shows "tok (lv_buckets t ! i) idx j = 0 \<longleftrightarrow> p_key (lv_array t ! lv_no (lv_addr_capacity t) (i, idx, j)) = INVALID"
    and "tok (lv_buckets t ! i) idx j = 1 \<longleftrightarrow> p_key (lv_array t ! lv_no (lv_addr_capacity t) (i, idx, j)) \<noteq> INVALID"
    and "tok (lv_buckets t ! i) idx j = 1 \<Longrightarrow> lv_array t ! lv_no (lv_addr_capacity t) (i, idx, j) = ent (lv_buckets t ! i) idx j"
  using tok_free [OF lv_nodes_level [OF assms(1,2)] assms(3,4)] unfolding lv_array_nth [OF assms] by blast+

section \<open>Stores and movements keep the invariant\<close>

definition lv_counts :: "LevelHashing \<Rightarrow> nat list" where
  "lv_counts t = [used (cells (lv_buckets t ! 0)), used (cells (lv_buckets t ! 1))]"

lemma lv_ok_iff: "lv_ok T t \<longleftrightarrow> lv_shape t \<and> lv_nodes t \<and> slots_ok (lv_cells_num t) (lv_cand T t) (lv_array t) \<and>
    lv_level_item_num t = lv_counts t"
  by (auto simp: lv_ok_def lv_nodes_def lv_counts_def)

lemma lv_frame [simp]:
  "lv_addr_capacity (lv_put i idx j k v t) = lv_addr_capacity t" "lv_addr_capacity (lv_clear i idx j t) = lv_addr_capacity t"
  "lv_addr_capacity (bump_items i t) = lv_addr_capacity t"
  "lv_levels (lv_put i idx j k v t) = lv_levels t" "lv_levels (lv_clear i idx j t) = lv_levels t" "lv_levels (bump_items i t) = lv_levels t"
  "lv_level_item_num (lv_put i idx j k v t) = lv_level_item_num t" "lv_level_item_num (lv_clear i idx j t) = lv_level_item_num t"
  "lv_buckets (bump_items i t) = lv_buckets t"
  by (simp_all add: lv_put_def lv_clear_def bump_items_def)

lemma lv_hash_frame [simp]:
  "lv_F_HASH T (lv_put i idx j k v t) = lv_F_HASH T t" "lv_S_HASH T (lv_put i idx j k v t) = lv_S_HASH T t"
  "lv_F_HASH T (lv_clear i idx j t) = lv_F_HASH T t" "lv_S_HASH T (lv_clear i idx j t) = lv_S_HASH T t"
  "lv_F_HASH T (bump_items i t) = lv_F_HASH T t" "lv_S_HASH T (bump_items i t) = lv_S_HASH T t"
  "lv_F_HASH T (t\<lparr>lv_resizing_lock := l\<rparr>) = lv_F_HASH T t" "lv_S_HASH T (t\<lparr>lv_resizing_lock := l\<rparr>) = lv_S_HASH T t"
  "lv_F_HASH T (t\<lparr>lv_level_item_num := n\<rparr>) = lv_F_HASH T t" "lv_S_HASH T (t\<lparr>lv_level_item_num := n\<rparr>) = lv_S_HASH T t"
  by (rule ext, simp add: lv_F_HASH_def lv_S_HASH_def lv_put_def lv_clear_def bump_items_def)+

lemma lv_cand_frame:
  assumes "lv_addr_capacity t' = lv_addr_capacity t" and "lv_F_HASH T t' = lv_F_HASH T t" and "lv_S_HASH T t' = lv_S_HASH T t"
  shows "lv_fs T t' = lv_fs T t" and "lv_cand T t' = lv_cand T t" and "lv_cells_num t' = lv_cells_num t"
proof -
  show f: "lv_fs T t' = lv_fs T t" by (intro ext) (simp add: lv_fs_def assms)
  show "lv_cand T t' = lv_cand T t" by (rule ext) (simp add: lv_cand_def lv_slots_def f assms)
  show "lv_cells_num t' = lv_cells_num t" by (simp add: lv_cells_num_def assms)
qed

lemma lv_put_array:
  assumes "lv_nodes t" and "i < 2" and "idx < lv_width t i" and "j < ASSOC_NUM" and "k \<noteq> INVALID"
  shows "lv_array (lv_put i idx j k v t) = (lv_array t)[lv_no (lv_addr_capacity t) (i, idx, j) := Pair_make k v]"
    and "lv_nodes (lv_put i idx j k v t)"
proof -
  have l: "length (lv_buckets t) = 2" "length (lv_buckets t ! 0) = lv_addr_capacity t" using assms(1) by (auto simp: lv_nodes_def nodes_ok_def)
  note n = lv_nodes_level [OF assms(1,2)]
  show "lv_nodes (lv_put i idx j k v t)"
    using assms(1-3) nodes_ok_put [OF n assms(3,5)] l by (auto simp: lv_nodes_def lv_put_def lv_width_def less_2_cases_iff)
  show "lv_array (lv_put i idx j k v t) = (lv_array t)[lv_no (lv_addr_capacity t) (i, idx, j) := Pair_make k v]"
    using cells_put [OF n assms(3,4)] assms(2,3) l cell_no_bound [OF assms(3,4)]
    by (auto simp: lv_array_def lv_put_def lv_no_def list_update_append lv_width_def less_2_cases_iff)
qed

lemma lv_clear_array:
  assumes "lv_nodes t" and "i < 2" and "idx < lv_width t i" and "j < ASSOC_NUM"
  shows "lv_array (lv_clear i idx j t) = (lv_array t)[lv_no (lv_addr_capacity t) (i, idx, j) := Pair_make INVALID NONE]"
    and "lv_nodes (lv_clear i idx j t)"
proof -
  have l: "length (lv_buckets t) = 2" "length (lv_buckets t ! 0) = lv_addr_capacity t" using assms(1) by (auto simp: lv_nodes_def nodes_ok_def)
  note n = lv_nodes_level [OF assms(1,2)]
  show "lv_nodes (lv_clear i idx j t)"
    using assms(1-3) nodes_ok_clear [OF n assms(3)] l by (auto simp: lv_nodes_def lv_clear_def lv_width_def less_2_cases_iff)
  show "lv_array (lv_clear i idx j t) = (lv_array t)[lv_no (lv_addr_capacity t) (i, idx, j) := Pair_make INVALID NONE]"
    using cells_clear [OF n assms(3,4)] assms(2,3) l cell_no_bound [OF assms(3,4)]
    by (auto simp: lv_array_def lv_clear_def lv_no_def list_update_append lv_width_def less_2_cases_iff)
qed

text \<open>The number of cells in use after a store and after clearing a token.\<close>

lemma lv_put_counts:
  assumes "lv_nodes t" and "i < 2" and "idx < lv_width t i" and "j < ASSOC_NUM" and "k \<noteq> INVALID" and "tok (lv_buckets t ! i) idx j = 0"
  shows "lv_counts (lv_put i idx j k v t) = (lv_counts t)[i := lv_counts t ! i + 1]"
proof -
  note n = lv_nodes_level [OF assms(1,2)]
  have b: "cell_no idx j < length (cells (lv_buckets t ! i))" using cell_no_bound [OF assms(3,4)] n by (simp add: nodes_ok_def)
  have "used (cells (put_entry (lv_buckets t ! i) idx j k v)) = used (cells (lv_buckets t ! i)) + 1"
    unfolding cells_put [OF n assms(3,4)] using tok_free(1) [OF n assms(3,4)] assms(6,5) by (intro place_used b) auto
  then show ?thesis using assms(1,2) by (auto simp: lv_counts_def lv_put_def lv_nodes_def less_2_cases_iff)
qed

lemma lv_clear_counts:
  assumes "lv_nodes t" and "i < 2" and "idx < lv_width t i" and "j < ASSOC_NUM" and "tok (lv_buckets t ! i) idx j = 1"
  shows "lv_counts (lv_clear i idx j t) = (lv_counts t)[i := lv_counts t ! i - 1]" and "0 < lv_counts t ! i"
proof -
  note n = lv_nodes_level [OF assms(1,2)]
  have b: "cell_no idx j < length (cells (lv_buckets t ! i))" using cell_no_bound [OF assms(3,4)] n by (simp add: nodes_ok_def)
  have u: "used (cells (clear_token (lv_buckets t ! i) idx j)) + 1 = used (cells (lv_buckets t ! i))"
    unfolding cells_clear [OF n assms(3,4)]
    using used_update [OF b, of "Pair_make INVALID NONE"] tok_free(2) [OF n assms(3,4)] assms(5) by simp
  then show "lv_counts (lv_clear i idx j t) = (lv_counts t)[i := lv_counts t ! i - 1]" "0 < lv_counts t ! i"
    using assms(1,2) by (auto simp: lv_counts_def lv_clear_def lv_nodes_def less_2_cases_iff)
qed

text \<open>The result of an insertion.\<close>

definition lv_stored :: "lenv \<Rightarrow> Key_t \<Rightarrow> Value_t \<Rightarrow> LevelHashing \<Rightarrow> LevelHashing \<Rightarrow> bool" where
  "lv_stored T k v t t' \<longleftrightarrow> lv_ok T t' \<and> lv_map t' = (lv_map t)(k \<mapsto> v) \<and>
     sum_list (lv_level_item_num t') = sum_list (lv_level_item_num t) + 1 \<and> lv_levels t' = lv_levels t"

lemma lv_store_free:
  assumes "lv_ok T t" and "k \<noteq> INVALID" and "lv_map t k = None" and "(i, idx, j) \<in> set (lv_slots T t k)"
    and "tok (lv_buckets t ! i) idx j = 0"
  shows "lv_stored T k v t (bump_items i (lv_put i idx j k v t))"
proof -
  have a: "lv_shape t" "lv_nodes t" "slots_ok (lv_cells_num t) (lv_cand T t) (lv_array t)" "lv_level_item_num t = lv_counts t"
    using assms(1) by (auto simp: lv_ok_iff)
  note b = lv_slots_bound [OF a(1) assms(4)]
  note p = lv_put_array [OF a(2) b(1-3) assms(2), of v]
  let ?n = "lv_no (lv_addr_capacity t) (i, idx, j)"
  have c: "?n \<in> set (lv_cand T t k)" using assms(4) by (simp add: lv_cand_def)
  have f: "p_key (lv_array t ! ?n) = INVALID" using lv_tok(1) [OF a(2) b(1-3)] assms(5) by simp
  have pos: "0 < lv_cells_num t" using b(4) by simp
  note st = slot_table.place [OF lv_slot_table [OF a(1)] a(3) pos c f assms(3,2), of v]
  let ?t = "bump_items i (lv_put i idx j k v t)"
  have arr: "lv_array ?t = lv_array (lv_put i idx j k v t)" "lv_nodes ?t = lv_nodes (lv_put i idx j k v t)"
      "lv_counts ?t = lv_counts (lv_put i idx j k v t)"
    by (simp_all add: lv_array_def lv_nodes_def lv_counts_def)
  note fr = lv_cand_frame [of ?t t T, simplified]
  have items: "lv_level_item_num ?t = lv_counts ?t"
    unfolding arr(3) lv_put_counts [OF a(2) b(1-3) assms(2,5)] using a(4) by (simp add: bump_items_def)
  have "lv_shape ?t" using a(1) by (simp add: lv_shape_def)
  moreover have "sum_list (lv_level_item_num ?t) = sum_list (lv_level_item_num t) + 1"
    using b(1) a(4) by (auto simp: bump_items_def lv_counts_def less_2_cases_iff)
  ultimately show ?thesis
    using st items p fr by (simp add: lv_stored_def lv_ok_iff arr)
qed

text \<open>Making room by carrying a pair to a free slot of its own, and using its place.\<close>

lemma lv_move_store:
  assumes "lv_ok T t" and "k \<noteq> INVALID" and "lv_map t k = None" and "(i, x, j) \<in> set (lv_slots T t k)"
    and "tok (lv_buckets t ! i) x j = 1" and "m = ent (lv_buckets t ! i) x j"
    and "(i', x', j') \<in> set (lv_slots T t (p_key m))" and "tok (lv_buckets t ! i') x' j' = 0"
    and "t3 = lv_put i x j k v (lv_clear i x j (lv_put i' x' j' (p_key m) (p_value m) t))"
  shows "lv_nodes t3" and "slots_ok (lv_cells_num t) (lv_cand T t) (lv_array t3)" and "lv_map t3 = (lv_map t)(k \<mapsto> v)"
    and "lv_counts t3 = (lv_counts t)[i' := lv_counts t ! i' + 1]"
proof -
  have a: "lv_shape t" "lv_nodes t" "slots_ok (lv_cells_num t) (lv_cand T t) (lv_array t)"
    using assms(1) by (auto simp: lv_ok_iff)
  note b = lv_slots_bound [OF a(1) assms(4)] and b' = lv_slots_bound [OF a(1) assms(7)]
  let ?A = "lv_addr_capacity t"
  let ?N = "lv_no ?A (i, x, j)" and ?N' = "lv_no ?A (i', x', j')"
  have len: "length (lv_array t) = lv_cells_num t" by (rule slots_okD(1) [OF a(3)])
  have mN: "lv_array t ! ?N = m" "p_key m \<noteq> INVALID" using lv_tok(2,3) [OF a(2) b(1-3)] assms(5,6) by auto
  have fN': "p_key (lv_array t ! ?N') = INVALID" using lv_tok(1) [OF a(2) b'(1-3)] assms(8) by simp
  have ne: "?N \<noteq> ?N'" using mN fN' by auto
  let ?t1 = "lv_put i' x' j' (p_key m) (p_value m) t"
  let ?t2 = "lv_clear i x j ?t1"
  have w: "lv_width ?t1 = lv_width t" "lv_width ?t2 = lv_width t" by (auto simp: lv_width_def)
  note p1 = lv_put_array [OF a(2) b'(1-3) mN(2), of "p_value m"]
  have bx: "x < lv_width ?t1 i" "x < lv_width ?t2 i" using b(2) w by simp_all
  note p2 = lv_clear_array [OF p1(2) b(1) bx(1) b(3)]
  note p3 = lv_put_array [OF p2(2) b(1) bx(2) b(3) assms(2), of v]
  show n3: "lv_nodes t3" using p3(2) assms(9) by simp
  let ?M = "(lv_array t)[?N' := lv_array t ! ?N, ?N := Pair_make INVALID NONE]"
  have mm: "Pair_make (p_key m) (p_value m) = m" by (simp add: Pair_make_def)
  have arr2: "lv_array ?t2 = ?M" using p1(1) p2(1) mN(1) mm by simp
  have arr3: "lv_array t3 = ?M[?N := Pair_make k v]" using p3(1) arr2 assms(9) by simp
  have c: "?N \<in> set (lv_cand T t k)" "?N' \<in> set (lv_cand T t (p_key m))" using assms(4,7) by (auto simp: lv_cand_def)
  have mv: "slots_ok (lv_cells_num t) (lv_cand T t) ?M" "cell_map ?M = lv_map t"
    using slot_table.move [OF lv_slot_table [OF a(1)] a(3) b(4) b'(4) ne fN', where hole = "Pair_make INVALID NONE"] c(2) mN by auto
  have pos: "0 < lv_cells_num t" using b(4) by simp
  have hole: "p_key (?M ! ?N) = INVALID" using b(4) len by simp
  have "cell_map ?M k = None" using mv(2) assms(3) by simp
  note st = slot_table.place [OF lv_slot_table [OF a(1)] mv(1) pos c(1) hole this assms(2), of v]
  show "slots_ok (lv_cells_num t) (lv_cand T t) (lv_array t3)" unfolding arr3 by (rule st(1))
  show "lv_map t3 = (lv_map t)(k \<mapsto> v)" unfolding arr3 st(2) mv(2) ..
  have t1: "tok (lv_buckets ?t1 ! i) x j = 1"
    using lv_tok(2) [OF p1(2) b(1) bx(1) b(3)] p1(1) ne mN by simp
  have t2: "tok (lv_buckets ?t2 ! i) x j = 0"
    using lv_tok(1) [OF p2(2) b(1) bx(2) b(3)] arr2 hole by simp
  note c1 = lv_put_counts [OF a(2) b'(1-3) mN(2) assms(8), of "p_value m"]
  note c2 = lv_clear_counts [OF p1(2) b(1) bx(1) b(3) t1]
  note c3 = lv_put_counts [OF p2(2) b(1) bx(2) b(3) assms(2) t2, of v]
  have "length (lv_counts t) = 2" for t by (simp add: lv_counts_def)
  then show "lv_counts t3 = (lv_counts t)[i' := lv_counts t ! i' + 1]"
    unfolding assms(9) c3 using c2 b(1) unfolding c1 by simp
qed

lemma lv_full_slots:
  assumes "lv_ok T t" and "\<forall>(i, x, j) \<in> set (lv_slots T t k). tok (lv_buckets t ! i) x j \<noteq> 0" and "(i, x, j) \<in> set (lv_slots T t k)"
  shows "tok (lv_buckets t ! i) x j = 1"
proof -
  have a: "lv_shape t" "lv_nodes t" using assms(1) by (auto simp: lv_ok_iff)
  note b = lv_slots_bound [OF a(1) assms(3)]
  show ?thesis using lv_tok(1,2) [OF a(2) b(1-3)] assms(2,3) by blast
qed

text \<open>From the cells to the whole table.\<close>

lemma lv_storedI:
  assumes "lv_ok T t" and "i < 2" and "lv_nodes t3" and "slots_ok (lv_cells_num t) (lv_cand T t) (lv_array t3)"
    and "lv_map t3 = (lv_map t)(k \<mapsto> v)" and "lv_counts t3 = (lv_counts t)[i := lv_counts t ! i + 1]"
    and "lv_buckets t' = lv_buckets t3" and "lv_addr_capacity t' = lv_addr_capacity t" and "lv_levels t' = lv_levels t"
    and "lv_addr_capacity t3 = lv_addr_capacity t" and "lv_F_HASH T t' = lv_F_HASH T t" and "lv_S_HASH T t' = lv_S_HASH T t"
    and "lv_level_item_num t' = (lv_counts t)[i := lv_counts t ! i + 1]"
  shows "lv_stored T k v t t'"
proof -
  have e: "lv_array t' = lv_array t3" "lv_nodes t' = lv_nodes t3" "lv_counts t' = lv_counts t3"
    using assms(7,8,10) by (simp_all add: lv_array_def lv_nodes_def lv_counts_def)
  have "lv_shape t'" "lv_level_item_num t = lv_counts t" using assms(1,8,9) by (auto simp: lv_ok_iff lv_shape_def)
  moreover have "sum_list ((lv_counts t)[i := lv_counts t ! i + 1]) = sum_list (lv_counts t) + 1"
    using assms(2) by (auto simp: lv_counts_def less_2_cases_iff)
  ultimately show ?thesis
    using assms(3-6,9,13) lv_cand_frame [OF assms(8,11,12)] by (simp add: lv_stored_def lv_ok_iff e)
qed

lemma lv_try_movement_stored:
  assumes "lv_ok T t" and "k \<noteq> INVALID" and "lv_map t k = None"
    and "\<forall>(i, x, j) \<in> set (lv_slots T t k). tok (lv_buckets t ! i) x j \<noteq> 0" and "i < 2"
    and "x = fst (lv_fs T t (lv_width t i) k) \<or> x = snd (lv_fs T t (lv_width t i) k)"
    and "lv_try_movement T x i k v t = Some t'"
  shows "lv_stored T k v t t'"
proof -
  let ?nodes = "lv_buckets t ! i"
  let ?jdx = "\<lambda>y. case lv_fs T t (lv_width t i) (p_key (ent ?nodes x y)) of (f_idx, s_idx) \<Rightarrow> if f_idx = x then s_idx else f_idx"
  have w: "lv_addr_capacity t div (1 + i) = lv_width t i"
    using assms(5) less_2_cases [OF assms(5)] by (auto simp: lv_width_def numeral_2_eq_2 [symmetric])
  obtain y j where f: "find (\<lambda>(i, j). tok ?nodes (?jdx i) j = 0) (List.product [0..<ASSOC_NUM] [0..<ASSOC_NUM]) = Some (y, j)"
    and t': "t' = bump_items i (lv_put i x y k v (lv_clear i x y (lv_put i (?jdx y) j (p_key (ent ?nodes x y)) (p_value (ent ?nodes x y)) t)))"
    using assms(7) unfolding lv_try_movement_def w Let_def by (auto split: option.splits)
  have yj: "y < ASSOC_NUM" "j < ASSOC_NUM" "tok ?nodes (?jdx y) j = 0" using find_SomeD [OF f] by auto
  let ?m = "ent ?nodes x y"
  have src: "(i, x, y) \<in> set (lv_slots T t k)" using assms(5,6) yj(1) by (simp add: set_lv_slots)
  have dst: "(i, ?jdx y, j) \<in> set (lv_slots T t (p_key ?m))"
    using assms(5) yj(2) by (simp add: set_lv_slots split: prod.split)
  note m = lv_move_store [OF assms(1-3) src lv_full_slots [OF assms(1,4) src] refl dst yj(3) refl, of v]
  have "lv_level_item_num t = lv_counts t" using assms(1) by (simp add: lv_ok_iff)
  then show ?thesis
    unfolding t' by (intro lv_storedI [OF assms(1,5) m]) (simp_all add: bump_items_def [of i] flip: bump_items_def)
qed

lemma lv_b2t_stored:
  assumes "lv_ok T t" and "k \<noteq> INVALID" and "lv_map t k = None"
    and "\<forall>(i, x, j) \<in> set (lv_slots T t k). tok (lv_buckets t ! i) x j \<noteq> 0"
    and "x = fst (lv_fs T t (lv_width t 1) k) \<or> x = snd (lv_fs T t (lv_width t 1) k)"
    and "lv_b2t_movement T x t = Some (y, t2)"
  shows "lv_stored T k v t (bump_items 1 (lv_put 1 x y k v t2))"
proof -
  let ?top = "lv_buckets t ! 0" and ?bottom = "lv_buckets t ! 1"
  let ?places = "concat (map (\<lambda>i. map (Pair i) (pair_slots (lv_fs T t (lv_addr_capacity t) (p_key (ent ?bottom x i))))) [0..<ASSOC_NUM])"
  let ?m = "ent ?bottom x y"
  obtain x' j where f: "find (\<lambda>(i, x, j). tok ?top x j = 0) ?places = Some (y, x', j)"
    and t2: "t2 = (let t' = lv_clear 1 x y (lv_put 0 x' j (p_key ?m) (p_value ?m) t); items = lv_level_item_num t'
        in t'\<lparr>lv_level_item_num := items[0 := items ! 0 + 1, 1 := items ! 1 - 1]\<rparr>)"
    using assms(6) unfolding lv_b2t_movement_def Let_def by (auto split: option.splits)
  have "(y, x', j) \<in> set ?places" and free: "tok ?top x' j = 0" using find_SomeD [OF f] by auto
  then have yj: "y < ASSOC_NUM" "(x', j) \<in> set (pair_slots (lv_fs T t (lv_addr_capacity t) (p_key ?m)))" by auto
  have src: "(1, x, y) \<in> set (lv_slots T t k)" using assms(5) yj(1) by (simp add: set_lv_slots)
  have dst: "(0, x', j) \<in> set (lv_slots T t (p_key ?m))" using yj(2) by (auto simp: lv_slots_def)
  have one: "tok ?bottom x y = 1" by (rule lv_full_slots [OF assms(1,4) src])
  note m = lv_move_store [OF assms(1-3) src one refl dst free refl, of v]
  have a: "lv_shape t" "lv_nodes t" "lv_level_item_num t = lv_counts t" using assms(1) by (auto simp: lv_ok_iff)
  have "0 < lv_counts t ! 1"
    using lv_clear_counts(2) [OF a(2) _ _ _ one] lv_slots_bound [OF a(1) src] by simp
  then have items: "(lv_counts t)[0 := lv_counts t ! 0 + 1, 1 := lv_counts t ! 1 - 1 + 1] = (lv_counts t)[0 := lv_counts t ! 0 + 1]"
    by (simp add: lv_counts_def)
  show ?thesis
  proof (rule lv_storedI [OF assms(1) _ m])
    show "lv_level_item_num (bump_items 1 (lv_put 1 x y k v t2)) = (lv_counts t)[0 := lv_counts t ! 0 + 1]"
      using items a(3) by (simp add: t2 Let_def bump_items_def) (simp add: lv_counts_def)
  qed (simp_all add: t2 Let_def lv_put_def [of 1] lv_clear_def [of 1], (simp_all add: lv_put_def lv_F_HASH_def lv_S_HASH_def fun_eq_iff bump_items_def)?)
qed

section \<open>Resizing\<close>

text \<open>The pairs of a level in the order the resize visits them.\<close>

definition lv_copy_cell :: "lenv \<Rightarrow> LevelHashing \<Rightarrow> nat \<Rightarrow> Pair \<Rightarrow> lnode list \<times> nat \<Rightarrow> lnode list \<times> nat" where
  "lv_copy_cell T t cap p = (if p_key p \<noteq> INVALID then lv_copy T t cap p else (\<lambda>s. s))"

lemma lv_resize_fold:
  assumes "nodes_ok n bottom"
  shows "fold (\<lambda>(old_idx, i). if tok bottom old_idx i = 1 then lv_copy T t cap (ent bottom old_idx i) else (\<lambda>s. s))
      (List.product [0..<n] [0..<ASSOC_NUM]) s = fold (lv_copy_cell T t cap) (cells bottom) s"
proof -
  have n: "length bottom = n" using assms by (simp add: nodes_ok_def)
  have "(case x of (old_idx, i) \<Rightarrow> if tok bottom old_idx i = 1 then lv_copy T t cap (ent bottom old_idx i) else (\<lambda>s. s)) =
      lv_copy_cell T t cap (case x of (idx, j) \<Rightarrow> cell (bottom ! idx) j)"
    if "x \<in> set (List.product [0..<n] [0..<ASSOC_NUM])" for x
  proof -
    obtain idx j where x: "x = (idx, j)" "idx < n" "j < ASSOC_NUM" using \<open>x \<in> _\<close> by auto
    have c: "cells bottom ! cell_no idx j = cell (bottom ! idx) j" using x n by (simp add: cells_cell_no)
    show ?thesis using tok_free [OF assms x(2,3)] unfolding x(1) c lv_copy_cell_def by auto
  qed
  then show ?thesis unfolding cells_def n fold_map comp_def by (intro fold_cong) auto
qed

text \<open>The table \<open>resize\<close> builds around the interim level.\<close>

definition lv_grown :: "LevelHashing \<Rightarrow> lnode list \<Rightarrow> nat \<Rightarrow> LevelHashing" where
  "lv_grown t interim n =
     t\<lparr>lv_buckets := [interim, lv_buckets t ! 0], lv_level_item_num := [n, lv_level_item_num t ! 0],
       lv_levels := lv_levels t + 1, lv_addr_capacity := 2 ^ (lv_levels t + 1),
       lv_total_capacity := 2 ^ (lv_levels t + 1) + 2 ^ lv_levels t, lv_resize_num := lv_resize_num t + 1,
       lv_nlocks := lv_nlocks t + 2 * lv_addr_capacity t div lv_locksize + 1\<rparr>"

lemma lv_resize_grown:
  assumes "lv_ok T t"
  shows "lv_resize T t = (if lv_levels t + 1 > 32 then None
    else let (interim, n) = fold (lv_copy_cell T t (2 ^ (lv_levels t + 1))) (cells (lv_buckets t ! 1)) (new_lnodes T (2 ^ (lv_levels t + 1)), 0)
         in Some (lv_grown t interim n))"
proof -
  have l: "2 \<le> lv_levels t" "lv_addr_capacity t = 2 ^ lv_levels t" using assms by (auto simp: lv_ok_def lv_shape_def)
  then have "lv_addr_capacity t div 2 = 2 ^ (lv_levels t - 1)" by (cases "lv_levels t") auto
  then have "nodes_ok (2 ^ (lv_levels t - 1)) (lv_buckets t ! 1)" using assms by (simp add: lv_ok_def)
  note f = lv_resize_fold [OF this]
  show ?thesis unfolding lv_resize_def Let_def f lv_grown_def by (simp split: prod.split)
qed

lemma cell_map_append: "cell_map (a @ b) = cell_map b ++ cell_map a"
proof (induction a)
  case (Cons p a)
  then show ?case
    by (cases "p_key p = INVALID") (simp_all only: append_Cons cell_map_Cons map_add_upd if_True if_False refl)
qed simp

lemma one_cell_append1: "one_cell (a @ b) \<Longrightarrow> one_cell a"
  unfolding one_cell_def by (metis length_append nth_append trans_less_add1)

lemma one_cell_append2: "one_cell (a @ b) \<Longrightarrow> one_cell b"
proof -
  assume o: "one_cell (a @ b)"
  have "i = j" if "i < length b" "j < length b" "p_key (b ! i) = p_key (b ! j)" "p_key (b ! i) \<noteq> INVALID" for i j
    using one_cellD [OF o, of "length a + i" "length a + j"] that by simp
  then show ?thesis by (auto simp: one_cell_def)
qed

lemma one_cell_fresh_append:
  assumes "\<forall>p \<in> set a. p_key p = INVALID" and "one_cell b"
  shows "one_cell (a @ b)"
proof (unfold one_cell_def, intro allI impI)
  fix x y
  assume xy: "x < length (a @ b)" "y < length (a @ b)" "p_key ((a @ b) ! x) = p_key ((a @ b) ! y)" "p_key ((a @ b) ! x) \<noteq> INVALID"
  have ge: "length a \<le> x" "length a \<le> y" using xy assms(1) by (auto simp: nth_append not_less [symmetric])
  then have "x - length a = y - length a"
    using one_cellD [OF assms(2), of "x - length a" "y - length a"] xy by (auto simp: nth_append)
  then show "x = y" using ge by simp
qed

text \<open>While the bottom level is copied: the interim level with the old top level below it is a
  well-formed table that holds nothing new.\<close>

definition lv_copying :: "lenv \<Rightarrow> LevelHashing \<Rightarrow> lnode list \<times> nat \<Rightarrow> bool" where
  "lv_copying T t = (\<lambda>(interim, n). lv_ok T (lv_grown t interim n) \<and> lv_map (lv_grown t interim n) \<subseteq>\<^sub>m lv_map t)"

lemma lv_grown_simps [simp]:
  "lv_addr_capacity (lv_grown t interim n) = 2 ^ (lv_levels t + 1)" "lv_levels (lv_grown t interim n) = lv_levels t + 1"
  "lv_buckets (lv_grown t interim n) = [interim, lv_buckets t ! 0]" "lv_level_item_num (lv_grown t interim n) = [n, lv_level_item_num t ! 0]"
  "lv_F_HASH T (lv_grown t interim n) = lv_F_HASH T t" "lv_S_HASH T (lv_grown t interim n) = lv_S_HASH T t"
  "lv_fs T (lv_grown t interim n) = lv_fs T t" "lv_resizing_lock (lv_grown t interim n) = lv_resizing_lock t"
  by (auto simp: lv_grown_def lv_F_HASH_def lv_S_HASH_def lv_fs_def fun_eq_iff)

lemma lv_copying_start:
  assumes "lv_ok T t" and "lv_levels t < 32" and "\<forall>i j. fresh_token T i j = 0"
  shows "lv_copying T t (new_lnodes T (2 ^ (lv_levels t + 1)), 0)"
proof -
  let ?n = "2 ^ (lv_levels t + 1)"
  let ?new = "new_lnodes T ?n"
  let ?g = "lv_grown t ?new 0"
  let ?top = "cells (lv_buckets t ! 0)" and ?bot = "cells (lv_buckets t ! 1)"
  have a: "lv_shape t" "lv_nodes t" "slots_ok (lv_cells_num t) (lv_cand T t) (lv_array t)" "lv_level_item_num t = lv_counts t"
    using assms(1) by (auto simp: lv_ok_iff)
  have A: "lv_addr_capacity t = 2 ^ lv_levels t" "?n div 2 = lv_addr_capacity t" using a(1) by (auto simp: lv_shape_def)
  have sh: "lv_shape ?g" using a(1) assms(2) by (simp add: lv_shape_def)
  have nd: "lv_nodes ?g" using new_lnodes_ok [OF assms(3), of ?n] a(2) A(2) by (simp add: lv_nodes_def)
  note inv = cells_new [OF assms(3), of ?n]
  have arr: "lv_array ?g = cells ?new @ ?top" by (simp add: lv_array_def)
  have o: "one_cell (?top @ ?bot)" using slots_okD(2) [OF a(3)] by (simp add: lv_array_def)
  have len: "length (cells ?new) = ?n * ASSOC_NUM" by (simp add: new_lnodes_def)
  have lt: "length ?top = lv_addr_capacity t * ASSOC_NUM" "length ?bot = lv_addr_capacity t div 2 * ASSOC_NUM"
    using a(2) by (auto simp: lv_nodes_def nodes_ok_def)
  have free: "p_key ((cells ?new @ ?top) ! x) = INVALID" if "x < ?n * ASSOC_NUM" for x
    using inv that len by (metis nth_append nth_mem)
  have one: "one_cell (cells ?new @ ?top)" by (rule one_cell_fresh_append [OF inv one_cell_append1 [OF o]])
  have cand: "x \<in> set (lv_cand T ?g (p_key ((cells ?new @ ?top) ! x)))"
    if "x < lv_cells_num ?g" "p_key ((cells ?new @ ?top) ! x) \<noteq> INVALID" for x
  proof -
    let ?y = "x - ?n * ASSOC_NUM"
    have ge: "\<not> x < ?n * ASSOC_NUM" using free [of x] that(2) by blast
    then have k: "(cells ?new @ ?top) ! x = ?top ! ?y" by (simp add: nth_append len)
    have y: "?y < lv_addr_capacity t * ASSOC_NUM" using that(1) ge A(2) by (simp add: lv_cells_num_def distrib_right)
    then have "?y < lv_cells_num t" by (simp add: lv_cells_num_def distrib_right)
    moreover have ay: "lv_array t ! ?y = ?top ! ?y" using y lt(1) unfolding lv_array_def nth_append by (simp only: if_True)
    ultimately have "?y \<in> set (lv_cand T t (p_key (?top ! ?y)))"
      using slots_okD(3) [OF a(3), of ?y] that(2) unfolding k ay by simp
    then obtain i idx j where s: "(i, idx, j) \<in> set (lv_slots T t (p_key (?top ! ?y)))" "?y = lv_no (lv_addr_capacity t) (i, idx, j)"
      by (auto simp: lv_cand_def)
    have "i = 0" using y s(2) by (auto simp: lv_no_def split: if_splits)
    then have "(1, idx, j) \<in> set (lv_slots T ?g (p_key (?top ! ?y)))" using s(1) A(2) by (simp add: set_lv_slots lv_width_def)
    moreover have "x = lv_no ?n (1, idx, j)" using s(2) ge \<open>i = 0\<close> by (simp add: lv_no_def)
    ultimately show ?thesis unfolding k lv_cand_def by (metis image_eqI list.set_map lv_grown_simps(1))
  qed
  have "length (cells ?new @ ?top) = lv_cells_num ?g" using len lt(1) A
    unfolding lv_cells_num_def distrib_right length_append lv_grown_simps by (simp only:)
  then have "slots_ok (lv_cells_num ?g) (lv_cand T ?g) (lv_array ?g)"
    unfolding slots_ok_def arr using one cand by blast
  moreover have "lv_level_item_num ?g = lv_counts ?g"
    using a(4) used_fresh [OF inv] unfolding lv_counts_def lv_grown_simps by simp
  ultimately have "lv_ok T ?g" using sh nd unfolding lv_ok_iff by blast
  moreover have "cell_map (cells ?new @ ?top) \<subseteq>\<^sub>m lv_map t"
    unfolding lv_array_def cell_map_append cell_map_fresh [OF inv] by (simp add: map_le_map_add)
  ultimately show ?thesis unfolding lv_copying_def prod.case arr by blast
qed

lemma lv_copying_step:
  assumes "lv_ok T t" and "lv_levels t < 32" and "lv_copying T t (interim, n)" and "lv_map t (p_key p) = Some (p_value p)"
    and "lv_map (lv_grown t interim n) (p_key p) = None"
  shows "lv_copying T t (lv_copy T t (2 ^ (lv_levels t + 1)) p (interim, n))"
    and "lv_map (lv_grown t (fst (lv_copy T t (2 ^ (lv_levels t + 1)) p (interim, n))) (snd (lv_copy T t (2 ^ (lv_levels t + 1)) p (interim, n))))
       \<subseteq>\<^sub>m (lv_map (lv_grown t interim n))(p_key p \<mapsto> p_value p)"
proof -
  let ?g = "lv_grown t interim n" and ?cap = "(2::nat) ^ (lv_levels t + 1)"
  let ?slots = "pair_slots (lv_fs T t ?cap (p_key p))"
  have k: "p_key p \<noteq> INVALID" using assms(4) by auto
  have ok: "lv_ok T ?g" "lv_map ?g \<subseteq>\<^sub>m lv_map t" using assms(3) by (simp_all add: lv_copying_def)
  have both: "lv_copying T t (lv_copy T t ?cap p (interim, n)) \<and>
    lv_map (lv_grown t (fst (lv_copy T t ?cap p (interim, n))) (snd (lv_copy T t ?cap p (interim, n)))) \<subseteq>\<^sub>m (lv_map ?g)(p_key p \<mapsto> p_value p)"
  proof (cases "find (\<lambda>(x, j). tok interim x j = 0) ?slots")
    case None
    then have "lv_copy T t ?cap p (interim, n) = (interim, n)" by (simp add: lv_copy_def)
    then show ?thesis using assms(3,5) by (auto simp: map_le_def)
  next
    case (Some xj)
    obtain x j where xj: "xj = (x, j)" by fastforce
    have f: "(x, j) \<in> set ?slots" "tok interim x j = 0" using find_SomeD [OF Some] by (auto simp: xj)
    have s: "(0, x, j) \<in> set (lv_slots T ?g (p_key p))" using f(1) by (auto simp: lv_slots_def)
    have c: "lv_copy T t ?cap p (interim, n) = (put_entry interim x j (p_key p) (p_value p), n + 1)"
      using Some by (simp add: lv_copy_def xj)
    have e: "bump_items 0 (lv_put 0 x j (p_key p) (p_value p) ?g) = lv_grown t (put_entry interim x j (p_key p) (p_value p)) (n + 1)"
      by (simp add: lv_grown_def bump_items_def lv_put_def)
    have "lv_stored T (p_key p) (p_value p) ?g (lv_grown t (put_entry interim x j (p_key p) (p_value p)) (n + 1))"
      using lv_store_free [OF ok(1) k assms(5) s, of "p_value p"] f(2) unfolding e by simp
    then have st: "lv_ok T (lv_grown t (put_entry interim x j (p_key p) (p_value p)) (n + 1))"
      "lv_map (lv_grown t (put_entry interim x j (p_key p) (p_value p)) (n + 1)) = (lv_map ?g)(p_key p \<mapsto> p_value p)"
      by (simp_all add: lv_stored_def)
    have "(lv_map ?g)(p_key p \<mapsto> p_value p) \<subseteq>\<^sub>m lv_map t" using ok(2) assms(4) by (auto simp: map_le_def)
    then show ?thesis using st unfolding c lv_copying_def by simp
  qed
  then show "lv_copying T t (lv_copy T t ?cap p (interim, n))"
    "lv_map (lv_grown t (fst (lv_copy T t ?cap p (interim, n))) (snd (lv_copy T t ?cap p (interim, n)))) \<subseteq>\<^sub>m (lv_map ?g)(p_key p \<mapsto> p_value p)"
    by blast+
qed

lemma lv_copying_fold:
  assumes "lv_ok T t" and "lv_levels t < 32" and "lv_copying T t s" and "fresh_for (lv_map (lv_grown t (fst s) (snd s))) ps"
    and "\<forall>p \<in> set ps. p_key p \<noteq> INVALID \<longrightarrow> lv_map t (p_key p) = Some (p_value p)"
  shows "lv_copying T t (fold (lv_copy_cell T t (2 ^ (lv_levels t + 1))) ps s)"
  using assms(3-5)
proof (induction ps arbitrary: s)
  case (Cons p ps)
  let ?cap = "(2::nat) ^ (lv_levels t + 1)"
  obtain interim n where s: "s = (interim, n)" by fastforce
  show ?case
  proof (cases "p_key p = INVALID")
    case True
    then show ?thesis using Cons.IH [of s] Cons.prems fresh_for_skip by (auto simp: lv_copy_cell_def)
  next
    case False
    note fresh = fresh_for_Cons [OF Cons.prems(2) False]
    have st: "lv_copying T t (lv_copy T t ?cap p s)"
      "lv_map (lv_grown t (fst (lv_copy T t ?cap p s)) (snd (lv_copy T t ?cap p s))) \<subseteq>\<^sub>m (lv_map (lv_grown t interim n))(p_key p \<mapsto> p_value p)"
      using lv_copying_step [OF assms(1,2), of interim n p] Cons.prems(1,3) fresh(1) False unfolding s by simp_all
    have "fresh_for (lv_map (lv_grown t (fst (lv_copy T t ?cap p s)) (snd (lv_copy T t ?cap p s)))) ps"
      using fresh_for_mono [OF _ st(2)] fresh(2) by (simp add: s)
    then show ?thesis using Cons.IH [OF st(1)] Cons.prems(3) False by (simp add: lv_copy_cell_def)
  qed
qed simp

lemma lv_resize_effect:
  assumes "lv_ok T t" and "lv_levels t < 32" and "\<forall>i j. fresh_token T i j = 0"
  shows "\<exists>t'. lv_resize T t = Some t' \<and> lv_ok T t' \<and> lv_map t' \<subseteq>\<^sub>m lv_map t \<and> lv_levels t' = lv_levels t + 1"
proof -
  let ?new = "(new_lnodes T (2 ^ (lv_levels t + 1)), 0)"
  let ?bot = "cells (lv_buckets t ! 1)" and ?top = "cells (lv_buckets t ! 0)"
  have o: "one_cell (?top @ ?bot)" using assms(1) by (auto simp: lv_ok_def slots_ok_def lv_array_def)
  have new: "lv_map (lv_grown t (fst ?new) (snd ?new)) = cell_map ?top"
    using cells_new [OF assms(3)] by (simp add: lv_array_def cell_map_append cell_map_fresh)
  have key: "lv_map t (p_key p) = Some (p_value p)" "cell_map ?top (p_key p) = None" if "p \<in> set ?bot" "p_key p \<noteq> INVALID" for p
  proof -
    obtain i where i: "i < length ?bot" "?bot ! i = p" using \<open>p \<in> _\<close> by (auto simp: in_set_conv_nth)
    then have at: "length ?top + i < length (?top @ ?bot)" "(?top @ ?bot) ! (length ?top + i) = p"
      using nth_append_length_plus [of ?top ?bot i] by (auto simp del: length_cells)
    show "lv_map t (p_key p) = Some (p_value p)"
      using cell_map_at [OF o at(1)] at(2) that(2) by (simp add: lv_array_def)
    have "p_key (?top ! x) \<noteq> p_key p" if "x < length ?top" for x
    proof
      assume "p_key (?top ! x) = p_key p"
      then have "x = length ?top + i"
        using one_cellD [OF o _ at(1), of x] at \<open>x < _\<close> \<open>p_key p \<noteq> INVALID\<close> by (simp add: nth_append)
      then show False using \<open>x < _\<close> by simp
    qed
    then show "cell_map ?top (p_key p) = None" using \<open>p_key p \<noteq> INVALID\<close> by (simp add: cell_map_None)
  qed
  have "fresh_for (cell_map ?top) ?bot"
    using one_cell_distinct [OF one_cell_append2 [OF o]] key(2) by (simp add: fresh_for_def)
  then have "lv_copying T t (fold (lv_copy_cell T t (2 ^ (lv_levels t + 1))) ?bot ?new)"
    using key(1) by (intro lv_copying_fold [OF assms(1,2) lv_copying_start [OF assms]]) (auto simp only: new)
  then show ?thesis
    using assms(2) unfolding lv_resize_grown [OF assms(1)] Let_def by (auto simp: lv_copying_def split: prod.splits)
qed

section \<open>Insertion\<close>

lemma lv_Get_map:
  assumes "lv_ok T t" and "k \<noteq> INVALID"
  shows "lv_Get T k t = Some (case lv_map t k of None \<Rightarrow> NONE | Some v \<Rightarrow> v)"
proof -
  have a: "lv_shape t" "lv_nodes t" "slots_ok (lv_cells_num t) (lv_cand T t) (lv_array t)" using assms(1) by (auto simp: lv_ok_iff)
  have nz: "lv_addr_capacity t div 2 div 2 \<noteq> 0" using lv_shape_width(1) [OF a(1), of 1] by (simp add: lv_width_def)
  let ?P = "\<lambda>(i, idx, j). tok (lv_buckets t ! i) idx j = 1 \<and> p_key (ent (lv_buckets t ! i) idx j) = k"
  have hit: "?P (i, idx, j) \<longleftrightarrow> p_key (lv_array t ! lv_no (lv_addr_capacity t) (i, idx, j)) = k"
    and val: "?P (i, idx, j) \<Longrightarrow> lv_array t ! lv_no (lv_addr_capacity t) (i, idx, j) = ent (lv_buckets t ! i) idx j"
    and bnd: "lv_no (lv_addr_capacity t) (i, idx, j) < length (lv_array t)"
    if "(i, idx, j) \<in> set (lv_slots T t k)" for i idx j
    using lv_tok(2,3) [OF a(2) lv_slots_bound(1-3) [OF a(1) that]] assms(2) lv_slots_bound(4) [OF a(1) that] slots_okD(1) [OF a(3)] by auto
  have o: "one_cell (lv_array t)" by (rule slots_okD(2) [OF a(3)])
  show ?thesis
  proof (cases "find ?P (lv_get_slots T t k)")
    case None
    then have "\<not> ?P s" if "s \<in> set (lv_slots T t k)" for s using that by (auto simp: find_None_iff set_lv_get_slots)
    then have "p_key (lv_array t ! c) \<noteq> k" if "c \<in> set (lv_cand T t k)" for c
      using that hit by (fastforce simp: lv_cand_def)
    then have "\<forall>c < length (lv_array t). p_key (lv_array t ! c) \<noteq> k"
      using slots_okD(1,3) [OF a(3)] assms(2) by metis
    then have "lv_map t k = None" using assms(2) by (simp add: cell_map_None)
    then show ?thesis using None nz by (simp add: lv_Get_def)
  next
    case (Some s)
    obtain i idx j where s: "s = (i, idx, j)" by (cases s)
    have f: "(i, idx, j) \<in> set (lv_slots T t k)" "?P (i, idx, j)" using find_SomeD [OF Some] by (auto simp: s set_lv_get_slots)
    have "lv_map t k = Some (p_value (ent (lv_buckets t ! i) idx j))"
      using cell_map_at [OF o bnd [OF f(1)]] val [OF f] f(2) assms(2) by simp
    then show ?thesis using Some nz by (simp add: lv_Get_def s)
  qed
qed

text \<open>What one pass may do; a pass that grows the table may drop pairs but adds none.\<close>

definition lv_pass_ok :: "lenv \<Rightarrow> Key_t \<Rightarrow> Value_t \<Rightarrow> LevelHashing \<Rightarrow> LevelHashing outcome \<Rightarrow> bool" where
  "lv_pass_ok T k v t r =
     (case r of
        Return t' \<Rightarrow> lv_stored T k v t t' \<and> lv_resizing_lock t' = 0
      | Retry t' \<Rightarrow> lv_ok T t' \<and> lv_resizing_lock t' = 0 \<and> lv_map t' \<subseteq>\<^sub>m lv_map t \<and> lv_levels t' = lv_levels t + 1
      | Spin \<Rightarrow> False
      | Fault \<Rightarrow> lv_levels t = 32)"

lemma lv_stored_lock: "lv_stored T k v t t' \<Longrightarrow> lv_stored T k v t (t'\<lparr>lv_resizing_lock := l\<rparr>)"
proof -
  assume s: "lv_stored T k v t t'"
  let ?t = "t'\<lparr>lv_resizing_lock := l\<rparr>"
  have e: "lv_array ?t = lv_array t'" "lv_nodes ?t = lv_nodes t'" "lv_counts ?t = lv_counts t'" "lv_shape ?t = lv_shape t'"
    by (simp_all add: lv_array_def lv_nodes_def lv_counts_def lv_shape_def)
  show ?thesis using s lv_cand_frame [of ?t t' T] by (auto simp: lv_stored_def lv_ok_iff e)
qed

lemma lv_ok_lock: "lv_ok T (t\<lparr>lv_resizing_lock := l\<rparr>) \<longleftrightarrow> lv_ok T t"
  using lv_cand_frame [of "t\<lparr>lv_resizing_lock := l\<rparr>" t T]
  by (simp add: lv_ok_iff lv_array_def lv_nodes_def lv_counts_def lv_shape_def)

lemma lv_make_room_effect:
  assumes "lv_ok T t" and "\<forall>i j. fresh_token T i j = 0" and "k \<noteq> INVALID" and "lv_map t k = None"
    and "\<forall>(i, x, j) \<in> set (lv_slots T t k). tok (lv_buckets t ! i) x j \<noteq> 0"
  shows "lv_pass_ok T k v t (lv_make_room T k v t)"
proof -
  obtain f0 s0 where fs0: "lv_fs T t (lv_addr_capacity t) k = (f0, s0)" by fastforce
  obtain f1 s1 where fs1: "lv_fs T t (lv_addr_capacity t div 2) k = (f1, s1)" by fastforce
  have w: "lv_fs T t (lv_width t 0) k = (f0, s0)" "lv_fs T t (lv_width t 1) k = (f1, s1)" using fs0 fs1 by (simp_all add: lv_width_def)
  define b2t where "b2t idx = (if lv_resize_num t > 0
      then map_option (\<lambda>(empty_loc, t'). bump_items 1 (lv_put 1 idx empty_loc k v t')) (lv_b2t_movement T idx t) else None)" for idx
  define tries where "tries = [lv_try_movement T f0 0 k v t, lv_try_movement T s0 0 k v t,
      lv_try_movement T f1 1 k v t, lv_try_movement T s1 1 k v t, b2t f1, b2t s1]"
  have room: "lv_make_room T k v t = (case find (\<lambda>r. r \<noteq> None) tries of
      Some (Some t') \<Rightarrow> Return (t'\<lparr>lv_resizing_lock := 0\<rparr>)
    | _ \<Rightarrow> (case lv_resize T t of None \<Rightarrow> Fault | Some t' \<Rightarrow> Retry (t'\<lparr>lv_resizing_lock := 0\<rparr>)))"
    unfolding lv_make_room_def fs0 fs1 Let_def prod.case tries_def b2t_def by (rule refl)
  note mv = lv_try_movement_stored [OF assms(1,3,4,5)] and bm = lv_b2t_stored [OF assms(1,3,4,5)]
  have b: "lv_stored T k v t t'" if "b2t idx = Some t'" "idx = f1 \<or> idx = s1" for idx t'
    using that bm w(2) unfolding b2t_def by (auto split: if_splits)
  have good: "lv_stored T k v t t'" if "Some t' \<in> set tries" for t'
    using that b [of f1] b [of s1] mv [of 0 f0] mv [of 0 s0] mv [of 1 f1] mv [of 1 s1] w unfolding tries_def by auto
  show ?thesis
  proof (cases "find (\<lambda>r. r \<noteq> None) tries")
    case (Some r)
    then obtain t' where "r = Some t'" "Some t' \<in> set tries" by (auto dest: find_SomeD)
    then show ?thesis using Some room good lv_stored_lock by (simp add: lv_pass_ok_def)
  next
    case None
    then have r: "lv_make_room T k v t = (case lv_resize T t of None \<Rightarrow> Fault | Some t' \<Rightarrow> Retry (t'\<lparr>lv_resizing_lock := 0\<rparr>))"
      using room by simp
    show ?thesis
    proof (cases "lv_levels t < 32")
      case True
      obtain t' where "lv_resize T t = Some t'" "lv_ok T t'" "lv_map t' \<subseteq>\<^sub>m lv_map t" "lv_levels t' = lv_levels t + 1"
        using lv_resize_effect [OF assms(1) True assms(2)] by blast
      then show ?thesis using r by (simp add: lv_pass_ok_def lv_ok_lock) (simp add: lv_array_def)
    next
      case False
      then have "lv_levels t = 32" "lv_resize T t = None"
        using assms(1) lv_resize_grown [OF assms(1)] by (auto simp: lv_ok_def lv_shape_def)
      then show ?thesis using r by (simp add: lv_pass_ok_def)
    qed
  qed
qed

lemma lv_insert_pass_effect:
  assumes "lv_ok T t" and "lv_resizing_lock t = 0" and "\<forall>i j. fresh_token T i j = 0" and "k \<noteq> INVALID" and "lv_map t k = None"
  shows "lv_pass_ok T k v t (lv_insert_pass T k v t)"
proof -
  have a: "lv_shape t" using assms(1) by (simp add: lv_ok_iff)
  have nz: "lv_addr_capacity t div 2 div 2 \<noteq> 0" using lv_shape_width(1) [OF a, of 1] by (simp add: lv_width_def)
  show ?thesis
  proof (cases "find (\<lambda>(i, idx, j). tok (lv_buckets t ! i) idx j = 0) (lv_slots T t k)")
    case (Some s)
    obtain i idx j where s: "s = (i, idx, j)" by (cases s)
    have f: "(i, idx, j) \<in> set (lv_slots T t k)" "tok (lv_buckets t ! i) idx j = 0" using find_SomeD [OF Some] by (auto simp: s)
    have "lv_resizing_lock (bump_items i (lv_put i idx j k v t)) = 0" using assms(2) by (simp add: bump_items_def lv_put_def)
    then show ?thesis
      using lv_store_free [OF assms(1,4,5) f, of v] Some nz assms(2) by (simp add: lv_insert_pass_def s lv_pass_ok_def)
  next
    case None
    let ?t = "t\<lparr>lv_resizing_lock := 1\<rparr>"
    have fr: "lv_array ?t = lv_array t" "lv_slots T ?t k = lv_slots T t k"
      using lv_cand_frame(1) [of ?t t T] by (simp_all add: lv_array_def lv_slots_def)
    have full: "\<forall>(i, x, j) \<in> set (lv_slots T ?t k). tok (lv_buckets ?t ! i) x j \<noteq> 0"
      using None fr by (auto simp: find_None_iff)
    have "lv_pass_ok T k v ?t (lv_make_room T k v ?t)"
      using lv_make_room_effect [of T ?t k v] assms full fr by (simp add: lv_ok_lock)
    then have "lv_pass_ok T k v t (lv_make_room T k v ?t)"
      by (simp add: lv_pass_ok_def lv_stored_def fr cong: outcome.case_cong)
    then show ?thesis using None nz assms(2) by (simp add: lv_insert_pass_def)
  qed
qed

text \<open>When a pass grows the table: the key's twelve slots are in use, no pair in its four buckets can be
  moved to its other bucket of the level, and, once the table has grown, no pair in the two bottom
  buckets can be moved up.\<close>

definition lv_blocked :: "lenv \<Rightarrow> Key_t \<Rightarrow> Value_t \<Rightarrow> LevelHashing \<Rightarrow> bool" where
  "lv_blocked T k v t \<longleftrightarrow>
     (let (f0, s0) = lv_fs T t (lv_addr_capacity t) k; (f1, s1) = lv_fs T t (lv_addr_capacity t div 2) k
      in (\<forall>(i, x, j) \<in> set (lv_slots T t k). tok (lv_buckets t ! i) x j \<noteq> 0) \<and>
         lv_try_movement T f0 0 k v t = None \<and> lv_try_movement T s0 0 k v t = None \<and>
         lv_try_movement T f1 1 k v t = None \<and> lv_try_movement T s1 1 k v t = None \<and>
         (lv_resize_num t > 0 \<longrightarrow> lv_b2t_movement T f1 t = None \<and> lv_b2t_movement T s1 t = None))"

fun lv_grown_by :: "lenv \<Rightarrow> nat \<Rightarrow> LevelHashing \<Rightarrow> LevelHashing option" where
  "lv_grown_by T 0 t = Some t"
| "lv_grown_by T (Suc n) t = Option.bind (lv_grown_by T n t) (lv_resize T)"

lemma lv_fs_lock: "lv_fs T (t\<lparr>lv_resizing_lock := l\<rparr>) = lv_fs T t"
  by (intro ext) (simp add: lv_fs_def lv_F_HASH_def lv_S_HASH_def)

lemma lv_lock_frame:
  "lv_resize T (t\<lparr>lv_resizing_lock := l\<rparr>) = map_option (\<lambda>s. s\<lparr>lv_resizing_lock := l\<rparr>) (lv_resize T t)"
  "lv_blocked T k v (t\<lparr>lv_resizing_lock := l\<rparr>) = lv_blocked T k v t"
  "lv_slots T (t\<lparr>lv_resizing_lock := l\<rparr>) k = lv_slots T t k"
proof -
  have "lv_copy T (t\<lparr>lv_resizing_lock := l\<rparr>) = lv_copy T t" by (intro ext) (simp add: lv_copy_def lv_fs_lock)
  then show "lv_resize T (t\<lparr>lv_resizing_lock := l\<rparr>) = map_option (\<lambda>s. s\<lparr>lv_resizing_lock := l\<rparr>) (lv_resize T t)"
    by (simp add: lv_resize_def Let_def cong: if_cong split: prod.split)
  show sl: "lv_slots T (t\<lparr>lv_resizing_lock := l\<rparr>) k = lv_slots T t k" by (simp add: lv_slots_def lv_fs_lock)
  have "lv_try_movement T x i k v (t\<lparr>lv_resizing_lock := l\<rparr>) = None \<longleftrightarrow> lv_try_movement T x i k v t = None"
    "lv_b2t_movement T x (t\<lparr>lv_resizing_lock := l\<rparr>) = None \<longleftrightarrow> lv_b2t_movement T x t = None" for x i
    by (simp_all add: lv_try_movement_def lv_b2t_movement_def lv_fs_lock Let_def split: option.split)
  then show "lv_blocked T k v (t\<lparr>lv_resizing_lock := l\<rparr>) = lv_blocked T k v t"
    by (simp add: lv_blocked_def lv_fs_lock sl)
qed

lemma lv_resize_keeps_lock: "lv_resize T t = Some s \<Longrightarrow> lv_resizing_lock s = lv_resizing_lock t"
  by (auto simp: lv_resize_def Let_def split: prod.splits if_splits)

lemma lv_make_room_blocked:
  assumes "\<forall>(i, x, j) \<in> set (lv_slots T t k). tok (lv_buckets t ! i) x j \<noteq> 0"
  shows "lv_blocked T k v t \<Longrightarrow> lv_make_room T k v t =
      (case lv_resize T t of None \<Rightarrow> Fault | Some t' \<Rightarrow> Retry (t'\<lparr>lv_resizing_lock := 0\<rparr>))"
    and "\<not> lv_blocked T k v t \<Longrightarrow> \<exists>t'. lv_make_room T k v t = Return t'"
proof -
  obtain f0 s0 where fs0: "lv_fs T t (lv_addr_capacity t) k = (f0, s0)" by fastforce
  obtain f1 s1 where fs1: "lv_fs T t (lv_addr_capacity t div 2) k = (f1, s1)" by fastforce
  define b2t where "b2t idx = (if lv_resize_num t > 0
      then map_option (\<lambda>(empty_loc, t'). bump_items 1 (lv_put 1 idx empty_loc k v t')) (lv_b2t_movement T idx t) else None)" for idx
  define tries where "tries = [lv_try_movement T f0 0 k v t, lv_try_movement T s0 0 k v t,
      lv_try_movement T f1 1 k v t, lv_try_movement T s1 1 k v t, b2t f1, b2t s1]"
  have room: "lv_make_room T k v t = (case find (\<lambda>r. r \<noteq> None) tries of
      Some (Some t') \<Rightarrow> Return (t'\<lparr>lv_resizing_lock := 0\<rparr>)
    | _ \<Rightarrow> (case lv_resize T t of None \<Rightarrow> Fault | Some t' \<Rightarrow> Retry (t'\<lparr>lv_resizing_lock := 0\<rparr>)))"
    unfolding lv_make_room_def fs0 fs1 Let_def prod.case tries_def b2t_def by (rule refl)
  have b: "lv_blocked T k v t \<longleftrightarrow> (\<forall>r \<in> set tries. r = None)"
    using assms unfolding lv_blocked_def fs0 fs1 Let_def prod.case tries_def b2t_def by simp
  show "lv_make_room T k v t = (case lv_resize T t of None \<Rightarrow> Fault | Some t' \<Rightarrow> Retry (t'\<lparr>lv_resizing_lock := 0\<rparr>))"
    if "lv_blocked T k v t"
  proof -
    have "find (\<lambda>r. r \<noteq> None) tries = None" using that b by (simp add: find_None_iff)
    then show ?thesis using room by simp
  qed
  show "\<exists>t'. lv_make_room T k v t = Return t'" if "\<not> lv_blocked T k v t"
  proof -
    have "find (\<lambda>r. r \<noteq> None) tries \<noteq> None" using that b by (simp only: find_None_iff) blast
    then obtain r where r: "find (\<lambda>r. r \<noteq> None) tries = Some r" by blast
    then obtain t' where "r = Some t'" by (auto dest: find_SomeD)
    then show ?thesis using room r by simp
  qed
qed

text \<open>A pass returns if the key is not blocked, and otherwise grows the table.\<close>

lemma lv_insert_pass_blocked:
  assumes "lv_ok T t" and "lv_resizing_lock t = 0"
  shows "lv_blocked T k v t \<Longrightarrow> lv_insert_pass T k v t = (case lv_resize T t of None \<Rightarrow> Fault | Some t' \<Rightarrow> Retry t')"
    and "\<not> lv_blocked T k v t \<Longrightarrow> \<exists>t'. lv_insert_pass T k v t = Return t'"
proof -
  have sh: "lv_shape t" using assms(1) by (simp add: lv_ok_iff)
  have nz: "lv_addr_capacity t div 2 div 2 \<noteq> 0" using lv_shape_width(1) [OF sh, of 1] by (simp add: lv_width_def)
  let ?t = "t\<lparr>lv_resizing_lock := 1\<rparr>" and ?full = "\<forall>(i, x, j) \<in> set (lv_slots T t k). tok (lv_buckets t ! i) x j \<noteq> 0"
  have full: "lv_insert_pass T k v t = lv_make_room T k v ?t" if ?full
  proof -
    have "find (\<lambda>(i, idx, j). tok (lv_buckets t ! i) idx j = 0) (lv_slots T t k) = None"
      using that by (auto simp: find_None_iff)
    then show ?thesis using nz assms(2) by (simp add: lv_insert_pass_def)
  qed
  have room: "lv_blocked T k v ?t \<Longrightarrow> ?full \<Longrightarrow> lv_make_room T k v ?t =
      (case lv_resize T ?t of None \<Rightarrow> Fault | Some t' \<Rightarrow> Retry (t'\<lparr>lv_resizing_lock := 0\<rparr>))"
    "\<not> lv_blocked T k v ?t \<Longrightarrow> ?full \<Longrightarrow> \<exists>t'. lv_make_room T k v ?t = Return t'"
    using lv_make_room_blocked [of T ?t k v] by (simp_all add: lv_lock_frame(3))
  show "lv_insert_pass T k v t = (case lv_resize T t of None \<Rightarrow> Fault | Some t' \<Rightarrow> Retry t')" if b: "lv_blocked T k v t"
  proof -
    have ?full using b by (auto simp: lv_blocked_def split: prod.splits)
    moreover have "s\<lparr>lv_resizing_lock := 0\<rparr> = s" if "lv_resize T t = Some s" for s
      using lv_resize_keeps_lock [OF that] assms(2) by simp
    ultimately show ?thesis using full room(1) b by (simp add: lv_lock_frame split: option.split)
  qed
  show "\<exists>t'. lv_insert_pass T k v t = Return t'" if b: "\<not> lv_blocked T k v t"
  proof (cases ?full)
    case True
    then show ?thesis using full room(2) b by (simp add: lv_lock_frame(2))
  next
    case False
    then have "find (\<lambda>(i, idx, j). tok (lv_buckets t ! i) idx j = 0) (lv_slots T t k) \<noteq> None"
      by (auto simp: find_None_iff)
    then show ?thesis using nz assms(2) by (auto simp: lv_insert_pass_def)
  qed
qed

text \<open>C21: insertion into the level-hashing table always ends, and it grows the table exactly as long as
  the key is blocked. When it returns, the table was grown as often as it has new levels, the key
  was blocked in each of the tables before the last and not in that one, and the pair was added to
  it: nothing is invented, only growing can have lost pairs, and without growth all other pairs are
  kept. It gives up only if the key is blocked in every table up to the one of 32 levels, behind
  which the 32-bit bucket numbers no longer suffice. Fresh buckets are taken to come with cleared
  tokens.\<close>

theorem lv_Insert_ends:
  assumes "lv_ok T t" and "lv_resizing_lock t = 0" and "k \<noteq> INVALID" and "lv_map t k = None"
    and fresh_tokens: "\<forall>i j. fresh_token T i j = 0"
  shows "case lv_Insert T 31 k v t of
       Return t' \<Rightarrow> lv_ok T t' \<and> lv_map t' \<subseteq>\<^sub>m (lv_map t)(k \<mapsto> v) \<and> lv_Get T k t' = Some v \<and>
         (lv_levels t' = lv_levels t \<longrightarrow> lv_map t' = (lv_map t)(k \<mapsto> v) \<and>
            sum_list (lv_level_item_num t') = sum_list (lv_level_item_num t) + 1) \<and>
         (\<exists>s. lv_grown_by T (lv_levels t' - lv_levels t) t = Some s \<and> \<not> lv_blocked T k v s \<and>
            lv_levels t' = lv_levels s \<and> lv_map t' = (lv_map s)(k \<mapsto> v) \<and>
            sum_list (lv_level_item_num t') = sum_list (lv_level_item_num s) + 1) \<and>
         (\<forall>n < lv_levels t' - lv_levels t. \<exists>s. lv_grown_by T n t = Some s \<and> lv_blocked T k v s)
     | Fault \<Rightarrow> \<forall>n \<le> 32 - lv_levels t. \<exists>s. lv_grown_by T n t = Some s \<and> lv_blocked T k v s
     | _ \<Rightarrow> False"
proof -
  define d where "d s = lv_levels s - lv_levels t" for s :: LevelHashing
  define I where "I s \<longleftrightarrow> lv_ok T s \<and> lv_resizing_lock s = 0 \<and> lv_map s \<subseteq>\<^sub>m lv_map t \<and> lv_levels t \<le> lv_levels s \<and>
      lv_grown_by T (d s) t = Some s \<and> (\<forall>n < d s. \<exists>s. lv_grown_by T n t = Some s \<and> lv_blocked T k v s)" for s
  have absent: "lv_map s k = None" if "I s" for s
    using that assms(4) unfolding I_def map_le_def by (metis domIff)
  have pass: "lv_pass_ok T k v s (lv_insert_pass T k v s)" if "I s" for s
    using that absent [OF that] assms(3) fresh_tokens by (intro lv_insert_pass_effect) (auto simp: I_def)
  have blocked: "if lv_blocked T k v s then lv_insert_pass T k v s = (case lv_resize T s of None \<Rightarrow> Fault | Some s' \<Rightarrow> Retry s')
      else \<exists>s'. lv_insert_pass T k v s = Return s'" if "I s" for s
    using that lv_insert_pass_blocked [of T s k v] by (auto simp: I_def)
  have lev: "2 \<le> lv_levels s \<and> lv_levels s \<le> 32" if "I s" for s using that by (auto simp: I_def lv_ok_def lv_shape_def)
  have It: "I t" using assms by (simp add: I_def d_def)
  show ?thesis
    unfolding lv_Insert_def
  proof (rule run_until_ends_fault [where I = I and \<mu> = lv_levels and bound = 32])
    show "32 < lv_levels t + 31" using lev [OF It] by simp
    show "lv_levels s \<le> 32" if "I s" for s using lev [OF that] by simp
    show "lv_insert_pass T k v s \<noteq> Spin" if "I s" for s using pass [OF that] by (auto simp: lv_pass_ok_def)
  next
    fix s s'
    assume s: "I s" "lv_insert_pass T k v s = Retry s'"
    have p: "lv_ok T s'" "lv_resizing_lock s' = 0" "lv_map s' \<subseteq>\<^sub>m lv_map s" "lv_levels s' = lv_levels s + 1"
      using pass [OF s(1)] s(2) by (auto simp: lv_pass_ok_def)
    have b: "lv_blocked T k v s" "lv_resize T s = Some s'"
      using blocked [OF s(1)] s(2) by (auto split: if_splits option.splits)
    have "d s' = Suc (d s)" using p(4) s(1) by (simp add: d_def I_def Suc_diff_le)
    then have "\<exists>s. lv_grown_by T n t = Some s \<and> lv_blocked T k v s" if "n < d s'" for n
      using that s(1) b(1) by (cases "n = d s") (auto simp: I_def)
    then show "I s' \<and> lv_levels s < lv_levels s'"
      using p b(2) s(1) \<open>d s' = Suc (d s)\<close> by (auto simp: I_def intro: map_le_trans)
  next
    fix s
    assume s: "I s" "lv_insert_pass T k v s = Fault"
    have "d s = 32 - lv_levels t" using pass [OF s(1)] s(2) by (simp add: lv_pass_ok_def d_def)
    moreover have "lv_blocked T k v s" using blocked [OF s(1)] s(2) by (auto split: if_splits)
    ultimately show "\<forall>n \<le> 32 - lv_levels t. \<exists>s. lv_grown_by T n t = Some s \<and> lv_blocked T k v s"
      using s(1) by (auto simp: I_def le_less)
  next
    fix s s'
    assume s: "I s" "lv_insert_pass T k v s = Return s'"
    have st: "lv_stored T k v s s'" using pass [OF s(1)] s(2) by (simp add: lv_pass_ok_def)
    have "(lv_map s)(k \<mapsto> v) \<subseteq>\<^sub>m (lv_map t)(k \<mapsto> v)" using s(1) by (auto simp: I_def map_le_def)
    moreover have "lv_Get T k s' = Some v" using st lv_Get_map [of T s' k] assms(3) by (simp add: lv_stored_def)
    moreover have "d s' = d s" "\<not> lv_blocked T k v s"
      using st blocked [OF s(1)] s(2) by (auto simp: lv_stored_def d_def split: if_splits option.splits)
    moreover have "s = t" if "lv_levels s' = lv_levels t" using that s(1) st by (auto simp: I_def lv_stored_def d_def)
    ultimately show "lv_ok T s' \<and> lv_map s' \<subseteq>\<^sub>m (lv_map t)(k \<mapsto> v) \<and> lv_Get T k s' = Some v \<and>
        (lv_levels s' = lv_levels t \<longrightarrow> lv_map s' = (lv_map t)(k \<mapsto> v) \<and>
          sum_list (lv_level_item_num s') = sum_list (lv_level_item_num t) + 1) \<and>
        (\<exists>s. lv_grown_by T (lv_levels s' - lv_levels t) t = Some s \<and> \<not> lv_blocked T k v s \<and>
            lv_levels s' = lv_levels s \<and> lv_map s' = (lv_map s)(k \<mapsto> v) \<and>
            sum_list (lv_level_item_num s') = sum_list (lv_level_item_num s) + 1) \<and>
        (\<forall>n < lv_levels s' - lv_levels t. \<exists>s. lv_grown_by T n t = Some s \<and> lv_blocked T k v s)"
      unfolding d_def [symmetric] using st s(1) by (auto simp: lv_stored_def I_def)
  qed (rule It)
qed

lemma lv_new_ok:
  assumes "2 \<le> levels" and "levels \<le> 32" and "\<forall>i j. fresh_token T i j = 0"
  shows "lv_ok T (lv_new T levels seeds)" and "lv_map (lv_new T levels seeds) = Map.empty"
proof -
  let ?t = "lv_new T levels seeds"
  note inv = cells_new [OF assms(3)]
  have free: "\<forall>p \<in> set (lv_array ?t). p_key p = INVALID" using inv by (auto simp: lv_array_def lv_new_def)
  show "lv_map ?t = Map.empty" by (rule cell_map_fresh [OF free])
  have "length (lv_array ?t) = lv_cells_num ?t" by (simp add: lv_array_def lv_new_def lv_cells_num_def distrib_right)
  then have "slots_ok (lv_cells_num ?t) (lv_cand T ?t) (lv_array ?t)" using free by (rule slots_ok_fresh)
  moreover have "lv_nodes ?t" using new_lnodes_ok [OF assms(3)] by (simp add: lv_nodes_def lv_new_def)
  moreover have "lv_level_item_num ?t = lv_counts ?t" using used_fresh [OF inv] by (simp add: lv_new_def lv_counts_def)
  moreover have "lv_shape ?t" using assms(1,2) by (simp add: lv_shape_def lv_new_def)
  ultimately show "lv_ok T ?t" by (simp add: lv_ok_iff)
qed

definition demo_lenv :: lenv where
  "demo_lenv = \<lparr>lib_hash = (\<lambda>bs seed. if seed = 0 then ucast (bs ! 0) else ucast (bs ! 1)), junk = (\<lambda>i. 0), fresh_token = (\<lambda>i j. 0)\<rparr>"

theorem lv_Insert_ends_witness:
  "\<exists>t'. lv_Insert demo_lenv 31 7 70 (lv_new demo_lenv 3 (0, 1)) = Return t' \<and> lv_Get demo_lenv 7 t' = Some 70"
proof -
  let ?t = "lv_new demo_lenv 3 (0, 1)"
  have z: "\<forall>i j. fresh_token demo_lenv i j = 0" by (simp add: demo_lenv_def)
  have ok: "lv_ok demo_lenv ?t" "lv_map ?t = Map.empty" using lv_new_ok [OF _ _ z, of 3 "(0, 1)"] by simp_all
  have sh: "lv_shape ?t" using ok(1) by (simp add: lv_ok_iff)
  obtain idx where s: "(0, idx, 0) \<in> set (lv_slots demo_lenv ?t 7)" by (auto simp: set_lv_slots)
  then have "idx < 8" using lv_slots_bound(2) [OF sh s] by (simp add: lv_width_def lv_new_def)
  then have "tok (lv_buckets ?t ! 0) idx 0 = 0" by (simp add: lv_new_def tok_def new_lnodes_def demo_lenv_def)
  then have "\<exists>x. x \<in> set (lv_slots demo_lenv ?t 7) \<and> (case x of (i, idx, j) \<Rightarrow> tok (lv_buckets ?t ! i) idx j = 0)"
    using s by (intro exI [of _ "(0, idx, 0)"]) simp
  then have "find (\<lambda>(i, idx, j). tok (lv_buckets ?t ! i) idx j = 0) (lv_slots demo_lenv ?t 7) \<noteq> None"
    unfolding find_None_iff by blast
  then have "\<exists>t'. lv_insert_pass demo_lenv 7 70 ?t = Return t'"
    by (auto simp: lv_insert_pass_def) (auto simp: lv_new_def)
  then have "\<exists>t'. lv_Insert demo_lenv 31 7 70 ?t = Return t'"
    by (auto simp: lv_Insert_def run_until.simps(2) [of _ 30, simplified])
  moreover have "lv_resizing_lock ?t = 0" by (simp add: lv_new_def)
  ultimately show ?thesis
    using lv_Insert_ends [OF ok(1) _ _ _ z, of 7 70] ok(2) by (auto simp: INVALID_def)
qed

text \<open>Every freshly constructed table with cleared tokens.\<close>

interpretation lv: slot_table "lv_cells_num (lv_new T (min m 30 + 2) seeds)" "lv_cand T (lv_new T (min m 30 + 2) seeds)" for T m seeds
  by (rule lv_slot_table) (simp add: lv_shape_def lv_new_def)

section \<open>A resize may drop pairs\<close>

text \<open>Keys whose first hash is 1 for the numbers 5, 6 and 7 and otherwise 0; their second hash is 0.\<close>

definition drop_key :: "nat \<Rightarrow> Key_t" where
  "drop_key n = of_nat (65536 * n + (if 5 \<le> n \<and> n \<le> 7 then 1 else 0))"

text \<open>Nine pairs in the bottom level, with the slots they are stored in.\<close>

definition drop_puts :: "(nat \<times> nat \<times> Key_t) list" where
  "drop_puts = [(0, 0, drop_key 2), (0, 1, drop_key 3), (0, 2, drop_key 4),
     (1, 0, drop_key 5), (1, 1, drop_key 6), (1, 2, drop_key 7),
     (2, 0, drop_key 8), (2, 1, drop_key 9), (2, 2, drop_key 10)]"

definition drop_put :: "nat \<times> nat \<times> Key_t \<Rightarrow> LevelHashing \<Rightarrow> LevelHashing" where
  "drop_put = (\<lambda>(x, j, k) t. bump_items 1 (lv_put 1 x j k k t))"

definition drop_table :: LevelHashing where
  "drop_table = fold drop_put drop_puts (lv_new demo_lenv 3 (0, 1))"

lemma drop_hash:
  assumes "lv_f_seed t = 0" and "lv_s_seed t = 1" and "(x, j, k) \<in> set drop_puts"
  shows "lv_F_HASH demo_lenv t k = (if k \<in> {drop_key 5, drop_key 6, drop_key 7} then 1 else 0)" and "lv_S_HASH demo_lenv t k = 0"
    and "k \<noteq> INVALID"
  using assms(3)
  by (auto simp: drop_puts_def lv_F_HASH_def lv_S_HASH_def hash_h_def demo_lenv_def assms(1,2) key_bytes_def drop_key_def INVALID_def)

lemma tok_put:
  assumes "x < length nodes" and "length (token (nodes ! x)) = ASSOC_NUM" and "j < ASSOC_NUM"
  shows "tok (put_entry nodes x j k v) x' j' = (if x' = x \<and> j' = j then 1 else tok nodes x' j')"
  using assms by (auto simp: tok_def put_entry_def nth_list_update)

lemma tok_put_ok:
  "nodes_ok n nodes \<Longrightarrow> x < n \<Longrightarrow> j < ASSOC_NUM \<Longrightarrow>
    tok (put_entry nodes x j k v) x' j' = (if x' = x \<and> j' = j then 1 else tok nodes x' j')"
  using nodes_ok_node [of n nodes x] by (intro tok_put) (auto simp: nodes_ok_def node_ok_def)

lemma ent_put_ok:
  "nodes_ok n nodes \<Longrightarrow> x < n \<Longrightarrow> j < ASSOC_NUM \<Longrightarrow>
    ent (put_entry nodes x j k v) x' j' = (if x' = x \<and> j' = j then Pair_make k v else ent nodes x' j')"
  using nodes_ok_node [of n nodes x] by (auto simp: nodes_ok_def node_ok_def ent_def put_entry_def nth_list_update)

lemma demo_fresh: "\<forall>i j. fresh_token demo_lenv i j = 0"
  by (simp add: demo_lenv_def)

lemma tok_demo: "x < n \<Longrightarrow> j < ASSOC_NUM \<Longrightarrow> tok (new_lnodes demo_lenv n) x j = 0"
  by (simp add: tok_def new_lnodes_def demo_lenv_def)

lemmas demo_nodes_ok = new_lnodes_ok [OF demo_fresh]

lemma drop_frame:
  "lv_addr_capacity (fold drop_put ps t) = lv_addr_capacity t" "lv_levels (fold drop_put ps t) = lv_levels t"
  "lv_f_seed (fold drop_put ps t) = lv_f_seed t" "lv_s_seed (fold drop_put ps t) = lv_s_seed t"
  by (induction ps arbitrary: t) (auto simp: drop_put_def bump_items_def lv_put_def)

lemma drop_fs:
  assumes "lv_f_seed t = 0" and "lv_s_seed t = 1" and "(x, j, k) \<in> set drop_puts"
  shows "lv_fs demo_lenv t cap k = ((if k \<in> {drop_key 5, drop_key 6, drop_key 7} then 1 else 0) mod (cap div 2), cap div 2)"
  using drop_hash [OF assms] by (simp add: lv_fs_def lv_F_IDX_def lv_S_IDX_def)

text \<open>The table is well formed: it is built from stores into free slots of the keys.\<close>

lemma drop_fold_ok:
  assumes "lv_ok demo_lenv t" and "lv_f_seed t = 0" and "lv_s_seed t = 1" and "lv_addr_capacity t = 8" and "set ps \<subseteq> set drop_puts"
    and "\<forall>(x, j, k) \<in> set ps. tok (lv_buckets t ! 1) x j = 0 \<and> lv_map t k = None"
    and "distinct (map (\<lambda>(x, j, k). (x, j)) ps)" and "distinct (map (\<lambda>(x, j, k). k) ps)"
  shows "lv_ok demo_lenv (fold drop_put ps t) \<and> lv_map (fold drop_put ps t) = lv_map t ++ map_of (map (\<lambda>(x, j, k). (k, k)) ps)"
  using assms
proof (induction ps arbitrary: t)
  case (Cons p ps)
  obtain x j k where p: "p = (x, j, k)" by (cases p)
  have mem: "(x, j, k) \<in> set drop_puts" using Cons.prems(5) p by simp
  have slot: "(1, x, j) \<in> set (lv_slots demo_lenv t k)"
    using mem Cons.prems(4) drop_fs [OF Cons.prems(2,3) mem]
    by (auto simp: set_lv_slots lv_width_def drop_puts_def ASSOC_NUM_def drop_key_def)
  have free: "tok (lv_buckets t ! 1) x j = 0" "lv_map t k = None" using Cons.prems(6) p by auto
  note st = lv_store_free [OF Cons.prems(1) drop_hash(3) [OF Cons.prems(2,3) mem] free(2) slot free(1), of k]
  have a: "lv_shape t" "lv_nodes t" using Cons.prems(1) by (auto simp: lv_ok_iff)
  note b = lv_slots_bound [OF a(1) slot]
  have l: "length (lv_buckets t) = 2" using a(2) by (simp add: lv_nodes_def)
  have nodes: "nodes_ok 4 (lv_buckets t ! 1)" "x < 4" using a(2) b(2) Cons.prems(4) by (auto simp: lv_nodes_def lv_width_def)
  let ?t = "drop_put p t"
  have t: "?t = bump_items 1 (lv_put 1 x j k k t)" by (simp add: drop_put_def p)
  have map: "lv_map ?t = (lv_map t)(k \<mapsto> k)" using st unfolding t lv_stored_def by simp
  have "lv_ok demo_lenv (fold drop_put ps ?t) \<and> lv_map (fold drop_put ps ?t) = lv_map ?t ++ map_of (map (\<lambda>(x, j, k). (k, k)) ps)"
  proof (rule Cons.IH)
    show "lv_ok demo_lenv ?t" using st unfolding t lv_stored_def by simp
    show "\<forall>(x, j, k) \<in> set ps. tok (lv_buckets ?t ! 1) x j = 0 \<and> lv_map ?t k = None"
    proof
      fix q
      assume q: "q \<in> set ps"
      obtain x' j' k' where q': "q = (x', j', k')" by (cases q)
      have "tok (lv_buckets t ! 1) x' j' = 0" "lv_map t k' = None" using Cons.prems(6) q q' by auto
      moreover have "(x', j') \<noteq> (x, j)" "k' \<noteq> k" using Cons.prems(7,8) q unfolding p q' by force+
      moreover have "lv_buckets ?t ! 1 = put_entry (lv_buckets t ! 1) x j k k" unfolding t using l by (simp add: lv_put_def)
      ultimately show "case q of (x, j, k) \<Rightarrow> tok (lv_buckets ?t ! 1) x j = 0 \<and> lv_map ?t k = None"
        using tok_put_ok [OF nodes b(3), of k k x' j'] unfolding map q' by auto
    qed
  qed (use Cons.prems in \<open>auto simp: drop_put_def p bump_items_def lv_put_def\<close>)
  moreover have "k \<notin> dom (map_of (map (\<lambda>(x, j, k). (k, k)) ps))"
    unfolding dom_map_of_conv_image_fst using Cons.prems(8) p by force
  then have "lv_map ?t ++ map_of (map (\<lambda>(x, j, k). (k, k)) ps) = lv_map t ++ map_of (map (\<lambda>(x, j, k). (k, k)) (p # ps))"
    unfolding map unfolding p list.map(2) prod.case map_of.simps fst_conv snd_conv map_add_upd by (rule map_add_upd_left)
  ultimately show ?case by (simp only: fold_simps)
qed simp

lemma drop_table_ok: "lv_ok demo_lenv drop_table" "lv_map drop_table (drop_key 10) = Some (drop_key 10)"
proof -
  let ?t = "lv_new demo_lenv 3 (0, 1)"
  have ok: "lv_ok demo_lenv ?t" "lv_map ?t = Map.empty" using lv_new_ok [OF _ _ demo_fresh, of 3 "(0, 1)"] by simp_all
  have "lv_ok demo_lenv (fold drop_put drop_puts ?t) \<and> lv_map (fold drop_put drop_puts ?t) = lv_map ?t ++ map_of (map (\<lambda>(x, j, k). (k, k)) drop_puts)"
  proof (rule drop_fold_ok [OF ok(1)])
    show "\<forall>(x, j, k) \<in> set drop_puts. tok (lv_buckets ?t ! 1) x j = 0 \<and> lv_map ?t k = None"
      unfolding ok(2) by (simp add: drop_puts_def lv_new_def tok_demo ASSOC_NUM_def)
  qed (simp_all add: lv_new_def drop_puts_def drop_key_def)
  then show "lv_ok demo_lenv drop_table" "lv_map drop_table (drop_key 10) = Some (drop_key 10)"
    unfolding drop_table_def ok(2) by (simp_all add: drop_puts_def drop_key_def)
qed

lemma drop_buckets:
  "length (lv_buckets t) = 2 \<Longrightarrow> lv_buckets (fold drop_put ps t) =
     [lv_buckets t ! 0, fold (\<lambda>(x, j, k) nodes. put_entry nodes x j k k) ps (lv_buckets t ! 1)]"
proof (induction ps arbitrary: t)
  case Nil
  then show ?case by (cases "lv_buckets t") (auto simp: length_Suc_conv numeral_2_eq_2)
next
  case (Cons p ps)
  obtain x j k where p: "p = (x, j, k)" by (cases p)
  show ?case using Cons.IH [of "drop_put p t"] Cons.prems by (simp add: p drop_put_def lv_put_def)
qed

lemma drop_bottom:
  "lv_buckets drop_table = [new_lnodes demo_lenv 8,
     [\<lparr>token = [1, 1, 1], slot = map (\<lambda>k. Pair_make k k) [drop_key 2, drop_key 3, drop_key 4]\<rparr>,
      \<lparr>token = [1, 1, 1], slot = map (\<lambda>k. Pair_make k k) [drop_key 5, drop_key 6, drop_key 7]\<rparr>,
      \<lparr>token = [1, 1, 1], slot = map (\<lambda>k. Pair_make k k) [drop_key 8, drop_key 9, drop_key 10]\<rparr>,
      \<lparr>token = [0, 0, 0], slot = [Pair_make INVALID NONE, Pair_make INVALID NONE, Pair_make INVALID NONE]\<rparr>]]"
proof -
  let ?n = "\<lparr>token = [0, 0, 0], slot = [Pair_make INVALID NONE, Pair_make INVALID NONE, Pair_make INVALID NONE]\<rparr>"
  have n: "new_lnodes demo_lenv 4 = [?n, ?n, ?n, ?n]"
    by (simp add: new_lnodes_def demo_lenv_def ASSOC_NUM_def upt_rec [of _ 4] upt_rec [of _ 3] numeral_3_eq_3)
  have b: "lv_buckets (lv_new demo_lenv 3 (0, 1)) = [new_lnodes demo_lenv 8, new_lnodes demo_lenv 4]" by (simp add: lv_new_def)
  have two: "xs[2 := v] = xs[Suc (Suc 0) := v]" for xs :: "'a list" and v by (simp add: numeral_2_eq_2)
  show ?thesis
    unfolding drop_table_def using drop_buckets [of "lv_new demo_lenv 3 (0, 1)" drop_puts]
    by (simp add: b n drop_puts_def put_entry_def two)
qed

lemma drop_slots:
  "pair_slots (lv_fs demo_lenv drop_table 16 (drop_key n)) =
     (let f = if 5 \<le> n \<and> n \<le> 7 then 1 else 0 in [(f, 0), (8, 0), (f, 1), (8, 1), (f, 2), (8, 2)])"
  if n: "n \<in> {2, 3, 4, 5, 6, 7, 8, 9, 10}"
proof -
  have s: "lv_f_seed drop_table = 0" "lv_s_seed drop_table = 1" by (simp_all add: drop_table_def drop_frame) (simp_all add: lv_new_def)
  have "lv_fs demo_lenv drop_table 16 (drop_key n) = (if 5 \<le> n \<and> n \<le> 7 then 1 else 0, 8)"
    using n by (auto simp: lv_fs_def lv_F_IDX_def lv_S_IDX_def lv_F_HASH_def lv_S_HASH_def hash_h_def s demo_lenv_def key_bytes_def drop_key_def)
  then show ?thesis by (simp add: pair_slots_def ASSOC_NUM_def upt_rec [of _ 3] Let_def)
qed

text \<open>The interim level after each of the pairs that find a place.\<close>

definition drop_places :: "(nat \<times> nat \<times> Key_t) list" where
  "drop_places = [(0, 0, drop_key 2), (8, 0, drop_key 3), (0, 1, drop_key 4), (1, 0, drop_key 5), (1, 1, drop_key 6), (8, 1, drop_key 7), (0, 2, drop_key 8), (8, 2, drop_key 9)]"

definition drop_interim :: "nat \<Rightarrow> lnode list" where
  "drop_interim n = fold (\<lambda>(x, j, k) nodes. put_entry nodes x j k k) (take n drop_places) (new_lnodes demo_lenv 16)"

lemma drop_interim_ok:
  assumes "n \<le> 8"
  shows "nodes_ok 16 (drop_interim n)"
    and "x < 16 \<Longrightarrow> j < ASSOC_NUM \<Longrightarrow> tok (drop_interim n) x j = (if (x, j) \<in> (\<lambda>(x, j, k). (x, j)) ` set (take n drop_places) then 1 else 0)"
    and "x < 16 \<Longrightarrow> j < ASSOC_NUM \<Longrightarrow> tok (drop_interim n) x j = 1 \<Longrightarrow> (x, j, p_key (ent (drop_interim n) x j)) \<in> set drop_places"
proof -
  have "nodes_ok 16 (drop_interim n) \<and> (\<forall>x < 16. \<forall>j < ASSOC_NUM.
      tok (drop_interim n) x j = (if (x, j) \<in> (\<lambda>(x, j, k). (x, j)) ` set (take n drop_places) then 1 else 0) \<and>
      (tok (drop_interim n) x j = 1 \<longrightarrow> (x, j, p_key (ent (drop_interim n) x j)) \<in> set drop_places))"
    using assms
  proof (induction n)
    case 0
    then show ?case by (auto simp: drop_interim_def demo_nodes_ok tok_demo)
  next
    case (Suc n)
    obtain x j k where p: "drop_places ! n = (x, j, k)" by (cases "drop_places ! n")
    have n: "n < length drop_places" using Suc.prems by (simp add: drop_places_def)
    then have mem: "(x, j, k) \<in> set drop_places" using p by (metis nth_mem)
    then have b: "x < 16" "j < ASSOC_NUM" "k \<noteq> INVALID" by (auto simp: drop_places_def ASSOC_NUM_def drop_key_def INVALID_def)
    have t: "take (Suc n) drop_places = take n drop_places @ [(x, j, k)]" using n p by (simp add: take_Suc_conv_app_nth)
    have d: "drop_interim (Suc n) = put_entry (drop_interim n) x j k k" by (simp add: drop_interim_def t)
    have IH: "nodes_ok 16 (drop_interim n)" using Suc by simp
    show ?case
      unfolding d t using Suc nodes_ok_put [OF IH b(1,3), of j k] mem
      by (auto simp: tok_put_ok [OF IH b(1,2)] ent_put_ok [OF IH b(1,2)])
  qed
  then show "nodes_ok 16 (drop_interim n)"
    "x < 16 \<Longrightarrow> j < ASSOC_NUM \<Longrightarrow> tok (drop_interim n) x j = (if (x, j) \<in> (\<lambda>(x, j, k). (x, j)) ` set (take n drop_places) then 1 else 0)"
    "x < 16 \<Longrightarrow> j < ASSOC_NUM \<Longrightarrow> tok (drop_interim n) x j = 1 \<Longrightarrow> (x, j, p_key (ent (drop_interim n) x j)) \<in> set drop_places"
    by blast+
qed

lemma drop_tok:
  assumes "n \<le> 8" and "(x, j) \<in> {0, 1, 8} \<times> {0, 1, 2}"
  shows "tok (drop_interim n) x j = 0 \<longleftrightarrow> (x, j) \<notin> (\<lambda>(x, j, k). (x, j)) ` set (take n drop_places)"
proof -
  have "x < 16" "j < ASSOC_NUM" using assms(2) by (auto simp: ASSOC_NUM_def)
  then show ?thesis using drop_interim_ok(2) [OF assms(1)] by simp
qed

lemma drop_copy_find:
  assumes "n \<le> 8" and "i \<in> {2, 3, 4, 5, 6, 7, 8, 9, 10}"
  shows "find (\<lambda>(x, j). tok (drop_interim n) x j = 0) (pair_slots (lv_fs demo_lenv drop_table 16 (drop_key i))) =
    find (\<lambda>p. p \<notin> (\<lambda>(x, j, k). (x, j)) ` set (take n drop_places)) (pair_slots (lv_fs demo_lenv drop_table 16 (drop_key i)))"
proof (rule find_cong_set)
  fix p
  assume p: "p \<in> set (pair_slots (lv_fs demo_lenv drop_table 16 (drop_key i)))"
  obtain x j where xj: "p = (x, j)" by (cases p)
  have "(x, j) \<in> {0, 1, 8} \<times> {0, 1, 2}" using p unfolding xj drop_slots [OF assms(2)] Let_def by (simp split: if_splits) blast+
  from drop_tok [OF assms(1) this]
  show "(case p of (x, j) \<Rightarrow> tok (drop_interim n) x j = 0) \<longleftrightarrow> p \<notin> (\<lambda>(x, j, k). (x, j)) ` set (take n drop_places)"
    unfolding xj prod.case .
qed

lemma drop_copy_step:
  assumes "n < 8" and "drop_places ! n = (x, j, drop_key i)" and "i \<in> {2, 3, 4, 5, 6, 7, 8, 9, 10}"
    and "find (\<lambda>p. p \<notin> (\<lambda>(x, j, k). (x, j)) ` set (take n drop_places)) (pair_slots (lv_fs demo_lenv drop_table 16 (drop_key i))) = Some (x, j)"
  shows "lv_copy demo_lenv drop_table 16 (Pair_make (drop_key i) (drop_key i)) (drop_interim n, n) = (drop_interim (Suc n), Suc n)"
proof -
  have "n < length drop_places" using assms(1) by (simp add: drop_places_def)
  then have "drop_interim (Suc n) = put_entry (drop_interim n) x j (drop_key i) (drop_key i)"
    using assms(2) by (simp add: drop_interim_def take_Suc_conv_app_nth)
  then show ?thesis using assms(1,4) drop_copy_find [OF _ assms(3), of n] by (simp add: lv_copy_def)
qed

lemma drop_copies:
  "n < 8 \<Longrightarrow> lv_copy demo_lenv drop_table 16 (Pair_make (drop_key (n + 2)) (drop_key (n + 2))) (drop_interim n, n) = (drop_interim (Suc n), Suc n)"
proof -
  assume n: "n < 8"
  then have "n \<in> {0, 1, 2, 3, 4, 5, 6, 7}" by auto
  moreover have "drop_key (Suc (Suc 0)) = drop_key 2" "drop_key (Suc (Suc (Suc 0))) = drop_key 3" by (simp_all add: drop_key_def)
  ultimately show ?thesis
    by (elim insertE emptyE; hypsubst; intro drop_copy_step) (simp_all add: drop_places_def drop_slots Let_def)
qed

lemma of_nat_valid: "m < 2 ^ 64 - 1 \<Longrightarrow> (of_nat m :: Key_t) \<noteq> INVALID"
proof
  assume m: "m < 2 ^ 64 - 1" and "(of_nat m :: Key_t) = INVALID"
  then have "unat (of_nat m :: Key_t) = 2 ^ 64 - 1" by (simp add: INVALID_def unsigned_minus_1_eq_mask mask_eq_exp_minus_1)
  then show False using m by (simp add: unat_of_nat)
qed

lemma drop_key_valid: "n < 100 \<Longrightarrow> drop_key n \<noteq> INVALID"
  unfolding drop_key_def by (intro of_nat_valid) simp

lemma drop_copies_fold:
  "n \<le> 8 \<Longrightarrow> fold (lv_copy_cell demo_lenv drop_table 16) (map (\<lambda>n. Pair_make (drop_key (n + 2)) (drop_key (n + 2))) [0..<n])
     (new_lnodes demo_lenv 16, 0) = (drop_interim n, n)"
proof (induction n)
  case (Suc n)
  then have "n < 8" by simp
  with Suc drop_copies [OF this] drop_key_valid [of "n + 2"] show ?case by (simp add: lv_copy_cell_def)
qed (simp add: drop_interim_def)

lemma drop_copy_none:
  "lv_copy demo_lenv drop_table 16 (Pair_make (drop_key 10) (drop_key 10)) (drop_interim 8, 8) = (drop_interim 8, 8)"
  using drop_copy_find [of 8 10] by (simp add: lv_copy_def drop_slots drop_places_def Let_def)

lemma drop_cells:
  assumes "p \<in> set (cells (drop_interim 8))"
  shows "p_key p = INVALID \<or> p_key p \<noteq> drop_key 10"
proof -
  have ok: "nodes_ok 16 (drop_interim 8)" by (rule drop_interim_ok) simp
  then obtain x j where x: "x < 16" "j < ASSOC_NUM" "p = cell (drop_interim 8 ! x) j"
    using assms by (auto simp: cells_def nodes_ok_def)
  show ?thesis
  proof (cases "tok (drop_interim 8) x j = 1")
    case True
    then have "(x, j, p_key p) \<in> set drop_places" using drop_interim_ok(3) [OF _ x(1,2), of 8] x(3) by (simp add: cell_def tok_def ent_def)
    moreover have "drop_key 10 \<notin> (\<lambda>(x, j, k). k) ` set drop_places" by (simp add: drop_places_def drop_key_def)
    ultimately show ?thesis by force
  qed (simp add: x(3) cell_def tok_def)
qed

text \<open>C27: a resize of the level-hashing table can lose a pair. In a well-formed table of three
  levels with nine pairs in the bottom level, the first eight fill all six slots of the two
  buckets the ninth is hashed to; the resize drops it without notice, and a lookup that found
  it before finds nothing.\<close>

theorem lv_resize_drops:
  "\<exists>t'. lv_ok demo_lenv drop_table \<and> lv_resize demo_lenv drop_table = Some t' \<and> lv_ok demo_lenv t' \<and>
     lv_Get demo_lenv (drop_key 10) drop_table = Some (drop_key 10) \<and> lv_Get demo_lenv (drop_key 10) t' = Some NONE"
proof -
  have lev: "lv_levels drop_table = 3" by (simp add: drop_table_def drop_frame) (simp add: lv_new_def)
  have k10: "drop_key 10 \<noteq> INVALID" by (rule drop_key_valid) simp
  obtain t' where t': "lv_resize demo_lenv drop_table = Some t'" "lv_ok demo_lenv t'"
    using lv_resize_effect [OF drop_table_ok(1) _ demo_fresh] lev by auto
  have bottom: "cells (lv_buckets drop_table ! 1) = map (\<lambda>n. Pair_make (drop_key (n + 2)) (drop_key (n + 2))) [0..<8] @
      [Pair_make (drop_key 10) (drop_key 10)] @ replicate 3 (Pair_make INVALID NONE)"
    by (simp add: drop_bottom cells_def ASSOC_NUM_def upt_rec [of _ 4] upt_rec [of _ 3] upt_rec [of _ 8] cell_def numeral_3_eq_3) (simp add: eval_nat_numeral)
  have "fold (lv_copy_cell demo_lenv drop_table 16) (cells (lv_buckets drop_table ! 1)) (new_lnodes demo_lenv 16, 0) = (drop_interim 8, 8)"
    unfolding bottom fold_append comp_apply drop_copies_fold [OF order_refl]
    using drop_copy_none k10 by (simp add: lv_copy_cell_def numeral_3_eq_3)
  then have "t' = lv_grown drop_table (drop_interim 8) 8"
    using t'(1) lev unfolding lv_resize_grown [OF drop_table_ok(1)] by (simp add: Let_def)
  then have arr: "lv_array t' = cells (drop_interim 8) @ cells (new_lnodes demo_lenv 8)"
    by (simp add: lv_array_def drop_bottom)
  have "p_key p \<noteq> drop_key 10" if "p \<in> set (cells (drop_interim 8))" for p
    using drop_cells [OF that] k10 by auto
  moreover have "p_key p \<noteq> drop_key 10" if "p \<in> set (cells (new_lnodes demo_lenv 8))" for p
    using cells_new [OF demo_fresh, of 8] that k10 by metis
  ultimately have "lv_map t' (drop_key 10) = None"
    unfolding arr using k10 by (auto simp: cell_map_def find_None_iff)
  then show ?thesis
    using t' drop_table_ok lv_Get_map [OF drop_table_ok(1) k10] lv_Get_map [OF t'(2) k10] by auto
qed

end
