(* ===== verification/Extendible_Hash.thy ===== *)
theory Extendible_Hash
  imports Table_Env
begin

text \<open>
  The extendible hash table (\<^verbatim>\<open>extendible_hash.h\<close>, \<^verbatim>\<open>extendible_hash.cpp\<close>) in its \<^verbatim>\<open>LSB\<close> layout, which
  the header selects: blocks of 16384 cells, their split by copying or in place (\<^verbatim>\<open>INPLACE\<close>), the
  recursive directory update, directory doubling, \<^verbatim>\<open>Insert\<close>, \<^verbatim>\<open>InsertOnly\<close>, \<^verbatim>\<open>Get\<close> and the
  counting functions, as one thread runs them. The lemmas show what the recursive update
  writes, that a split loses nothing and that insertion ends.
\<close>

section \<open>State\<close>

record Block =
  b_cells :: "Pair list"
  b_local_depth :: nat
  b_sema :: int
  b_pattern :: nat

text \<open>The compile-time switch of the build.\<close>

record xenv = tenv +
  x_INPLACE :: bool

text \<open>\<^verbatim>\<open>kBlockSize/sizeof(Pair)\<close>.\<close>

definition eh_kNumSlot :: nat where
  "eh_kNumSlot = 256 * 1024 div 16"

definition new_Block :: "xenv \<Rightarrow> nat \<Rightarrow> Block" where
  "new_Block X dp = \<lparr>b_cells = new_Pairs (tenv.truncate X) eh_kNumSlot, b_local_depth = dp, b_sema = 0, b_pattern = 0\<rparr>"

text \<open>A directory entry is the address of a block, here its position in the list of all blocks
  ever allocated; the code frees none.\<close>

record ExtendibleHash =
  eh_global_depth :: nat
  eh_dir :: "nat list"
  eh_capacity :: nat
  eh_lock :: bool
  eh_blocks :: "Block list"

abbreviation eh_h :: "xenv \<Rightarrow> Key_t \<Rightarrow> nat" where
  "eh_h X k \<equiv> h_key (tenv.truncate X) k"

definition put_block :: "nat \<Rightarrow> Block \<Rightarrow> ExtendibleHash \<Rightarrow> ExtendibleHash" where
  "put_block a b t = t\<lparr>eh_blocks := (eh_blocks t)[a := b]\<rparr>"

definition new_blocks :: "Block list \<Rightarrow> ExtendibleHash \<Rightarrow> ExtendibleHash" where
  "new_blocks bs t = t\<lparr>eh_blocks := eh_blocks t @ bs\<rparr>"

section \<open>Blocks\<close>

text \<open>The test before a slot is claimed. The in-place build first clears a key that belongs to
  another block: the rest of an earlier split.\<close>

definition eh_free :: "xenv \<Rightarrow> Block \<Rightarrow> Pair \<Rightarrow> bool" where
  "eh_free X b p \<longleftrightarrow> p_key p = INVALID \<or>
     (x_INPLACE X \<and> eh_h X (p_key p) mod 2 ^ b_local_depth b \<noteq> b_pattern b)"

text \<open>\<^verbatim>\<open>Block::Insert\<close>: the slot, \<open>- 1\<close> for a full block, \<open>- 2\<close> for a block that is being split or
  does not cover the hash. The semaphore is raised and lowered around the search.\<close>

definition eh_block_insert :: "xenv \<Rightarrow> Block \<Rightarrow> Key_t \<Rightarrow> Value_t \<Rightarrow> nat \<Rightarrow> int \<times> Block" where
  "eh_block_insert X b k v key_hash =
     (if b_sema b = - 1 then (- 2, b)
      else if key_hash mod 2 ^ b_local_depth b \<noteq> b_pattern b then (- 2, b)
      else let b1 = b\<lparr>b_sema := b_sema b + 1\<rparr>;
               (ret, b2) =
                 (case find (\<lambda>i. eh_free X b1 (b_cells b1 ! i)) [0..<eh_kNumSlot] of
                    Some i \<Rightarrow> (int i, b1\<lparr>b_cells := (b_cells b1)[i := Pair_make k v]\<rparr>)
                  | None \<Rightarrow> (- 1, b1))
           in (ret, b2\<lparr>b_sema := b_sema b2 - 1\<rparr>))"

fun eh_Insert4split :: "Key_t \<Rightarrow> Value_t \<Rightarrow> Pair list \<Rightarrow> Pair list" where
  "eh_Insert4split k v [] = []"
| "eh_Insert4split k v (p # ps) = (if p_key p = INVALID then Pair_make k v # ps else p # eh_Insert4split k v ps)"

text \<open>The bit of the hash that tells the halves of a split apart.\<close>

definition eh_upper :: "xenv \<Rightarrow> nat \<Rightarrow> Key_t \<Rightarrow> bool" where
  "eh_upper X dp k \<longleftrightarrow> odd (eh_h X k div 2 ^ dp)"

text \<open>The loop of \<^verbatim>\<open>Split\<close> that copies the pairs of one half into a new block.\<close>

definition eh_fill :: "xenv \<Rightarrow> bool \<Rightarrow> Block \<Rightarrow> Block" where
  "eh_fill X up b =
     (let new = new_Block X (b_local_depth b + 1)
      in new\<lparr>b_cells := fold (\<lambda>p. if eh_upper X (b_local_depth b) (p_key p) = up
                                  then eh_Insert4split (p_key p) (p_value p) else (\<lambda>c. c)) (b_cells b) (b_cells new)\<rparr>)"

text \<open>\<^verbatim>\<open>Block::Split\<close>; \<open>None\<close> is the null pointer. The result is the table with the addresses of the
  two halves.\<close>

definition eh_Split :: "xenv \<Rightarrow> nat \<Rightarrow> ExtendibleHash \<Rightarrow> (ExtendibleHash \<times> nat \<times> nat) option" where
  "eh_Split X target t =
     (let b = eh_blocks t ! target
      in case CAS (b_sema b) 0 (- 1) of
           (False, _, _) \<Rightarrow> None
         | (True, sm, _) \<Rightarrow>
             let b1 = b\<lparr>b_sema := sm\<rparr>; t1 = put_block target b1 t; n = length (eh_blocks t)
             in if x_INPLACE X then
                  Some (new_blocks [eh_fill X True b1] (put_block target (b1\<lparr>b_local_depth := b_local_depth b1 + 1\<rparr>) t1), target, n)
                else Some (new_blocks [eh_fill X False b1, eh_fill X True b1] t1, n, n + 1))"

definition eh_numElem :: "Block \<Rightarrow> nat" where
  "eh_numElem b = length (filter (\<lambda>p. p_key p \<noteq> INVALID) (b_cells b))"

section \<open>Directory\<close>

definition eh_Acquire :: "ExtendibleHash \<Rightarrow> bool \<times> ExtendibleHash" where
  "eh_Acquire t = (case CAS (eh_lock t) False True of (ok, l, _) \<Rightarrow> (ok, t\<lparr>eh_lock := l\<rparr>))"

definition eh_Release :: "ExtendibleHash \<Rightarrow> bool \<times> ExtendibleHash" where
  "eh_Release t = (case CAS (eh_lock t) True False of (ok, l, _) \<Rightarrow> (ok, t\<lparr>eh_lock := l\<rparr>))"

text \<open>\<^verbatim>\<open>Directory::LSBUpdate\<close>. \<open>None\<close>: a division by a zero \<^verbatim>\<open>dir_cap\<close>, which is where a local depth
  above the global one leads.\<close>

function LSBUpdate :: "nat \<Rightarrow> nat \<Rightarrow> nat \<Rightarrow> nat \<Rightarrow> nat \<times> nat \<Rightarrow> nat list \<Rightarrow> nat list option" where
  "LSBUpdate local_depth global_depth dir_cap x s d =
     (if dir_cap = 0 \<or> global_depth < local_depth then None
      else if global_depth - local_depth = 0 then
        (if x mod dir_cap \<ge> dir_cap div 2
         then Some (d[x - dir_cap div 2 := fst s, x := snd s])
         else Some (d[x := fst s, x + dir_cap div 2 := snd s]))
      else if x mod dir_cap \<ge> dir_cap div 2 then
        Option.bind (LSBUpdate (local_depth + 1) global_depth (dir_cap div 2) (x - dir_cap div 2) s d)
          (LSBUpdate (local_depth + 1) global_depth (dir_cap div 2) x s)
      else
        Option.bind (LSBUpdate (local_depth + 1) global_depth (dir_cap div 2) x s d)
          (LSBUpdate (local_depth + 1) global_depth (dir_cap div 2) (x + dir_cap div 2) s))"
  by pat_completeness auto
termination
  by (relation "measure (\<lambda>(ld, gd, cap, x, s, d). gd - ld)") auto

declare LSBUpdate.simps [simp del]

text \<open>\<^verbatim>\<open>SanityCheck\<close> ends the process when the address is in the directory: \<open>False\<close>.\<close>

definition eh_SanityCheck :: "ExtendibleHash \<Rightarrow> nat \<Rightarrow> bool" where
  "eh_SanityCheck t addr \<longleftrightarrow> addr \<notin> set (take (eh_capacity t) (eh_dir t))"

section \<open>The table\<close>

definition eh_new :: "xenv \<Rightarrow> nat \<Rightarrow> ExtendibleHash" where
  "eh_new X initCap =
     (let dp = msb_pos initCap
      in \<lparr>eh_global_depth = dp, eh_dir = [0..<initCap], eh_capacity = initCap, eh_lock = False,
          eh_blocks = map (\<lambda>i. (new_Block X dp)\<lparr>b_pattern := i\<rparr>) [0..<initCap]\<rparr>)"

definition eh_new_default :: "xenv \<Rightarrow> ExtendibleHash" where
  "eh_new_default X =
     \<lparr>eh_global_depth = 0, eh_dir = [0], eh_capacity = 1, eh_lock = False, eh_blocks = [(new_Block X 0)\<lparr>b_pattern := 0\<rparr>]\<rparr>"

text \<open>The patterns of the two halves. The shift \<^verbatim>\<open>1 << (local_depth-1)\<close> is one of \<^verbatim>\<open>int\<close>: from 31 on
  it does not give the power of two, and nothing is said about the program then.\<close>

definition eh_set_patterns :: "nat \<Rightarrow> nat \<Rightarrow> nat \<Rightarrow> ExtendibleHash \<Rightarrow> ExtendibleHash option" where
  "eh_set_patterns key_hash s0 s1 t =
     (let n = b_local_depth (eh_blocks t ! s0) - 1;
          t1 = put_block s0 ((eh_blocks t ! s0)\<lparr>b_pattern := key_hash mod 2 ^ n\<rparr>) t
      in if n < 31 then Some (put_block s1 ((eh_blocks t1 ! s1)\<lparr>b_pattern := b_pattern (eh_blocks t1 ! s0) + 2 ^ n\<rparr>) t1)
         else None)"

definition eh_double_dir :: "nat \<Rightarrow> nat \<Rightarrow> nat \<Rightarrow> ExtendibleHash \<Rightarrow> ExtendibleHash" where
  "eh_double_dir x s0 s1 t =
     (let d = eh_dir t @ eh_dir t; d = d[x := s0]; d = d[x + eh_capacity t := s1]
      in t\<lparr>eh_dir := d, eh_capacity := eh_capacity t * 2, eh_global_depth := eh_global_depth t + 1\<rparr>)"

text \<open>The critical section: the directory update or the doubling. The arguments of \<^verbatim>\<open>LSBUpdate\<close> are
  \<^verbatim>\<open>int\<close>, so a capacity from \<open>2 ^ 31\<close> on does not reach it unchanged.\<close>

definition eh_update_dir :: "xenv \<Rightarrow> nat \<Rightarrow> nat \<Rightarrow> nat \<Rightarrow> ExtendibleHash \<Rightarrow> ExtendibleHash option" where
  "eh_update_dir X key_hash s0 s1 t =
     (let x = key_hash mod eh_capacity t;
          ld = b_local_depth (eh_blocks t ! (eh_dir t ! x))
      in if (if x_INPLACE X then ld - 1 else ld) < eh_global_depth t then
           (if eh_capacity t \<ge> 2 ^ 31 then None
            else map_option (\<lambda>d. t\<lparr>eh_dir := d\<rparr>)
                   (LSBUpdate (b_local_depth (eh_blocks t ! s0)) (eh_global_depth t) (eh_capacity t) x (s0, s1) (eh_dir t)))
         else Some (eh_double_dir x s0 s1 t))"

text \<open>What follows a full block: the split, and the directory under its lock.\<close>

definition eh_grow :: "xenv \<Rightarrow> nat \<Rightarrow> nat \<Rightarrow> ExtendibleHash \<Rightarrow> ExtendibleHash outcome" where
  "eh_grow X key_hash target t =
     (case eh_Split X target t of
        None \<Rightarrow> Retry t
      | Some (t1, s0, s1) \<Rightarrow>
          (case eh_set_patterns key_hash s0 s1 t1 of
             None \<Rightarrow> Fault
           | Some t2 \<Rightarrow>
               (case eh_Acquire t2 of
                  (False, _) \<Rightarrow> Spin
                | (True, t3) \<Rightarrow>
                    (case eh_update_dir X key_hash s0 s1 t3 of
                       None \<Rightarrow> Fault
                     | Some t4 \<Rightarrow>
                         let t5 = (if x_INPLACE X then put_block s0 ((eh_blocks t4 ! s0)\<lparr>b_sema := 0\<rparr>) t4 else t4)
                         in case eh_Release t5 of (False, _) \<Rightarrow> Spin | (True, t6) \<Rightarrow> Retry t6))))"

text \<open>One pass of \<^verbatim>\<open>Insert\<close> from \<^verbatim>\<open>RETRY\<close>; the recursive call on \<open>- 2\<close> starts over, too.\<close>

definition eh_insert_pass :: "xenv \<Rightarrow> Key_t \<Rightarrow> Value_t \<Rightarrow> ExtendibleHash \<Rightarrow> ExtendibleHash outcome" where
  "eh_insert_pass X k v t =
     (if eh_capacity t = 0 then Fault
      else let key_hash = eh_h X k; x = key_hash mod eh_capacity t; target = eh_dir t ! x;
               (ret, b) = eh_block_insert X (eh_blocks t ! target) k v key_hash;
               t1 = put_block target b t
           in if ret = - 1 then eh_grow X key_hash target t1
              else if ret = - 2 then Retry t1
              else Return t1)"

definition eh_Insert :: "xenv \<Rightarrow> nat \<Rightarrow> Key_t \<Rightarrow> Value_t \<Rightarrow> ExtendibleHash \<Rightarrow> ExtendibleHash outcome" where
  "eh_Insert X fuel k v t = run_until (eh_insert_pass X k v) fuel t"

definition eh_InsertOnly :: "xenv \<Rightarrow> Key_t \<Rightarrow> Value_t \<Rightarrow> ExtendibleHash \<Rightarrow> (bool \<times> ExtendibleHash) option" where
  "eh_InsertOnly X k v t =
     (if eh_capacity t = 0 then None
      else let key_hash = eh_h X k; target = eh_dir t ! (key_hash mod eh_capacity t);
               (ret, b) = eh_block_insert X (eh_blocks t ! target) k v key_hash
           in Some (ret > - 1, put_block target b t))"

definition eh_Delete :: "Key_t \<Rightarrow> ExtendibleHash \<Rightarrow> bool \<times> ExtendibleHash" where
  "eh_Delete k t = (False, t)"

text \<open>\<^verbatim>\<open>Get\<close>: in the in-place build the semaphore is raised and lowered again, so it is the same
  afterwards.\<close>

definition eh_Get :: "xenv \<Rightarrow> Key_t \<Rightarrow> ExtendibleHash \<Rightarrow> Value_t option" where
  "eh_Get X k t =
     (if eh_capacity t = 0 then None
      else let b = eh_blocks t ! (eh_dir t ! (eh_h X k mod eh_capacity t))
           in Some (case find (\<lambda>i. p_key (b_cells b ! i) = k) [0..<eh_kNumSlot] of
                      Some i \<Rightarrow> p_value (b_cells b ! i)
                    | None \<Rightarrow> NONE))"

definition eh_FindAnyway :: "Key_t \<Rightarrow> ExtendibleHash \<Rightarrow> Value_t" where
  "eh_FindAnyway k t =
     (case find (\<lambda>p. p_key p = k) (concat (map (\<lambda>a. b_cells (eh_blocks t ! a)) (take (eh_capacity t) (eh_dir t)))) of
        Some p \<Rightarrow> p_value p
      | None \<Rightarrow> NONE)"

text \<open>The blocks in use, each once; the quotient of \<^verbatim>\<open>Utilization\<close> as its two counts.\<close>

definition eh_live :: "ExtendibleHash \<Rightarrow> nat list" where
  "eh_live t = remdups (take (eh_capacity t) (eh_dir t))"

definition eh_Utilization :: "ExtendibleHash \<Rightarrow> nat \<times> nat" where
  "eh_Utilization t =
     (sum_list (map (\<lambda>a. eh_numElem (eh_blocks t ! a)) (eh_live t)), length (eh_live t) * eh_kNumSlot)"

definition eh_Capacity :: "ExtendibleHash \<Rightarrow> nat" where
  "eh_Capacity t = length (eh_live t) * eh_kNumSlot"

section \<open>The directory update\<close>

lemma upper_half_iff: "0 < c \<Longrightarrow> x mod (2 * c) \<ge> c \<longleftrightarrow> odd (x div c)" for c x :: nat
proof -
  assume c: "0 < c"
  have "x mod (2 * c) = c * (x div c mod 2) + x mod c" by (metis mod_mult2_eq mult.commute)
  then show ?thesis using mod_less_divisor [OF c, of x] by (cases "even (x div c)") (auto simp: not_le odd_iff_mod_2_eq_one)
qed

lemma div_double: "x div (2 * c) = x div c div 2" for c x :: nat
  by (metis div_mult2_eq mult.commute)

lemma lower_twin:
  fixes c c' x :: nat
  assumes "0 < c" and "odd (x div c)"
  shows "c \<le> x" and "(x - c) div c = x div c - 1" and "c' dvd c \<Longrightarrow> (x - c) mod c' = x mod c'"
proof -
  show c: "c \<le> x" using assms by (metis div_less even_zero not_less)
  then have x: "x = (x - c) + c" by simp
  show "(x - c) div c = x div c - 1" using assms(1) div_add_self2 [of c "x - c"] x by simp
  assume "c' dvd c"
  then obtain m where "c = c' * m" by blast
  then show "(x - c) mod c' = x mod c'" using x by (metis mod_mult_self2)
qed

lemma upper_twin:
  fixes c c' x :: nat
  assumes "0 < c"
  shows "(x + c) div c = x div c + 1" and "c' dvd c \<Longrightarrow> (x + c) mod c' = x mod c'"
  using assms div_add_self2 [of c x] by (auto elim: dvdE)

lemma twins: "odd b \<Longrightarrow> a div 2 = b div 2 \<longleftrightarrow> a = b \<or> a = b - 1" "even b \<Longrightarrow> a div 2 = b div 2 \<longleftrightarrow> a = b \<or> a = b + 1" for a b :: nat
  by (auto elim!: oddE evenE)

text \<open>An entry is determined by its residue and its quotient.\<close>

lemma same_entry: "0 < c \<Longrightarrow> y = x \<longleftrightarrow> y mod c = x mod c \<and> y div c = x div c" for c x y :: nat
  by (metis div_mult_mod_eq)

text \<open>What a call of \<^verbatim>\<open>LSBUpdate\<close> at recursion depth \<open>n\<close> from the bottom writes.\<close>

definition lsb_written :: "nat \<Rightarrow> nat \<Rightarrow> nat \<Rightarrow> nat \<times> nat \<Rightarrow> nat list \<Rightarrow> nat \<Rightarrow> nat" where
  "lsb_written e n x s d y =
     (if y mod 2 ^ e = x mod 2 ^ e \<and> y div 2 ^ (e + 1 + n) = x div 2 ^ (e + 1 + n)
      then (if odd (y div 2 ^ e) then snd s else fst s) else d ! y)"

lemma LSBUpdate_leaf:
  "\<exists>d'. LSBUpdate ld ld (2 ^ (e + 1)) x s d = Some d' \<and> length d' = length d \<and> (\<forall>y < length d. d' ! y = lsb_written e 0 x s d y)"
proof -
  define c :: nat where "c = 2 ^ e"
  have c: "0 < c" "2 ^ (e + 1) = 2 * c" "2 ^ (e + 1 + 0) = 2 * c" by (simp_all add: c_def)
  let ?b = "x div c"
  show ?thesis
  proof (cases "odd ?b")
    case True
    note lt = lower_twin [OF c(1) True]
    have "LSBUpdate ld ld (2 * c) x s d = Some (d[x - c := fst s, x := snd s])"
      using True c by (subst LSBUpdate.simps) (simp add: upper_half_iff)
    moreover have "d[x - c := fst s, x := snd s] ! y = lsb_written e 0 x s d y" if "y < length d" for y
    proof -
      have e: "y = x \<longleftrightarrow> y mod c = x mod c \<and> y div c = ?b" "y = x - c \<longleftrightarrow> y mod c = x mod c \<and> y div c = ?b - 1"
        using same_entry [OF c(1), of y x] same_entry [OF c(1), of y "x - c"] lt by simp_all
      have "even (?b - 1)" "?b - 1 \<noteq> ?b" using True by (cases "x div c"; simp)+
      then show ?thesis
        unfolding lsb_written_def c(3) c_def [symmetric] div_double twins(1) [OF True] using that True e
        by (auto simp: nth_list_update)
    qed
    ultimately show ?thesis unfolding c(2) by simp
  next
    case False
    note ut = upper_twin [OF c(1), of x]
    have "LSBUpdate ld ld (2 * c) x s d = Some (d[x := fst s, x + c := snd s])"
      using False c by (subst LSBUpdate.simps) (simp add: upper_half_iff)
    moreover have "d[x := fst s, x + c := snd s] ! y = lsb_written e 0 x s d y" if "y < length d" for y
    proof -
      have e: "y = x \<longleftrightarrow> y mod c = x mod c \<and> y div c = ?b" "y = x + c \<longleftrightarrow> y mod c = x mod c \<and> y div c = ?b + 1"
        using same_entry [OF c(1), of y x] same_entry [OF c(1), of y "x + c"] ut by simp_all
      have "even ?b" using False by simp
      then show ?thesis
        unfolding lsb_written_def c(3) c_def [symmetric] div_double twins(2) [OF \<open>even ?b\<close>] using that e
        by (auto simp: nth_list_update)
    qed
    ultimately show ?thesis unfolding c(2) by simp
  qed
qed

lemma lsb_written_twice:
  assumes "\<forall>y < length d. d' ! y = lsb_written e n x0 s d y" and "y < length d"
    and "x0 mod 2 ^ e = x mod 2 ^ e" and "x1 mod 2 ^ e = x mod 2 ^ e"
    and "\<And>a. a div 2 = x div 2 ^ (e + 1 + n) div 2 \<longleftrightarrow> a = x0 div 2 ^ (e + 1 + n) \<or> a = x1 div 2 ^ (e + 1 + n)"
  shows "lsb_written e n x1 s d' y = lsb_written e (Suc n) x s d y"
proof -
  have p: "(2::nat) ^ (e + 1 + Suc n) = 2 * 2 ^ (e + 1 + n)" by simp
  show ?thesis using assms(1-4) unfolding lsb_written_def [of e "Suc n"] p div_double assms(5) by (auto simp: lsb_written_def)
qed

lemma LSBUpdate_written:
  "gd = ld + n \<Longrightarrow> \<exists>d'. LSBUpdate ld gd (2 ^ (e + 1 + n)) x s d = Some d' \<and> length d' = length d \<and>
     (\<forall>y < length d. d' ! y = lsb_written e n x s d y)"
proof (induction n arbitrary: ld x d)
  case 0
  then show ?case using LSBUpdate_leaf [of ld e x s d] by simp
next
  case (Suc n)
  define H :: nat where "H = 2 ^ (e + 1 + n)"
  have H: "0 < H" "2 ^ (e + 1 + Suc n) = 2 * H" "2 ^ e dvd H" by (simp_all add: H_def power_add)
  have gd: "gd = ld + 1 + n" using Suc.prems by simp
  define x0 x1 where "x0 = (if odd (x div H) then x - H else x)" and "x1 = (if odd (x div H) then x else x + H)"
  note t = lower_twin [OF H(1), of x] upper_twin [OF H(1), of x]
  obtain d1 where d1: "LSBUpdate (ld + 1) gd H x0 s d = Some d1" "length d1 = length d" "\<forall>y < length d. d1 ! y = lsb_written e n x0 s d y"
    using Suc.IH [OF gd, of x0 d] unfolding H_def by blast
  obtain d2 where d2: "LSBUpdate (ld + 1) gd H x1 s d1 = Some d2" "length d2 = length d1" "\<forall>y < length d. d2 ! y = lsb_written e n x1 s d1 y"
    using Suc.IH [OF gd, of x1 d1] unfolding H_def d1(2) by blast
  have "LSBUpdate ld gd (2 * H) x s d = Some d2"
    using d1(1) d2(1) H(1) gd by (subst LSBUpdate.simps) (auto simp: upper_half_iff x0_def x1_def)
  moreover have "lsb_written e n x1 s d1 y = lsb_written e (Suc n) x s d y" if "y < length d" for y
  proof (rule lsb_written_twice [OF d1(3) that])
    show "x0 mod 2 ^ e = x mod 2 ^ e" "x1 mod 2 ^ e = x mod 2 ^ e" using t H(3) by (auto simp: x0_def x1_def)
    show "a div 2 = x div 2 ^ (e + 1 + n) div 2 \<longleftrightarrow> a = x0 div 2 ^ (e + 1 + n) \<or> a = x1 div 2 ^ (e + 1 + n)" for a
      unfolding H_def [symmetric] using t twins [of "x div H" a] by (auto simp: x0_def x1_def)
  qed
  ultimately show ?case using d1(2) d2(2,3) unfolding H(2) by auto
qed

text \<open>On a directory of \<open>2 ^ gd\<close> entries the recursive update after a split to depth \<open>ld\<close> redirects
  exactly the entries that agree with \<open>x\<close> in the low \<open>ld - 1\<close> bits, to the first or the second
  half according to the next bit, and no others.\<close>

theorem LSBUpdate_correct:
  assumes "1 \<le> ld" and "ld \<le> gd" and "length d = 2 ^ gd" and "x < 2 ^ gd"
  shows "\<exists>d'. LSBUpdate ld gd (2 ^ gd) x (s0, s1) d = Some d' \<and> length d' = length d \<and>
    (\<forall>y < 2 ^ gd. d' ! y = (if y mod 2 ^ (ld - 1) = x mod 2 ^ (ld - 1) then (if odd (y div 2 ^ (ld - 1)) then s1 else s0) else d ! y))"
proof -
  have "gd = ld + (gd - ld)" "(ld - 1) + 1 + (gd - ld) = gd" using assms(1,2) by simp_all
  then show ?thesis using LSBUpdate_written [of gd ld "gd - ld" "ld - 1" x "(s0, s1)" d] assms(3,4) by (auto simp: lsb_written_def)
qed

section \<open>Copying the halves of a block\<close>

lemma Insert4split_at:
  "used c < length c \<Longrightarrow> \<exists>i < length c. p_key (c ! i) = INVALID \<and> eh_Insert4split k v c = c[i := Pair_make k v]"
proof (induction c)
  case (Cons p c)
  show ?case
  proof (cases "p_key p = INVALID")
    case False
    then obtain i where "i < length c" "p_key (c ! i) = INVALID" "eh_Insert4split k v c = c[i := Pair_make k v]"
      using Cons by (auto simp: used_def)
    then show ?thesis using False by (intro exI [of _ "Suc i"]) simp
  qed (intro exI [of _ 0], simp)
qed simp

lemma replace_hole:
  assumes "i < length c" and "p_key (c ! i) = INVALID"
  shows "cell_map (c[i := Pair_make INVALID v]) = cell_map c" and "one_cell c \<Longrightarrow> one_cell (c[i := Pair_make INVALID v])"
    and "used (c[i := Pair_make INVALID v]) = used c"
proof -
  have "cell_map (c[i := q]) = cell_map c" if "p_key q = INVALID" for q
    using assms that by (induction c arbitrary: i) (auto simp: cell_map_Cons nth_Cons' split: nat.splits)
  then show "cell_map (c[i := Pair_make INVALID v]) = cell_map c" by simp
  show "used (c[i := Pair_make INVALID v]) = used c" using used_update [OF assms(1), of "Pair_make INVALID v"] assms(2) by simp
  have k: "p_key (c[i := Pair_make INVALID v] ! j) = p_key (c ! j)" if "j < length c" for j
    using that assms by (cases "j = i") simp_all
  show "one_cell c \<Longrightarrow> one_cell (c[i := Pair_make INVALID v])" unfolding one_cell_def by (auto simp: k)
qed

lemma Insert4split_ok:
  assumes "used c < length c" and "one_cell c" and "k \<noteq> INVALID \<Longrightarrow> cell_map c k = None"
  shows "length (eh_Insert4split k v c) = length c" and "one_cell (eh_Insert4split k v c)"
    and "cell_map (eh_Insert4split k v c) = (if k = INVALID then cell_map c else (cell_map c)(k \<mapsto> v))"
    and "used (eh_Insert4split k v c) \<le> used c + 1"
proof -
  obtain i where i: "i < length c" "p_key (c ! i) = INVALID" "eh_Insert4split k v c = c[i := Pair_make k v]"
    using Insert4split_at [OF assms(1)] by blast
  show "length (eh_Insert4split k v c) = length c" using i(3) by simp
  note h = replace_hole [OF i(1,2), of v] and p = place_one_cell [OF assms(2) i(1,2), of k v]
    place_cell_map [OF assms(2) i(1,2), of k v] place_used [OF i(1,2), of k v]
  show "one_cell (eh_Insert4split k v c)" using h p assms(2,3) unfolding i(3) by (cases "k = INVALID") auto
  show "cell_map (eh_Insert4split k v c) = (if k = INVALID then cell_map c else (cell_map c)(k \<mapsto> v))"
    using h p assms(3) unfolding i(3) by (cases "k = INVALID") simp_all
  show "used (eh_Insert4split k v c) \<le> used c + 1" using h p unfolding i(3) by (cases "k = INVALID") simp_all
qed

lemma cell_map_filter: "cell_map (filter (\<lambda>p. P (p_key p)) ps) k = (if P k then cell_map ps k else None)"
  by (induction ps) (auto simp: cell_map_Cons)

lemma fresh_for_filter: "fresh_for m (p # ps) \<Longrightarrow> fresh_for m (p # filter Q ps)"
  unfolding fresh_for_def by (induction ps) (auto split: if_splits)

definition eh_copy_half :: "(Key_t \<Rightarrow> bool) \<Rightarrow> Pair \<Rightarrow> Pair list \<Rightarrow> Pair list" where
  "eh_copy_half P p = (if P (p_key p) then eh_Insert4split (p_key p) (p_value p) else (\<lambda>c. c))"

lemma copy_half_fold:
  assumes "used c + length ps \<le> length c" and "one_cell c" and "fresh_for (cell_map c) ps"
  shows "length (fold (eh_copy_half P) ps c) = length c \<and> one_cell (fold (eh_copy_half P) ps c) \<and>
    cell_map (fold (eh_copy_half P) ps c) = cell_map c ++ cell_map (filter (\<lambda>p. P (p_key p)) ps)"
  using assms
proof (induction ps arbitrary: c)
  case (Cons p ps)
  show ?case
  proof (cases "P (p_key p)")
    case False
    have "fresh_for (cell_map c) ps"
      using Cons.prems(3) fresh_for_Cons(3) fresh_for_skip by (cases "p_key p = INVALID") blast+
    then show ?thesis using Cons.IH [of c] Cons.prems(1,2) False by (simp add: eh_copy_half_def)
  next
    case True
    let ?c = "eh_Insert4split (p_key p) (p_value p) c"
    have i: "length ?c = length c" "one_cell ?c" "used ?c \<le> used c + 1"
      "cell_map ?c = (if p_key p = INVALID then cell_map c else (cell_map c)(p_key p \<mapsto> p_value p))"
      using Insert4split_ok [of c "p_key p" "p_value p"] Cons.prems(1,2) fresh_for_Cons(1) [OF Cons.prems(3)] by simp_all
    have "fresh_for (cell_map ?c) ps"
      using fresh_for_skip [OF Cons.prems(3)] fresh_for_Cons(2) [OF Cons.prems(3), of "p_value p"] unfolding i(4)
      by (cases "p_key p = INVALID") simp_all
    moreover have "cell_map ?c ++ cell_map (filter (\<lambda>p. P (p_key p)) ps) = cell_map c ++ cell_map (filter (\<lambda>p. P (p_key p)) (p # ps))"
    proof (cases "p_key p = INVALID")
      case False
      have "fresh_for (cell_map c) (p # filter (\<lambda>p. P (p_key p)) ps)" by (rule fresh_for_filter [OF Cons.prems(3)])
      from fresh_for_Cons(4) [OF this False] show ?thesis using False True unfolding i(4) by simp
    next
      case inv: True
      then show ?thesis using True unfolding i(4) by (simp add: cell_map_Cons)
    qed
    ultimately show ?thesis using Cons.IH [of ?c] i Cons.prems(1) True by (simp add: eh_copy_half_def)
  qed
qed simp

definition blk_ok :: "xenv \<Rightarrow> Block \<Rightarrow> bool" where
  "blk_ok X b \<longleftrightarrow> length (b_cells b) = eh_kNumSlot \<and> one_cell (b_cells b) \<and> b_sema b = 0 \<and>
     (\<not> x_INPLACE X \<longrightarrow> (\<forall>k v. cell_map (b_cells b) k = Some v \<longrightarrow> eh_h X k mod 2 ^ b_local_depth b = b_pattern b))"

lemma eh_fill_ok:
  assumes "length (b_cells b) = eh_kNumSlot" and "one_cell (b_cells b)"
  shows "length (b_cells (eh_fill X up b)) = eh_kNumSlot" and "one_cell (b_cells (eh_fill X up b))"
    and "cell_map (b_cells (eh_fill X up b)) k = (if eh_upper X (b_local_depth b) k = up then cell_map (b_cells b) k else None)"
    and "b_local_depth (eh_fill X up b) = b_local_depth b + 1" and "b_sema (eh_fill X up b) = 0" and "b_pattern (eh_fill X up b) = 0"
proof -
  let ?new = "new_Pairs (tenv.truncate X) eh_kNumSlot" and ?P = "\<lambda>k. eh_upper X (b_local_depth b) k = up"
  have new: "\<forall>p \<in> set ?new. p_key p = INVALID" by (rule new_Pairs_INVALID)
  have "b_cells (eh_fill X up b) = fold (eh_copy_half ?P) (b_cells b) ?new"
    by (simp add: eh_fill_def Let_def new_Block_def eh_copy_half_def [abs_def])
  moreover have "length (fold (eh_copy_half ?P) (b_cells b) ?new) = length ?new \<and> one_cell (fold (eh_copy_half ?P) (b_cells b) ?new) \<and>
      cell_map (fold (eh_copy_half ?P) (b_cells b) ?new) = cell_map ?new ++ cell_map (filter (\<lambda>p. ?P (p_key p)) (b_cells b))"
    using assms used_fresh [OF new] one_cell_fresh [OF new] cell_map_fresh [OF new] fresh_for_one_cell [OF assms(2)]
    by (intro copy_half_fold) simp_all
  ultimately show "length (b_cells (eh_fill X up b)) = eh_kNumSlot" "one_cell (b_cells (eh_fill X up b))"
    "cell_map (b_cells (eh_fill X up b)) k = (if eh_upper X (b_local_depth b) k = up then cell_map (b_cells b) k else None)"
    using cell_map_fresh [OF new] cell_map_filter [of ?P "b_cells b" k] by simp_all
qed (simp_all add: eh_fill_def Let_def new_Block_def)

section \<open>The invariant\<close>

text \<open>Every entry points to a block that covers its low bits, and all entries that agree in these
  bits point to the same block.\<close>

definition entry_ok :: "xenv \<Rightarrow> ExtendibleHash \<Rightarrow> nat \<Rightarrow> bool" where
  "entry_ok X t y \<longleftrightarrow>
     (let a = eh_dir t ! y; b = eh_blocks t ! a; n = b_local_depth b
      in a < length (eh_blocks t) \<and> blk_ok X b \<and> n \<le> eh_global_depth t \<and> b_pattern b = y mod 2 ^ n \<and>
         (\<forall>z < eh_capacity t. z mod 2 ^ n = y mod 2 ^ n \<longrightarrow> eh_dir t ! z = a))"

definition eh_ok :: "xenv \<Rightarrow> ExtendibleHash \<Rightarrow> bool" where
  "eh_ok X t \<longleftrightarrow> eh_capacity t = 2 ^ eh_global_depth t \<and> length (eh_dir t) = eh_capacity t \<and> \<not> eh_lock t \<and>
     (\<forall>y < eh_capacity t. entry_ok X t y)"

definition home :: "xenv \<Rightarrow> ExtendibleHash \<Rightarrow> Key_t \<Rightarrow> nat" where
  "home X t k = eh_dir t ! (eh_h X k mod eh_capacity t)"

definition eh_map :: "xenv \<Rightarrow> ExtendibleHash \<Rightarrow> Key_t \<Rightarrow> Value_t option" where
  "eh_map X t k = cell_map (b_cells (eh_blocks t ! home X t k)) k"

lemma eh_okD:
  assumes "eh_ok X t" and "y < eh_capacity t"
  shows "eh_dir t ! y < length (eh_blocks t)" and "blk_ok X (eh_blocks t ! (eh_dir t ! y))"
    and "b_local_depth (eh_blocks t ! (eh_dir t ! y)) \<le> eh_global_depth t"
    and "b_pattern (eh_blocks t ! (eh_dir t ! y)) = y mod 2 ^ b_local_depth (eh_blocks t ! (eh_dir t ! y))"
    and "z < eh_capacity t \<Longrightarrow> z mod 2 ^ b_local_depth (eh_blocks t ! (eh_dir t ! y)) = y mod 2 ^ b_local_depth (eh_blocks t ! (eh_dir t ! y)) \<Longrightarrow>
      eh_dir t ! z = eh_dir t ! y"
proof -
  have "entry_ok X t y" using assms by (simp add: eh_ok_def)
  note e = this [unfolded entry_ok_def Let_def]
  show "eh_dir t ! y < length (eh_blocks t)" "blk_ok X (eh_blocks t ! (eh_dir t ! y))"
    "b_local_depth (eh_blocks t ! (eh_dir t ! y)) \<le> eh_global_depth t"
    "b_pattern (eh_blocks t ! (eh_dir t ! y)) = y mod 2 ^ b_local_depth (eh_blocks t ! (eh_dir t ! y))" using e by blast+
  show "eh_dir t ! z = eh_dir t ! y" if "z < eh_capacity t"
    "z mod 2 ^ b_local_depth (eh_blocks t ! (eh_dir t ! y)) = y mod 2 ^ b_local_depth (eh_blocks t ! (eh_dir t ! y))"
    using e that by blast
qed

lemma eh_ok_home:
  assumes "eh_ok X t"
  shows "eh_h X k mod eh_capacity t < eh_capacity t" and "home X t k < length (eh_blocks t)" and "blk_ok X (eh_blocks t ! home X t k)"
    and "b_pattern (eh_blocks t ! home X t k) = eh_h X k mod 2 ^ b_local_depth (eh_blocks t ! home X t k)"
proof -
  have c: "eh_capacity t = 2 ^ eh_global_depth t" using assms by (simp add: eh_ok_def)
  then show x: "eh_h X k mod eh_capacity t < eh_capacity t" by simp
  note e = eh_okD [OF assms x]
  show "home X t k < length (eh_blocks t)" "blk_ok X (eh_blocks t ! home X t k)" using e by (simp_all add: home_def)
  show "b_pattern (eh_blocks t ! home X t k) = eh_h X k mod 2 ^ b_local_depth (eh_blocks t ! home X t k)"
    using e(3,4) by (simp add: home_def c mod_mod_cancel le_imp_power_dvd)
qed

text \<open>The home of a key is the block with the pattern of its hash.\<close>

lemma home_iff:
  assumes "eh_ok X t" and "y < eh_capacity t" and "n = b_local_depth (eh_blocks t ! (eh_dir t ! y))"
  shows "home X t k = eh_dir t ! y \<longleftrightarrow> eh_h X k mod 2 ^ n = b_pattern (eh_blocks t ! (eh_dir t ! y))"
proof
  assume "home X t k = eh_dir t ! y"
  then show "eh_h X k mod 2 ^ n = b_pattern (eh_blocks t ! (eh_dir t ! y))" using eh_ok_home(4) [OF assms(1), of k] assms(3) by simp
next
  assume h: "eh_h X k mod 2 ^ n = b_pattern (eh_blocks t ! (eh_dir t ! y))"
  have c: "eh_capacity t = 2 ^ eh_global_depth t" using assms(1) by (simp add: eh_ok_def)
  note e = eh_okD [OF assms(1,2)]
  have "eh_h X k mod eh_capacity t mod 2 ^ n = y mod 2 ^ n"
    using h e(3,4) by (simp add: c assms(3) mod_mod_cancel le_imp_power_dvd)
  then show "home X t k = eh_dir t ! y"
    using e(5) [OF eh_ok_home(1) [OF assms(1), of k]] by (simp add: home_def assms(3))
qed

text \<open>Within a block every slot is a candidate.\<close>

interpretation eh: slot_table eh_kNumSlot "\<lambda>k. [0..<eh_kNumSlot]"
  by unfold_locales simp

lemma eh_Get_map:
  assumes "eh_ok X t" and "k \<noteq> INVALID"
  shows "eh_Get X k t = Some (case eh_map X t k of None \<Rightarrow> NONE | Some v \<Rightarrow> v)"
proof -
  let ?c = "b_cells (eh_blocks t ! home X t k)"
  have b: "length ?c = eh_kNumSlot" "one_cell ?c" using eh_ok_home(3) [OF assms(1)] by (auto simp: blk_ok_def)
  then have "slots_ok eh_kNumSlot (\<lambda>k. [0..<eh_kNumSlot]) ?c" by (simp add: slots_ok_def)
  then have m: "cell_map ?c k = map_option (\<lambda>i. p_value (?c ! i)) (find (\<lambda>i. p_key (?c ! i) = k) [0..<eh_kNumSlot])"
    using eh.search_map assms(2) by (simp add: eh_kNumSlot_def)
  have "eh_capacity t \<noteq> 0" using assms(1) by (simp add: eh_ok_def)
  then show ?thesis
    unfolding eh_map_def m
    by (cases "find (\<lambda>i. p_key (?c ! i) = k) [0..<eh_kNumSlot]") (simp_all add: eh_Get_def home_def Let_def)
qed

section \<open>Splitting a block\<close>

lemma mod_power_low: "m \<le> n \<Longrightarrow> (y mod 2 ^ n) mod 2 ^ m = y mod 2 ^ m" for y :: nat
  by (simp add: mod_mod_cancel le_imp_power_dvd)

lemma odd_div_low: "m < n \<Longrightarrow> odd (y mod 2 ^ n div 2 ^ m) = odd (y div 2 ^ m)" for y :: nat
  using bit_take_bit_iff [of n y m] by (simp add: bit_iff_odd take_bit_eq_mod)

lemma mod_power_Suc: "y mod 2 ^ Suc n = (if odd (y div 2 ^ n) then 2 ^ n else 0) + y mod 2 ^ n" for y :: nat
proof -
  have "y mod 2 ^ Suc n = 2 ^ n * (y div 2 ^ n mod 2) + y mod 2 ^ n" by (metis mod_mult2_eq power_Suc2)
  then show ?thesis by (simp add: odd_iff_mod_2_eq_one)
qed

text \<open>The tables before and after a split: \<open>a\<close> is the block at entry \<open>x\<close>, \<open>s0\<close> and \<open>s1\<close> are the
  halves, and the directory has been updated or doubled.\<close>

definition split_to :: "xenv \<Rightarrow> ExtendibleHash \<Rightarrow> nat \<Rightarrow> nat \<Rightarrow> nat \<Rightarrow> ExtendibleHash \<Rightarrow> bool" where
  "split_to X t x s0 s1 t' \<longleftrightarrow>
     (let a = eh_dir t ! x; b = eh_blocks t ! a; n = b_local_depth b; b0 = eh_blocks t' ! s0; b1 = eh_blocks t' ! s1
      in eh_global_depth t \<le> eh_global_depth t' \<and> n < eh_global_depth t' \<and>
         eh_capacity t' = 2 ^ eh_global_depth t' \<and> length (eh_dir t') = eh_capacity t' \<and> \<not> eh_lock t' \<and>
         (\<forall>y < eh_capacity t'. eh_dir t' ! y = (if y mod 2 ^ n = b_pattern b then (if odd (y div 2 ^ n) then s1 else s0)
                                              else eh_dir t ! (y mod eh_capacity t))) \<and>
         s0 < length (eh_blocks t') \<and> s1 < length (eh_blocks t') \<and> length (eh_blocks t) \<le> length (eh_blocks t') \<and>
         (\<forall>i < length (eh_blocks t). i \<noteq> a \<longrightarrow> eh_blocks t' ! i = eh_blocks t ! i) \<and>
         blk_ok X b0 \<and> b_local_depth b0 = Suc n \<and> b_pattern b0 = b_pattern b \<and>
         blk_ok X b1 \<and> b_local_depth b1 = Suc n \<and> b_pattern b1 = b_pattern b + 2 ^ n \<and>
         (\<forall>k. cell_map (b_cells (if eh_upper X n k then b1 else b0)) k = cell_map (b_cells b) k))"

lemma split_to_ok:
  assumes ok: "eh_ok X t" and x: "x < eh_capacity t" and sp: "split_to X t x s0 s1 t'"
  shows "eh_ok X t'" and "eh_map X t' = eh_map X t"
    and "home X t k = eh_dir t ! x \<Longrightarrow> b_local_depth (eh_blocks t' ! home X t' k) = Suc (b_local_depth (eh_blocks t ! home X t k))"
proof -
  define a b n where "a = eh_dir t ! x" and "b = eh_blocks t ! a" and "n = b_local_depth b"
  define P where "P = b_pattern b"
  let ?g = "eh_global_depth t" and ?g' = "eh_global_depth t'"
  have cap: "eh_capacity t = 2 ^ ?g" using ok by (simp add: eh_ok_def)
  note e = eh_okD [OF ok x, folded a_def, folded b_def, folded n_def, folded P_def]
  note s = sp [unfolded split_to_def Let_def, folded a_def, folded b_def, folded n_def, folded P_def]
  have g: "?g \<le> ?g'" "n < ?g'" "n \<le> ?g" and cap': "eh_capacity t' = 2 ^ ?g'" using s e(3) by auto
  have dir: "eh_dir t' ! y = (if y mod 2 ^ n = P then (if odd (y div 2 ^ n) then s1 else s0) else eh_dir t ! (y mod 2 ^ ?g))"
    if "y < 2 ^ ?g'" for y using s that unfolding cap' cap by blast
  have same: "eh_dir t ! (y mod 2 ^ ?g) = a \<longleftrightarrow> y mod 2 ^ n = P" for y
  proof
    assume "eh_dir t ! (y mod 2 ^ ?g) = a"
    then show "y mod 2 ^ n = P"
      using eh_okD(4) [OF ok, of "y mod 2 ^ ?g"] cap by (simp add: b_def [symmetric] n_def [symmetric] P_def [symmetric] mod_power_low g)
  next
    assume "y mod 2 ^ n = P"
    then show "eh_dir t ! (y mod 2 ^ ?g) = a" using e(4,5) cap by (simp add: mod_power_low g)
  qed
  have other: "eh_blocks t' ! (eh_dir t ! (y mod 2 ^ ?g)) = eh_blocks t ! (eh_dir t ! (y mod 2 ^ ?g))"
    if "y mod 2 ^ n \<noteq> P" for y
    using s same [of y] that eh_okD(1) [OF ok, of "y mod 2 ^ ?g"] cap by auto
  have "entry_ok X t' y" if y: "y < 2 ^ ?g'" for y
  proof (cases "y mod 2 ^ n = P")
    case True
    let ?s = "if odd (y div 2 ^ n) then s1 else s0"
    have d: "eh_dir t' ! y = ?s" using dir [OF y] True by simp
    have n': "b_local_depth (eh_blocks t' ! ?s) = Suc n" using s by auto
    moreover have "b_pattern (eh_blocks t' ! ?s) = y mod 2 ^ Suc n" unfolding mod_power_Suc True using s by auto
    moreover have "eh_dir t' ! z = ?s" if "z < 2 ^ ?g'" "z mod 2 ^ Suc n = y mod 2 ^ Suc n" for z
    proof -
      have "z mod 2 ^ n = y mod 2 ^ n" using that(2) mod_power_low [of n "Suc n"] by (metis le_SucI order_refl)
      moreover from this have "odd (z div 2 ^ n) = odd (y div 2 ^ n)" using that(2) unfolding mod_power_Suc by (auto split: if_splits)
      ultimately show ?thesis using dir [OF that(1)] True by simp
    qed
    ultimately show ?thesis using s g unfolding entry_ok_def Let_def d cap' by auto
  next
    case False
    let ?a = "eh_dir t ! (y mod 2 ^ ?g)"
    have d: "eh_dir t' ! y = ?a" using dir [OF y] False by simp
    have yc: "y mod 2 ^ ?g < eh_capacity t" using cap by simp
    note f = eh_okD [OF ok yc]
    define l where "l = b_local_depth (eh_blocks t ! ?a)"
    have l: "l \<le> ?g" "b_pattern (eh_blocks t ! ?a) = y mod 2 ^ l" using f(3,4) by (auto simp: l_def mod_power_low)
    have "eh_dir t' ! z = ?a" if z: "z < 2 ^ ?g'" "z mod 2 ^ l = y mod 2 ^ l" for z
    proof -
      have "eh_dir t ! (z mod 2 ^ ?g) = ?a"
        using f(5) [of "z mod 2 ^ ?g"] z(2) cap l(1) by (simp add: l_def [symmetric] mod_power_low)
      moreover from this have "z mod 2 ^ n \<noteq> P" using same [of z] same [of y] False by simp
      ultimately show ?thesis using dir [OF z(1)] by simp
    qed
    then show ?thesis
      using s f(1,2) l g unfolding entry_ok_def Let_def d cap' other [OF False] l_def [symmetric] by auto
  qed
  then show "eh_ok X t'" using s cap' by (auto simp: eh_ok_def)
  have home': "home X t' k = (if eh_h X k mod 2 ^ n = P then (if eh_upper X n k then s1 else s0) else home X t k)" for k
    using dir [of "eh_h X k mod 2 ^ ?g'"] g
    by (simp add: home_def cap cap' mod_power_low odd_div_low eh_upper_def)
  have home: "home X t k = a \<longleftrightarrow> eh_h X k mod 2 ^ n = P" for k using same [of "eh_h X k"] by (simp add: home_def cap)
  show "eh_map X t' = eh_map X t"
  proof
    fix k
    show "eh_map X t' k = eh_map X t k"
    proof (cases "eh_h X k mod 2 ^ n = P")
      case True
      then have "home X t k = a" using home by simp
      moreover have "cell_map (b_cells (if eh_upper X n k then eh_blocks t' ! s1 else eh_blocks t' ! s0)) k = cell_map (b_cells b) k"
        using s by blast
      ultimately show ?thesis using True by (cases "eh_upper X n k") (simp_all add: eh_map_def home' b_def [symmetric])
    next
      case False
      then show ?thesis using other [OF False] home' [of k] by (simp add: eh_map_def home_def cap)
    qed
  qed
  show "b_local_depth (eh_blocks t' ! home X t' k) = Suc (b_local_depth (eh_blocks t ! home X t k))" if "home X t k = eh_dir t ! x" for k
    using that home [of k] s by (auto simp: a_def [symmetric] b_def [symmetric] n_def [symmetric] home')
qed

text \<open>The critical section, on the directory alone.\<close>

lemma doubled_entry:
  assumes "x < c" and "y < 2 * c" and "length d = c"
  shows "(d @ d)[x := s0, x + c := s1] ! y = (if y mod c = x then (if odd (y div c) then s1 else s0) else d ! (y mod c))"
proof (cases "y < c")
  case True
  then show ?thesis using assms by (simp add: nth_list_update nth_append)
next
  case False
  then have "y div c = 1" "y mod c = y - c" using assms(2) by (simp_all add: div_nat_eqI le_mod_geq)
  moreover have "(d @ d) ! y = d ! (y - c)" using False assms(3) by (simp add: nth_append)
  ultimately show ?thesis using False assms by (auto simp: nth_list_update)
qed

lemma eh_update_dir_ok:
  assumes "eh_capacity t = 2 ^ eh_global_depth t" and "length (eh_dir t) = eh_capacity t" and "x = key_hash mod eh_capacity t"
    and n: "n = b_local_depth (eh_blocks t ! (eh_dir t ! x)) - (if x_INPLACE X then 1 else 0)" "n \<le> eh_global_depth t"
    and "b_local_depth (eh_blocks t ! s0) = Suc n" and "n < eh_global_depth t \<Longrightarrow> eh_global_depth t \<le> 30"
  shows "\<exists>d g'. eh_update_dir X key_hash s0 s1 t = Some (t\<lparr>eh_dir := d, eh_capacity := 2 ^ g', eh_global_depth := g'\<rparr>) \<and>
    g' = max (eh_global_depth t) (Suc n) \<and> length d = 2 ^ g' \<and>
    (\<forall>y < 2 ^ g'. d ! y = (if y mod 2 ^ n = x mod 2 ^ n then (if odd (y div 2 ^ n) then s1 else s0) else eh_dir t ! (y mod eh_capacity t)))"
proof (cases "n < eh_global_depth t")
  case True
  let ?g = "eh_global_depth t"
  have x: "x < 2 ^ ?g" using assms(1,3) by simp
  obtain d where d: "LSBUpdate (Suc n) ?g (2 ^ ?g) x (s0, s1) (eh_dir t) = Some d" "length d = 2 ^ ?g"
    "\<forall>y < 2 ^ ?g. d ! y = (if y mod 2 ^ n = x mod 2 ^ n then (if odd (y div 2 ^ n) then s1 else s0) else eh_dir t ! y)"
    using LSBUpdate_written [of ?g "Suc n" "?g - Suc n" n x "(s0, s1)" "eh_dir t"] True assms(1,2) x by (auto simp: lsb_written_def)
  have "(2::nat) ^ ?g < 2 ^ 31" using assms(7) [OF True] by (intro power_strict_increasing) simp_all
  then have "eh_update_dir X key_hash s0 s1 t = Some (t\<lparr>eh_dir := d\<rparr>)"
    using d(1) True n(1) unfolding eh_update_dir_def eh_double_dir_def Let_def assms(3) [symmetric] unfolding assms(6) assms(1) by (auto simp: not_le)
  moreover have "t\<lparr>eh_dir := d\<rparr> = t\<lparr>eh_dir := d, eh_capacity := 2 ^ ?g, eh_global_depth := ?g\<rparr>" using assms(1) by simp
  ultimately show ?thesis using d(2,3) True assms(1) by (intro exI [of _ d] exI [of _ ?g]) auto
next
  case False
  let ?c = "eh_capacity t"
  have g: "n = eh_global_depth t" and x: "x < ?c" using False n(2) assms(1,3) by simp_all
  let ?d = "(eh_dir t @ eh_dir t)[x := s0, x + ?c := s1]"
  have "eh_update_dir X key_hash s0 s1 t = Some (t\<lparr>eh_dir := ?d, eh_capacity := ?c * 2, eh_global_depth := Suc n\<rparr>)"
    using False n(1) g unfolding eh_update_dir_def eh_double_dir_def Let_def assms(3) [symmetric] by auto
  moreover have "?c * 2 = 2 ^ Suc n" "?c = 2 ^ n" using assms(1) g by simp_all
  ultimately show ?thesis
    using doubled_entry [OF x _ assms(2), of _ s0 s1] x assms(2) g by (intro exI [of _ ?d] exI [of _ "Suc n"]) auto
qed

lemma blk_ok_relabel:
  assumes "blk_ok X b" and "n = b_local_depth b" and "P = b_pattern b"
  shows "x_INPLACE X \<Longrightarrow> blk_ok X (b\<lparr>b_sema := 0, b_local_depth := Suc n, b_pattern := P\<rparr>)"
    and "blk_ok X ((eh_fill X False (b\<lparr>b_sema := - 1\<rparr>))\<lparr>b_pattern := P\<rparr>)"
    and "blk_ok X ((eh_fill X True (b\<lparr>b_sema := - 1\<rparr>))\<lparr>b_pattern := P + 2 ^ n\<rparr>)"
proof -
  have b: "length (b_cells b) = eh_kNumSlot" "one_cell (b_cells b)" using assms(1) by (auto simp: blk_ok_def)
  then show "x_INPLACE X \<Longrightarrow> blk_ok X (b\<lparr>b_sema := 0, b_local_depth := Suc n, b_pattern := P\<rparr>)" by (simp add: blk_ok_def)
  have m: "eh_h X k mod 2 ^ n = P" if "cell_map (b_cells b) k = Some v" "\<not> x_INPLACE X" for k v
    using assms that by (auto simp: blk_ok_def)
  have f: "blk_ok X ((eh_fill X up (b\<lparr>b_sema := - 1\<rparr>))\<lparr>b_pattern := P + (if up then 2 ^ n else 0)\<rparr>)" for up
  proof -
    have "eh_h X k mod 2 ^ Suc n = P + (if up then 2 ^ n else 0)"
      if "eh_upper X n k = up" "cell_map (b_cells b) k = Some v" "\<not> x_INPLACE X" for k v
      unfolding mod_power_Suc using m [OF that(2,3)] that(1) by (auto simp: eh_upper_def)
    then show ?thesis using eh_fill_ok [of "b\<lparr>b_sema := - 1\<rparr>" X up] b assms(2) by (auto simp: blk_ok_def split: if_splits)
  qed
  show "blk_ok X ((eh_fill X False (b\<lparr>b_sema := - 1\<rparr>))\<lparr>b_pattern := P\<rparr>)" using f [of False] by simp
  show "blk_ok X ((eh_fill X True (b\<lparr>b_sema := - 1\<rparr>))\<lparr>b_pattern := P + 2 ^ n\<rparr>)" using f [of True] by simp
qed

text \<open>The state between the split and the directory update, and the state after it.\<close>

definition split_blocks :: "xenv \<Rightarrow> nat \<Rightarrow> Block list \<Rightarrow> int \<Rightarrow> Block list" where
  "split_blocks X a bs sm =
     (let b = bs ! a; n = b_local_depth b; P = b_pattern b; b1 = b\<lparr>b_sema := - 1\<rparr>
      in if x_INPLACE X
         then bs[a := b\<lparr>b_sema := sm, b_local_depth := Suc n, b_pattern := P\<rparr>] @ [(eh_fill X True b1)\<lparr>b_pattern := P + 2 ^ n\<rparr>]
         else bs[a := b1] @ [(eh_fill X False b1)\<lparr>b_pattern := P\<rparr>, (eh_fill X True b1)\<lparr>b_pattern := P + 2 ^ n\<rparr>])"

definition first_half :: "xenv \<Rightarrow> nat \<Rightarrow> Block list \<Rightarrow> nat" where
  "first_half X a bs = (if x_INPLACE X then a else length bs)"

definition second_half :: "xenv \<Rightarrow> Block list \<Rightarrow> nat" where
  "second_half X bs = (if x_INPLACE X then length bs else length bs + 1)"

lemma eh_fill_depth [simp]: "b_local_depth (eh_fill X up b) = Suc (b_local_depth b)"
  by (simp add: eh_fill_def Let_def new_Block_def)

lemma split_patterns:
  assumes "a < length (eh_blocks t)" and "b_sema (eh_blocks t ! a) = 0" and "b_local_depth (eh_blocks t ! a) < 31"
    and "key_hash mod 2 ^ b_local_depth (eh_blocks t ! a) = b_pattern (eh_blocks t ! a)"
  obtains t1 where "eh_Split X a t = Some (t1, first_half X a (eh_blocks t), second_half X (eh_blocks t))"
    "eh_set_patterns key_hash (first_half X a (eh_blocks t)) (second_half X (eh_blocks t)) t1 =
       Some (t\<lparr>eh_blocks := split_blocks X a (eh_blocks t) (- 1)\<rparr>)"
proof (cases "x_INPLACE X")
  case True
  let ?b = "eh_blocks t ! a" and ?n = "length (eh_blocks t)"
  let ?t1 = "new_blocks [eh_fill X True (?b\<lparr>b_sema := - 1\<rparr>)] (put_block a (?b\<lparr>b_sema := - 1, b_local_depth := b_local_depth ?b + 1\<rparr>) (put_block a (?b\<lparr>b_sema := - 1\<rparr>) t))"
  have "eh_Split X a t = Some (?t1, a, ?n)" using assms(1,2) True by (simp add: eh_Split_def Let_def)
  moreover have "eh_set_patterns key_hash a ?n ?t1 = Some (t\<lparr>eh_blocks := split_blocks X a (eh_blocks t) (- 1)\<rparr>)"
    using assms(1,3,4) True
    by (simp add: eh_set_patterns_def Let_def new_blocks_def put_block_def split_blocks_def nth_append list_update_append)
  ultimately show ?thesis using that True by (simp add: first_half_def second_half_def)
next
  case False
  let ?b = "(eh_blocks t ! a)\<lparr>b_sema := - 1\<rparr>" and ?n = "length (eh_blocks t)"
  let ?t1 = "new_blocks [eh_fill X False ?b, eh_fill X True ?b] (put_block a ?b t)"
  have "eh_Split X a t = Some (?t1, ?n, ?n + 1)" using assms(1,2) False by (simp add: eh_Split_def Let_def)
  moreover have "eh_set_patterns key_hash ?n (?n + 1) ?t1 = Some (t\<lparr>eh_blocks := split_blocks X a (eh_blocks t) (- 1)\<rparr>)"
    using assms(1,3,4) False
    by (simp add: eh_set_patterns_def Let_def new_blocks_def put_block_def split_blocks_def nth_append list_update_append)
  ultimately show ?thesis using that False by (simp add: first_half_def second_half_def)
qed

lemma split_blocks_nth:
  assumes "a < length bs"
  shows "b_local_depth (split_blocks X a bs sm ! a) = b_local_depth (bs ! a) + (if x_INPLACE X then 1 else 0)"
    and "b_local_depth (split_blocks X a bs sm ! first_half X a bs) = Suc (b_local_depth (bs ! a))"
    and "x_INPLACE X \<Longrightarrow> (split_blocks X a bs sm)[a := (split_blocks X a bs sm ! a)\<lparr>b_sema := 0\<rparr>] = split_blocks X a bs 0"
    and "\<not> x_INPLACE X \<Longrightarrow> split_blocks X a bs sm = split_blocks X a bs 0"
proof -
  have r: "b\<lparr>b_local_depth := m, b_sema := s\<rparr> = b\<lparr>b_sema := s, b_local_depth := m\<rparr>" for b :: Block and m s by (cases b) simp
  show "b_local_depth (split_blocks X a bs sm ! a) = b_local_depth (bs ! a) + (if x_INPLACE X then 1 else 0)"
    "b_local_depth (split_blocks X a bs sm ! first_half X a bs) = Suc (b_local_depth (bs ! a))"
    using assms by (simp_all add: split_blocks_def Let_def first_half_def nth_append)
  show "x_INPLACE X \<Longrightarrow> (split_blocks X a bs sm)[a := (split_blocks X a bs sm ! a)\<lparr>b_sema := 0\<rparr>] = split_blocks X a bs 0"
    "\<not> x_INPLACE X \<Longrightarrow> split_blocks X a bs sm = split_blocks X a bs 0"
    using assms by (simp_all add: split_blocks_def Let_def nth_append list_update_append r)
qed

lemma split_blocks_to:
  assumes ok: "eh_ok X t" and x: "x < eh_capacity t" and a: "a = eh_dir t ! x" and n: "n = b_local_depth (eh_blocks t ! a)"
    and t': "eh_blocks t' = split_blocks X a (eh_blocks t) 0" "eh_global_depth t' = max (eh_global_depth t) (Suc n)"
      "eh_capacity t' = 2 ^ eh_global_depth t'" "length (eh_dir t') = eh_capacity t'" "\<not> eh_lock t'"
    and d: "\<forall>y < eh_capacity t'. eh_dir t' ! y = (if y mod 2 ^ n = x mod 2 ^ n
        then (if odd (y div 2 ^ n) then second_half X (eh_blocks t) else first_half X a (eh_blocks t)) else eh_dir t ! (y mod eh_capacity t))"
  shows "split_to X t x (first_half X a (eh_blocks t)) (second_half X (eh_blocks t)) t'"
proof -
  let ?b = "eh_blocks t ! a"
  have e: "a < length (eh_blocks t)" "blk_ok X ?b" "b_pattern ?b = x mod 2 ^ n" using eh_okD [OF ok x] a n by auto
  have c: "length (b_cells ?b) = eh_kNumSlot" "one_cell (b_cells ?b)" using e(2) by (auto simp: blk_ok_def)
  note r = blk_ok_relabel [OF e(2) n refl] and f = eh_fill_ok [of "?b\<lparr>b_sema := - 1\<rparr>" X]
  let ?lo = "split_blocks X a (eh_blocks t) 0 ! first_half X a (eh_blocks t)" and ?hi = "split_blocks X a (eh_blocks t) 0 ! second_half X (eh_blocks t)"
  have b1: "?hi = (eh_fill X True (?b\<lparr>b_sema := - 1\<rparr>))\<lparr>b_pattern := b_pattern ?b + 2 ^ n\<rparr>"
    by (simp add: split_blocks_def Let_def second_half_def nth_append n)
  have b0: "?lo = (if x_INPLACE X then ?b\<lparr>b_sema := 0, b_local_depth := Suc n, b_pattern := b_pattern ?b\<rparr>
      else (eh_fill X False (?b\<lparr>b_sema := - 1\<rparr>))\<lparr>b_pattern := b_pattern ?b\<rparr>)"
    using e(1) by (simp add: split_blocks_def Let_def first_half_def nth_append n)
  have "cell_map (b_cells (if eh_upper X n k then ?hi else ?lo)) k = cell_map (b_cells ?b) k" for k
    unfolding b1 b0 using f(3) [of True k] f(3) [of False k] c n by auto
  moreover have "i < length (eh_blocks t) \<Longrightarrow> i \<noteq> a \<Longrightarrow> split_blocks X a (eh_blocks t) 0 ! i = eh_blocks t ! i" for i
    by (simp add: split_blocks_def Let_def nth_append)
  moreover have "length (eh_blocks t) \<le> length (split_blocks X a (eh_blocks t) 0)"
    "first_half X a (eh_blocks t) < length (split_blocks X a (eh_blocks t) 0)" "second_half X (eh_blocks t) < length (split_blocks X a (eh_blocks t) 0)"
    using e(1) by (auto simp: split_blocks_def Let_def first_half_def second_half_def)
  moreover have "blk_ok X ?lo \<and> b_local_depth ?lo = Suc n \<and> b_pattern ?lo = b_pattern ?b" unfolding b0 using r(1,2) n by simp
  moreover have "blk_ok X ?hi \<and> b_local_depth ?hi = Suc n \<and> b_pattern ?hi = b_pattern ?b + 2 ^ n" unfolding b1 using r(3) n by simp
  ultimately show ?thesis
    unfolding split_to_def Let_def a [symmetric] n [symmetric] t'(1) e(3) using t'(2-5) d by (auto simp only: max.cobounded1 le_max_iff_disj Suc_le_eq [symmetric] order_refl)
qed

lemma eh_grow_ok:
  assumes ok: "eh_ok X t" and x: "x = eh_h X k mod eh_capacity t" and a: "a = eh_dir t ! x" and n: "n = b_local_depth (eh_blocks t ! a)"
    and "n < 31" and "n < eh_global_depth t \<Longrightarrow> eh_global_depth t \<le> 30"
  obtains t' s0 s1 where "eh_grow X (eh_h X k) a t = Retry t'" "split_to X t x s0 s1 t'" "eh_global_depth t' = max (eh_global_depth t) (Suc n)"
proof -
  let ?bs = "eh_blocks t" and ?s0 = "first_half X a (eh_blocks t)" and ?s1 = "second_half X (eh_blocks t)"
  have xc: "x < eh_capacity t" using eh_ok_home(1) [OF ok, of k] x by simp
  have cap: "eh_capacity t = 2 ^ eh_global_depth t" "length (eh_dir t) = eh_capacity t" "\<not> eh_lock t" using ok by (auto simp: eh_ok_def)
  note e = eh_okD [OF ok xc, folded a]
  have home: "home X t k = a" by (simp add: home_def a x)
  have pat: "eh_h X k mod 2 ^ n = b_pattern (?bs ! a)" using eh_ok_home(4) [OF ok, of k] home n by simp
  obtain t1 where t1: "eh_Split X a t = Some (t1, ?s0, ?s1)"
    "eh_set_patterns (eh_h X k) ?s0 ?s1 t1 = Some (t\<lparr>eh_blocks := split_blocks X a ?bs (- 1)\<rparr>)"
    using split_patterns [OF e(1), of "eh_h X k" X] e(2) assms(5) pat n by (auto simp: blk_ok_def)
  let ?t3 = "t\<lparr>eh_blocks := split_blocks X a ?bs (- 1), eh_lock := True\<rparr>"
  have "\<exists>d g'. eh_update_dir X (eh_h X k) ?s0 ?s1 ?t3 = Some (?t3\<lparr>eh_dir := d, eh_capacity := 2 ^ g', eh_global_depth := g'\<rparr>) \<and>
    g' = max (eh_global_depth ?t3) (Suc n) \<and> length d = 2 ^ g' \<and>
    (\<forall>y < 2 ^ g'. d ! y = (if y mod 2 ^ n = x mod 2 ^ n then (if odd (y div 2 ^ n) then ?s1 else ?s0) else eh_dir ?t3 ! (y mod eh_capacity ?t3)))"
  proof (rule eh_update_dir_ok)
    show "x = eh_h X k mod eh_capacity ?t3" using x by simp
    show "n = b_local_depth (eh_blocks ?t3 ! (eh_dir ?t3 ! x)) - (if x_INPLACE X then 1 else 0)"
      "b_local_depth (eh_blocks ?t3 ! ?s0) = Suc n"
      using split_blocks_nth(1,2) [OF e(1), of X "- 1"] unfolding n by (simp_all add: a [symmetric])
    show "eh_global_depth ?t3 \<le> 30" if "n < eh_global_depth ?t3" using that assms(6) by simp
  qed (use cap e(3) n in simp_all)
  then obtain d g' where d: "eh_update_dir X (eh_h X k) ?s0 ?s1 ?t3 = Some (?t3\<lparr>eh_dir := d, eh_capacity := 2 ^ g', eh_global_depth := g'\<rparr>)"
    "g' = max (eh_global_depth t) (Suc n)" "length d = 2 ^ g'"
    "\<forall>y < 2 ^ g'. d ! y = (if y mod 2 ^ n = x mod 2 ^ n then (if odd (y div 2 ^ n) then ?s1 else ?s0) else eh_dir t ! (y mod eh_capacity t))"
    by auto
  let ?t' = "t\<lparr>eh_blocks := split_blocks X a ?bs 0, eh_lock := False, eh_dir := d, eh_capacity := 2 ^ g', eh_global_depth := g'\<rparr>"
  have "eh_Acquire (t\<lparr>eh_blocks := split_blocks X a ?bs (- 1)\<rparr>) = (True, ?t3)" using cap(3) by (simp add: eh_Acquire_def)
  then have "eh_grow X (eh_h X k) a t = Retry ?t'"
    using split_blocks_nth(3,4) [OF e(1), of X "- 1"] t1 d(1)
    by (auto simp: eh_grow_def Let_def eh_Release_def put_block_def first_half_def)
  moreover have "split_to X t x ?s0 ?s1 ?t'" using d(2-4) by (intro split_blocks_to [OF ok xc a n]) simp_all
  ultimately show ?thesis using that d(2) by simp
qed

section \<open>Insertion\<close>

lemma replace_cell:
  assumes "one_cell c" and "i < length c" and "cell_map c k = None" and "k \<noteq> INVALID"
  shows "one_cell (c[i := Pair_make k v])"
    and "cell_map (c[i := Pair_make k v]) k' = (if k' = k then Some v else if k' = p_key (c ! i) then None else cell_map c k')"
proof -
  let ?c = "c[i := Pair_make k v]"
  have new: "p_key (c ! j) \<noteq> k" if "j < length c" for j using assms(3,4) that by (simp add: cell_map_None)
  then show o: "one_cell ?c" using assms(1,2) unfolding one_cell_def by (auto simp: nth_list_update)
  show "cell_map ?c k' = (if k' = k then Some v else if k' = p_key (c ! i) then None else cell_map c k')"
  proof (cases "k' = k")
    case True
    then show ?thesis using cell_map_at [OF o, of i] assms(2,4) by simp
  next
    case False
    have at: "?c ! j = Pair_make k' w \<longleftrightarrow> j \<noteq> i \<and> c ! j = Pair_make k' w" if "j < length c" for j w
      using that False by (cases "j = i") (auto simp: Pair_make_def)
    show ?thesis
    proof (cases "k' = p_key (c ! i)")
      case True
      have "j = i" if "j < length c" "c ! j = Pair_make k' w" "k' \<noteq> INVALID" for j w
        using one_cellD [OF assms(1) that(1) assms(2)] that(2,3) True by simp
      then have "cell_map ?c k' \<noteq> Some w" for w unfolding cell_map_iff [OF o] using at by auto
      then show ?thesis using False True by (cases "cell_map ?c k'") auto
    next
      case other: False
      then have "c ! i \<noteq> Pair_make k' w" for w by auto
      then have "cell_map ?c k' = Some w \<longleftrightarrow> cell_map c k' = Some w" for w
        unfolding cell_map_iff [OF o] cell_map_iff [OF assms(1)] length_list_update using at by auto
      then have "cell_map ?c k' = cell_map c k'" by (metis option.exhaust)
      then show ?thesis using False other by simp
    qed
  qed
qed

lemma eh_ok_put:
  assumes ok: "eh_ok X t" and "blk_ok X b" and "b_local_depth b = b_local_depth (eh_blocks t ! a)" "b_pattern b = b_pattern (eh_blocks t ! a)"
  shows "eh_ok X (put_block a b t)" and "home X (put_block a b t) k = home X t k"
proof -
  have "entry_ok X (put_block a b t) y" if "y < eh_capacity t" for y
  proof (cases "eh_dir t ! y = a")
    case True
    then show ?thesis using eh_okD [OF ok that] assms(2-) by (auto simp: entry_ok_def put_block_def Let_def)
  next
    case False
    then show ?thesis using eh_okD [OF ok that] by (auto simp: entry_ok_def put_block_def Let_def)
  qed
  then show "eh_ok X (put_block a b t)" using ok by (auto simp: eh_ok_def put_block_def)
qed (simp add: home_def put_block_def)

lemma eh_store_ok:
  fixes v :: Value_t
  assumes ok: "eh_ok X t" and a: "a = home X t k" and i: "i < eh_kNumSlot" "eh_free X (eh_blocks t ! a) (b_cells (eh_blocks t ! a) ! i)"
    and k: "k \<noteq> INVALID" "eh_map X t k = None"
  defines "b \<equiv> (eh_blocks t ! a)\<lparr>b_cells := (b_cells (eh_blocks t ! a))[i := Pair_make k v]\<rparr>"
  shows "eh_ok X (put_block a b t)" and "eh_map X (put_block a b t) = (eh_map X t)(k \<mapsto> v)"
proof -
  let ?b = "eh_blocks t ! a" and ?c = "b_cells (eh_blocks t ! a)"
  have al: "a < length (eh_blocks t)" and bo: "blk_ok X ?b" and pat: "b_pattern ?b = eh_h X k mod 2 ^ b_local_depth ?b"
    using eh_ok_home [OF ok, of k] a by simp_all
  have c: "length ?c = eh_kNumSlot" "one_cell ?c" and kc: "cell_map ?c k = None" using bo k(2) a by (auto simp: blk_ok_def eh_map_def)
  have il: "i < length ?c" using i(1) c(1) by simp
  note r = replace_cell [OF c(2) il kc k(1), of v]
  have "blk_ok X b" using bo r pat c by (auto simp: blk_ok_def b_def split: if_splits)
  then show "eh_ok X (put_block a b t)" by (rule eh_ok_put [OF ok]) (simp_all add: b_def)
  have away: "home X t (p_key (?c ! i)) \<noteq> a" if "p_key (?c ! i) \<noteq> INVALID"
    using eh_ok_home(4) [OF ok, of "p_key (?c ! i)"] i(2) that by (auto simp: eh_free_def)
  show "eh_map X (put_block a b t) = (eh_map X t)(k \<mapsto> v)"
  proof
    fix k'
    have h: "home X (put_block a b t) k' = home X t k'" by (simp add: home_def put_block_def)
    show "eh_map X (put_block a b t) k' = ((eh_map X t)(k \<mapsto> v)) k'"
    proof (cases "home X t k' = a")
      case True
      then have "k' \<noteq> p_key (?c ! i) \<or> k' = INVALID" using away by metis
      then show ?thesis using True r(2) [of k'] k(1) al unfolding eh_map_def h by (auto simp: put_block_def b_def)
    next
      case False
      then have "k' \<noteq> k" using a by auto
      then show ?thesis using False unfolding eh_map_def h by (simp add: put_block_def)
    qed
  qed
qed

text \<open>A full block of depth 31 holds 16384 keys that agree with the new one in 31 bits.\<close>

definition eh_crowd :: "xenv \<Rightarrow> ExtendibleHash \<Rightarrow> Key_t \<Rightarrow> Key_t set" where
  "eh_crowd X t k = {k'. eh_map X t k' \<noteq> None \<and> eh_h X k' mod 2 ^ 31 = eh_h X k mod 2 ^ 31}"

lemma full_block_crowd:
  assumes ok: "eh_ok X t" and a: "a = home X t k" and full: "\<forall>i < eh_kNumSlot. \<not> eh_free X (eh_blocks t ! a) (b_cells (eh_blocks t ! a) ! i)"
    and n: "31 \<le> b_local_depth (eh_blocks t ! a)"
  shows "eh_kNumSlot \<le> card (eh_crowd X t k)"
proof -
  let ?b = "eh_blocks t ! a" and ?c = "b_cells (eh_blocks t ! a)"
  have bo: "blk_ok X ?b" and pat: "b_pattern ?b = eh_h X k mod 2 ^ b_local_depth ?b" using eh_ok_home [OF ok, of k] a by simp_all
  have c: "length ?c = eh_kNumSlot" "one_cell ?c" using bo by (auto simp: blk_ok_def)
  have "used ?c = eh_kNumSlot" using full c(1) used_less_free [of ?c] used_le [of ?c] by (fastforce simp: eh_free_def)
  then have card: "card (dom (cell_map ?c)) = eh_kNumSlot" using card_dom_cell_map [OF c(2)] by simp
  have "dom (cell_map ?c) \<subseteq> eh_crowd X t k"
  proof
    fix k'
    assume "k' \<in> dom (cell_map ?c)"
    then obtain v where v: "cell_map ?c k' = Some v" by auto
    then obtain i where i: "i < length ?c" "p_key (?c ! i) = k'" using cell_map_SomeD by blast
    have "eh_h X k' mod 2 ^ b_local_depth ?b = b_pattern ?b"
      using full i c(1) bo v by (cases "x_INPLACE X") (auto simp: eh_free_def blk_ok_def)
    then have m: "eh_h X k' mod 2 ^ b_local_depth ?b = eh_h X k mod 2 ^ b_local_depth ?b" using pat by simp
    have "home X t k' = a"
      using home_iff [OF ok eh_ok_home(1) [OF ok, of k] refl, of k'] m pat a by (simp add: home_def)
    moreover have "eh_h X k' mod 2 ^ 31 = eh_h X k mod 2 ^ 31" using m mod_power_low [OF n] by metis
    ultimately show "k' \<in> eh_crowd X t k" using v by (simp add: eh_crowd_def eh_map_def)
  qed
  then show ?thesis using card_mono [of "eh_crowd X t k" "dom (cell_map ?c)"] card by simp
qed

lemma eh_block_insert_home:
  assumes ok: "eh_ok X t" and a: "a = home X t k"
  shows "eh_block_insert X (eh_blocks t ! a) k v (eh_h X k) =
    (case find (\<lambda>i. eh_free X (eh_blocks t ! a) (b_cells (eh_blocks t ! a) ! i)) [0..<eh_kNumSlot] of
       Some i \<Rightarrow> (int i, (eh_blocks t ! a)\<lparr>b_cells := (b_cells (eh_blocks t ! a))[i := Pair_make k v]\<rparr>)
     | None \<Rightarrow> (- 1, eh_blocks t ! a))"
proof -
  let ?b = "eh_blocks t ! a"
  have "b_sema ?b = 0" "eh_h X k mod 2 ^ b_local_depth ?b = b_pattern ?b" using eh_ok_home [OF ok, of k] a by (simp_all add: blk_ok_def)
  moreover have "?b\<lparr>b_sema := 0\<rparr> = ?b" if "b_sema ?b = 0" using that by simp
  moreover have "b\<lparr>b_cells := c, b_sema := s\<rparr> = b\<lparr>b_sema := s, b_cells := c\<rparr>" for b :: Block and c s by (cases b) simp
  ultimately show ?thesis by (simp add: eh_block_insert_def eh_free_def Let_def split: option.split)
qed

text \<open>What a pass does in a well-formed table.\<close>

lemma eh_pass_cases:
  assumes ok: "eh_ok X t" and a: "a = home X t k" and g: "eh_global_depth t \<le> 30 \<or> eh_global_depth t = 31 \<and> b_local_depth (eh_blocks t ! a) = 31"
    and k: "k \<noteq> INVALID" "eh_map X t k = None"
  obtains (stored) t' where "eh_insert_pass X k v t = Return t'" "eh_ok X t'" "eh_map X t' = (eh_map X t)(k \<mapsto> v)" "eh_global_depth t' = eh_global_depth t"
  | (split) t' where "eh_insert_pass X k v t = Retry t'" "eh_ok X t'" "eh_map X t' = eh_map X t"
      "b_local_depth (eh_blocks t' ! home X t' k) = Suc (b_local_depth (eh_blocks t ! a))"
      "eh_global_depth t' = max (eh_global_depth t) (b_local_depth (eh_blocks t' ! home X t' k))" "b_local_depth (eh_blocks t ! a) < 31"
  | (crowded) "eh_insert_pass X k v t = Fault" "eh_kNumSlot \<le> card (eh_crowd X t k)"
proof -
  let ?b = "eh_blocks t ! a" and ?x = "eh_h X k mod eh_capacity t"
  have cap: "eh_capacity t \<noteq> 0" using ok by (simp add: eh_ok_def)
  have ax: "a = eh_dir t ! ?x" by (simp add: a home_def)
  note bi = eh_block_insert_home [OF ok a, of v]
  show ?thesis
  proof (cases "find (\<lambda>i. eh_free X ?b (b_cells ?b ! i)) [0..<eh_kNumSlot]")
    case (Some i)
    then have i: "i < eh_kNumSlot" "eh_free X ?b (b_cells ?b ! i)" by (auto dest: find_SomeD)
    let ?t = "put_block a (?b\<lparr>b_cells := (b_cells ?b)[i := Pair_make k v]\<rparr>) t"
    have "eh_insert_pass X k v t = Return ?t" using Some bi cap unfolding eh_insert_pass_def Let_def ax [symmetric] by simp
    then show ?thesis using stored [of ?t] eh_store_ok [OF ok a i k, of v] by (simp add: put_block_def)
  next
    case None
    then have full: "\<forall>i < eh_kNumSlot. \<not> eh_free X ?b (b_cells ?b ! i)" by (auto simp: find_None_iff)
    have "put_block a ?b t = t" by (simp add: put_block_def)
    then have pass: "eh_insert_pass X k v t = eh_grow X (eh_h X k) a t"
      using None bi cap unfolding eh_insert_pass_def Let_def ax [symmetric] by simp
    show ?thesis
    proof (cases "b_local_depth ?b < 31")
      case True
      obtain t' s0 s1 where t': "eh_grow X (eh_h X k) a t = Retry t'" "split_to X t ?x s0 s1 t'"
        "eh_global_depth t' = max (eh_global_depth t) (Suc (b_local_depth ?b))"
        using eh_grow_ok [OF ok refl ax refl True] g True by auto
      note s = split_to_ok [OF ok eh_ok_home(1) [OF ok] t'(2)]
      have "b_local_depth (eh_blocks t' ! home X t' k) = Suc (b_local_depth ?b)" using s(3) [of k] a by (simp add: home_def)
      then show ?thesis using split [of t'] pass t' s(1,2) True by simp
    next
      case False
      have al: "a < length (eh_blocks t)" "b_sema ?b = 0" using eh_ok_home [OF ok, of k] a by (simp_all add: blk_ok_def)
      have "eh_grow X (eh_h X k) a t = Fault"
        using False al by (auto simp: eh_grow_def eh_Split_def eh_set_patterns_def Let_def new_blocks_def put_block_def nth_append)
      then show ?thesis using crowded full_block_crowd [OF ok a full] False pass by simp
    qed
  qed
qed

text \<open>C5: insertion of a new key into the extendible hash table ends within 32 passes of the
  \<^verbatim>\<open>RETRY\<close> loop, in the copying and in the in-place build. The table then stores the new pair and
  exactly the pairs it stored before, however often blocks were split and the directory
  doubled. The only other outcome needs 16384 stored keys whose hashes agree with the new
  one in the low 31 bits: the split would then exceed the range of \<^verbatim>\<open>int\<close>.\<close>

theorem eh_Insert_ends:
  assumes "eh_ok X t" and "eh_global_depth t \<le> 30" and "k \<noteq> INVALID" and "eh_map X t k = None" and "32 \<le> fuel"
  shows "case eh_Insert X fuel k v t of
      Return t' \<Rightarrow> eh_ok X t' \<and> eh_map X t' = (eh_map X t)(k \<mapsto> v) \<and> eh_Get X k t' = Some v
    | Fault \<Rightarrow> eh_kNumSlot \<le> card (eh_crowd X t k)
    | _ \<Rightarrow> False"
proof -
  define depth where "depth t' = b_local_depth (eh_blocks t' ! home X t' k)" for t'
  define I where "I t' \<longleftrightarrow> eh_ok X t' \<and> eh_map X t' = eh_map X t \<and> (eh_global_depth t' \<le> 30 \<or> eh_global_depth t' = 31 \<and> depth t' = 31)" for t'
  have le: "depth t' \<le> eh_global_depth t'" if "eh_ok X t'" for t'
    using eh_okD(3) [OF that eh_ok_home(1) [OF that, of k]] by (simp add: depth_def home_def)
  have cases: "(\<exists>t''. eh_insert_pass X k v t' = Return t'' \<and> eh_ok X t'' \<and> eh_map X t'' = (eh_map X t)(k \<mapsto> v)) \<or>
      (\<exists>t''. eh_insert_pass X k v t' = Retry t'' \<and> I t'' \<and> depth t' < depth t'') \<or>
      (eh_insert_pass X k v t' = Fault \<and> eh_kNumSlot \<le> card (eh_crowd X t k))" if "I t'" for t'
  proof -
    have i: "eh_ok X t'" "eh_map X t' = eh_map X t" "eh_global_depth t' \<le> 30 \<or> eh_global_depth t' = 31 \<and> depth t' = 31"
      using that by (auto simp: I_def)
    from i(1) refl i(3) [unfolded depth_def] assms(3) i(2) [THEN fun_cong, of k, unfolded assms(4)]
    show ?thesis
    proof (cases rule: eh_pass_cases [of X t' _ k v])
      case (split t'')
      then show ?thesis using i(2) le [OF i(1)] i(3) by (intro disjI2 disjI1 exI [of _ t'']) (auto simp: I_def depth_def max_def)
    qed (use i(2) in \<open>auto simp: eh_crowd_def\<close>)
  qed
  have "case run_until (eh_insert_pass X k v) fuel t of
      Return t' \<Rightarrow> eh_ok X t' \<and> eh_map X t' = (eh_map X t)(k \<mapsto> v) | Fault \<Rightarrow> eh_kNumSlot \<le> card (eh_crowd X t k) | _ \<Rightarrow> False"
  proof (rule run_until_ends_fault [where I = I and \<mu> = depth and bound = 31])
    show "I t" using assms(1,2) by (simp add: I_def)
    show "depth t' \<le> 31" if "I t'" for t' using le [of t'] that by (auto simp: I_def)
  qed (use assms(5) cases in fastforce)+
  then show ?thesis
    unfolding eh_Insert_def using eh_Get_map assms(3) by (auto split: outcome.splits)
qed

lemma msb_pos_power [simp]: "msb_pos (2 ^ n) = n"
  by (induction n) (simp_all add: msb_pos.simps)

lemma eh_new_ok:
  assumes "initCap = 2 ^ n"
  shows "eh_ok X (eh_new X initCap)" and "eh_map X (eh_new X initCap) = Map.empty" and "eh_global_depth (eh_new X initCap) = n"
proof -
  note fresh = new_Pairs_INVALID [of "tenv.truncate X" eh_kNumSlot]
  have b: "blk_ok X ((new_Block X n)\<lparr>b_pattern := i\<rparr>)" for i
    using one_cell_fresh [OF fresh] cell_map_fresh [OF fresh] by (simp add: blk_ok_def new_Block_def)
  show "eh_ok X (eh_new X initCap)"
    using b by (simp add: assms eh_ok_def eh_new_def entry_ok_def Let_def) (simp add: new_Block_def)
  show "eh_map X (eh_new X initCap) = Map.empty"
    using cell_map_fresh [OF fresh] by (auto simp: eh_map_def home_def eh_new_def Let_def assms new_Block_def)
  show "eh_global_depth (eh_new X initCap) = n" by (simp add: eh_new_def assms)
qed

definition demo_xenv :: xenv where
  "demo_xenv = \<lparr>lib_hash = (\<lambda>bs seed. le_bytes bs), junk = (\<lambda>i. 0), x_INPLACE = True\<rparr>"

theorem eh_Insert_ends_witness:
  "eh_ok demo_xenv (eh_new demo_xenv 4) \<and>
    (case eh_Insert demo_xenv 32 7 9 (eh_new demo_xenv 4) of
       Return t' \<Rightarrow> eh_ok demo_xenv t' \<and> eh_map demo_xenv t' = [7 \<mapsto> 9] \<and> eh_Get demo_xenv 7 t' = Some 9
     | Fault \<Rightarrow> eh_kNumSlot \<le> card (eh_crowd demo_xenv (eh_new demo_xenv 4) 7)
     | _ \<Rightarrow> False)"
proof -
  have "(4::nat) = 2 ^ 2" by simp
  note n = eh_new_ok [OF this, of demo_xenv]
  show ?thesis using eh_Insert_ends [OF n(1), of 7 32 9, unfolded n(2,3)] n(1) by (simp add: INVALID_def)
qed

theorem LSBUpdate_correct_witness:
  "LSBUpdate 2 3 (2 ^ 3) 5 (8, 9) [0, 1, 2, 3, 4, 5, 6, 7] = Some [0, 8, 2, 9, 4, 8, 6, 9] \<and>
    (\<exists>d'. LSBUpdate 2 3 (2 ^ 3) 5 (8, 9) [0, 1, 2, 3, 4, 5, 6, 7] = Some d' \<and> length d' = length [0, 1, 2, 3, 4, 5, 6, 7 :: nat] \<and>
      (\<forall>y < 2 ^ 3. d' ! y = (if y mod 2 ^ (2 - 1) = 5 mod 2 ^ (2 - 1) then (if odd (y div 2 ^ (2 - 1)) then 9 else 8)
         else [0, 1, 2, 3, 4, 5, 6, 7] ! y)))"
proof
  show "LSBUpdate 2 3 (2 ^ 3) 5 (8, 9) [0, 1, 2, 3, 4, 5, 6, 7] = Some [0, 8, 2, 9, 4, 8, 6, 9]"
    by (simp add: LSBUpdate.simps)
qed (rule LSBUpdate_correct; simp)

end
