(* ===== verification/Sema_Lock.thy ===== *)
theory Sema_Lock
  imports PM_Prelude
begin

text \<open>
  The semaphore of \<^verbatim>\<open>Segment\<close> and \<^verbatim>\<open>Directory\<close> in the CCEH tables (\<^verbatim>\<open>suspend\<close>, \<^verbatim>\<open>lock\<close>,
  \<^verbatim>\<open>unlock\<close>): a non-negative \<^verbatim>\<open>sema\<close> counts the threads inside, \<^verbatim>\<open>suspend\<close> swaps in \<open>-1\<close> and
  waits until the threads that were inside have left. The section on the protocol models
  it at the granularity of single shared-memory accesses, for any number of threads in any
  interleaving, and shows that a successful \<^verbatim>\<open>suspend\<close> excludes everybody else. The section
  before it gives the same operations as uninterrupted functions, which the
  single-threaded table models use.
\<close>

section \<open>The operations without interference\<close>

text \<open>\<open>suspend\<close> yields no result when it waits for a thread that is inside.\<close>

definition lock :: "int \<Rightarrow> bool \<times> int" where
  "lock sema =
     (let val = sema
      in if val > -1 then (case CAS sema val (val + 1) of (ok, sema', val') \<Rightarrow> (ok, sema'))
         else (False, sema))"

definition unlock :: "int \<Rightarrow> int" where
  "unlock sema = (let val = sema in case CAS sema val (val - 1) of (ok, sema', val') \<Rightarrow> sema')"

definition suspend :: "int \<Rightarrow> (bool \<times> int) option" where
  "suspend sema =
     (let val = sema
      in if val < 0 then Some (False, sema)
         else case CAS sema val (-1) of
           (ok, sema', val') \<Rightarrow>
             (let wait = 0 - val - 1
              in if val \<noteq> 0 \<and> sema' \<noteq> wait then None else Some (True, sema')))"

lemma lock_simp: "lock sema = (if sema \<ge> 0 then (True, sema + 1) else (False, sema))"
  by (simp add: lock_def)

lemma unlock_simp: "unlock sema = sema - 1"
  by (simp add: unlock_def)

lemma suspend_simp:
  "suspend sema = (if sema < 0 then Some (False, sema) else if sema = 0 then Some (True, -1) else None)"
  by (simp add: suspend_def)

section \<open>The protocol\<close>

text \<open>
  Where a thread stands, between two accesses to \<^verbatim>\<open>sema\<close>: about to read it in \<^verbatim>\<open>lock\<close>, about
  to swap with the value it read, inside, about to swap in \<^verbatim>\<open>unlock\<close>, and so on.
  \<open>Exclusive\<close> is the state after \<^verbatim>\<open>suspend\<close> has returned true.
\<close>

datatype pc =
    Idle
  | LockRead | LockCAS int
  | Inside | UnlockCAS int
  | SuspendRead | SuspendCAS int | SuspendWait int
  | Exclusive

record sys =
  sem_val :: int
  pcs :: "nat \<Rightarrow> pc"

definition at_pc :: "nat \<Rightarrow> sys \<Rightarrow> nat \<Rightarrow> pc \<Rightarrow> bool" where
  "at_pc N s t c \<longleftrightarrow> t < N \<and> pcs s t = c"

definition goto_pc :: "nat \<Rightarrow> pc \<Rightarrow> sys \<Rightarrow> sys" where
  "goto_pc t c s = s\<lparr>pcs := (pcs s)(t := c)\<rparr>"

inductive sema_step :: "nat \<Rightarrow> sys \<Rightarrow> sys \<Rightarrow> bool" for N :: nat where
  call_lock: "at_pc N s t Idle \<Longrightarrow> sema_step N s (goto_pc t LockRead s)"
| lock_read: "at_pc N s t LockRead \<Longrightarrow> sem_val s > -1 \<Longrightarrow> sema_step N s (goto_pc t (LockCAS (sem_val s)) s)"
| lock_fail: "at_pc N s t LockRead \<Longrightarrow> \<not> sem_val s > -1 \<Longrightarrow> sema_step N s (goto_pc t Idle s)"
| lock_cas: "at_pc N s t (LockCAS val) \<Longrightarrow> CAS (sem_val s) val (val + 1) = (True, sema', e) \<Longrightarrow>
     sema_step N s (goto_pc t Inside (s\<lparr>sem_val := sema'\<rparr>))"
| lock_cas_fail: "at_pc N s t (LockCAS val) \<Longrightarrow> CAS (sem_val s) val (val + 1) = (False, sema', e) \<Longrightarrow>
     sema_step N s (goto_pc t LockRead (s\<lparr>sem_val := sema'\<rparr>))"
| unlock_read: "at_pc N s t Inside \<Longrightarrow> sema_step N s (goto_pc t (UnlockCAS (sem_val s)) s)"
| unlock_cas: "at_pc N s t (UnlockCAS val) \<Longrightarrow> CAS (sem_val s) val (val - 1) = (True, sema', e) \<Longrightarrow>
     sema_step N s (goto_pc t Idle (s\<lparr>sem_val := sema'\<rparr>))"
| unlock_cas_fail: "at_pc N s t (UnlockCAS val) \<Longrightarrow> CAS (sem_val s) val (val - 1) = (False, sema', e) \<Longrightarrow>
     sema_step N s (goto_pc t (UnlockCAS (sem_val s)) (s\<lparr>sem_val := sema'\<rparr>))"
| call_suspend: "at_pc N s t Idle \<Longrightarrow> sema_step N s (goto_pc t SuspendRead s)"
| suspend_read: "at_pc N s t SuspendRead \<Longrightarrow> \<not> sem_val s < 0 \<Longrightarrow>
     sema_step N s (goto_pc t (SuspendCAS (sem_val s)) s)"
| suspend_fail: "at_pc N s t SuspendRead \<Longrightarrow> sem_val s < 0 \<Longrightarrow> sema_step N s (goto_pc t Idle s)"
| suspend_cas: "at_pc N s t (SuspendCAS val) \<Longrightarrow> CAS (sem_val s) val (-1) = (True, sema', e) \<Longrightarrow>
     sema_step N s (goto_pc t (SuspendWait val) (s\<lparr>sem_val := sema'\<rparr>))"
| suspend_cas_fail: "at_pc N s t (SuspendCAS val) \<Longrightarrow> CAS (sem_val s) val (-1) = (False, sema', e) \<Longrightarrow>
     sema_step N s (goto_pc t SuspendRead (s\<lparr>sem_val := sema'\<rparr>))"
| suspend_done: "at_pc N s t (SuspendWait val) \<Longrightarrow> val = 0 \<or> sem_val s = 0 - val - 1 \<Longrightarrow>
     sema_step N s (goto_pc t Exclusive s)"
| release: "at_pc N s t Exclusive \<Longrightarrow> sema_step N s (goto_pc t Idle (s\<lparr>sem_val := 0\<rparr>))"

definition sema_init :: sys where
  "sema_init = \<lparr>sem_val = 0, pcs = (\<lambda>_. Idle)\<rparr>"

inductive sema_reachable :: "nat \<Rightarrow> sys \<Rightarrow> bool" for N :: nat where
  init: "sema_reachable N sema_init"
| step: "sema_reachable N s \<Longrightarrow> sema_step N s t \<Longrightarrow> sema_reachable N t"

section \<open>The invariant\<close>

fun holds_pc :: "pc \<Rightarrow> bool" where
  "holds_pc Inside = True"
| "holds_pc (UnlockCAS v) = True"
| "holds_pc _ = False"

fun owns_pc :: "pc \<Rightarrow> bool" where
  "owns_pc (SuspendWait v) = True"
| "owns_pc Exclusive = True"
| "owns_pc _ = False"

definition holders :: "nat \<Rightarrow> sys \<Rightarrow> nat set" where
  "holders N s = {t. t < N \<and> holds_pc (pcs s t)}"

definition owners :: "nat \<Rightarrow> sys \<Rightarrow> nat set" where
  "owners N s = {t. t < N \<and> owns_pc (pcs s t)}"

text \<open>The count of threads inside that the semaphore value stands for, given who owns it.\<close>

definition sema_inv :: "nat \<Rightarrow> sys \<Rightarrow> bool" where
  "sema_inv N s \<longleftrightarrow>
     (owners N s = {} \<longrightarrow> sem_val s = int (card (holders N s))) \<and>
     (\<forall>t v. at_pc N s t (SuspendWait v) \<longrightarrow>
        owners N s = {t} \<and> int (card (holders N s)) \<le> v \<and>
        sem_val s = int (card (holders N s)) - v - 1) \<and>
     (\<forall>t. at_pc N s t Exclusive \<longrightarrow> owners N s = {t} \<and> holders N s = {} \<and> sem_val s < 0
        \<and> - int N - 1 \<le> sem_val s) \<and>
     (\<forall>t v. at_pc N s t (LockCAS v) \<or> at_pc N s t (SuspendCAS v) \<longrightarrow> 0 \<le> v) \<and>
     (\<forall>t v. at_pc N s t (SuspendWait v) \<longrightarrow> v \<le> int N)"

lemma finite_holders [simp]: "finite (holders N s)"
  by (simp add: holders_def)

lemma card_holders_le: "card (holders N s) \<le> N"
proof -
  have "holders N s \<subseteq> {..<N}" by (auto simp: holders_def)
  then show ?thesis by (metis card_lessThan card_mono finite_lessThan)
qed

lemma sema_goto [simp]: "sem_val (goto_pc t c s) = sem_val s" "pcs (goto_pc t c s) = (pcs s)(t := c)"
  by (simp_all add: goto_pc_def)

lemma holders_goto: "t < N \<Longrightarrow>
   holders N (goto_pc t c s) = (if holds_pc c then insert t (holders N s) else holders N s - {t})"
  by (auto simp: holders_def)

lemma owners_goto: "t < N \<Longrightarrow>
   owners N (goto_pc t c s) = (if owns_pc c then insert t (owners N s) else owners N s - {t})"
  by (auto simp: owners_def)

lemma holders_sema [simp]: "holders N (s\<lparr>sem_val := x\<rparr>) = holders N s"
  by (simp add: holders_def)

lemma owners_sema [simp]: "owners N (s\<lparr>sem_val := x\<rparr>) = owners N s"
  by (simp add: owners_def)

lemma in_holders: "t < N \<Longrightarrow> t \<in> holders N s \<longleftrightarrow> holds_pc (pcs s t)"
  by (simp add: holders_def)

lemma in_owners: "t < N \<Longrightarrow> t \<in> owners N s \<longleftrightarrow> owns_pc (pcs s t)"
  by (simp add: owners_def)

lemma at_pc_goto: "at_pc N (goto_pc t c s) u d \<longleftrightarrow> u < N \<and> (if u = t then c = d else pcs s u = d)"
  by (auto simp: at_pc_def)

lemma at_pc_sema [simp]: "at_pc N (s\<lparr>sem_val := x\<rparr>) = at_pc N s"
  by (auto simp: at_pc_def fun_eq_iff)

lemma at_pcD: "at_pc N s t c \<Longrightarrow> t < N" "at_pc N s t c \<Longrightarrow> pcs s t = c"
  by (simp_all add: at_pc_def)

lemma sema_inv_wait:
  "sema_inv N s \<Longrightarrow> at_pc N s t (SuspendWait v) \<Longrightarrow>
   owners N s = {t} \<and> int (card (holders N s)) \<le> v \<and> sem_val s = int (card (holders N s)) - v - 1 \<and> v \<le> int N"
  by (simp add: sema_inv_def)

lemma sema_inv_excl:
  "sema_inv N s \<Longrightarrow> at_pc N s t Exclusive \<Longrightarrow>
   owners N s = {t} \<and> holders N s = {} \<and> sem_val s < 0 \<and> - int N - 1 \<le> sem_val s"
  by (simp add: sema_inv_def)

lemma owns_pcE:
  assumes "t < N" and "owns_pc (pcs s t)"
  obtains v where "at_pc N s t (SuspendWait v)" | "at_pc N s t Exclusive"
  using assms by (cases "pcs s t") (auto simp: at_pc_def)

lemma sema_inv_owner:
  assumes "sema_inv N s" and "t < N" and "owns_pc (pcs s t)"
  shows "sem_val s < 0" and "owners N s = {t}" and "- int N - 1 \<le> sem_val s"
proof -
  have "sem_val s < 0 \<and> owners N s = {t} \<and> - int N - 1 \<le> sem_val s"
    using assms(2,3)
  proof (rule owns_pcE)
    fix v
    assume "at_pc N s t (SuspendWait v)"
    from sema_inv_wait [OF assms(1) this] show ?thesis by auto
  next
    assume "at_pc N s t Exclusive"
    from sema_inv_excl [OF assms(1) this] show ?thesis by auto
  qed
  then show "sem_val s < 0" and "owners N s = {t}" and "- int N - 1 \<le> sem_val s" by auto
qed

lemma sema_inv_no_owner:
  assumes "sema_inv N s" and "0 \<le> sem_val s"
  shows "owners N s = {}" and "sem_val s = int (card (holders N s))"
proof -
  show "owners N s = {}"
    using assms sema_inv_owner [OF assms(1)] by (fastforce simp: owners_def)
  then show "sem_val s = int (card (holders N s))"
    using assms(1) by (simp add: sema_inv_def)
qed

text \<open>Steps that change neither the counter nor who is inside.\<close>

lemma sema_inv_quiet:
  assumes "sema_inv N s" and "t < N"
    and "holds_pc c = holds_pc (pcs s t)" and "\<not> owns_pc c" and "\<not> owns_pc (pcs s t)"
    and "\<And>v. c = LockCAS v \<or> c = SuspendCAS v \<Longrightarrow> 0 \<le> v"
  shows "sema_inv N (goto_pc t c s)"
proof -
  have h: "holders N (goto_pc t c s) = holders N s" and o: "owners N (goto_pc t c s) = owners N s"
    using assms by (auto simp: holders_goto owners_goto in_holders in_owners)
  show ?thesis
    using assms unfolding sema_inv_def h o at_pc_goto sema_goto
    by (auto simp: at_pc_def)
qed

lemma sema_inv_lock:
  assumes "sema_inv N s" and "at_pc N s t (LockCAS v)" and "sem_val s = v"
  shows "sema_inv N (goto_pc t Inside (s\<lparr>sem_val := v + 1\<rparr>))"
proof -
  have v: "0 \<le> v" using assms(1,2) by (auto simp: sema_inv_def)
  note o = sema_inv_no_owner [OF assms(1)]
  have t: "t < N" "t \<notin> holders N s" using assms(2) by (auto simp: at_pc_def holders_def)
  have own: "owners N s = {}" using o(1) v assms(3) by simp
  then have none: "\<not> owns_pc (pcs s u)" if "u < N" for u using that by (auto simp: owners_def)
  show ?thesis
    unfolding sema_inv_def
    using t o v assms none by (auto simp: holders_goto owners_goto at_pc_goto own sema_inv_def)
      (auto simp: at_pc_def dest: none)
qed

lemma card_holders_Diff: "t \<in> holders N s \<Longrightarrow> int (card (holders N s - {t})) = int (card (holders N s)) - 1"
  by (metis card_Suc_Diff1 finite_holders of_nat_Suc add_diff_cancel_left')

lemma sema_inv_unlock:
  assumes "sema_inv N s" and "at_pc N s t (UnlockCAS v)" and "sem_val s = v"
  shows "sema_inv N (goto_pc t Idle (s\<lparr>sem_val := v - 1\<rparr>))"
proof -
  let ?s = "goto_pc t Idle (s\<lparr>sem_val := v - 1\<rparr>)"
  have t: "t < N" "t \<in> holders N s" "t \<notin> owners N s"
    using assms(2) by (auto simp: at_pc_def holders_def owners_def)
  have noex: "\<not> at_pc N s u Exclusive" for u
    using assms(1) t(2) by (auto simp: sema_inv_def)
  have h: "int (card (holders N ?s)) = int (card (holders N s)) - 1" and o: "owners N ?s = owners N s"
    using t card_holders_Diff [OF t(2)] by (simp_all add: holders_goto owners_goto)
  have pc: "at_pc N ?s u d \<Longrightarrow> d \<noteq> Idle \<Longrightarrow> at_pc N s u d" for u d
    by (auto simp: at_pc_def split: if_splits)
  have v: "sem_val ?s = sem_val s - 1" using assms(3) by simp
  have "owners N s = {} \<longrightarrow> sem_val s = int (card (holders N s))"
    and cas: "at_pc N s u (LockCAS x) \<or> at_pc N s u (SuspendCAS x) \<longrightarrow> 0 \<le> x" for u x
    using assms(1) by (simp_all add: sema_inv_def)
  moreover have "at_pc N ?s u (SuspendWait x) \<longrightarrow> owners N s = {u} \<and>
      int (card (holders N s)) - 1 \<le> x \<and> sem_val s - 1 = int (card (holders N s)) - 1 - x - 1 \<and> x \<le> int N" for u x
    using sema_inv_wait [OF assms(1), of u x] pc [of u "SuspendWait x"] by auto
  moreover have "\<not> at_pc N ?s u Exclusive" for u
    using noex [of u] pc [of u Exclusive] by auto
  moreover have "at_pc N ?s u (LockCAS x) \<or> at_pc N ?s u (SuspendCAS x) \<longrightarrow> 0 \<le> x" for u x
    using cas [of u x] pc [of u "LockCAS x"] pc [of u "SuspendCAS x"] by auto
  ultimately show ?thesis
    unfolding sema_inv_def h o v by simp
qed

lemma sema_inv_suspend:
  assumes "sema_inv N s" and "at_pc N s t (SuspendCAS v)" and "sem_val s = v"
  shows "sema_inv N (goto_pc t (SuspendWait v) (s\<lparr>sem_val := -1\<rparr>))"
proof -
  have v: "0 \<le> v" using assms(1,2) by (auto simp: sema_inv_def)
  note o = sema_inv_no_owner [OF assms(1)]
  have t: "t < N" "t \<notin> holders N s" using assms(2) by (auto simp: at_pc_def holders_def)
  have none: "\<not> owns_pc (pcs s u)" if "u < N" for u
    using o(1) v assms(3) that by (auto simp: owners_def)
  have "v \<le> int N" using o(2) v assms(3) card_holders_le [of N s] by simp
  then show ?thesis
    using t o v assms none unfolding sema_inv_def
    by (auto simp: holders_goto owners_goto at_pc_goto) (auto simp: at_pc_def dest: none)
qed

lemma sema_inv_exclusive:
  assumes "sema_inv N s" and "at_pc N s t (SuspendWait v)" and "v = 0 \<or> sem_val s = 0 - v - 1"
  shows "sema_inv N (goto_pc t Exclusive s)"
proof -
  have t: "t < N" "t \<notin> holders N s" using assms(2) by (auto simp: at_pc_def holders_def)
  have w: "owners N s = {t}" "int (card (holders N s)) \<le> v"
      "sem_val s = int (card (holders N s)) - v - 1" "v \<le> int N"
    using assms(1,2) by (auto simp: sema_inv_def)
  then have "card (holders N s) = 0" using assms(3) by auto
  then have e: "holders N s = {}" by simp
  have none: "\<not> owns_pc (pcs s u)" if "u < N" "u \<noteq> t" for u
    using w(1) that by (auto simp: owners_def)
  show ?thesis
    using t w e assms(1) none unfolding sema_inv_def
    by (auto simp: holders_goto owners_goto at_pc_goto) (auto simp: at_pc_def dest: none)
qed

lemma sema_inv_release:
  assumes "sema_inv N s" and "at_pc N s t Exclusive"
  shows "sema_inv N (goto_pc t Idle (s\<lparr>sem_val := 0\<rparr>))"
proof -
  have t: "t < N" "t \<notin> holders N s" using assms(2) by (auto simp: at_pc_def holders_def)
  have w: "owners N s = {t}" "holders N s = {}" using assms by (auto simp: sema_inv_def)
  have none: "\<not> owns_pc (pcs s u)" if "u < N" "u \<noteq> t" for u
    using w(1) that by (auto simp: owners_def)
  show ?thesis
    using t w assms(1) none unfolding sema_inv_def
    by (auto simp: holders_goto owners_goto at_pc_goto) (auto simp: at_pc_def dest: none)
qed

lemma CAS_cases:
  assumes "CAS c e d = (ok, c', e')"
  obtains "ok" "c = e" "c' = d" | "\<not> ok" "c \<noteq> e" "c' = c"
  using assms by (auto simp: CAS_def split: if_splits)

lemma sys_sema_id [simp]: "s\<lparr>sem_val := sem_val s\<rparr> = s"
  by simp

lemma sema_step_inv:
  assumes "sema_step N s s'" and "sema_inv N s"
  shows "sema_inv N s'"
  using assms
proof (induction rule: sema_step.induct)
  case (lock_cas s t val sema' e)
  then show ?case by (auto elim!: CAS_cases intro: sema_inv_lock)
next
  case (unlock_cas s t val sema' e)
  then show ?case by (auto elim!: CAS_cases intro: sema_inv_unlock)
next
  case (suspend_cas s t val sema' e)
  then show ?case by (auto elim!: CAS_cases intro: sema_inv_suspend)
next
  case (suspend_done s t val)
  then show ?case by (auto intro: sema_inv_exclusive)
next
  case (release s t)
  then show ?case by (auto intro: sema_inv_release)
qed (auto elim!: CAS_cases intro!: sema_inv_quiet dest: at_pcD)

lemma sema_inv_init: "sema_inv N sema_init"
  by (simp add: sema_inv_def sema_init_def holders_def owners_def at_pc_def)

lemma sema_reachable_inv: "sema_reachable N s \<Longrightarrow> sema_inv N s"
  by (induction rule: sema_reachable.induct) (auto intro: sema_inv_init sema_step_inv)

section \<open>What the protocol guarantees\<close>

text \<open>C23: mutual exclusion. When \<^verbatim>\<open>suspend\<close> has returned true in one thread, no other thread is
  inside a \<^verbatim>\<open>lock\<close>/\<^verbatim>\<open>unlock\<close> section and none has exclusive access, in every interleaving of any
  number of threads.\<close>

theorem suspend_excludes:
  assumes "sema_reachable N s" and "at_pc N s t Exclusive" and "u < N" and "u \<noteq> t"
  shows "\<not> holds_pc (pcs s u) \<and> pcs s u \<noteq> Exclusive"
proof -
  have "owners N s = {t}" "holders N s = {}"
    using sema_reachable_inv [OF assms(1)] assms(2) by (auto simp: sema_inv_def)
  with assms(3,4) show ?thesis by (auto simp: owners_def holders_def)
qed

text \<open>A run of two threads: the first one suspends while the second is idle.\<close>

definition demo_exclusive :: sys where
  "demo_exclusive = \<lparr>sem_val = -1, pcs = (\<lambda>_. Idle)(0 := Exclusive)\<rparr>"

lemma demo_exclusive_reachable: "sema_reachable 2 demo_exclusive"
proof -
  let ?s = "\<lambda>x c. \<lparr>sem_val = x, pcs = (\<lambda>_. Idle)(0 := c)\<rparr>"
  note d = at_pc_def goto_pc_def
  have s1: "sema_reachable 2 (?s 0 SuspendRead)"
    using sema_step.call_suspend [of 2 sema_init 0]
    by (intro sema_reachable.step [OF sema_reachable.init]) (simp add: d sema_init_def)
  have s2: "sema_reachable 2 (?s 0 (SuspendCAS 0))"
    using sema_step.suspend_read [of 2 "?s 0 SuspendRead" 0]
    by (intro sema_reachable.step [OF s1]) (simp add: d)
  have s3: "sema_reachable 2 (?s (-1) (SuspendWait 0))"
    using sema_step.suspend_cas [of 2 "?s 0 (SuspendCAS 0)" 0 0]
    by (intro sema_reachable.step [OF s2]) (simp add: d)
  show ?thesis
    using sema_step.suspend_done [of 2 "?s (-1) (SuspendWait 0)" 0 0]
    unfolding demo_exclusive_def
    by (intro sema_reachable.step [OF s3]) (simp add: d)
qed

theorem suspend_excludes_witness:
  "sema_reachable 2 demo_exclusive \<and> at_pc 2 demo_exclusive 0 Exclusive \<and> pcs demo_exclusive 1 \<noteq> Exclusive"
proof -
  have h: "at_pc 2 demo_exclusive 0 Exclusive" by (simp add: at_pc_def demo_exclusive_def)
  show ?thesis
    using suspend_excludes [OF demo_exclusive_reachable h, of 1] demo_exclusive_reachable h by simp
qed

text \<open>The wait loop of \<^verbatim>\<open>suspend\<close> ends exactly when the last thread that was inside has left:
  while a thread waits with the value \<open>v\<close> it swapped out, its exit condition holds if and
  only if nobody is inside.\<close>

theorem suspend_wait_exact:
  assumes "sema_reachable N s" and "at_pc N s t (SuspendWait v)"
  shows "v = 0 \<or> sem_val s = 0 - v - 1 \<longleftrightarrow> holders N s = {}"
proof -
  have "int (card (holders N s)) \<le> v" "sem_val s = int (card (holders N s)) - v - 1"
    using sema_reachable_inv [OF assms(1)] assms(2) by (auto simp: sema_inv_def)
  then show ?thesis by (auto simp: card_eq_0_iff)
qed

definition demo_waiting :: sys where
  "demo_waiting = \<lparr>sem_val = -1, pcs = (\<lambda>_. Idle)(0 := SuspendWait 0)\<rparr>"

lemma demo_waiting_reachable: "sema_reachable 2 demo_waiting"
proof -
  let ?s = "\<lambda>x c. \<lparr>sem_val = x, pcs = (\<lambda>_. Idle)(0 := c)\<rparr>"
  note d = at_pc_def goto_pc_def
  have s1: "sema_reachable 2 (?s 0 SuspendRead)"
    using sema_step.call_suspend [of 2 sema_init 0]
    by (intro sema_reachable.step [OF sema_reachable.init]) (simp add: d sema_init_def)
  have s2: "sema_reachable 2 (?s 0 (SuspendCAS 0))"
    using sema_step.suspend_read [of 2 "?s 0 SuspendRead" 0]
    by (intro sema_reachable.step [OF s1]) (simp add: d)
  show ?thesis
    using sema_step.suspend_cas [of 2 "?s 0 (SuspendCAS 0)" 0 0]
    unfolding demo_waiting_def
    by (intro sema_reachable.step [OF s2]) (simp add: d)
qed

theorem suspend_wait_exact_witness:
  "at_pc 2 demo_waiting 0 (SuspendWait 0) \<and> holders 2 demo_waiting = {}"
proof -
  have h: "at_pc 2 demo_waiting 0 (SuspendWait 0)" by (simp add: at_pc_def demo_waiting_def)
  show ?thesis using suspend_wait_exact [OF demo_waiting_reachable h] h by simp
qed

text \<open>Bounds. With \<open>N\<close> threads the semaphore stays between \<open>- N - 1\<close> and \<open>N\<close>, so the
  \<^verbatim>\<open>int64_t\<close> never wraps.\<close>

theorem sema_bounds:
  assumes "sema_reachable N s"
  shows "- int N - 1 \<le> sem_val s \<and> sem_val s \<le> int N"
proof -
  have i: "sema_inv N s" using assms by (rule sema_reachable_inv)
  have c: "int (card (holders N s)) \<le> int N" using card_holders_le by simp
  show ?thesis
  proof (cases "owners N s = {}")
    case True
    with i c show ?thesis by (simp add: sema_inv_def)
  next
    case False
    then obtain t where "t < N" "owns_pc (pcs s t)" by (auto simp: owners_def)
    from sema_inv_owner [OF i this] c show ?thesis by simp
  qed
qed

theorem sema_bounds_witness: "sema_reachable 2 demo_exclusive \<and> - 3 \<le> sem_val demo_exclusive"
  using sema_bounds [OF demo_exclusive_reachable] demo_exclusive_reachable by simp

end
