(* ===== verification/CCEH_Segment.thy ===== *)
theory CCEH_Segment
  imports Hash_Funcs Sema_Lock
begin

text \<open>
  The \<^verbatim>\<open>Segment\<close> of the persistent CCEH table (\<^verbatim>\<open>CCEH-PMDK/src/CCEH.h\<close> and \<^verbatim>\<open>CCEH.cpp\<close>): 1024
  slots probed in two windows of 32, the slot test of \<^verbatim>\<open>Insert\<close>, \<^verbatim>\<open>Insert4split\<close>, the cuckoo
  displacement of \<^verbatim>\<open>find_path\<close> and \<^verbatim>\<open>execute_path\<close>, and \<^verbatim>\<open>Split\<close> in its two builds. The
  lemmas describe a segment by the finite map it stores: a store in a free slot extends the
  map, and a split moves exactly the keys with the next hash bit set.
\<close>

unbundle bit_operations_syntax

section \<open>Constants and data\<close>

definition kSegmentBits :: nat where "kSegmentBits = 8"
definition kMask :: size_t where "kMask = 2 ^ kSegmentBits - 1"
definition kSegmentSize :: nat where "kSegmentSize = 2 ^ kSegmentBits * 16 * 4"
definition kNumPairPerCacheLine :: nat where "kNumPairPerCacheLine = 4"
definition kNumCacheLine :: nat where "kNumCacheLine = 8"
definition kCuckooThreshold :: nat where "kCuckooThreshold = 16"

definition sizeof_Pair :: nat where "sizeof_Pair = 16"
definition kNumSlot :: nat where "kNumSlot = kSegmentSize div sizeof_Pair"

definition f_seed :: size_t where "f_seed = 0xc70697"
definition s_seed :: size_t where "s_seed = 0xc70697"

text \<open>
  What the code takes from its surroundings: the library hash behind \<^verbatim>\<open>hash_funcs[0]\<close>, the two
  build switches, and the contents of a freshly allocated slot array, which
  \<^verbatim>\<open>POBJ_ALLOC\<close> leaves unspecified.
\<close>

record env =
  std :: std_hash
  INPLACE :: bool
  CUCKOO :: bool
  fresh :: "nat \<Rightarrow> Pair"

record Segment =
  bucket :: "Pair list"
  seg_sema :: int
  local_depth :: nat

definition raw_bucket :: "env \<Rightarrow> Pair list" where
  "raw_bucket E = map (fresh E) [0..<kNumSlot]"

definition initSegment :: "Pair list \<Rightarrow> nat \<Rightarrow> Segment" where
  "initSegment raw depth =
     \<lparr>bucket = map (\<lambda>p. p\<lparr>p_key := INVALID\<rparr>) raw, seg_sema = 0, local_depth = depth\<rparr>"

text \<open>The overload without an argument starts at depth 0.\<close>

definition initSegment0 :: "Pair list \<Rightarrow> Segment" where
  "initSegment0 raw = initSegment raw 0"

section \<open>Hashing and probing\<close>

definition f_hash :: "env \<Rightarrow> Key_t \<Rightarrow> size_t" where
  "f_hash E k = std E (key_bytes k) f_seed"

definition s_hash :: "Key_t \<Rightarrow> size_t" where
  "s_hash k = jenkins (key_bytes k) s_seed"

definition idx_of :: "size_t \<Rightarrow> nat" where
  "idx_of hash = unat (hash AND kMask) * kNumPairPerCacheLine"

definition window_at :: "nat \<Rightarrow> nat list" where
  "window_at loc = probe kNumSlot (kNumPairPerCacheLine * kNumCacheLine) loc"

abbreviation window :: "size_t \<Rightarrow> nat list" where
  "window hash \<equiv> window_at (idx_of hash)"

definition key_at :: "Segment \<Rightarrow> nat \<Rightarrow> Key_t" where
  "key_at seg loc = p_key (bucket seg ! loc)"

definition store_slot :: "Segment \<Rightarrow> nat \<Rightarrow> Key_t \<Rightarrow> Value_t \<Rightarrow> Segment" where
  "store_slot seg loc k v = seg\<lparr>bucket := (bucket seg)[loc := Pair_make k v]\<rparr>"

text \<open>The validity check of the insertion loops: the slot holds a key of another pattern or
  \<open>INVALID\<close>, and no thread has claimed it with \<open>SENTINEL\<close>.\<close>

definition slot_free :: "env \<Rightarrow> Segment \<Rightarrow> size_t \<Rightarrow> nat \<Rightarrow> bool" where
  "slot_free E seg pattern loc \<longleftrightarrow>
     (shr64 (f_hash E (key_at seg loc)) (64 - local_depth seg) \<noteq> pattern
        \<or> key_at seg loc = INVALID)
     \<and> key_at seg loc \<noteq> SENTINEL"

section \<open>Insert4split\<close>

definition Insert4split :: "Segment \<Rightarrow> Key_t \<Rightarrow> Value_t \<Rightarrow> nat \<Rightarrow> bool \<times> Segment" where
  "Insert4split seg k v loc =
     (case find (\<lambda>slot. key_at seg slot = INVALID) (window_at loc) of
        Some slot \<Rightarrow> (True, store_slot seg slot k v)
      | None \<Rightarrow> (False, seg))"

section \<open>Cuckoo displacement\<close>

text \<open>The alternative location of the entry at \<open>cur\<close>: the first \<open>j\<close> at which one of its two
  probe positions is \<open>cur\<close> gives the other one.\<close>

definition alternative :: "size_t \<Rightarrow> size_t \<Rightarrow> nat \<Rightarrow> nat option" where
  "alternative fh sh cur =
     (let f_at = (\<lambda>j. (idx_of fh + j) mod kNumSlot); s_at = (\<lambda>j. (idx_of sh + j) mod kNumSlot)
      in case find (\<lambda>j. f_at j = cur \<or> s_at j = cur) [0..<kNumPairPerCacheLine * kNumCacheLine] of
           None \<Rightarrow> None
         | Some j \<Rightarrow> Some (if f_at j = cur then s_at j else f_at j))"

text \<open>The \<^verbatim>\<open>do ... while(i < kCuckooThreshold)\<close> loop; \<open>n\<close> passes are left. The path comes with
  the number of passes made.\<close>

fun find_path_loop :: "env \<Rightarrow> Segment \<Rightarrow> size_t \<Rightarrow> nat \<Rightarrow> nat \<Rightarrow> nat \<times> (nat \<times> Key_t) list" where
  "find_path_loop E seg pattern 0 cur = (0, [])"
| "find_path_loop E seg pattern (Suc n) cur =
     (let k = key_at seg cur
      in if shr64 (f_hash E k) (64 - local_depth seg) \<noteq> pattern \<or> k = INVALID then (0, [])
         else let (entry, cur') =
                    (case alternative (f_hash E k) (s_hash k) cur of
                       None \<Rightarrow> ([], cur)
                     | Some nxt \<Rightarrow> ([(nxt, key_at seg nxt)], nxt));
                  (i, path) = find_path_loop E seg pattern n cur'
              in (Suc i, entry @ path))"

definition find_path :: "env \<Rightarrow> Segment \<Rightarrow> nat \<Rightarrow> size_t \<Rightarrow> (nat \<times> Key_t) list" where
  "find_path E seg target pattern =
     (let (i, path) = find_path_loop E seg pattern kCuckooThreshold target
      in if i = kCuckooThreshold then [] else (target, key_at seg target) # path)"

text \<open>The displacement of \<^verbatim>\<open>Insert\<close> moves entries from the end of the path backwards and then
  writes the new pair at its head.\<close>

fun shift_path :: "Pair list \<Rightarrow> nat list \<Rightarrow> Pair list" where
  "shift_path b [] = b"
| "shift_path b [loc] = b"
| "shift_path b (loc # loc' # path) =
     (let b' = shift_path b (loc' # path) in b'[loc' := b' ! loc])"

definition execute_path :: "Segment \<Rightarrow> (nat \<times> Key_t) list \<Rightarrow> Key_t \<Rightarrow> Value_t \<Rightarrow> Segment" where
  "execute_path seg path k v =
     store_slot (seg\<lparr>bucket := shift_path (bucket seg) (map fst path)\<rparr>) (fst (hd path)) k v"

text \<open>The displacement of \<^verbatim>\<open>Split\<close> carries a pair along the path, swapping it with each entry.\<close>

fun push_path :: "Pair list \<Rightarrow> nat list \<Rightarrow> Pair \<Rightarrow> Pair list" where
  "push_path b [] p = b"
| "push_path b (loc # path) p = push_path (b[loc := p]) path (b ! loc)"

definition execute_path_pair :: "Segment \<Rightarrow> (nat \<times> Key_t) list \<Rightarrow> Pair \<Rightarrow> Segment" where
  "execute_path_pair seg path p = seg\<lparr>bucket := push_path (bucket seg) (map fst path) p\<rparr>"

section \<open>Split\<close>

text \<open>
  The loop of the in-place build over the slots of the old segment. The state is the old
  segment (which the cuckoo branch rearranges), the new one, and the log of the pairs for
  which no place was found and which the loop drops.
\<close>

definition split_cuckoo :: "env \<Rightarrow> size_t \<Rightarrow> nat \<Rightarrow> Segment \<times> Segment \<times> Pair list
    \<Rightarrow> Segment \<times> Segment \<times> Pair list" where
  "split_cuckoo E pattern i = (\<lambda>(self, s1, lost).
     (let p = bucket self ! i;
          path1 = find_path E self (idx_of (f_hash E (p_key p))) pattern;
          path2 = find_path E self (idx_of (s_hash (p_key p))) pattern
      in if path1 = [] \<and> path2 = [] then (self, s1, lost @ [p])
         else if path1 = [] then (execute_path_pair self path2 p, s1, lost)
         else if path2 = [] then (execute_path_pair self path1 p, s1, lost)
         else if length path1 < length path2 then (execute_path_pair self path1 p, s1, lost)
         else (execute_path_pair self path2 p, s1, lost)))"

definition split_inplace_step :: "env \<Rightarrow> size_t \<Rightarrow> nat \<Rightarrow> Segment \<times> Segment \<times> Pair list
    \<Rightarrow> Segment \<times> Segment \<times> Pair list" where
  "split_inplace_step E pattern i = (\<lambda>(self, s1, lost).
     (let p = bucket self ! i; k = p_key p; v = p_value p; fh = f_hash E k
      in if fh AND pattern \<noteq> 0 then
           (case Insert4split s1 k v (idx_of fh) of
              (True, s1') \<Rightarrow> (self, s1', lost)
            | (False, _) \<Rightarrow>
                (case Insert4split s1 k v (idx_of (s_hash k)) of
                   (True, s1') \<Rightarrow> (self, s1', lost)
                 | (False, _) \<Rightarrow>
                     if CUCKOO E then split_cuckoo E pattern i (self, s1, lost)
                     else (self, s1, lost @ [p])))
         else (self, s1, lost)))"

definition split_bit :: "nat \<Rightarrow> size_t" where
  "split_bit ld = push_bit (64 - ld - 1) 1"

definition split_inplace :: "env \<Rightarrow> Segment \<Rightarrow> Segment \<times> Segment \<times> Pair list" where
  "split_inplace E seg =
     fold (split_inplace_step E (split_bit (local_depth seg))) [0..<kNumSlot]
       (seg, initSegment (raw_bucket E) (local_depth seg + 1), [])"

text \<open>The copy-on-write build distributes the slots over two new segments and only tries the
  first window of each key.\<close>

definition split_cow_step :: "env \<Rightarrow> Segment \<Rightarrow> nat \<Rightarrow> Segment \<times> Segment \<times> Pair list
    \<Rightarrow> Segment \<times> Segment \<times> Pair list" where
  "split_cow_step E seg i = (\<lambda>(s0, s1, lost).
     (let p = bucket seg ! i; k = p_key p; v = p_value p; fh = hash_h (std E) (key_bytes k) h_seed
      in if fh AND split_bit (local_depth seg) \<noteq> 0 then
           (case Insert4split s1 k v (idx_of fh) of
              (True, s1') \<Rightarrow> (s0, s1', lost)
            | (False, _) \<Rightarrow> (s0, s1, lost @ [p]))
         else
           (case Insert4split s0 k v (idx_of fh) of
              (True, s0') \<Rightarrow> (s0', s1, lost)
            | (False, _) \<Rightarrow> (s0, s1, lost @ [p]))))"

definition split_cow :: "env \<Rightarrow> Segment \<Rightarrow> Segment \<times> Segment \<times> Pair list" where
  "split_cow E seg =
     fold (split_cow_step E seg) [0..<kNumSlot]
       (initSegment (raw_bucket E) (local_depth seg + 1),
        initSegment (raw_bucket E) (local_depth seg + 1), [])"

section \<open>The lookup loop of Get on a segment\<close>

definition seg_get :: "env \<Rightarrow> Segment \<Rightarrow> Key_t \<Rightarrow> Value_t" where
  "seg_get E seg k =
     (case find (\<lambda>loc. key_at seg loc = k) (window (f_hash E k)) of
        Some loc \<Rightarrow> p_value (bucket seg ! loc)
      | None \<Rightarrow>
          (case find (\<lambda>loc. key_at seg loc = k) (window (s_hash k)) of
             Some loc \<Rightarrow> p_value (bucket seg ! loc)
           | None \<Rightarrow> NONE))"

section \<open>A segment as a map\<close>

definition seg_map :: "Segment \<Rightarrow> Key_t \<Rightarrow> Value_t option" where
  "seg_map seg k =
     (if k = INVALID then None else map_option p_value (find (\<lambda>p. p_key p = k) (bucket seg)))"

definition windows :: "env \<Rightarrow> Key_t \<Rightarrow> nat set" where
  "windows E k = set (window (f_hash E k)) \<union> set (window (s_hash k))"

text \<open>Every stored key lies in one of its two windows, no key is stored twice, and no slot is
  left claimed.\<close>

definition seg_ok :: "env \<Rightarrow> Segment \<Rightarrow> bool" where
  "seg_ok E seg \<longleftrightarrow>
     length (bucket seg) = kNumSlot \<and>
     (\<forall>i < kNumSlot. key_at seg i \<noteq> INVALID \<longrightarrow> i \<in> windows E (key_at seg i)) \<and>
     (\<forall>i < kNumSlot. \<forall>j < kNumSlot. key_at seg i = key_at seg j \<longrightarrow> key_at seg i \<noteq> INVALID \<longrightarrow> i = j) \<and>
     (\<forall>i < kNumSlot. key_at seg i \<noteq> SENTINEL)"

lemma kNumSlot_eq: "kNumSlot = 1024"
  by (simp add: kNumSlot_def kSegmentSize_def kSegmentBits_def sizeof_Pair_def)

lemma kNumSlot_pos [simp]: "0 < kNumSlot"
  by (simp add: kNumSlot_eq)

lemma window_at_bound: "loc \<in> set (window_at i) \<Longrightarrow> loc < kNumSlot"
  by (auto simp: window_at_def intro: probe_bound)

lemma windows_bound: "loc \<in> windows E k \<Longrightarrow> loc < kNumSlot"
  by (auto simp: windows_def dest: window_at_bound)

lemma seg_ok_length: "seg_ok E seg \<Longrightarrow> length (bucket seg) = kNumSlot"
  by (simp add: seg_ok_def)

lemma seg_ok_unique:
  "seg_ok E seg \<Longrightarrow> i < kNumSlot \<Longrightarrow> j < kNumSlot \<Longrightarrow> key_at seg i = key_at seg j \<Longrightarrow>
   key_at seg i \<noteq> INVALID \<Longrightarrow> i = j"
  by (simp add: seg_ok_def)

lemma seg_ok_window:
  "seg_ok E seg \<Longrightarrow> i < kNumSlot \<Longrightarrow> key_at seg i \<noteq> INVALID \<Longrightarrow> i \<in> windows E (key_at seg i)"
  by (simp add: seg_ok_def)

lemma seg_map_None:
  "length (bucket seg) = kNumSlot \<Longrightarrow> k \<noteq> INVALID \<Longrightarrow>
   seg_map seg k = None \<longleftrightarrow> (\<forall>i < kNumSlot. key_at seg i \<noteq> k)"
  by (auto simp: seg_map_def find_None_iff key_at_def in_set_conv_nth)

lemma seg_map_at:
  assumes "seg_ok E seg" and "i < kNumSlot" and "key_at seg i \<noteq> INVALID"
  shows "seg_map seg (key_at seg i) = Some (p_value (bucket seg ! i))"
proof -
  let ?k = "key_at seg i"
  have "seg_map seg ?k \<noteq> None"
    using assms seg_map_None [OF seg_ok_length [OF assms(1)], of ?k] by auto
  then obtain p where p: "find (\<lambda>p. p_key p = ?k) (bucket seg) = Some p"
    using assms(3) by (auto simp: seg_map_def)
  then obtain j where "j < kNumSlot" "bucket seg ! j = p" "key_at seg j = ?k"
    using seg_ok_length [OF assms(1)] find_SomeD [OF p] by (auto simp: in_set_conv_nth key_at_def)
  then have "p = bucket seg ! i"
    using seg_ok_unique [OF assms(1), of j i] assms by auto
  then show ?thesis using p assms(3) by (simp add: seg_map_def)
qed

lemma seg_map_SomeE:
  assumes "seg_ok E seg" and "seg_map seg k = Some v"
  obtains i where "i < kNumSlot" "key_at seg i = k" "p_value (bucket seg ! i) = v" "k \<noteq> INVALID"
proof -
  have k: "k \<noteq> INVALID" using assms(2) by (auto simp: seg_map_def split: if_splits)
  then obtain i where "i < kNumSlot" "key_at seg i = k"
    using assms seg_map_None [OF seg_ok_length [OF assms(1)] k] by fastforce
  with that k assms seg_map_at [OF assms(1), of i] show thesis by auto
qed

lemma seg_map_INVALID [simp]: "seg_map seg INVALID = None"
  by (simp add: seg_map_def)

lemma seg_get_map:
  assumes ok: "seg_ok E seg" and k: "k \<noteq> INVALID"
  shows "seg_get E seg k = (case seg_map seg k of None \<Rightarrow> NONE | Some v \<Rightarrow> v)"
proof (cases "seg_map seg k")
  case None
  then have "\<forall>i < kNumSlot. key_at seg i \<noteq> k"
    using seg_map_None [OF seg_ok_length [OF ok] k] by simp
  then have "find (\<lambda>loc. key_at seg loc = k) (window_at j) = None" for j
    by (auto simp: find_None_iff dest: window_at_bound)
  with None show ?thesis by (simp add: seg_get_def)
next
  case (Some v)
  then obtain i where i: "i < kNumSlot" "key_at seg i = k" "p_value (bucket seg ! i) = v"
    using ok by (elim seg_map_SomeE)
  have only: "loc = i" if "key_at seg loc = k" "loc \<in> set (window_at j)" for loc j
    using seg_ok_unique [OF ok, of loc i] window_at_bound that i k by simp
  have "i \<in> windows E k" using seg_ok_window [OF ok, of i] i k by simp
  then show ?thesis
    using Some i(2,3) only unfolding seg_get_def windows_def
    by (auto split: option.splits dest: find_SomeD simp: find_None_iff)
qed

lemma key_at_store:
  "loc < kNumSlot \<Longrightarrow> length (bucket seg) = kNumSlot \<Longrightarrow>
   key_at (store_slot seg loc k v) i = (if i = loc then k else key_at seg i)"
  by (simp add: key_at_def store_slot_def)

lemma bucket_store:
  "loc < kNumSlot \<Longrightarrow> length (bucket seg) = kNumSlot \<Longrightarrow>
   bucket (store_slot seg loc k v) ! i = (if i = loc then Pair_make k v else bucket seg ! i)"
  by (simp add: store_slot_def)

lemma store_slot_fields [simp]:
  "local_depth (store_slot seg loc k v) = local_depth seg"
  "seg_sema (store_slot seg loc k v) = seg_sema seg"
  "length (bucket (store_slot seg loc k v)) = length (bucket seg)"
  by (simp_all add: store_slot_def)

text \<open>When a pair may be written: an \<open>INVALID\<close> key anywhere, another key in one of its windows
  and only if no other slot holds it.\<close>

definition storable :: "env \<Rightarrow> Segment \<Rightarrow> nat \<Rightarrow> Key_t \<Rightarrow> bool" where
  "storable E seg loc k \<longleftrightarrow> loc < kNumSlot \<and>
     (k = INVALID \<or> loc \<in> windows E k \<and> k \<noteq> SENTINEL \<and> (\<forall>i < kNumSlot. key_at seg i \<noteq> k))"

lemma seg_ok_store:
  assumes "seg_ok E seg" and "storable E seg loc k"
  shows "seg_ok E (store_slot seg loc k v)"
  using assms unfolding seg_ok_def storable_def by (auto simp: key_at_store)

lemma seg_map_store:
  assumes ok: "seg_ok E seg" and st: "storable E seg loc k"
  shows "seg_map (store_slot seg loc k v) k' =
    (if k' = INVALID then None else if k' = k then Some v
     else if k' = key_at seg loc then None else seg_map seg k')"
proof -
  let ?s = "store_slot seg loc k v"
  have loc: "loc < kNumSlot" and len: "length (bucket seg) = kNumSlot"
    using st ok by (simp_all add: storable_def seg_ok_length)
  note key = key_at_store [OF loc len]
  note ok' = seg_ok_store [OF ok st, of v]
  show ?thesis
  proof (cases "k' = INVALID \<or> k' = k")
    case True
    then show ?thesis
      using seg_map_at [OF ok', of loc] loc len by (auto simp: key bucket_store)
  next
    case False
    show ?thesis
    proof (cases "seg_map ?s k'")
      case None
      then have n: "key_at ?s i \<noteq> k'" if "i < kNumSlot" for i
        using seg_map_None [of ?s k'] len False that by simp
      have "key_at seg i \<noteq> k'" if "i < kNumSlot" "k' \<noteq> key_at seg loc" for i
        using n [OF that(1)] that(2) False by (auto simp: key split: if_splits)
      then show ?thesis using None False seg_map_None [OF len, of k'] by auto
    next
      case (Some w)
      then obtain i where "i < kNumSlot" "key_at ?s i = k'" "p_value (bucket ?s ! i) = w"
        using ok' by (elim seg_map_SomeE)
      then have i: "i < kNumSlot" "i \<noteq> loc" "key_at seg i = k'" "p_value (bucket seg ! i) = w"
        using False loc len by (auto simp: key bucket_store split: if_splits)
      then have "k' \<noteq> key_at seg loc" using seg_ok_unique [OF ok, of i loc] loc False by auto
      then show ?thesis using Some False seg_map_at [OF ok, of i] i by auto
    qed
  qed
qed

section \<open>Splitting preserves the map\<close>

lemma Insert4split_cases:
  assumes "Insert4split s k v loc = (ok, s')"
  obtains slot where "ok" "slot \<in> set (window_at loc)" "key_at s slot = INVALID" "s' = store_slot s slot k v"
  | "\<not> ok" "s' = s" "\<forall>slot \<in> set (window_at loc). key_at s slot \<noteq> INVALID"
proof (cases "find (\<lambda>slot. key_at s slot = INVALID) (window_at loc)")
  case None
  with assms that(2) show thesis by (auto simp: Insert4split_def find_None_iff)
next
  case (Some slot)
  with assms that(1) [of slot] find_SomeD [OF Some] show thesis by (simp add: Insert4split_def)
qed

lemma seg_ok_earlier:
  "seg_ok E seg \<Longrightarrow> n < kNumSlot \<Longrightarrow> key_at seg n \<noteq> INVALID \<Longrightarrow> i < n \<Longrightarrow> key_at seg i \<noteq> key_at seg n"
  by (metis less_trans nat_neq_iff seg_ok_unique)

text \<open>
  One new segment after the first \<open>n\<close> slots of \<open>seg\<close>: it holds the keys among them that belong
  to its side \<open>B\<close>, except the dropped ones, with their values.
\<close>

definition side_inv :: "env \<Rightarrow> Segment \<Rightarrow> (Key_t \<Rightarrow> bool) \<Rightarrow> nat \<Rightarrow> Segment \<Rightarrow> Pair list \<Rightarrow> bool" where
  "side_inv E seg B n s lost \<longleftrightarrow>
     seg_ok E s \<and> local_depth s = Suc (local_depth seg) \<and> seg_sema s = 0 \<and>
     (\<forall>k. seg_map s k =
        (if B k \<and> k \<notin> p_key ` set lost \<and> (\<exists>i < n. key_at seg i = k) then seg_map seg k else None))"

definition lost_inv :: "Segment \<Rightarrow> nat \<Rightarrow> Pair list \<Rightarrow> bool" where
  "lost_inv seg n lost \<longleftrightarrow> (\<forall>p \<in> set lost. \<exists>i < n. key_at seg i = p_key p)"

lemma initSegment_ok:
  "length raw = kNumSlot \<Longrightarrow> seg_ok E (initSegment raw d)"
  by (simp add: seg_ok_def initSegment_def key_at_def)

lemma initSegment_fields [simp]:
  "local_depth (initSegment raw d) = d" "seg_sema (initSegment raw d) = 0"
  by (simp_all add: initSegment_def)

lemma length_raw_bucket [simp]: "length (raw_bucket E) = kNumSlot"
  by (simp add: raw_bucket_def)

lemma initSegment_map:
  assumes "length raw = kNumSlot"
  shows "seg_map (initSegment raw d) k = None"
proof (cases "k = INVALID")
  case False
  then have "seg_map (initSegment raw d) k = None \<longleftrightarrow> (\<forall>i < kNumSlot. key_at (initSegment raw d) i \<noteq> k)"
    by (intro seg_map_None) (simp_all add: initSegment_def assms)
  then show ?thesis using assms False by (simp add: initSegment_def key_at_def)
qed simp

lemma side_inv_init: "side_inv E seg B 0 (initSegment (raw_bucket E) (local_depth seg + 1)) []"
  by (simp add: side_inv_def initSegment_ok initSegment_map)

lemma side_inv_other:
  assumes "side_inv E seg B n s lost" and "\<not> B (key_at seg n)"
  shows "side_inv E seg B (Suc n) s lost"
    and "p_key p = key_at seg n \<Longrightarrow> side_inv E seg B (Suc n) s (lost @ [p])"
proof -
  have "(B k \<and> k \<notin> p_key ` set lost \<and> (\<exists>i < n. key_at seg i = k)) =
        (B k \<and> k \<notin> p_key ` set lost \<and> (\<exists>i < Suc n. key_at seg i = k))" for k
    using assms(2) by (auto simp: less_Suc_eq)
  then show *: "side_inv E seg B (Suc n) s lost" using assms(1) by (simp add: side_inv_def)
  assume "p_key p = key_at seg n"
  then have "(B k \<and> k \<notin> p_key ` set (lost @ [p])) = (B k \<and> k \<notin> p_key ` set lost)" for k
    using assms(2) by auto
  then have "(B k \<and> k \<notin> p_key ` set (lost @ [p]) \<and> X) = (B k \<and> k \<notin> p_key ` set lost \<and> X)" for k X
    by metis
  with * show "side_inv E seg B (Suc n) s (lost @ [p])" unfolding side_inv_def by presburger
qed

lemma side_inv_none: "side_inv E seg B n s lost \<Longrightarrow> \<not> (\<exists>i < n. key_at seg i = k) \<Longrightarrow> seg_map s k = None"
  by (auto simp: side_inv_def)

lemma side_inv_drop:
  assumes "side_inv E seg B n s lost" and "p_key p = key_at seg n"
    and ok: "seg_ok E seg" and n: "n < kNumSlot"
  shows "side_inv E seg B (Suc n) s (lost @ [p])"
proof -
  have "seg_map s k = (if B k \<and> k \<notin> p_key ` set (lost @ [p]) \<and> (\<exists>i < Suc n. key_at seg i = k)
      then seg_map seg k else None)" for k
  proof (cases "k = key_at seg n \<and> k \<noteq> INVALID")
    case True
    then have "\<not> (\<exists>i < n. key_at seg i = k)"
      using seg_ok_earlier [OF ok n] by metis
    then have "seg_map s k = None" using assms(1) by (rule side_inv_none [rotated])
    then show ?thesis using True assms(2) by auto
  next
    case False
    then show ?thesis using assms(1,2) by (auto simp: side_inv_def less_Suc_eq)
  qed
  with assms(1) show ?thesis by (simp add: side_inv_def)
qed

lemma side_inv_place:
  assumes inv: "side_inv E seg B n s lost" and lost: "lost_inv seg n lost"
    and ok: "seg_ok E seg" and n: "n < kNumSlot" and B: "B (key_at seg n)"
    and slot: "slot \<in> windows E (key_at seg n)" "key_at s slot = INVALID"
  shows "side_inv E seg B (Suc n) (store_slot s slot (key_at seg n) (p_value (bucket seg ! n))) lost"
proof -
  let ?k = "key_at seg n" and ?v = "p_value (bucket seg ! n)"
  have new: "\<not> (\<exists>i < n. key_at seg i = ?k)" if "?k \<noteq> INVALID"
    using seg_ok_earlier [OF ok n that] by blast
  have sok: "seg_ok E s" using inv by (simp add: side_inv_def)
  have "\<forall>i < kNumSlot. key_at s i \<noteq> ?k" if "?k \<noteq> INVALID"
    using seg_map_None [OF seg_ok_length [OF sok] that] side_inv_none [OF inv new [OF that]] by simp
  moreover have "?k \<noteq> SENTINEL" using ok n by (simp add: seg_ok_def)
  ultimately have st: "storable E s slot ?k"
    using slot(1) windows_bound by (auto simp: storable_def)
  have "seg_map (store_slot s slot ?k ?v) k = (if B k \<and> k \<notin> p_key ` set lost \<and>
      (\<exists>i < Suc n. key_at seg i = k) then seg_map seg k else None)" for k
  proof (cases "k = ?k \<and> k \<noteq> INVALID")
    case True
    then have "k \<notin> p_key ` set lost" using lost new unfolding lost_inv_def by fastforce
    then show ?thesis
      using True B seg_map_at [OF ok n] by (auto simp: seg_map_store [OF sok st])
  next
    case False
    then show ?thesis
      using inv slot(2) by (auto simp: seg_map_store [OF sok st] side_inv_def less_Suc_eq)
  qed
  then show ?thesis using inv seg_ok_store [OF sok st] by (simp add: side_inv_def)
qed

lemma lost_inv_Suc: "lost_inv seg n lost \<Longrightarrow> lost_inv seg (Suc n) lost"
  unfolding lost_inv_def by (meson less_SucI)

lemma lost_inv_drop: "lost_inv seg n lost \<Longrightarrow> p_key p = key_at seg n \<Longrightarrow> lost_inv seg (Suc n) (lost @ [p])"
  unfolding lost_inv_def by (auto simp: less_Suc_eq)

text \<open>The loops, for the builds without the cuckoo branch.\<close>

lemma fold_upt_inv:
  assumes "P 0 s" and "\<And>n s. n < m \<Longrightarrow> P n s \<Longrightarrow> P (Suc n) (f n s)"
  shows "P m (fold f [0..<m] s)"
  using assms
proof (induction m)
  case (Suc m)
  then show ?case by (simp add: less_Suc_eq)
qed simp

definition upper :: "env \<Rightarrow> Segment \<Rightarrow> Key_t \<Rightarrow> bool" where
  "upper E seg k \<longleftrightarrow> f_hash E k AND split_bit (local_depth seg) \<noteq> 0"

lemma h_is_f_hash: "hash_h (std E) (key_bytes k) h_seed = f_hash E k"
  by (simp add: hash_h_def f_hash_def h_seed_def f_seed_def)

lemma split_inplace_step_inv:
  assumes cu: "\<not> CUCKOO E" and ok: "seg_ok E seg" and n: "n < kNumSlot"
    and inv: "side_inv E seg (upper E seg) n s1 lost" "lost_inv seg n lost"
    and r: "split_inplace_step E (split_bit (local_depth seg)) n (seg, s1, lost) = (self', s1', lost')"
  shows "self' = seg \<and> side_inv E seg (upper E seg) (Suc n) s1' lost' \<and> lost_inv seg (Suc n) lost'"
proof -
  let ?k = "key_at seg n" and ?v = "p_value (bucket seg ! n)"
  have k: "p_key (bucket seg ! n) = ?k" by (simp add: key_at_def)
  show ?thesis
  proof (cases "upper E seg ?k")
    case False
    then have "(self', s1', lost') = (seg, s1, lost)"
      using r by (simp add: split_inplace_step_def k Let_def upper_def)
    then show ?thesis using inv False by (simp add: side_inv_other lost_inv_Suc)
  next
    case True
    obtain ok1 t1 where i1: "Insert4split s1 ?k ?v (idx_of (f_hash E ?k)) = (ok1, t1)" by fastforce
    obtain ok2 t2 where i2: "Insert4split s1 ?k ?v (idx_of (s_hash ?k)) = (ok2, t2)" by fastforce
    have placed: "side_inv E seg (upper E seg) (Suc n) t lost"
      if "Insert4split s1 ?k ?v loc = (True, t)" "set (window_at loc) \<subseteq> windows E ?k" for t loc
      using that(1)
    proof (cases rule: Insert4split_cases)
      case (1 slot)
      then show ?thesis using side_inv_place [OF inv ok n True, of slot] that(2) by blast
    qed simp
    have "(self', s1', lost') = (seg, if ok1 then t1 else if ok2 then t2 else s1,
            if ok1 \<or> ok2 then lost else lost @ [bucket seg ! n])"
      using r True cu by (auto simp: split_inplace_step_def k Let_def upper_def i1 i2 split: if_splits bool.splits)
    moreover have "side_inv E seg (upper E seg) (Suc n) s1 (lost @ [bucket seg ! n])"
      using side_inv_drop [OF inv(1) k ok n] .
    moreover have "lost_inv seg (Suc n) (lost @ [bucket seg ! n])" "lost_inv seg (Suc n) lost"
      using inv(2) k by (simp_all add: lost_inv_drop lost_inv_Suc)
    moreover have "ok1 \<Longrightarrow> side_inv E seg (upper E seg) (Suc n) t1 lost"
        "ok2 \<Longrightarrow> side_inv E seg (upper E seg) (Suc n) t2 lost"
      using placed i1 i2 by (auto simp: windows_def)
    ultimately show ?thesis by (auto split: if_splits)
  qed
qed

lemma split_inplace_inv:
  assumes "\<not> CUCKOO E" and "seg_ok E seg" and "split_inplace E seg = (self', s1, lost)"
  shows "self' = seg" and "side_inv E seg (upper E seg) kNumSlot s1 lost"
proof -
  let ?P = "\<lambda>n (self, s1, lost). self = seg \<and> side_inv E seg (upper E seg) n s1 lost \<and> lost_inv seg n lost"
  have "?P kNumSlot (split_inplace E seg)"
    unfolding split_inplace_def
  proof (rule fold_upt_inv [where P = ?P])
    show "?P 0 (seg, initSegment (raw_bucket E) (local_depth seg + 1), [])"
      using side_inv_init by (simp add: lost_inv_def)
  next
    fix n s
    assume "n < kNumSlot" "?P n s"
    then show "?P (Suc n) (split_inplace_step E (split_bit (local_depth seg)) n s)"
      using split_inplace_step_inv [OF assms(1,2)]
      by (cases s; cases "split_inplace_step E (split_bit (local_depth seg)) n s") auto
  qed
  then show "self' = seg" and "side_inv E seg (upper E seg) kNumSlot s1 lost"
    using assms(3) by auto
qed

lemma split_cow_step_inv:
  assumes ok: "seg_ok E seg" and n: "n < kNumSlot"
    and inv0: "side_inv E seg (\<lambda>k. \<not> upper E seg k) n s0 lost"
    and inv1: "side_inv E seg (upper E seg) n s1 lost" and lost: "lost_inv seg n lost"
    and r: "split_cow_step E seg n (s0, s1, lost) = (s0', s1', lost')"
  shows "side_inv E seg (\<lambda>k. \<not> upper E seg k) (Suc n) s0' lost' \<and>
         side_inv E seg (upper E seg) (Suc n) s1' lost' \<and> lost_inv seg (Suc n) lost'"
proof -
  let ?k = "key_at seg n" and ?v = "p_value (bucket seg ! n)"
  have k: "p_key (bucket seg ! n) = ?k" by (simp add: key_at_def)
  have placed: "side_inv E seg B (Suc n) t lost"
    if "Insert4split s ?k ?v (idx_of (f_hash E ?k)) = (True, t)" "side_inv E seg B n s lost" "B ?k" for s t B
    using that(1)
  proof (cases rule: Insert4split_cases)
    case (1 slot)
    then show ?thesis using side_inv_place [OF that(2) lost ok n that(3), of slot] by (auto simp: windows_def)
  qed simp
  have other: "side_inv E seg B (Suc n) s lost \<and> side_inv E seg B (Suc n) s (lost @ [bucket seg ! n])"
    if "side_inv E seg B n s lost" "\<not> B ?k" for s B
    using side_inv_other [OF that] k by simp
  have drop: "side_inv E seg B (Suc n) s (lost @ [bucket seg ! n])"
    if "side_inv E seg B n s lost" for s B
    using side_inv_drop [OF that k ok n] .
  have l: "lost_inv seg (Suc n) lost" "lost_inv seg (Suc n) (lost @ [bucket seg ! n])"
    using lost k by (simp_all add: lost_inv_drop lost_inv_Suc)
  show ?thesis
  proof (cases "upper E seg ?k")
    case True
    then show ?thesis
      using r placed [OF _ inv1] other [OF inv0] drop [OF inv1] l
      by (auto simp: split_cow_step_def k Let_def h_is_f_hash upper_def split: prod.splits bool.splits)
  next
    case False
    then show ?thesis
      using r placed [OF _ inv0] other [OF inv1] drop [OF inv0] l
      by (auto simp: split_cow_step_def k Let_def h_is_f_hash upper_def split: prod.splits bool.splits)
  qed
qed

lemma split_cow_inv:
  assumes "seg_ok E seg" and "split_cow E seg = (s0, s1, lost)"
  shows "side_inv E seg (\<lambda>k. \<not> upper E seg k) kNumSlot s0 lost"
    and "side_inv E seg (upper E seg) kNumSlot s1 lost"
proof -
  let ?P = "\<lambda>n (s0, s1, lost). side_inv E seg (\<lambda>k. \<not> upper E seg k) n s0 lost \<and>
     side_inv E seg (upper E seg) n s1 lost \<and> lost_inv seg n lost"
  have "?P kNumSlot (split_cow E seg)"
    unfolding split_cow_def
  proof (rule fold_upt_inv [where P = ?P])
    show "?P 0 (initSegment (raw_bucket E) (local_depth seg + 1),
                initSegment (raw_bucket E) (local_depth seg + 1), [])"
      using side_inv_init by (simp add: lost_inv_def)
  next
    fix n s
    assume "n < kNumSlot" "?P n s"
    then show "?P (Suc n) (split_cow_step E seg n s)"
      using split_cow_step_inv [OF assms(1)]
      by (cases s; cases "split_cow_step E seg n s") auto
  qed
  then show "side_inv E seg (\<lambda>k. \<not> upper E seg k) kNumSlot s0 lost"
    and "side_inv E seg (upper E seg) kNumSlot s1 lost"
    using assms(2) by auto
qed

text \<open>The summary the table uses: what a new segment of side \<open>B\<close> stores.\<close>

lemma side_inv_final:
  assumes "side_inv E seg B kNumSlot s lost" and "seg_ok E seg"
  shows "seg_map s k = (if B k \<and> k \<notin> p_key ` set lost then seg_map seg k else None)"
proof (cases "\<exists>i < kNumSlot. key_at seg i = k")
  case True
  then show ?thesis using assms(1) by (simp add: side_inv_def)
next
  case False
  then have "seg_map seg k = None"
    using seg_map_None [OF seg_ok_length [OF assms(2)], of k] by (cases "k = INVALID") auto
  then show ?thesis using False assms(1) by (auto simp: side_inv_def)
qed

end
