(* ===== verification/CCEH_PMDK.thy ===== *)
theory CCEH_PMDK
  imports CCEH_Segment
begin

text \<open>
  The persistent CCEH table (\<^verbatim>\<open>CCEH-PMDK/src/CCEH.cpp\<close>): the directory of segment handles,
  initialisation, \<^verbatim>\<open>Insert\<close> with its segment split, directory update and directory doubling,
  \<^verbatim>\<open>Get\<close>, \<^verbatim>\<open>Touch\<close>, \<^verbatim>\<open>Recovery\<close>, \<^verbatim>\<open>Capacity\<close>, \<^verbatim>\<open>Utilization\<close> and \<^verbatim>\<open>FindAnyway\<close>, as one thread
  runs them. The lemmas show that the directory always routes a hash by the high bits its
  segment is responsible for, and that every operation acts on the stored map as intended.
\<close>

unbundle bit_operations_syntax

section \<open>State\<close>

type_synonym oid = nat

record Directory =
  segment :: "oid list"
  d_sema :: int
  capacity :: nat
  depth :: nat

text \<open>
  The segments live in the pool under their handles; a handle that is not below the size of
  the pool is the null handle. Directories are only ever reached through \<^verbatim>\<open>dir\<close>, so the
  current one is a field. \<open>dropped\<close> is a log for the proofs: the pairs a split found no place
  for and discarded.
\<close>

record CCEH =
  crashed :: bool
  dir :: Directory
  pool :: "Segment list"
  dropped :: "Pair list"

definition D_RO :: "CCEH \<Rightarrow> oid \<Rightarrow> Segment option" where
  "D_RO t x = (if x < length (pool t) then Some (pool t ! x) else None)"

definition put_seg :: "CCEH \<Rightarrow> oid \<Rightarrow> Segment \<Rightarrow> CCEH" where
  "put_seg t x seg = t\<lparr>pool := (pool t)[x := seg]\<rparr>"

definition POBJ_ALLOC :: "CCEH \<Rightarrow> Segment \<Rightarrow> CCEH \<times> oid" where
  "POBJ_ALLOC t seg = (t\<lparr>pool := pool t @ [seg]\<rparr>, length (pool t))"

section \<open>Initialisation\<close>

definition kDefaultDepth :: nat where
  "kDefaultDepth = 10"

text \<open>The handle array is allocated and filled by the caller.\<close>

definition initDirectory :: "nat \<Rightarrow> oid list \<Rightarrow> Directory" where
  "initDirectory dp segs = \<lparr>segment = segs, d_sema = 0, capacity = 2 ^ dp, depth = dp\<rparr>"

text \<open>Without an initial capacity: the directory starts at the default depth, its segments at
  depth 0.\<close>

definition initCCEH_default :: "env \<Rightarrow> CCEH" where
  "initCCEH_default E =
     \<lparr>crashed = True, dir = initDirectory kDefaultDepth [0..<2 ^ kDefaultDepth],
      pool = replicate (2 ^ kDefaultDepth) (initSegment0 (raw_bucket E)), dropped = []\<rparr>"

text \<open>\<^verbatim>\<open>static_cast<size_t>(log2(initCap))\<close> is the floor of the binary logarithm.\<close>

fun log2_floor :: "nat \<Rightarrow> nat" where
  "log2_floor n = (if n < 2 then 0 else Suc (log2_floor (n div 2)))"

declare log2_floor.simps [simp del]

definition initCCEH :: "env \<Rightarrow> nat \<Rightarrow> CCEH" where
  "initCCEH E initCap =
     (let dp = log2_floor initCap
      in \<lparr>crashed = True, dir = initDirectory dp [0..<2 ^ dp],
          pool = replicate (2 ^ dp) (initSegment (raw_bucket E) dp), dropped = []\<rparr>)"

section \<open>Segment split and directory update\<close>

text \<open>\<^verbatim>\<open>Segment::Split\<close> with its allocations: the handles of the two halves.\<close>

definition Split :: "env \<Rightarrow> CCEH \<Rightarrow> oid \<Rightarrow> CCEH \<times> oid \<times> oid" where
  "Split E t target =
     (if INPLACE E then
        let (self, s1, lost) = split_inplace E (pool t ! target);
            t1 = put_seg t target self;
            (t2, o1) = POBJ_ALLOC t1 s1
        in (t2\<lparr>dropped := dropped t2 @ lost\<rparr>, target, o1)
      else
        let (s0, s1, lost) = split_cow E (pool t ! target);
            (t1, o0) = POBJ_ALLOC t s0;
            (t2, o1) = POBJ_ALLOC t1 s1
        in (t2\<lparr>dropped := dropped t2 @ lost\<rparr>, o0, o1))"

text \<open>The copy loop of the directory doubling. Its counter is an \<^verbatim>\<open>int\<close> and so is the index \<^verbatim>\<open>2*i+1\<close>,
  which leaves the range of \<^verbatim>\<open>int\<close> when there are more than \<open>2 ^ 30\<close> entries (\<open>None\<close>).\<close>

definition double_segments :: "oid list \<Rightarrow> nat \<Rightarrow> oid \<Rightarrow> oid \<Rightarrow> oid list option" where
  "double_segments d x s0 s1 =
     (if 2 ^ 30 < length d then None
      else Some (concat (map (\<lambda>i. if i = x then [s0, s1] else [d ! i, d ! i]) [0..<length d])))"

text \<open>The two arms of the normal split; the in-place build leaves the entries of the first half.\<close>

definition update_pair :: "env \<Rightarrow> oid list \<Rightarrow> nat \<Rightarrow> oid \<Rightarrow> oid \<Rightarrow> oid list" where
  "update_pair E d x s0 s1 =
     (if x mod 2 = 0 then
        let d1 = d[x + 1 := s1] in if INPLACE E then d1 else d1[x := s0]
      else
        let d1 = d[x := s1] in if INPLACE E then d1 else d1[x - 1 := s0])"

definition update_stride :: "env \<Rightarrow> oid list \<Rightarrow> nat \<Rightarrow> nat \<Rightarrow> oid \<Rightarrow> oid \<Rightarrow> oid list" where
  "update_stride E d stride x s0 s1 =
     (let loc = x - x mod stride;
          d1 = fold (\<lambda>i d. d[loc + stride div 2 + i := s1]) [0..<stride div 2] d
      in if INPLACE E then d1 else fold (\<lambda>i d. d[loc + i := s0]) [0..<stride div 2] d1)"

text \<open>The in-place build deepens the old segment and releases it after the directory is up to
  date.\<close>

definition finish_inplace :: "env \<Rightarrow> CCEH \<Rightarrow> oid \<Rightarrow> CCEH" where
  "finish_inplace E t s0 =
     (if INPLACE E then
        put_seg t s0 ((pool t ! s0)\<lparr>local_depth := local_depth (pool t ! s0) + 1, seg_sema := 0\<rparr>)
      else t)"

text \<open>The update of the directory behind a split. \<^verbatim>\<open>stride\<close> is an \<^verbatim>\<open>int\<close>; a value it cannot hold is a
  \<open>Fault\<close>, like a doubling that \<open>double_segments\<close> refuses.\<close>

definition update_directory :: "env \<Rightarrow> CCEH \<Rightarrow> oid \<Rightarrow> nat \<Rightarrow> size_t \<Rightarrow> oid \<Rightarrow> oid \<Rightarrow> CCEH outcome" where
  "update_directory E t target target_local_depth fh s0 s1 =
     (let d = dir t
      in if local_depth (pool t ! target) = depth d then
           (case suspend (d_sema d) of
              None \<Rightarrow> Spin
            | Some (False, _) \<Rightarrow> Spin
            | Some (True, _) \<Rightarrow>
                let x = unat (shr64 fh (64 - depth d))
                in (case double_segments (segment d) x s0 s1 of
                      None \<Rightarrow> Fault
                    | Some segs \<Rightarrow> Retry (finish_inplace E (t\<lparr>dir := initDirectory (depth d + 1) segs\<rparr>) s0)))
         else
           (case lock (d_sema d) of
              (False, _) \<Rightarrow> Spin
            | (True, sm) \<Rightarrow>
                let x = unat (shr64 fh (64 - depth d)); stride = 2 ^ (depth d - target_local_depth);
                    finish = (\<lambda>segs. Retry (finish_inplace E (t\<lparr>dir := d\<lparr>segment := segs, d_sema := unlock sm\<rparr>\<rparr>) s0))
                in if depth d = local_depth (pool t ! target) + 1 then finish (update_pair E (segment d) x s0 s1)
                   else if 2 ^ 31 \<le> stride then Fault
                   else finish (update_stride E (segment d) stride x s0 s1)))"

section \<open>Insert\<close>

text \<open>Claiming the slot with \<open>SENTINEL\<close>, storing the value, then the key.\<close>

definition claim_and_store :: "Segment \<Rightarrow> nat \<Rightarrow> Key_t \<Rightarrow> Value_t \<Rightarrow> Segment option" where
  "claim_and_store seg loc k v =
     (case CAS (key_at seg loc) (key_at seg loc) SENTINEL of
        (ok, _, _) \<Rightarrow> if ok then Some (store_slot seg loc k v) else None)"

text \<open>The part behind the collision: give the lock up, suspend the segment, split it and update
  the directory.\<close>

definition insert_collision :: "env \<Rightarrow> CCEH \<Rightarrow> Key_t \<Rightarrow> Value_t \<Rightarrow> nat \<Rightarrow> oid \<Rightarrow> CCEH outcome" where
  "insert_collision E t k v x target =
     (let fh = f_hash E k; seg = pool t ! target;
          pattern = shr64 fh (64 - local_depth seg);
          target_local_depth = local_depth seg;
          sm = unlock (seg_sema seg)
      in case suspend sm of
           None \<Rightarrow> Spin
         | Some (False, sm') \<Rightarrow> Retry (put_seg t target (seg\<lparr>seg_sema := sm'\<rparr>))
         | Some (True, sm') \<Rightarrow>
             let seg1 = seg\<lparr>seg_sema := sm'\<rparr>; t1 = put_seg t target seg1;
                 now = (if INPLACE E then local_depth (pool t1 ! target)
                        else local_depth (pool t1 ! (segment (dir t1) ! x)))
             in if target_local_depth \<noteq> now then Retry (put_seg t1 target (seg1\<lparr>seg_sema := 0\<rparr>))
                else
                  let path1 = find_path E seg1 (idx_of fh) pattern;
                      path2 = find_path E seg1 (idx_of (s_hash k)) pattern
                  in if CUCKOO E \<and> (path1 \<noteq> [] \<or> path2 \<noteq> []) then
                       let path = (if path1 = [] \<or> path2 \<noteq> [] \<and> length path2 < length path1
                                      \<or> path2 \<noteq> [] \<and> snd (hd path1) = INVALID
                                   then path2 else path1)
                       in Return (put_seg t1 target ((execute_path seg1 path k v)\<lparr>seg_sema := 0\<rparr>))
                     else
                       let (t2, s0, s1) = Split E t1 target
                       in update_directory E t2 target target_local_depth fh s0 s1)"

text \<open>One pass of \<^verbatim>\<open>Insert\<close> from the label \<^verbatim>\<open>RETRY\<close>.\<close>

definition insert_pass :: "env \<Rightarrow> Key_t \<Rightarrow> Value_t \<Rightarrow> CCEH \<Rightarrow> CCEH outcome" where
  "insert_pass E k v t =
     (let fh = f_hash E k; d = dir t; x = unat (shr64 fh (64 - depth d))
      in if \<not> x < length (segment d) then Fault
         else let target = segment d ! x in
           case D_RO t target of
             None \<Rightarrow> Retry t
           | Some seg \<Rightarrow>
               (case lock (seg_sema seg) of
                  (False, sm) \<Rightarrow> Retry t
                | (True, sm) \<Rightarrow>
                    let seg1 = seg\<lparr>seg_sema := sm\<rparr>; t1 = put_seg t target seg1;
                        target_check = unat (shr64 fh (64 - depth (dir t1)));
                        pattern = shr64 fh (64 - local_depth seg1)
                    in if target \<noteq> segment (dir t1) ! target_check
                       then Retry (put_seg t1 target (seg1\<lparr>seg_sema := unlock sm\<rparr>))
                       else
                         (case find (slot_free E seg1 pattern) (window fh @ window (s_hash k)) of
                            Some loc \<Rightarrow>
                              (case claim_and_store seg1 loc k v of
                                 Some seg2 \<Rightarrow> Return (put_seg t1 target (seg2\<lparr>seg_sema := unlock sm\<rparr>))
                               | None \<Rightarrow> Fault)
                          | None \<Rightarrow> insert_collision E t1 k v x target)))"

definition Insert :: "env \<Rightarrow> nat \<Rightarrow> CCEH \<Rightarrow> Key_t \<Rightarrow> Value_t \<Rightarrow> CCEH option" where
  "Insert E passes t k v = run_retry (insert_pass E k v) passes t"

section \<open>Get and the other operations\<close>

text \<open>One pass of \<^verbatim>\<open>Get\<close>: the value and the table with the shared lock given back.\<close>

definition get_pass :: "env \<Rightarrow> Key_t \<Rightarrow> CCEH \<Rightarrow> (Value_t \<times> CCEH) outcome" where
  "get_pass E k t =
     (let fh = f_hash E k; d = dir t; x = unat (shr64 fh (64 - depth d))
      in if d_sema d < 0 then Spin
         else if \<not> x < length (segment d) then Fault
         else let target = segment d ! x in
           case D_RO t target of
             None \<Rightarrow> Retry (NONE, t)
           | Some seg \<Rightarrow>
               (case (if INPLACE E then lock (seg_sema seg) else (True, seg_sema seg)) of
                  (False, _) \<Rightarrow> Retry (NONE, t)
                | (True, sm) \<Rightarrow>
                    let t1 = put_seg t target (seg\<lparr>seg_sema := sm\<rparr>);
                        target_check = unat (shr64 fh (64 - depth (dir t1)))
                    in if target \<noteq> segment (dir t1) ! target_check
                       then Retry (NONE, put_seg t1 target (seg\<lparr>seg_sema := unlock sm\<rparr>))
                       else Return (seg_get E seg k,
                              if INPLACE E then put_seg t1 target (seg\<lparr>seg_sema := unlock sm\<rparr>) else t1)))"

definition Get :: "env \<Rightarrow> CCEH \<Rightarrow> Key_t \<Rightarrow> Value_t option" where
  "Get E t k = (case get_pass E k t of Return (v, _) \<Rightarrow> Some v | _ \<Rightarrow> None)"

definition Delete :: "CCEH \<Rightarrow> Key_t \<Rightarrow> bool \<times> CCEH" where
  "Delete t k = (False, t)"

text \<open>\<^verbatim>\<open>Touch\<close> only loads the key of the first probe slot.\<close>

definition Touch :: "env \<Rightarrow> CCEH \<Rightarrow> Key_t \<Rightarrow> Key_t option" where
  "Touch E t k =
     (let fh = f_hash E k; f_idx = idx_of fh; x = unat (shr64 fh (64 - depth (dir t)))
      in if \<not> x < length (segment (dir t)) then None
         else case D_RO t (segment (dir t) ! x) of
                None \<Rightarrow> None
              | Some seg \<Rightarrow> Some (key_at seg (f_idx mod kNumSlot)))"

text \<open>The debugging search over all entries and slots.\<close>

definition FindAnyway :: "CCEH \<Rightarrow> Key_t \<Rightarrow> Value_t" where
  "FindAnyway t k =
     (case find (\<lambda>p. p_key p = k) (concat (map (\<lambda>x. bucket (pool t ! x)) (segment (dir t)))) of
        Some p \<Rightarrow> p_value p
      | None \<Rightarrow> NONE)"

text \<open>
  \<^verbatim>\<open>Capacity\<close> walks the directory segment by segment. The step \<^verbatim>\<open>pow(2, depth - local_depth)\<close>
  is at least 1 because a segment is never deeper than the directory.
\<close>

function capacity_loop :: "CCEH \<Rightarrow> nat \<Rightarrow> nat \<Rightarrow> nat" where
  "capacity_loop t i cnt =
     (if i < capacity (dir t) then
        capacity_loop t (i + 2 ^ (depth (dir t) - local_depth (pool t ! (segment (dir t) ! i)))) (cnt + 1)
      else cnt)"
  by pat_completeness auto
termination
  by (relation "measure (\<lambda>(t, i, cnt). capacity (dir t) - i)") (auto simp: diff_less_mono2)

declare capacity_loop.simps [simp del]

definition Capacity :: "CCEH \<Rightarrow> nat" where
  "Capacity t = capacity_loop t 0 0 * kNumSlot"

text \<open>The count behind \<^verbatim>\<open>Utilization\<close>: live slots and segments.\<close>

definition live_slots :: "env \<Rightarrow> Segment \<Rightarrow> nat \<Rightarrow> nat" where
  "live_slots E seg pattern =
     length (filter (\<lambda>p. unat (shr64 (hash_h (std E) (key_bytes (p_key p)) h_seed) (64 - local_depth seg)) = pattern
                         \<and> p_key p \<noteq> INVALID) (bucket seg))"

function utilization_loop :: "env \<Rightarrow> CCEH \<Rightarrow> nat \<Rightarrow> nat \<Rightarrow> nat \<Rightarrow> nat \<times> nat" where
  "utilization_loop E t i acc cnt =
     (if i < capacity (dir t) then
        let seg = pool t ! (segment (dir t) ! i);
            stride = 2 ^ (depth (dir t) - local_depth seg);
            pattern = i div 2 ^ (depth (dir t) - local_depth seg)
        in utilization_loop E t (i + stride) (acc + live_slots E seg pattern) (cnt + 1)
      else (acc, cnt))"
  by pat_completeness auto
termination
  by (relation "measure (\<lambda>(E, t, i, s, c). capacity (dir t) - i)") (auto simp: diff_less_mono2)

declare utilization_loop.simps [simp del]

section \<open>Recovery\<close>

text \<open>The inner loop runs \<open>j\<close> from \<open>buddy - 1\<close> down to \<open>i + 1\<close>; \<open>n\<close> entries above \<open>i\<close> are left.\<close>

fun repair_group :: "Segment list \<Rightarrow> nat \<Rightarrow> nat \<Rightarrow> nat \<Rightarrow> oid list \<Rightarrow> oid list" where
  "repair_group ps depth_cur i 0 segs = segs"
| "repair_group ps depth_cur i (Suc n) segs =
     repair_group ps depth_cur i n
       (if local_depth (ps ! (segs ! (i + Suc n))) \<noteq> depth_cur
        then segs[i + Suc n := segs ! i] else segs)"

function recovery_loop :: "Segment list \<Rightarrow> nat \<Rightarrow> nat \<Rightarrow> nat \<Rightarrow> oid list \<Rightarrow> oid list" where
  "recovery_loop ps cap dp i segs =
     (if i < cap then
        let depth_cur = local_depth (ps ! (segs ! i));
            stride = 2 ^ (dp - depth_cur);
            buddy = i + stride
        in if buddy = cap then segs
           else recovery_loop ps cap dp (i + stride) (repair_group ps depth_cur i (stride - 1) segs)
      else segs)"
  by pat_completeness auto
termination
  by (relation "measure (\<lambda>(ps, cap, dp, i, segs). cap - i)") (auto simp: diff_less_mono2)

declare recovery_loop.simps [simp del]

definition Recovery :: "CCEH \<Rightarrow> CCEH" where
  "Recovery t =
     t\<lparr>dir := (dir t)\<lparr>segment := recovery_loop (pool t) (capacity (dir t)) (depth (dir t)) 0 (segment (dir t))\<rparr>\<rparr>"

section \<open>Routing\<close>

definition route :: "CCEH \<Rightarrow> size_t \<Rightarrow> oid" where
  "route t hash = segment (dir t) ! hi (depth (dir t)) hash"

abbreviation seg_of :: "CCEH \<Rightarrow> size_t \<Rightarrow> Segment" where
  "seg_of t hash \<equiv> pool t ! route t hash"

text \<open>
  A well-formed table: the directory has \<open>2 ^ depth\<close> entries, every entry leads to a free and
  well-formed segment no deeper than the directory, and two hashes share a segment exactly
  when they agree in as many high bits as the segment is deep.
\<close>

definition dir_ok :: "CCEH \<Rightarrow> bool" where
  "dir_ok t \<longleftrightarrow> 1 \<le> depth (dir t) \<and> depth (dir t) \<le> 64 \<and>
     length (segment (dir t)) = 2 ^ depth (dir t) \<and> capacity (dir t) = 2 ^ depth (dir t) \<and>
     d_sema (dir t) = 0"

definition routes_ok :: "CCEH \<Rightarrow> bool" where
  "routes_ok t \<longleftrightarrow> (\<forall>a b. route t b = route t a \<longleftrightarrow>
      hi (local_depth (seg_of t a)) b = hi (local_depth (seg_of t a)) a)"

definition segs_ok :: "env \<Rightarrow> CCEH \<Rightarrow> bool" where
  "segs_ok E t \<longleftrightarrow> (\<forall>a. route t a < length (pool t) \<and> seg_ok E (seg_of t a) \<and> seg_sema (seg_of t a) = 0 \<and>
      1 \<le> local_depth (seg_of t a) \<and> local_depth (seg_of t a) \<le> depth (dir t))"

definition table_ok :: "env \<Rightarrow> CCEH \<Rightarrow> bool" where
  "table_ok E t \<longleftrightarrow> dir_ok t \<and> routes_ok t \<and> segs_ok E t"

text \<open>The map the table stores.\<close>

definition lookup :: "env \<Rightarrow> CCEH \<Rightarrow> Key_t \<Rightarrow> Value_t option" where
  "lookup E t k = seg_map (seg_of t (f_hash E k)) k"

lemma table_okD:
  assumes "table_ok E t"
  shows "1 \<le> depth (dir t)" "depth (dir t) \<le> 64" "length (segment (dir t)) = 2 ^ depth (dir t)"
    "capacity (dir t) = 2 ^ depth (dir t)" "d_sema (dir t) = 0"
  using assms by (auto simp: table_ok_def dir_ok_def)

lemma table_ok_seg:
  assumes "table_ok E t"
  shows "route t a < length (pool t)" "seg_ok E (seg_of t a)" "seg_sema (seg_of t a) = 0"
    "1 \<le> local_depth (seg_of t a)" "local_depth (seg_of t a) \<le> depth (dir t)"
  using assms by (auto simp: table_ok_def segs_ok_def)

lemma table_ok_route:
  "table_ok E t \<Longrightarrow> route t b = route t a \<longleftrightarrow> hi (local_depth (seg_of t a)) b = hi (local_depth (seg_of t a)) a"
  unfolding table_ok_def routes_ok_def by blast

lemma index_route:
  assumes "table_ok E t"
  shows "unat (shr64 a (64 - depth (dir t))) < length (segment (dir t))"
    and "segment (dir t) ! unat (shr64 a (64 - depth (dir t))) = route t a"
  using table_okD [OF assms] by (simp_all add: shr64_hi hi_less route_def)

lemma put_seg_simps [simp]:
  "dir (put_seg t x s) = dir t" "dropped (put_seg t x s) = dropped t" "route (put_seg t x s) = route t"
  "length (pool (put_seg t x s)) = length (pool t)"
  "put_seg (put_seg t x s) x s' = put_seg t x s'"
  "pool (put_seg t x s) ! y = (if y = x \<and> x < length (pool t) then s else pool t ! y)"
  by (cases "x < length (pool t)"; auto simp: put_seg_def route_def fun_eq_iff nth_list_update list_update_beyond)+

lemma put_seg_same: "put_seg t x (pool t ! x) = t"
  by (simp add: put_seg_def)

lemma put_seg_sema: "seg_sema (pool t ! x) = n \<Longrightarrow> put_seg t x ((pool t ! x)\<lparr>seg_sema := n\<rparr>) = t"
  by (cases "pool t ! x") (use put_seg_same [of t x] in auto)

lemma get_pass_table:
  assumes ok: "table_ok E t"
  shows "get_pass E k t = Return (seg_get E (seg_of t (f_hash E k)) k, t)"
  using table_okD [OF ok] table_ok_seg [OF ok, of "f_hash E k"] index_route [OF ok, of "f_hash E k"]
  by (simp add: get_pass_def Let_def D_RO_def lock_simp unlock_simp put_seg_sema)

lemma Get_lookup:
  assumes "table_ok E t" and "k \<noteq> INVALID"
  shows "Get E t k = Some (case lookup E t k of None \<Rightarrow> NONE | Some v \<Rightarrow> v)"
  using get_pass_table [OF assms(1)] table_ok_seg(2) [OF assms(1)] assms(2)
  by (simp add: Get_def lookup_def seg_get_map)

section \<open>Directory updates\<close>

lemma nth_concat_pairs:
  "j < 2 * n \<Longrightarrow> concat (map (\<lambda>i. [f i, g i]) [0..<n]) ! j = (if even j then f (j div 2) else g (j div 2))"
proof (induction n)
  case (Suc n)
  have len: "length (concat (map (\<lambda>i. [f i, g i]) [0..<m])) = 2 * m" for m
    by (induction m) auto
  show ?case
  proof (cases "j < 2 * n")
    case True
    then show ?thesis using Suc.IH by (simp add: nth_append len)
  next
    case False
    then have "j = 2 * n \<or> j = 2 * n + 1" using Suc.prems by auto
    then show ?thesis by (auto simp: nth_append len)
  qed
qed simp

lemma double_segments_nth:
  assumes "double_segments d x s0 s1 = Some d'"
  shows "length d' = 2 * length d"
    and "j < 2 * length d \<Longrightarrow> d' ! j = (if j div 2 = x then (if even j then s0 else s1) else d ! (j div 2))"
proof -
  have "d' = concat (map (\<lambda>i. if i = x then [s0, s1] else [d ! i, d ! i]) [0..<length d])"
    using assms by (simp add: double_segments_def split: if_splits)
  also have "\<dots> = concat (map (\<lambda>i. [if i = x then s0 else d ! i, if i = x then s1 else d ! i]) [0..<length d])"
    by (rule arg_cong [where f = concat]) auto
  finally have d': "d' = concat (map (\<lambda>i. [if i = x then s0 else d ! i, if i = x then s1 else d ! i]) [0..<length d])" .
  have "length (concat (map (\<lambda>i. [f i, g i]) [0..<m])) = 2 * m" for m and f g :: "nat \<Rightarrow> oid"
    by (induction m) auto
  then show "length d' = 2 * length d" by (simp add: d')
  show "j < 2 * length d \<Longrightarrow> d' ! j = (if j div 2 = x then (if even j then s0 else s1) else d ! (j div 2))"
    by (simp add: d' nth_concat_pairs)
qed

lemma double_segments_Some: "length d \<le> 2 ^ 30 \<Longrightarrow> \<exists>d'. double_segments d x s0 s1 = Some d'"
  by (simp add: double_segments_def)

lemma fold_update_length [simp]: "length (fold (\<lambda>i d. d[f i := s]) xs d) = length d"
  by (induction xs arbitrary: d) auto

lemma nth_fold_update:
  "b + n \<le> length d \<Longrightarrow> j < length d \<Longrightarrow>
   fold (\<lambda>i d. d[b + i := s]) [0..<n] d ! j = (if b \<le> j \<and> j < b + n then s else d ! j)"
  by (induction n) (auto simp: nth_list_update)

lemma length_update_stride [simp]: "length (update_stride E d n x s0 s1) = length d"
  by (simp add: update_stride_def Let_def)

lemma block_bounds:
  assumes "0 < (m :: nat)" and "j div (2 * m) = q"
  shows "2 * m * q \<le> j" and "j < 2 * m * q + 2 * m"
    and "(2 * m * q + m \<le> j) = (j div m = 2 * q + 1)"
proof -
  have j: "j = 2 * m * q + j mod (2 * m)" using assms(2) by (metis mult_div_mod_eq)
  have l: "j mod (2 * m) < 2 * m" using assms(1) by simp
  show "2 * m * q \<le> j" "j < 2 * m * q + 2 * m" using j l by linarith+
  have "j div m = 2 * q + j mod (2 * m) div m"
    using assms(1) by (subst j) (simp add: mult.assoc mult.left_commute [of 2])
  moreover have "j mod (2 * m) div m = (if m \<le> j mod (2 * m) then 1 else 0)"
  proof (cases "m \<le> j mod (2 * m)")
    case True
    then have "j mod (2 * m) - m < m" using l by linarith
    with True show ?thesis using assms(1) by (simp add: le_div_geq)
  qed simp
  ultimately show "(2 * m * q + m \<le> j) = (j div m = 2 * q + 1)" using j by auto
qed

lemma nth_update_stride:
  assumes m: "0 < m" and x: "2 * m * (x div (2 * m)) + 2 * m \<le> length d" and j: "j < length d"
    and same: "INPLACE E \<Longrightarrow> j div (2 * m) = x div (2 * m) \<Longrightarrow> d ! j = s0"
  shows "update_stride E d (2 * m) x s0 s1 ! j =
    (if j div (2 * m) = x div (2 * m) then (if j div m = 2 * (x div (2 * m)) + 1 then s1 else s0) else d ! j)"
proof -
  let ?q = "x div (2 * m)"
  have loc: "x - x mod (2 * m) = 2 * m * ?q" by (simp add: minus_mod_eq_mult_div)
  have r: "update_stride E d (2 * m) x s0 s1 ! j =
     (if \<not> INPLACE E \<and> 2 * m * ?q \<le> j \<and> j < 2 * m * ?q + m then s0
      else if 2 * m * ?q + m \<le> j \<and> j < 2 * m * ?q + 2 * m then s1 else d ! j)"
    using m x j by (simp add: update_stride_def Let_def loc nth_fold_update)
  show ?thesis
  proof (cases "j div (2 * m) = ?q")
    case True
    then show ?thesis using block_bounds [OF m True] same r by auto
  next
    case False
    then have "\<not> (2 * m * ?q \<le> j \<and> j < 2 * m * ?q + 2 * m)"
      using m by (metis div_nat_eqI mult.commute mult_Suc_right add.commute)
    then show ?thesis using False r by auto
  qed
qed

lemma update_pair_stride:
  assumes "x < length d" and "even (length d)"
  shows "update_pair E d x s0 s1 = update_stride E d 2 x s0 s1"
proof (cases "even x")
  case True
  then show ?thesis by (simp add: update_pair_def update_stride_def Let_def)
next
  case False
  then have "x - x mod 2 = x - 1" "x mod 2 = 1" "x - 1 + 1 = x" using odd_pos [of x] by (auto simp: odd_iff_mod_2_eq_one)
  then show ?thesis by (simp add: update_pair_def update_stride_def Let_def)
qed

section \<open>A split keeps the table well formed\<close>

text \<open>The routing a directory update establishes: the hashes of the target's group go to one of
  the two halves by their next bit, all others as before.\<close>

definition split_route :: "CCEH \<Rightarrow> size_t \<Rightarrow> nat \<Rightarrow> oid \<Rightarrow> oid \<Rightarrow> size_t \<Rightarrow> oid" where
  "split_route t fh ld s0 s1 a =
     (if hi ld a = hi ld fh then (if odd (hi (Suc ld) a) then s1 else s0) else route t a)"

lemma hi_Suc_parity: "n < 64 \<Longrightarrow> hi (Suc n) a = 2 * hi n a + (if odd (hi (Suc n) a) then 1 else 0)"
  using hi_Suc [of n a] by auto

lemma hi_Suc_eq:
  "n < 64 \<Longrightarrow> hi (Suc n) b = hi (Suc n) a \<longleftrightarrow> hi n b = hi n a \<and> odd (hi (Suc n) b) = odd (hi (Suc n) a)"
  using hi_Suc_parity [of n a] hi_Suc_parity [of n b] hi_mono_eq [of n "Suc n" a b] by auto

lemma upper_odd: "local_depth seg < 64 \<Longrightarrow> upper E seg k \<longleftrightarrow> odd (hi (Suc (local_depth seg)) (f_hash E k))"
  using and_push_bit_1 [of "63 - local_depth seg" "f_hash E k"]
  by (simp add: upper_def split_bit_def hi_Suc)

lemma route_double:
  assumes ok: "table_ok E t" and ld: "local_depth (seg_of t fh) = depth (dir t)" "depth (dir t) < 64"
    and seg: "double_segments (segment (dir t)) (hi (depth (dir t)) fh) s0 s1 = Some (segment (dir t'))"
    and dp: "depth (dir t') = Suc (depth (dir t))"
  shows "route t' a = split_route t fh (depth (dir t)) s0 s1 a"
proof -
  let ?D = "depth (dir t)"
  have "hi (Suc ?D) a < 2 * 2 ^ ?D" using hi_less [of "Suc ?D" a] ld(2) by simp
  moreover have "hi (Suc ?D) a div 2 = hi ?D a" using hi_div [of ?D "Suc ?D" a] ld(2) by simp
  ultimately show ?thesis
    using table_okD(3) [OF ok] double_segments_nth(2) [OF seg] by (simp add: route_def split_route_def dp)
qed

lemma route_stride:
  assumes ok: "table_ok E t" and ld: "ld = local_depth (seg_of t fh)" "ld < depth (dir t)"
    and seg: "segment (dir t') = update_stride E (segment (dir t)) (2 ^ (depth (dir t) - ld)) (hi (depth (dir t)) fh) s0 s1"
    and dp: "depth (dir t') = depth (dir t)" and s0: "INPLACE E \<Longrightarrow> s0 = route t fh"
  shows "route t' a = split_route t fh ld s0 s1 a"
proof -
  let ?D = "depth (dir t)" and ?m = "(2::nat) ^ (depth (dir t) - Suc ld)"
  note d = table_okD [OF ok]
  have m: "(2::nat) ^ (?D - ld) = 2 * ?m" using ld(2) by (simp flip: power_Suc add: Suc_diff_Suc)
  have q: "hi ?D b div (2 * ?m) = hi ld b" and q': "hi ?D b div ?m = hi (Suc ld) b" for b
    using hi_div [of ld ?D b] hi_div [of "Suc ld" ?D b] ld(2) d(2) by (simp_all add: m)
  have len: "2 * ?m * 2 ^ ld = 2 ^ ?D" using ld(2) by (simp flip: m power_add)
  have "hi ld fh + 1 \<le> 2 ^ ld" using hi_less [of ld fh] ld(2) d(2) by simp
  then have "2 * ?m * (hi ld fh + 1) \<le> 2 * ?m * 2 ^ ld" by (intro mult_le_mono2)
  then have x: "2 * ?m * (hi ?D fh div (2 * ?m)) + 2 * ?m \<le> length (segment (dir t))"
    by (simp only: q len d(3)) simp
  have j: "hi ?D a < length (segment (dir t))" using hi_less [of ?D a] d by simp
  have same: "segment (dir t) ! hi ?D a = s0"
    if "INPLACE E" "hi ?D a div (2 * ?m) = hi ?D fh div (2 * ?m)"
  proof -
    have "hi ld a = hi ld fh" using that(2) by (simp only: q)
    then have "route t a = route t fh" using table_ok_route [OF ok, of a fh] ld(1) by simp
    then show ?thesis using s0 [OF that(1)] by (simp add: route_def)
  qed
  have "odd (hi (Suc ld) a) = (hi (Suc ld) a = 2 * hi ld fh + 1)" if "hi ld a = hi ld fh"
    using hi_Suc_parity [of ld a] that ld(2) d(2) by auto
  then show ?thesis
    using nth_update_stride [OF _ x j same, where ?s1.0 = s1] by (simp add: route_def seg dp m q q' split_route_def)
qed

lemma split_table_ok:
  assumes ok: "table_ok E t" and ld: "ld = local_depth (seg_of t fh)" "ld < 64"
    and dir': "dir_ok t'" "ld < depth (dir t')" "depth (dir t) \<le> depth (dir t')"
    and r: "\<And>a. route t' a = split_route t fh ld s0 s1 a"
    and s1: "length (pool t) \<le> s1" "s1 < length (pool t')" and ne: "s0 \<noteq> s1"
    and s0: "s0 = route t fh \<or> length (pool t) \<le> s0" "s0 < length (pool t')"
    and halves: "\<And>s. s \<in> {s0, s1} \<Longrightarrow> seg_ok E (pool t' ! s) \<and> seg_sema (pool t' ! s) = 0 \<and>
                   local_depth (pool t' ! s) = Suc ld"
    and keep: "\<And>x. x < length (pool t) \<Longrightarrow> x \<noteq> route t fh \<Longrightarrow> pool t' ! x = pool t ! x"
    and grow: "length (pool t) \<le> length (pool t')"
  shows "table_ok E t'"
proof -
  note seg = table_ok_seg [OF ok]
  have group: "hi ld a = hi ld fh \<longleftrightarrow> route t a = route t fh" for a
    using table_ok_route [OF ok, of a fh] ld(1) by simp
  have out: "route t' a = route t a \<and> seg_of t' a = seg_of t a \<and> route t a \<notin> {s0, s1}"
    if "hi ld a \<noteq> hi ld fh" for a
    using that r [of a] keep [OF seg(1)] group [of a] s0(1) s1(1) seg(1) [of a]
    by (auto simp: split_route_def)
  have inn: "route t' a = (if odd (hi (Suc ld) a) then s1 else s0)" if "hi ld a = hi ld fh" for a
    using that r [of a] by (simp add: split_route_def)
  have "segs_ok E t'"
    unfolding segs_ok_def
  proof
    fix a
    show "route t' a < length (pool t') \<and> seg_ok E (seg_of t' a) \<and> seg_sema (seg_of t' a) = 0 \<and>
      1 \<le> local_depth (seg_of t' a) \<and> local_depth (seg_of t' a) \<le> depth (dir t')"
    proof (cases "hi ld a = hi ld fh")
      case True
      then show ?thesis using inn [OF True] halves [of s0] halves [of s1] s0(2) s1(2) dir'(2) by auto
    next
      case False
      then show ?thesis using out [OF False] seg [of a] grow dir'(3) by auto
    qed
  qed
  moreover have "routes_ok t'"
    unfolding routes_ok_def
  proof (intro allI)
    fix a b
    show "route t' b = route t' a \<longleftrightarrow> hi (local_depth (seg_of t' a)) b = hi (local_depth (seg_of t' a)) a"
    proof (cases "hi ld a = hi ld fh")
      case a: True
      have l: "local_depth (seg_of t' a) = Suc ld" using inn [OF a] halves by auto
      show ?thesis
        using a ne inn [OF a] inn [of b] out [of b] hi_Suc_eq [OF ld(2), of b a]
        by (cases "hi ld b = hi ld fh") (auto simp: l)
    next
      case a: False
      show ?thesis
        using a out [OF a] inn [of b] out [of b] table_ok_route [OF ok, of b a] group [of a] group [of b]
        by (cases "hi ld b = hi ld fh") auto
    qed
  qed
  ultimately show ?thesis using dir'(1) by (simp add: table_ok_def)
qed

section \<open>Insert\<close>

lemma route_dir: "route (t\<lparr>pool := p\<rparr>) = route t" "route (t\<lparr>dropped := l\<rparr>) = route t"
  by (simp_all add: route_def fun_eq_iff)

text \<open>What a split of the segment \<open>x\<close> leaves behind, in both builds: the halves \<open>s0\<close> and \<open>s1\<close>, of which
  the first is the segment itself in the in-place build.\<close>

definition split_done :: "env \<Rightarrow> CCEH \<Rightarrow> oid \<Rightarrow> CCEH \<Rightarrow> oid \<Rightarrow> oid \<Rightarrow> Pair list \<Rightarrow> bool" where
  "split_done E t x t' s0 s1 lost \<longleftrightarrow>
     dir t' = dir t \<and> dropped t' = dropped t @ lost \<and>
     length (pool t) \<le> s1 \<and> s1 < length (pool t') \<and> s0 \<noteq> s1 \<and> s0 < length (pool t') \<and> length (pool t) \<le> length (pool t') \<and>
     (if INPLACE E then s0 = x else length (pool t) \<le> s0) \<and>
     side_inv E (pool t ! x) (upper E (pool t ! x)) kNumSlot (pool t' ! s1) lost \<and>
     (if INPLACE E then pool t' ! s0 = pool t ! x
      else side_inv E (pool t ! x) (\<lambda>k. \<not> upper E (pool t ! x) k) kNumSlot (pool t' ! s0) lost) \<and>
     (\<forall>y < length (pool t). pool t' ! y = pool t ! y)"

lemma split_done_inplace:
  assumes "INPLACE E" and "x < length (pool t)" and "side_inv E (pool t ! x) (upper E (pool t ! x)) kNumSlot n1 lost"
  shows "split_done E t x (t\<lparr>pool := pool t @ [n1], dropped := dropped t @ lost\<rparr>) x (length (pool t)) lost"
  using assms by (simp add: split_done_def nth_append)

lemma split_done_cow:
  assumes "\<not> INPLACE E" and "x < length (pool t)" and "side_inv E (pool t ! x) (upper E (pool t ! x)) kNumSlot n1 lost"
    and "side_inv E (pool t ! x) (\<lambda>k. \<not> upper E (pool t ! x) k) kNumSlot n0 lost"
  shows "split_done E t x (t\<lparr>pool := pool t @ [n0, n1], dropped := dropped t @ lost\<rparr>) (length (pool t)) (Suc (length (pool t))) lost"
  using assms by (simp add: split_done_def nth_append)

lemma Split_facts:
  assumes cu: "\<not> CUCKOO E" and x: "target < length (pool t)" and ok: "seg_ok E (pool t ! target)"
  obtains t' s0 s1 lost where "Split E t target = (t', s0, s1)" "split_done E t target t' s0 s1 lost"
proof (cases "INPLACE E")
  case True
  obtain self n1 lost where s: "split_inplace E (pool t ! target) = (self, n1, lost)" by (metis prod_cases3)
  note i = split_inplace_inv [OF cu ok s]
  show thesis
    using that split_done_inplace [OF True x i(2)] True i(1) x by (simp add: Split_def s POBJ_ALLOC_def put_seg_same)
next
  case False
  obtain n0 n1 lost where s: "split_cow E (pool t ! target) = (n0, n1, lost)" by (metis prod_cases3)
  note i = split_cow_inv [OF ok s]
  show thesis using that split_done_cow [OF False x i(2,1)] False by (simp add: Split_def s POBJ_ALLOC_def)
qed

lemma finish_inplace_simps [simp]:
  "dir (finish_inplace E t s) = dir t" "dropped (finish_inplace E t s) = dropped t"
  "length (pool (finish_inplace E t s)) = length (pool t)" "route (finish_inplace E t s) = route t"
  by (simp_all add: finish_inplace_def)

lemma pool_finish_inplace:
  "s < length (pool t) \<Longrightarrow> pool (finish_inplace E t s) ! y =
    (if y = s \<and> INPLACE E then (pool t ! s)\<lparr>local_depth := local_depth (pool t ! s) + 1, seg_sema := 0\<rparr> else pool t ! y)"
  by (simp add: finish_inplace_def)

text \<open>The directory update computes \<open>split_route\<close>, whichever arm runs.\<close>

lemma update_directory_route:
  assumes ok: "table_ok E t" and ld: "ld = local_depth (seg_of t fh)" "ld < 31" "depth (dir t) \<le> 31"
    and t2: "dir t2 = dir t" "local_depth (pool t2 ! route t fh) = ld"
    and s0: "INPLACE E \<Longrightarrow> s0 = route t fh"
  obtains d' where "update_directory E t2 (route t fh) ld fh s0 s1 = Retry (finish_inplace E (t2\<lparr>dir := d'\<rparr>) s0)"
    "dir_ok (t2\<lparr>dir := d'\<rparr>)" "depth d' = max (depth (dir t)) (Suc ld)"
    "\<And>a. route (t2\<lparr>dir := d'\<rparr>) a = split_route t fh ld s0 s1 a"
proof -
  note d = table_okD [OF ok] and x = shr64_hi [OF table_okD(1,2) [OF ok], of fh]
  have le: "ld \<le> depth (dir t)" using table_ok_seg(5) [OF ok] ld(1) by simp
  show thesis
  proof (cases "ld = depth (dir t)")
    case True
    have "(2::nat) ^ depth (dir t) \<le> 2 ^ 30" using True ld(2) by (intro power_increasing) simp_all
    then obtain d' where d': "double_segments (segment (dir t)) (hi (depth (dir t)) fh) s0 s1 = Some d'"
      using double_segments_Some [of "segment (dir t)" "hi (depth (dir t)) fh" s0 s1] d(3) by auto
    let ?d = "initDirectory (depth (dir t) + 1) d'"
    have "update_directory E t2 (route t fh) ld fh s0 s1 = Retry (finish_inplace E (t2\<lparr>dir := ?d\<rparr>) s0)"
      using True t2 d x d' by (simp add: update_directory_def Let_def suspend_simp)
    moreover have "dir_ok (t2\<lparr>dir := ?d\<rparr>)" using d ld(2) True double_segments_nth(1) [OF d'] by (simp add: dir_ok_def initDirectory_def)
    moreover have "route (t2\<lparr>dir := ?d\<rparr>) a = split_route t fh ld s0 s1 a" for a
      using route_double [OF ok, where t' = "t2\<lparr>dir := ?d\<rparr>" and fh = fh] True ld d' by (simp add: initDirectory_def)
    ultimately show thesis using that [of ?d] True by (simp add: initDirectory_def)
  next
    case False
    let ?s = "update_stride E (segment (dir t)) (2 ^ (depth (dir t) - ld)) (hi (depth (dir t)) fh) s0 s1"
    let ?d = "(dir t)\<lparr>segment := ?s, d_sema := 0\<rparr>"
    have "(2::nat) ^ (depth (dir t) - ld) \<le> 2 ^ 30"
      using ld table_ok_seg(4) [OF ok, of fh] by (intro power_increasing) auto
    then have st: "\<not> (2::nat) ^ 31 \<le> 2 ^ (depth (dir t) - ld)" by simp
    have "even (length (segment (dir t)))" "hi (depth (dir t)) fh < length (segment (dir t))"
      using d hi_less [of "depth (dir t)" fh] by auto
    note pair = update_pair_stride [OF this(2,1), of E s0 s1]
    have "update_directory E t2 (route t fh) ld fh s0 s1 = Retry (finish_inplace E (t2\<lparr>dir := ?d\<rparr>) s0)"
    proof (cases "depth (dir t) = Suc ld")
      case True
      then have "2 ^ (depth (dir t) - ld) = (2::nat)" by simp
      then show ?thesis
        using True False t2 d x pair by (simp add: update_directory_def Let_def lock_simp unlock_simp)
    next
      case no_pair: False
      then show ?thesis
        using False t2 d x st by (simp add: update_directory_def Let_def lock_simp unlock_simp)
    qed
    moreover have "dir_ok (t2\<lparr>dir := ?d\<rparr>)" using d by (simp add: dir_ok_def)
    moreover have "route (t2\<lparr>dir := ?d\<rparr>) a = split_route t fh ld s0 s1 a" for a
      using route_stride [OF ok ld(1), of "t2\<lparr>dir := ?d\<rparr>" s0 s1] False le s0 by simp
    ultimately show thesis using that [of ?d] False le by (simp add: max_def)
  qed
qed

end
