(* ===== verification/CCEH_Insert.thy ===== *)
theory CCEH_Insert
  imports CCEH_PMDK
begin

text \<open>
  Correctness of \<^verbatim>\<open>CCEH::Insert\<close> and \<^verbatim>\<open>CCEH::Get\<close> of the persistent table, in both builds: what one
  pass does to the stored map, that the pass which splits a segment keeps the table well
  formed, and that the retry loop comes to an end.
\<close>

section \<open>One pass\<close>

lemma seg_sema_irrelevant [simp]:
  "key_at (seg\<lparr>seg_sema := n\<rparr>) = key_at seg" "seg_map (seg\<lparr>seg_sema := n\<rparr>) = seg_map seg"
  "seg_ok E (seg\<lparr>seg_sema := n\<rparr>) = seg_ok E seg" "slot_free E (seg\<lparr>seg_sema := n\<rparr>) = slot_free E seg"
  "store_slot (seg\<lparr>seg_sema := n\<rparr>) loc k v = (store_slot seg loc k v)\<lparr>seg_sema := n\<rparr>"
  by (simp_all add: key_at_def seg_map_def seg_ok_def slot_free_def store_slot_def fun_eq_iff)

lemma local_depth_irrelevant [simp]:
  "key_at (seg\<lparr>local_depth := d\<rparr>) = key_at seg" "seg_map (seg\<lparr>local_depth := d\<rparr>) = seg_map seg"
  "seg_ok E (seg\<lparr>local_depth := d\<rparr>) = seg_ok E seg"
  by (simp_all add: key_at_def seg_map_def seg_ok_def fun_eq_iff)

lemma slot_free_iff:
  assumes "1 \<le> local_depth seg" "local_depth seg \<le> 64"
  shows "slot_free E seg (shr64 fh (64 - local_depth seg)) loc \<longleftrightarrow>
    (hi (local_depth seg) (f_hash E (key_at seg loc)) \<noteq> hi (local_depth seg) fh \<or> key_at seg loc = INVALID)
    \<and> key_at seg loc \<noteq> SENTINEL"
proof -
  have "shr64 a (64 - local_depth seg) = shr64 fh (64 - local_depth seg) \<longleftrightarrow>
      hi (local_depth seg) a = hi (local_depth seg) fh" for a
    using shr64_hi [OF assms] by (metis word_unat_eq_iff)
  then show ?thesis by (simp add: slot_free_def)
qed

text \<open>The slot the pass would take.\<close>

definition free_slot :: "env \<Rightarrow> CCEH \<Rightarrow> Key_t \<Rightarrow> nat option" where
  "free_slot E t k =
     find (slot_free E (seg_of t (f_hash E k)) (shr64 (f_hash E k) (64 - local_depth (seg_of t (f_hash E k)))))
       (window (f_hash E k) @ window (s_hash k))"

lemma insert_pass_free:
  assumes ok: "table_ok E t" and fs: "free_slot E t k = Some loc"
  shows "insert_pass E k v t =
    Return (put_seg t (route t (f_hash E k)) (store_slot (seg_of t (f_hash E k)) loc k v))"
proof -
  let ?fh = "f_hash E k"
  note seg = table_ok_seg [OF ok, of ?fh] and ix = index_route [OF ok, of ?fh]
  have u: "(store_slot (seg_of t ?fh) loc k v)\<lparr>seg_sema := 0\<rparr> = store_slot (seg_of t ?fh) loc k v"
    using seg(3) by (cases "seg_of t ?fh") (simp add: store_slot_def)
  show ?thesis
    using seg ix fs by (simp add: insert_pass_def Let_def D_RO_def lock_simp unlock_simp free_slot_def
      claim_and_store_def u)
qed

lemma table_ok_put_seg:
  assumes ok: "table_ok E t" and s: "seg_ok E s" "seg_sema s = 0" "local_depth s = local_depth (seg_of t a)"
  shows "table_ok E (put_seg t (route t a) s)"
proof -
  have "local_depth (seg_of (put_seg t (route t a) s) b) = local_depth (seg_of t b)" for b
    using s(3) by simp
  moreover have "segs_ok E (put_seg t (route t a) s)"
    using s table_ok_seg [OF ok] by (simp add: segs_ok_def)
  ultimately show ?thesis using ok by (simp add: table_ok_def dir_ok_def routes_ok_def)
qed

lemma lookup_None_absent:
  assumes "table_ok E t" "lookup E t k = None" "k \<noteq> INVALID" "i < kNumSlot"
  shows "key_at (seg_of t (f_hash E k)) i \<noteq> k"
  using seg_map_None [OF seg_ok_length [OF table_ok_seg(2) [OF assms(1)]] assms(3)] assms(2,4)
  by (simp add: lookup_def)

lemma free_slotD:
  assumes ok: "table_ok E t" and fs: "free_slot E t k = Some loc"
  shows "loc \<in> windows E k"
    and "key_at (seg_of t (f_hash E k)) loc = INVALID \<or>
      route t (f_hash E (key_at (seg_of t (f_hash E k)) loc)) \<noteq> route t (f_hash E k)"
proof -
  let ?fh = "f_hash E k" and ?seg = "seg_of t (f_hash E k)"
  note f = find_SomeD [OF fs [unfolded free_slot_def]]
  show "loc \<in> windows E k" using f by (auto simp: windows_def)
  have "1 \<le> local_depth ?seg" "local_depth ?seg \<le> 64"
    using table_ok_seg(4,5) [OF ok, of ?fh] table_okD(2) [OF ok] by auto
  then show "key_at ?seg loc = INVALID \<or> route t (f_hash E (key_at ?seg loc)) \<noteq> route t ?fh"
    using f table_ok_route [OF ok, of "f_hash E (key_at ?seg loc)" ?fh] by (auto simp: slot_free_iff)
qed

text \<open>A pass that finds a slot adds the pair to the stored map and changes nothing else.\<close>

lemma store_slot_effect:
  assumes ok: "table_ok E t" and k: "lookup E t k = None" "k \<noteq> INVALID" "k \<noteq> SENTINEL"
    and fs: "free_slot E t k = Some loc"
  defines "t' \<equiv> \<lambda>v. put_seg t (route t (f_hash E k)) (store_slot (seg_of t (f_hash E k)) loc k v)"
  shows "table_ok E (t' v)" and "lookup E (t' v) = (lookup E t)(k \<mapsto> v)"
proof -
  let ?fh = "f_hash E k" and ?seg = "seg_of t (f_hash E k)"
  let ?t = "put_seg t (route t ?fh) (store_slot ?seg loc k v)"
  note seg = table_ok_seg [OF ok, of ?fh]
  have st: "storable E ?seg loc k"
    using free_slotD(1) [OF ok fs] windows_bound lookup_None_absent [OF ok k(1,2)] k
    by (auto simp: storable_def)
  have "table_ok E ?t"
    using seg seg_ok_store [OF seg(2) st] by (intro table_ok_put_seg [OF ok]) auto
  moreover have "lookup E ?t k' = ((lookup E t)(k \<mapsto> v)) k'" for k'
  proof (cases "route t (f_hash E k') = route t ?fh \<and> k' \<noteq> INVALID")
    case True
    then have "k' \<noteq> key_at ?seg loc" using free_slotD(2) [OF ok fs] by auto
    with True show ?thesis using seg(1) by (simp add: lookup_def seg_map_store [OF seg(2) st])
  next
    case False
    then show ?thesis using k by (auto simp: lookup_def)
  qed
  ultimately show "table_ok E (t' v)" "lookup E (t' v) = (lookup E t)(k \<mapsto> v)" by (simp_all add: t'_def fun_eq_iff)
qed

section \<open>A pass that splits\<close>

text \<open>Without a free slot the pass suspends the segment, splits it and updates the directory.\<close>

lemma insert_pass_full:
  assumes ok: "table_ok E t" and cu: "\<not> CUCKOO E" and fs: "free_slot E t k = None"
  shows "insert_pass E k v t =
    (let fh = f_hash E k; t1 = put_seg t (route t fh) ((seg_of t fh)\<lparr>seg_sema := -1\<rparr>);
         (t2, s0, s1) = Split E t1 (route t fh)
     in update_directory E t2 (route t fh) (local_depth (seg_of t fh)) fh s0 s1)"
proof -
  let ?fh = "f_hash E k"
  note seg = table_ok_seg [OF ok, of ?fh] and ix = index_route [OF ok, of ?fh]
  let ?t1 = "put_seg t (route t ?fh) ((seg_of t ?fh)\<lparr>seg_sema := 1\<rparr>)"
  have "insert_pass E k v t = insert_collision E ?t1 k v (unat (shr64 ?fh (64 - depth (dir t)))) (route t ?fh)"
    using seg ix fs by (simp add: insert_pass_def Let_def D_RO_def lock_simp free_slot_def)
  also have "\<dots> = (let t1 = put_seg t (route t ?fh) ((seg_of t ?fh)\<lparr>seg_sema := -1\<rparr>);
         (t2, s0, s1) = Split E t1 (route t ?fh)
     in update_directory E t2 (route t ?fh) (local_depth (seg_of t ?fh)) ?fh s0 s1)"
    unfolding insert_collision_def Let_def
    using seg(1) cu ix(2)
    by (simp only: put_seg_simps simp_thms if_True Segment.simps unlock_simp suspend_simp split: if_split) simp
  finally show ?thesis by (simp add: Let_def)
qed

text \<open>What a splitting pass leaves: a deeper segment for the key, and the stored map less the
  dropped pairs.\<close>

definition split_effect :: "env \<Rightarrow> CCEH \<Rightarrow> Key_t \<Rightarrow> CCEH \<Rightarrow> bool" where
  "split_effect E t k t' \<longleftrightarrow> table_ok E t' \<and>
     local_depth (seg_of t' (f_hash E k)) = Suc (local_depth (seg_of t (f_hash E k))) \<and>
     depth (dir t') = max (depth (dir t)) (Suc (local_depth (seg_of t (f_hash E k)))) \<and>
     lookup E t' \<subseteq>\<^sub>m lookup E t \<and>
     (\<exists>lost. dropped t' = dropped t @ lost \<and> (\<forall>k'. k' \<notin> p_key ` set lost \<longrightarrow> lookup E t' k' = lookup E t k'))"

text \<open>The stored map after a split, from the contents of the two halves.\<close>

lemma split_lookup:
  assumes ok: "table_ok E t" and seg: "seg = seg_of t fh" and ld: "local_depth seg < 64"
    and r: "\<And>a. route t' a = split_route t fh (local_depth seg) s0 s1 a"
    and m1: "\<And>k. seg_map (pool t' ! s1) k = (if upper E seg k \<and> k \<notin> L then seg_map seg k else None)"
    and m0: "\<And>k. \<not> upper E seg k \<Longrightarrow> seg_map (pool t' ! s0) k = (if k \<notin> L then seg_map seg k else None)
               \<or> seg_map (pool t' ! s0) k = seg_map seg k"
    and keep: "\<And>x. x < length (pool t) \<Longrightarrow> x \<noteq> route t fh \<Longrightarrow> pool t' ! x = pool t ! x"
  shows "lookup E t' k = lookup E t k \<or> k \<in> L \<and> lookup E t' k = None"
proof (cases "hi (local_depth seg) (f_hash E k) = hi (local_depth seg) fh")
  case True
  then have "route t (f_hash E k) = route t fh" using table_ok_route [OF ok, of _ fh] seg by simp
  then have "lookup E t k = seg_map seg k" by (simp add: lookup_def seg)
  moreover have "lookup E t' k = seg_map (pool t' ! (if upper E seg k then s1 else s0)) k"
    using True r [of "f_hash E k"] by (simp add: lookup_def split_route_def upper_odd [OF ld])
  ultimately show ?thesis using m1 [of k] m0 [of k] by (auto split: if_splits)
next
  case False
  then have "route t (f_hash E k) \<noteq> route t fh" using table_ok_route [OF ok, of _ fh] seg by simp
  then show ?thesis
    using False r [of "f_hash E k"] keep [OF table_ok_seg(1) [OF ok]] by (simp add: lookup_def split_route_def)
qed

lemma side_inv_sema: "side_inv E (seg\<lparr>seg_sema := n\<rparr>) = side_inv E seg"
  by (simp add: side_inv_def fun_eq_iff)

lemma upper_sema: "upper E (seg\<lparr>seg_sema := n\<rparr>) = upper E seg"
  by (simp add: upper_def fun_eq_iff)

lemma split_done_effect:
  assumes ok: "table_ok E t" and dp: "depth (dir t) \<le> 31" "ld < 31" and x: "x = route t (f_hash E k)" and ld: "ld = local_depth (pool t ! x)"
    and sp: "split_done E (put_seg t x ((pool t ! x)\<lparr>seg_sema := -1\<rparr>)) x t2 s0 s1 lost"
  obtains t' where "update_directory E t2 x ld (f_hash E k) s0 s1 = Retry t'" "split_effect E t k t'"
proof -
  let ?fh = "f_hash E k" and ?seg = "seg_of t (f_hash E k)"
  note seg = table_ok_seg [OF ok, of ?fh, folded x]
  have ld64: "ld < 64" using dp(2) by simp
  have f: "dir t2 = dir t" "dropped t2 = dropped t @ lost" "length (pool t) \<le> s1"
      "s1 < length (pool t2)" "s0 \<noteq> s1" "s0 < length (pool t2)" "length (pool t) \<le> length (pool t2)"
      "if INPLACE E then s0 = x else length (pool t) \<le> s0"
      "side_inv E (pool t ! x) (upper E (pool t ! x)) kNumSlot (pool t2 ! s1) lost"
      "if INPLACE E then pool t2 ! s0 = (pool t ! x)\<lparr>seg_sema := -1\<rparr>
       else side_inv E (pool t ! x) (\<lambda>k. \<not> upper E (pool t ! x) k) kNumSlot (pool t2 ! s0) lost"
      "\<And>y. y < length (pool t) \<Longrightarrow> pool t2 ! y = pool (put_seg t x ((pool t ! x)\<lparr>seg_sema := -1\<rparr>)) ! y"
    using sp seg(1) by (simp_all add: split_done_def side_inv_sema upper_sema cong: if_cong)
  have s0x: "INPLACE E \<Longrightarrow> s0 = x" using f(8) by simp
  have l2: "local_depth (pool t2 ! x) = ld" using f(11) [OF seg(1)] seg(1) ld by simp
  obtain d' where u: "update_directory E t2 x ld ?fh s0 s1 = Retry (finish_inplace E (t2\<lparr>dir := d'\<rparr>) s0)"
      "dir_ok (t2\<lparr>dir := d'\<rparr>)" "depth d' = max (depth (dir t)) (Suc ld)"
      "\<And>a. route (t2\<lparr>dir := d'\<rparr>) a = split_route t ?fh ld s0 s1 a"
    using update_directory_route [of E t ld ?fh t2 s0 s1, folded x, OF ok ld dp(2,1) f(1) l2 s0x] by blast
  let ?t = "finish_inplace E (t2\<lparr>dir := d'\<rparr>) s0"
  have pool: "pool ?t ! y = (if y = s0 \<and> INPLACE E
      then (pool t2 ! s0)\<lparr>local_depth := local_depth (pool t2 ! s0) + 1, seg_sema := 0\<rparr> else pool t2 ! y)" for y
    using pool_finish_inplace [of s0 "t2\<lparr>dir := d'\<rparr>" E y] f(6) by simp
  have r: "route ?t a = split_route t ?fh ld s0 s1 a" for a using u(4) by simp
  have keep: "pool ?t ! y = pool t ! y" if "y < length (pool t)" "y \<noteq> x" for y
    using that f(8,11) by (auto simp: pool split: if_splits)
  have halves: "seg_ok E (pool ?t ! s) \<and> seg_sema (pool ?t ! s) = 0 \<and> local_depth (pool ?t ! s) = Suc ld"
    if "s \<in> {s0, s1}" for s
    using that f(5,9,10) seg(2) by (auto simp: pool side_inv_def ld split: if_splits)
  have "table_ok E ?t"
    using halves keep f(3-8) u(2,3) r ld64 ld x
    by (intro split_table_ok [OF ok, of ld ?fh ?t s0 s1]) (auto simp: dir_ok_def split: if_splits)
  moreover have lk: "lookup E ?t k' = lookup E t k' \<or> k' \<in> p_key ` set lost \<and> lookup E ?t k' = None" for k'
  proof (rule split_lookup [OF ok, of "pool t ! x" ?fh])
    show "seg_map (pool ?t ! s1) k' = (if upper E (pool t ! x) k' \<and> k' \<notin> p_key ` set lost then seg_map (pool t ! x) k' else None)" for k'
      using f(5) side_inv_final [OF f(9) seg(2)] by (simp add: pool)
    show "seg_map (pool ?t ! s0) k' = (if k' \<notin> p_key ` set lost then seg_map (pool t ! x) k' else None) \<or>
        seg_map (pool ?t ! s0) k' = seg_map (pool t ! x) k'" if "\<not> upper E (pool t ! x) k'" for k'
      using f(10) that side_inv_final [OF _ seg(2)] by (auto simp: pool split: if_splits)
  qed (use ld64 ld r x keep in auto)
  moreover have "lookup E ?t \<subseteq>\<^sub>m lookup E t" unfolding map_le_def using lk by fastforce
  moreover have "\<forall>k'. k' \<notin> p_key ` set lost \<longrightarrow> lookup E ?t k' = lookup E t k'" using lk by blast
  moreover have "local_depth (seg_of ?t ?fh) = Suc ld"
    using halves r [of ?fh] by (auto simp: split_route_def)
  ultimately show thesis
    using that [of ?t] u(1,3) f(2) ld x unfolding split_effect_def by auto
qed

lemma insert_pass_split:
  assumes ok: "table_ok E t" and cu: "\<not> CUCKOO E" and dp: "depth (dir t) \<le> 31" "local_depth (seg_of t (f_hash E k)) < 31"
    and fs: "free_slot E t k = None"
  obtains t' where "insert_pass E k v t = Retry t'" "split_effect E t k t'"
proof -
  let ?x = "route t (f_hash E k)" and ?seg = "seg_of t (f_hash E k)"
  note seg = table_ok_seg [OF ok, of "f_hash E k"]
  obtain t2 s0 s1 lost where s: "Split E (put_seg t ?x (?seg\<lparr>seg_sema := -1\<rparr>)) ?x = (t2, s0, s1)"
      "split_done E (put_seg t ?x (?seg\<lparr>seg_sema := -1\<rparr>)) ?x t2 s0 s1 lost"
  proof (rule Split_facts [OF cu, of ?x "put_seg t ?x (?seg\<lparr>seg_sema := -1\<rparr>)"])
    show "?x < length (pool (put_seg t ?x (?seg\<lparr>seg_sema := -1\<rparr>)))" using seg(1) by simp
    show "seg_ok E (pool (put_seg t ?x (?seg\<lparr>seg_sema := -1\<rparr>)) ! ?x)" using seg(1,2) by simp
  qed
  obtain t' where "update_directory E t2 ?x (local_depth ?seg) (f_hash E k) s0 s1 = Retry t'" "split_effect E t k t'"
    using split_done_effect [OF ok dp refl refl s(2)] by blast
  then show thesis using that insert_pass_full [OF ok cu fs, of v] s(1) by (simp add: Let_def)
qed

section \<open>The retry loop\<close>

text \<open>The stored keys whose hash agrees with that of \<open>k\<close> in the top \<open>D\<close> bits.\<close>

definition crowd :: "env \<Rightarrow> CCEH \<Rightarrow> Key_t \<Rightarrow> nat \<Rightarrow> Key_t set" where
  "crowd E t k D = {k' \<in> dom (lookup E t). hi D (f_hash E k') = hi D (f_hash E k)}"

lemma card_window: "card (set (window_at i)) = 32"
proof -
  have "length (window_at i) = 32"
    by (simp add: window_at_def probe_def kNumPairPerCacheLine_def kNumCacheLine_def)
  moreover have "distinct (window_at i)"
    unfolding window_at_def
    by (rule probe_distinct) (simp add: kNumSlot_eq kNumPairPerCacheLine_def kNumCacheLine_def)
  ultimately show ?thesis by (metis distinct_card)
qed

text \<open>A pass finds no slot only if the first window is full of live keys of the segment.\<close>

lemma full_crowd:
  assumes ok: "table_ok E t" and fs: "free_slot E t k = None"
  shows "32 \<le> card (crowd E t k (local_depth (seg_of t (f_hash E k))))"
proof -
  let ?fh = "f_hash E k" and ?seg = "seg_of t (f_hash E k)"
  let ?W = "set (window ?fh)" and ?ld = "local_depth ?seg"
  note seg = table_ok_seg [OF ok, of ?fh]
  have ld: "1 \<le> ?ld" "?ld \<le> 64" using seg(4,5) table_okD(2) [OF ok] by auto
  have live: "hi ?ld (f_hash E (key_at ?seg loc)) = hi ?ld ?fh \<and> key_at ?seg loc \<noteq> INVALID" if "loc \<in> ?W" for loc
    using fs that seg(2) window_at_bound [OF that]
    by (auto simp: free_slot_def find_None_iff slot_free_iff [OF ld] seg_ok_def)
  have "key_at ?seg loc \<in> crowd E t k ?ld" if "loc \<in> ?W" for loc
  proof -
    have "route t (f_hash E (key_at ?seg loc)) = route t ?fh"
      using live [OF that] table_ok_route [OF ok, of _ ?fh] by simp
    then show ?thesis
      using live [OF that] seg_map_at [OF seg(2) window_at_bound [OF that]] by (auto simp: crowd_def lookup_def)
  qed
  then have "key_at ?seg ` ?W \<subseteq> crowd E t k ?ld" by auto
  then have "card (key_at ?seg ` ?W) \<le> card (crowd E t k ?ld)" by (simp add: card_mono)
  moreover have "inj_on (key_at ?seg) ?W"
    using live seg_ok_unique [OF seg(2)] window_at_bound by (intro inj_onI) metis
  ultimately show ?thesis by (simp add: card_image card_window)
qed

lemma crowd_mono:
  assumes "lookup E t' \<subseteq>\<^sub>m lookup E t"
  shows "card (crowd E t' k D) \<le> card (crowd E t k D)"
  using map_le_implies_dom_le [OF assms] by (intro card_mono) (auto simp: crowd_def)

lemma crowd_antimono: "D \<le> D' \<Longrightarrow> D' \<le> 64 \<Longrightarrow> card (crowd E t k D') \<le> card (crowd E t k D)"
  by (intro card_mono) (auto simp: crowd_def dest: hi_mono_eq)

text \<open>What an insertion achieves: the pair is stored, and every other pair is kept unless a
  split on the way dropped it.\<close>

definition insert_effect :: "env \<Rightarrow> CCEH \<Rightarrow> Key_t \<Rightarrow> Value_t \<Rightarrow> CCEH \<Rightarrow> bool" where
  "insert_effect E t k v t' \<longleftrightarrow> table_ok E t' \<and> lookup E t' k = Some v \<and>
     lookup E t' \<subseteq>\<^sub>m (lookup E t)(k \<mapsto> v) \<and>
     (\<exists>lost. dropped t' = dropped t @ lost \<and>
        (\<forall>k'. k' \<notin> p_key ` set lost \<longrightarrow> lookup E t' k' = ((lookup E t)(k \<mapsto> v)) k'))"

lemma split_then_insert:
  assumes "split_effect E t k t1" and "insert_effect E t1 k v t'"
  shows "insert_effect E t k v t'"
proof -
  obtain l1 where l1: "dropped t1 = dropped t @ l1" "\<forall>k'. k' \<notin> p_key ` set l1 \<longrightarrow> lookup E t1 k' = lookup E t k'"
    using assms(1) unfolding split_effect_def by blast
  obtain l2 where l2: "dropped t' = dropped t1 @ l2"
      "\<forall>k'. k' \<notin> p_key ` set l2 \<longrightarrow> lookup E t' k' = ((lookup E t1)(k \<mapsto> v)) k'"
    using assms(2) unfolding insert_effect_def by blast
  have "lookup E t1 \<subseteq>\<^sub>m lookup E t" "lookup E t' \<subseteq>\<^sub>m (lookup E t1)(k \<mapsto> v)"
    using assms by (auto simp: split_effect_def insert_effect_def)
  then have "lookup E t' \<subseteq>\<^sub>m (lookup E t)(k \<mapsto> v)" by (meson map_le_trans map_le_upd)
  moreover have "dropped t' = dropped t @ (l1 @ l2) \<and>
      (\<forall>k'. k' \<notin> p_key ` set (l1 @ l2) \<longrightarrow> lookup E t' k' = ((lookup E t)(k \<mapsto> v)) k')"
    using l1 l2 by (simp add: image_Un)
  ultimately show ?thesis using assms(2) unfolding insert_effect_def by blast
qed

text \<open>The interface of a retry loop over such passes: a pass stores the pair in the first free slot
  of the key's windows, or it splits the key's segment. The persistent and the volatile table
  both provide it.\<close>

locale cceh_pass =
  fixes E :: env and pass :: "Key_t \<Rightarrow> Value_t \<Rightarrow> CCEH \<Rightarrow> CCEH outcome"
  assumes pass_free: "table_ok E t \<Longrightarrow> free_slot E t k = Some loc \<Longrightarrow>
      pass k v t = Return (put_seg t (route t (f_hash E k)) (store_slot (seg_of t (f_hash E k)) loc k v))"
    and pass_full: "table_ok E t \<Longrightarrow> depth (dir t) \<le> 31 \<Longrightarrow> local_depth (seg_of t (f_hash E k)) < 31 \<Longrightarrow> free_slot E t k = None \<Longrightarrow>
      \<exists>t'. pass k v t = Retry t' \<and> split_effect E t k t'"
begin

text \<open>The loop returns: a pass either stores the pair or deepens the key's segment, and at
  depth \<open>D\<close> too few keys are left to fill its window.\<close>

lemma loop_ends:
  assumes "table_ok E t" and k: "k \<noteq> INVALID" "k \<noteq> SENTINEL" and "lookup E t k = None"
    and D: "D \<le> 31" and "depth (dir t) \<le> 31" and "card (crowd E t k D) < 32"
    and "D - local_depth (seg_of t (f_hash E k)) < n"
  shows "\<exists>t'. run_retry (pass k v) n t = Some t' \<and> insert_effect E t k v t' \<and> depth (dir t') \<le> 31"
  using assms(1,4,6,7,8)
proof (induction n arbitrary: t)
  case (Suc n)
  let ?ld = "local_depth (seg_of t (f_hash E k))"
  show ?case
  proof (cases "free_slot E t k")
    case (Some loc)
    note st = store_slot_effect [OF Suc.prems(1,2) k Some, of v]
    show ?thesis using pass_free [OF Suc.prems(1) Some] Suc.prems(3) st by (simp add: insert_effect_def)
  next
    case None
    have "?ld \<le> 31" using table_ok_seg(5) [OF Suc.prems(1)] Suc.prems(3) by (meson order_trans)
    then have "?ld \<le> 64" by simp
    then have less: "?ld < D"
      using full_crowd [OF Suc.prems(1) None] crowd_antimono [of D ?ld E t k] Suc.prems(4) by (meson leD le_trans not_le_imp_less)
    obtain t1 where t1: "pass k v t = Retry t1" "split_effect E t k t1"
      using pass_full [OF Suc.prems(1,3) _ None] less D by (meson less_le_trans)
    have sub: "lookup E t1 \<subseteq>\<^sub>m lookup E t" using t1(2) by (simp add: split_effect_def)
    have "\<exists>t'. run_retry (pass k v) n t1 = Some t' \<and> insert_effect E t1 k v t' \<and> depth (dir t') \<le> 31"
    proof (rule Suc.IH)
      show "lookup E t1 k = None"
        using sub Suc.prems(2) map_le_implies_dom_le [OF sub] by (meson domIff subsetD)
      show "card (crowd E t1 k D) < 32" using crowd_mono [OF sub, of k D] Suc.prems(4) by simp
      show "D - local_depth (seg_of t1 (f_hash E k)) < n"
        using t1(2) less Suc.prems(5) by (simp add: split_effect_def)
    qed (use t1(2) less D Suc.prems(3) in \<open>simp_all add: split_effect_def\<close>)
    then show ?thesis using t1 split_then_insert by auto
  qed
qed simp

lemma insertion_total:
  assumes "table_ok E t" and "depth (dir t) \<le> 31" and "k \<noteq> INVALID" and "k \<noteq> SENTINEL" and "lookup E t k = None"
    and "card {k' \<in> dom (lookup E t). hi 31 (f_hash E k') = hi 31 (f_hash E k)} < 32"
  obtains t' lost where "run_retry (pass k v) 64 t = Some t'" "table_ok E t'" "depth (dir t') \<le> 31" "lookup E t' k = Some v"
    "dropped t' = dropped t @ lost" "\<And>k'. k' \<noteq> k \<Longrightarrow> k' \<notin> p_key ` set lost \<Longrightarrow> lookup E t' k' = lookup E t k'"
proof -
  have "31 - local_depth (seg_of t (f_hash E k)) < 64" by simp
  then obtain t' where t': "run_retry (pass k v) 64 t = Some t'" "insert_effect E t k v t'" "depth (dir t') \<le> 31"
    using loop_ends [OF assms(1,3,4,5) _ assms(2), of 31 64] assms(6) by (auto simp: crowd_def)
  then show thesis using that unfolding insert_effect_def by (auto simp: fun_upd_def)
qed

end

text \<open>The persistent table provides the interface, without the cuckoo branch.\<close>

interpretation pmdk: cceh_pass "E\<lparr>CUCKOO := False\<rparr>" "insert_pass (E\<lparr>CUCKOO := False\<rparr>)" for E
proof
  show "insert_pass (E\<lparr>CUCKOO := False\<rparr>) k v t = Return (put_seg t (route t (f_hash (E\<lparr>CUCKOO := False\<rparr>) k)) (store_slot (seg_of t (f_hash (E\<lparr>CUCKOO := False\<rparr>) k)) loc k v))"
    if "table_ok (E\<lparr>CUCKOO := False\<rparr>) t" "free_slot (E\<lparr>CUCKOO := False\<rparr>) t k = Some loc" for t k loc v
    using insert_pass_free [OF that] .
  show "\<exists>t'. insert_pass (E\<lparr>CUCKOO := False\<rparr>) k v t = Retry t' \<and> split_effect (E\<lparr>CUCKOO := False\<rparr>) t k t'"
    if "table_ok (E\<lparr>CUCKOO := False\<rparr>) t" "depth (dir t) \<le> 31"
      "local_depth (seg_of t (f_hash (E\<lparr>CUCKOO := False\<rparr>) k)) < 31" "free_slot (E\<lparr>CUCKOO := False\<rparr>) t k = None" for t k v
  proof (rule insert_pass_split [OF that(1) _ that(2-4), of v])
    show "\<not> CUCKOO (E\<lparr>CUCKOO := False\<rparr>)" by simp
  qed blast
qed

lemma no_cuckoo: "\<not> CUCKOO E \<Longrightarrow> E\<lparr>CUCKOO := False\<rparr> = E"
  by (cases E) simp

section \<open>The initial table\<close>

lemma log2_floor_bounds: "1 \<le> n \<Longrightarrow> 2 ^ log2_floor n \<le> n \<and> n < 2 ^ Suc (log2_floor n)"
proof (induction n rule: log2_floor.induct)
  case (1 n)
  show ?case
  proof (cases "n < 2")
    case True
    with 1 show ?thesis by (simp add: log2_floor.simps [of n])
  next
    case False
    then have "2 ^ log2_floor (n div 2) \<le> n div 2" "n div 2 < 2 ^ Suc (log2_floor (n div 2))"
      using 1 by auto
    with False show ?thesis by (simp add: log2_floor.simps [of n]) linarith
  qed
qed

lemma log2_floor_range:
  assumes "2 \<le> n" and "n < 2 ^ m"
  shows "1 \<le> log2_floor n" and "log2_floor n < m"
proof -
  have b: "2 ^ log2_floor n \<le> n" "n < 2 ^ Suc (log2_floor n)" using log2_floor_bounds [of n] assms by auto
  show "1 \<le> log2_floor n" using b(2) assms(1) by (cases "log2_floor n") auto
  have "(2::nat) ^ log2_floor n < 2 ^ m" using b(1) assms(2) by linarith
  then show "log2_floor n < m" by simp
qed

lemma initCCEH_table_ok:
  assumes "2 \<le> cap" and "cap < 2 ^ 31"
  shows "table_ok E (initCCEH E cap)" and "lookup E (initCCEH E cap) k = None"
proof -
  let ?t = "initCCEH E cap" and ?dp = "log2_floor cap"
  have dp: "1 \<le> ?dp" "?dp < 31" using log2_floor_range [OF assms] by auto
  have len: "hi ?dp a < 2 ^ ?dp" for a using hi_less [of ?dp a] dp by simp
  have r: "route ?t a = hi ?dp a" for a
    using len [of a] by (simp add: initCCEH_def initDirectory_def Let_def route_def)
  have seg: "seg_of ?t a = initSegment (raw_bucket E) ?dp" for a
    using len [of a] unfolding r by (simp add: initCCEH_def Let_def)
  have "dir_ok ?t" using dp by (simp add: dir_ok_def initCCEH_def initDirectory_def Let_def)
  moreover have "routes_ok ?t" unfolding routes_ok_def seg by (simp add: r)
  moreover have "segs_ok E ?t"
    using dp len unfolding segs_ok_def seg
    by (simp add: r initSegment_ok) (simp add: initCCEH_def initDirectory_def Let_def)
  ultimately show "table_ok E ?t" by (simp add: table_ok_def)
  show "lookup E ?t k = None" unfolding lookup_def seg by (simp add: initSegment_map)
qed

lemma initCCEH_depth: "2 \<le> cap \<Longrightarrow> cap < 2 ^ 31 \<Longrightarrow> depth (dir (initCCEH E cap)) \<le> 31"
  using log2_floor_range(2) [of cap 31] by (simp add: initCCEH_def initDirectory_def Let_def)

section \<open>Properties\<close>

text \<open>A concrete environment for the witnesses: \<open>murmur2\<close> in the place of the library hash, and
  freshly allocated memory that is all zero.\<close>

definition demo_env :: "bool \<Rightarrow> env" where
  "demo_env ip = \<lparr>std = murmur2, INPLACE = ip, CUCKOO = False, fresh = (\<lambda>i. Pair_make 0 0)\<rparr>"

lemma demo_env_simps [simp]: "CUCKOO (demo_env ip) = False" "INPLACE (demo_env ip) = ip"
  by (simp_all add: demo_env_def)

abbreviation demo_table :: "bool \<Rightarrow> CCEH" where
  "demo_table ip \<equiv> initCCEH (demo_env ip) 16384"

lemma demo_table_facts:
  "table_ok (demo_env ip) (demo_table ip)" "lookup (demo_env ip) (demo_table ip) k = None"
  "depth (dir (demo_table ip)) \<le> 31" "card (crowd (demo_env ip) (demo_table ip) k D) < 32"
proof -
  show e: "lookup (demo_env ip) (demo_table ip) k = None" for k by (rule initCCEH_table_ok) simp_all
  show "table_ok (demo_env ip) (demo_table ip)" by (rule initCCEH_table_ok) simp_all
  show "depth (dir (demo_table ip)) \<le> 31" by (rule initCCEH_depth) simp_all
  show "card (crowd (demo_env ip) (demo_table ip) k D) < 32" by (simp add: crowd_def dom_def e)
qed

text \<open>C2: insertion of a new key is totally correct. On a well-formed table of at most \<open>2 ^ 31\<close>
  directory entries, the greatest number the \<^verbatim>\<open>int\<close> counters of the directory update can handle,
  \<^verbatim>\<open>Insert\<close> returns after at most 64 passes of its \<^verbatim>\<open>RETRY\<close> loop, provided fewer than 32 stored
  keys agree with the new one in the top 31 hash bits. The directory stays within that size, the
  table is well formed again, \<^verbatim>\<open>Get\<close> finds the new value, and every other key reads as before unless a
  segment split on the way dropped it. This holds for the in-place and the copy-on-write
  build without the cuckoo branch.\<close>

theorem Insert_correct:
  assumes "table_ok E t" and "\<not> CUCKOO E" and "depth (dir t) \<le> 31"
    and "k \<noteq> INVALID" and "k \<noteq> SENTINEL" and "lookup E t k = None"
    and "card {k' \<in> dom (lookup E t). hi 31 (f_hash E k') = hi 31 (f_hash E k)} < 32"
  shows "\<exists>t' lost. Insert E 64 t k v = Some t' \<and> table_ok E t' \<and> depth (dir t') \<le> 31 \<and>
     Get E t' k = Some v \<and> dropped t' = dropped t @ lost \<and>
     (\<forall>k'. k' \<noteq> k \<and> k' \<noteq> INVALID \<and> k' \<notin> p_key ` set lost \<longrightarrow> Get E t' k' = Get E t k')"
proof -
  obtain t' lost where t': "run_retry (insert_pass E k v) 64 t = Some t'" "table_ok E t'" "depth (dir t') \<le> 31" "lookup E t' k = Some v"
    "dropped t' = dropped t @ lost" "\<And>k'. k' \<noteq> k \<Longrightarrow> k' \<notin> p_key ` set lost \<Longrightarrow> lookup E t' k' = lookup E t k'"
    using pmdk.insertion_total [of E, unfolded no_cuckoo [OF assms(2)], OF assms(1,3-7)] by metis
  have "Get E t' k' = Get E t k'" if "k' \<noteq> k" "k' \<noteq> INVALID" "k' \<notin> p_key ` set lost" for k'
    using t'(6) [OF that(1,3)] Get_lookup [OF t'(2) that(2)] Get_lookup [OF assms(1) that(2)] by simp
  moreover have "Get E t' k = Some v" using Get_lookup [OF t'(2) assms(4)] t'(4) by simp
  ultimately show ?thesis using t' unfolding Insert_def by blast
qed

theorem Insert_correct_witness:
  "\<exists>t'. Insert (demo_env True) 64 (demo_table True) 1 7 = Some t' \<and> Get (demo_env True) t' 1 = Some 7"
  using Insert_correct [OF demo_table_facts(1) _ demo_table_facts(3), of True 1]
    demo_table_facts(2,4) [of True] by (fastforce simp: crowd_def INVALID_def SENTINEL_def)

text \<open>A pass of \<^verbatim>\<open>Insert\<close> that finds no slot splits the key's segment: the pass jumps back to
  \<^verbatim>\<open>RETRY\<close> with a well-formed table in which the segment of the key is one level deeper and the
  directory has doubled exactly if the segment was as deep as the directory. No pair is
  altered or made up, and a pair can only vanish if it was dropped.\<close>

theorem insert_pass_split_correct:
  assumes "table_ok E t" and "\<not> CUCKOO E" and "depth (dir t) \<le> 31" and "local_depth (seg_of t (f_hash E k)) < 31"
    and "free_slot E t k = None"
  shows "\<exists>t' lost. insert_pass E k v t = Retry t' \<and> table_ok E t' \<and>
     local_depth (seg_of t' (f_hash E k)) = Suc (local_depth (seg_of t (f_hash E k))) \<and>
     depth (dir t') = (if local_depth (seg_of t (f_hash E k)) = depth (dir t) then Suc (depth (dir t)) else depth (dir t)) \<and>
     lookup E t' \<subseteq>\<^sub>m lookup E t \<and> dropped t' = dropped t @ lost \<and>
     (\<forall>k'. k' \<notin> p_key ` set lost \<longrightarrow> lookup E t' k' = lookup E t k')"
proof -
  obtain t' where t': "insert_pass E k v t = Retry t'" "split_effect E t k t'"
    using insert_pass_split [OF assms] by metis
  have "local_depth (seg_of t (f_hash E k)) \<le> depth (dir t)" by (rule table_ok_seg [OF assms(1)])
  then have "depth (dir t') = (if local_depth (seg_of t (f_hash E k)) = depth (dir t) then Suc (depth (dir t)) else depth (dir t))"
    using t'(2) by (auto simp: split_effect_def max_def)
  then show ?thesis using t' unfolding split_effect_def by blast
qed

text \<open>A table whose first window for key 1 is full, for the witness of the split: a hash that sends
  every key to the same window, which is also the second window of key 1.\<close>

definition full_env :: env where
  "full_env = \<lparr>std = (\<lambda>bs seed. jenkins (key_bytes 1) s_seed), INPLACE = True, CUCKOO = False,
     fresh = (\<lambda>i. Pair_make 0 0)\<rparr>"

definition full_key :: "nat \<Rightarrow> Key_t" where
  "full_key i = of_nat (2 + i)"

definition full_seg :: Segment where
  "full_seg = \<lparr>bucket = map (\<lambda>i. if i \<in> set (window (s_hash 1)) then Pair_make (full_key i) 0 else Pair_make INVALID 0)
     [0..<kNumSlot], seg_sema = 0, local_depth = 1\<rparr>"

definition full_table :: CCEH where
  "full_table = put_seg (initCCEH full_env 2) (route (initCCEH full_env 2) (s_hash 1)) full_seg"

lemma full_env_simps: "f_hash full_env k = s_hash 1" "\<not> CUCKOO full_env" "INPLACE full_env"
  by (simp_all add: full_env_def f_hash_def s_hash_def)

lemma full_seg_key:
  "i < kNumSlot \<Longrightarrow> key_at full_seg i = (if i \<in> set (window (s_hash 1)) then full_key i else INVALID)"
  by (simp add: full_seg_def key_at_def)

lemma full_seg_small:
  assumes "i < kNumSlot"
  shows "unat (full_key i) = 2 + i" and "full_key i \<noteq> INVALID" and "full_key i \<noteq> SENTINEL"
proof -
  show u: "unat (full_key i) = 2 + i"
    using assms unfolding full_key_def
    by (simp only: unsigned_of_nat) (simp add: take_bit_nat_eq_self_iff kNumSlot_eq)
  have "unat INVALID = 2 ^ 64 - 1" "unat SENTINEL = 2 ^ 64 - 2" by (simp_all add: INVALID_def SENTINEL_def unsigned_minus_1_eq_mask mask_eq_exp_minus_1)
  then show "full_key i \<noteq> INVALID" "full_key i \<noteq> SENTINEL"
    using u assms by (auto simp: kNumSlot_eq)
qed

lemma full_seg_length: "length (bucket full_seg) = kNumSlot"
  by (simp add: full_seg_def)

lemma full_seg_unique:
  assumes "i < kNumSlot" "j < kNumSlot" "key_at full_seg i = key_at full_seg j" "key_at full_seg i \<noteq> INVALID"
  shows "i = j"
proof -
  note k = full_seg_key [OF assms(1)] full_seg_key [OF assms(2)]
  have "full_key i = full_key j" using assms(3,4) k by metis
  then have "unat (full_key i) = unat (full_key j)" by (rule arg_cong)
  then show ?thesis unfolding full_seg_small(1) [OF assms(1)] full_seg_small(1) [OF assms(2)] by (rule add_left_imp_eq)
qed

lemma full_seg_unclaimed: "i < kNumSlot \<Longrightarrow> key_at full_seg i \<noteq> SENTINEL"
  using full_seg_small(3) [of i] by (simp add: full_seg_key)

lemma full_seg_window:
  assumes "i < kNumSlot" "key_at full_seg i \<noteq> INVALID"
  shows "i \<in> windows full_env (key_at full_seg i)"
  using assms(2) unfolding full_seg_key [OF assms(1)] windows_def full_env_simps by (simp split: if_splits)

lemma full_seg_ok: "seg_ok full_env full_seg"
  unfolding seg_ok_def
  by (intro conjI allI impI full_seg_length full_seg_unclaimed full_seg_window full_seg_unique)

lemma full_table_facts:
  "table_ok full_env full_table" "depth (dir full_table) \<le> 31" "local_depth (seg_of full_table (f_hash full_env 1)) < 31" "free_slot full_env full_table 1 = None"
proof -
  let ?t = "initCCEH full_env 2"
  have ok: "table_ok full_env ?t" by (rule initCCEH_table_ok) simp_all
  have lg: "log2_floor 2 = 1" by (simp add: log2_floor.simps)
  have "local_depth (seg_of ?t a) = 1" for a
    using table_ok_seg(4,5) [OF ok, of a] by (simp add: initCCEH_def initDirectory_def lg Let_def)
  then show *: "table_ok full_env full_table"
    unfolding full_table_def by (intro table_ok_put_seg [OF ok full_seg_ok]) (simp_all add: full_seg_def)
  show "depth (dir full_table) \<le> 31"
    using initCCEH_depth [of 2 full_env] by (simp add: full_table_def)
  have fs: "seg_of full_table (s_hash 1) = full_seg"
    using table_ok_seg(1) [OF ok] by (simp add: full_table_def)
  then show "local_depth (seg_of full_table (f_hash full_env 1)) < 31" by (simp add: full_env_simps full_seg_def)
  show "free_slot full_env full_table 1 = None"
    using fs full_seg_small window_at_bound
    by (auto simp: free_slot_def full_env_simps find_None_iff slot_free_def full_seg_key)
qed

theorem insert_pass_split_correct_witness:
  "\<exists>t'. insert_pass full_env 1 7 full_table = Retry t' \<and> table_ok full_env t'"
  using insert_pass_split_correct [OF full_table_facts(1) full_env_simps(2) full_table_facts(2-4)] by blast

text \<open>The initial table. For every initial capacity from 2 to what an \<^verbatim>\<open>int\<close> can count the constructor gives a
  well-formed table in which \<^verbatim>\<open>Get\<close> finds nothing.\<close>

theorem initCCEH_correct:
  assumes "2 \<le> cap" and "cap < 2 ^ 31"
  shows "table_ok E (initCCEH E cap) \<and> (\<forall>k. k \<noteq> INVALID \<longrightarrow> Get E (initCCEH E cap) k = Some NONE)"
  using initCCEH_table_ok [OF assms, of E] Get_lookup by simp

theorem initCCEH_correct_witness: "Get (demo_env False) (initCCEH (demo_env False) 2) 5 = Some NONE"
  using initCCEH_correct [of 2 "demo_env False"] by (simp add: INVALID_def)

end
