(* ===== verification/CCEH_Recovery.thy ===== *)
theory CCEH_Recovery
  imports CCEH_Insert
begin

text \<open>
  The operations of the persistent CCEH table that walk the directory segment by segment:
  \<^verbatim>\<open>Recovery\<close>, \<^verbatim>\<open>Capacity\<close> and \<^verbatim>\<open>Utilization\<close>. The walk visits every segment exactly once, so
  \<^verbatim>\<open>Capacity\<close> counts segments and \<^verbatim>\<open>Utilization\<close> counts stored keys; \<^verbatim>\<open>Recovery\<close> leaves a
  consistent directory alone and rolls an interrupted in-place split back, except in the
  group of entries at the end of the directory.
\<close>

section \<open>The walk\<close>

definition seg_at :: "CCEH \<Rightarrow> nat \<Rightarrow> Segment" where
  "seg_at t i = pool t ! (segment (dir t) ! i)"

definition stride_at :: "CCEH \<Rightarrow> nat \<Rightarrow> nat" where
  "stride_at t i = 2 ^ (depth (dir t) - local_depth (seg_at t i))"

text \<open>An index at which the walk can stand: the first entry of a segment, or the end.\<close>

definition starts :: "CCEH \<Rightarrow> nat \<Rightarrow> bool" where
  "starts t i \<longleftrightarrow> i = capacity (dir t) \<or> i < capacity (dir t) \<and> stride_at t i dvd i"

lemma stride_pos [simp]: "0 < stride_at t i"
  by (simp add: stride_at_def)

lemma dvd_block_end:
  assumes "(n :: nat) dvd i" and "n dvd c" and "i < c"
  shows "i + n \<le> c"
proof -
  obtain a b where ab: "i = n * a" "c = n * b" using assms by (elim dvdE)
  then have "Suc a \<le> b" using assms(3) by simp
  then have "n * Suc a \<le> n * b" by (rule mult_le_mono2)
  then show ?thesis using ab by simp
qed

lemma div_eq_block: "0 < n \<Longrightarrow> j div n = q \<longleftrightarrow> n * q \<le> j \<and> j < n * q + (n :: nat)"
proof
  assume "0 < n" "j div n = q"
  then show "n * q \<le> j \<and> j < n * q + n"
    using mult_div_mod_eq [of n j] mod_less_divisor [of n j] by (metis add_left_cancel le_add1 nat_add_left_cancel_less)
next
  assume "0 < n" "n * q \<le> j \<and> j < n * q + n"
  then show "j div n = q" by (intro div_nat_eqI) (auto simp: algebra_simps)
qed

lemma div_pred_same:
  assumes "\<not> (m :: nat) dvd j" and "0 < m"
  shows "(j - 1) div m = j div m"
proof -
  have "0 < j mod m" using assms by (simp add: dvd_eq_mod_eq_0)
  then show ?thesis
    using assms(2) mult_div_mod_eq [of m j] mod_less_divisor [OF assms(2), of j]
    by (subst div_eq_block) linarith+
qed

lemma seg_at_hash:
  assumes ok: "table_ok E t" and i: "i < capacity (dir t)"
  obtains a where "hi (depth (dir t)) a = i" "route t a = segment (dir t) ! i" "seg_of t a = seg_at t i"
    "hi (local_depth (seg_at t i)) a = i div stride_at t i"
proof -
  let ?D = "depth (dir t)" and ?a = "of_nat (i * 2 ^ (64 - depth (dir t))) :: 64 word"
  note d = table_okD [OF ok]
  have a: "hi ?D ?a = i" using hi_surj [of ?D i] d i by simp
  have r: "route t ?a = segment (dir t) ! i" by (simp only: route_def a)
  then have s: "seg_of t ?a = seg_at t i" by (simp only: seg_at_def)
  have "local_depth (seg_at t i) \<le> ?D" using table_ok_seg(5) [OF ok, of ?a] by (simp only: s)
  then have "hi (local_depth (seg_at t i)) ?a = i div stride_at t i"
    using hi_div [of "local_depth (seg_at t i)" ?D ?a] d(2) by (simp only: a stride_at_def)
  then show thesis by (rule that [OF a r s])
qed

text \<open>Two entries lead to the same segment exactly when they lie in the same block.\<close>

lemma dir_group:
  assumes ok: "table_ok E t" and i: "i < capacity (dir t)" and j: "j < capacity (dir t)"
  shows "segment (dir t) ! j = segment (dir t) ! i \<longleftrightarrow> j div stride_at t i = i div stride_at t i"
proof -
  let ?ld = "local_depth (seg_at t i)"
  obtain a where a: "route t a = segment (dir t) ! i" "seg_of t a = seg_at t i" "hi ?ld a = i div stride_at t i"
    using seg_at_hash [OF ok i] by metis
  obtain b where b: "hi (depth (dir t)) b = j" "route t b = segment (dir t) ! j"
    using seg_at_hash [OF ok j] by metis
  have "?ld \<le> depth (dir t)" using table_ok_seg(5) [OF ok, of a] a(2) by simp
  then have "hi ?ld b = j div stride_at t i"
    using hi_div [of ?ld "depth (dir t)" b] table_okD(2) [OF ok] b(1) by (simp add: stride_at_def)
  then show ?thesis using table_ok_route [OF ok, of b a] a b by simp
qed

lemma starts_next:
  assumes ok: "table_ok E t" and s: "starts t i" and i: "i < capacity (dir t)"
  shows "i + stride_at t i \<le> capacity (dir t)" and "starts t (i + stride_at t i)"
proof -
  let ?n = "stride_at t i" and ?C = "capacity (dir t)"
  have dvd: "?n dvd i" using s i by (simp add: starts_def)
  obtain a where "seg_of t a = seg_at t i" using seg_at_hash [OF ok i] by metis
  then have "?n dvd ?C" using table_okD(4) [OF ok] table_ok_seg(5) [OF ok, of a]
    by (simp add: stride_at_def le_imp_power_dvd)
  then show le: "i + ?n \<le> ?C" using dvd i by (intro dvd_block_end)
  show "starts t (i + ?n)"
  proof (cases "i + ?n = ?C")
    case False
    let ?j = "i + ?n"
    have j: "?j < ?C" using le False by simp
    have "stride_at t ?j dvd ?j"
    proof (rule ccontr)
      assume nd: "\<not> stride_at t ?j dvd ?j"
      then have "(?j - 1) div stride_at t ?j = ?j div stride_at t ?j"
        by (rule div_pred_same) simp
      then have "segment (dir t) ! (?j - 1) = segment (dir t) ! ?j" using dir_group [OF ok j, of "?j - 1"] j by simp
      moreover have "(?j - 1) div ?n = i div ?n"
        using dvd gr0_implies_Suc [OF stride_pos, of t i] by (subst div_eq_block) auto
      then have "segment (dir t) ! (?j - 1) = segment (dir t) ! i" using dir_group [OF ok i, of "?j - 1"] j by simp
      ultimately have "?j div ?n = i div ?n" using dir_group [OF ok i j] by simp
      moreover have "?j div ?n = i div ?n + 1" by (rule div_add_self2) (simp add: stride_at_def)
      ultimately show False by linarith
    qed
    then show ?thesis using j by (simp add: starts_def)
  qed (simp add: starts_def)
qed

lemma starts_group:
  assumes ok: "table_ok E t" and s: "starts t i" and i: "i < capacity (dir t)" and j: "j < capacity (dir t)"
  shows "segment (dir t) ! j = segment (dir t) ! i \<longleftrightarrow> i \<le> j \<and> j < i + stride_at t i"
proof -
  let ?n = "stride_at t i"
  have "?n dvd i" using s i by (simp add: starts_def)
  then have "?n * (i div ?n) = i" by simp
  then have "j div ?n = i div ?n \<longleftrightarrow> i \<le> j \<and> j < i + ?n"
    using div_eq_block [OF stride_pos, of j t i "i div ?n"] by simp
  then show ?thesis using dir_group [OF ok i j] by simp
qed

lemma starts_0: "table_ok E t \<Longrightarrow> starts t 0"
  using table_okD(4) [of E t] by (simp add: starts_def)

text \<open>The induction behind the three loops.\<close>

lemma walk_induct [consumes 2, case_names End Step]:
  assumes ok: "table_ok E t" and s: "starts t i"
    and e: "P (capacity (dir t))"
    and st: "\<And>i. starts t i \<Longrightarrow> i < capacity (dir t) \<Longrightarrow> i + stride_at t i \<le> capacity (dir t) \<Longrightarrow>
           P (i + stride_at t i) \<Longrightarrow> P i"
  shows "P i"
  using s
proof (induction "capacity (dir t) - i" arbitrary: i rule: less_induct)
  case less
  show ?case
  proof (cases "i < capacity (dir t)")
    case True
    note n = starts_next [OF ok less.prems True]
    have "capacity (dir t) - (i + stride_at t i) < capacity (dir t) - i"
      using True stride_pos [of t i] by (intro diff_less_mono2) auto
    then have "P (i + stride_at t i)" by (rule less.hyps) (rule n(2))
    then show ?thesis by (rule st [OF less.prems True n(1)])
  next
    case False
    then show ?thesis using less.prems e by (auto simp: starts_def)
  qed
qed

section \<open>Capacity and Utilization\<close>

lemma drop_group:
  assumes ok: "table_ok E t" and s: "starts t i" and i: "i < capacity (dir t)"
  shows "set (drop i (segment (dir t))) = insert (segment (dir t) ! i) (set (drop (i + stride_at t i) (segment (dir t))))"
    and "segment (dir t) ! i \<notin> set (drop (i + stride_at t i) (segment (dir t)))"
proof -
  let ?s = "segment (dir t)" and ?n = "stride_at t i"
  have len: "length ?s = capacity (dir t)" using table_okD [OF ok] by simp
  have mem: "x \<in> set (drop m ?s) \<longleftrightarrow> (\<exists>j. m \<le> j \<and> j < capacity (dir t) \<and> ?s ! j = x)" for x m
  proof
    assume "x \<in> set (drop m ?s)"
    then obtain j where "j < length ?s - m" "drop m ?s ! j = x" by (auto simp: in_set_conv_nth)
    then show "\<exists>j. m \<le> j \<and> j < capacity (dir t) \<and> ?s ! j = x" using len by (intro exI [of _ "m + j"]) auto
  next
    assume "\<exists>j. m \<le> j \<and> j < capacity (dir t) \<and> ?s ! j = x"
    then obtain j where "m \<le> j" "j < length ?s" "?s ! j = x" using len by auto
    then show "x \<in> set (drop m ?s)" by (auto simp: in_set_conv_nth intro!: exI [of _ "j - m"])
  qed
  note g = starts_group [OF ok s i]
  show "segment (dir t) ! i \<notin> set (drop (i + ?n) ?s)" using g by (auto simp: mem)
  have "x \<in> set (drop i ?s) \<longleftrightarrow> x \<in> insert (?s ! i) (set (drop (i + ?n) ?s))" for x
  proof
    assume "x \<in> set (drop i ?s)"
    then obtain j where j: "i \<le> j" "j < capacity (dir t)" "?s ! j = x" by (auto simp: mem)
    then show "x \<in> insert (?s ! i) (set (drop (i + ?n) ?s))" using g [of j] by (cases "j < i + ?n") (auto simp: mem not_less)
  next
    assume "x \<in> insert (?s ! i) (set (drop (i + ?n) ?s))"
    then show "x \<in> set (drop i ?s)" using i by (auto simp: mem intro: add_leD1)
  qed
  then show "set (drop i ?s) = insert (?s ! i) (set (drop (i + ?n) ?s))" by blast
qed

lemma capacity_loop_count:
  assumes ok: "table_ok E t" and "starts t i"
  shows "capacity_loop t i cnt = cnt + card (set (drop i (segment (dir t))))"
  using assms
proof (induction arbitrary: cnt rule: walk_induct)
  case End
  then show ?case using table_okD [OF ok] by (simp add: capacity_loop.simps)
next
  case (Step i)
  show ?case
    using Step drop_group [OF ok Step(1,2)]
    by (simp add: capacity_loop.simps [of t i] stride_at_def [symmetric] seg_at_def [symmetric])
qed

text \<open>The live slots of a segment, counted by the keys they hold.\<close>

definition block_keys :: "env \<Rightarrow> CCEH \<Rightarrow> nat \<Rightarrow> nat \<Rightarrow> Key_t set" where
  "block_keys E t i j = {k \<in> dom (lookup E t). i \<le> hi (depth (dir t)) (f_hash E k) \<and> hi (depth (dir t)) (f_hash E k) < j}"

lemma live_slots_keys:
  assumes ok: "table_ok E t" and s: "starts t i" and i: "i < capacity (dir t)"
  shows "live_slots E (seg_at t i) (i div stride_at t i) = card (block_keys E t i (i + stride_at t i))"
proof -
  let ?seg = "seg_at t i" and ?n = "stride_at t i" and ?D = "depth (dir t)"
  obtain a where a: "route t a = segment (dir t) ! i" "seg_of t a = ?seg" using seg_at_hash [OF ok i] by metis
  note seg = table_ok_seg [OF ok, of a, unfolded a(2)] and d = table_okD [OF ok]
  have ld: "1 \<le> local_depth ?seg" "local_depth ?seg \<le> 64" using seg(4,5) d(2) by auto
  have blk: "hi (local_depth ?seg) h = i div ?n \<longleftrightarrow> i \<le> hi ?D h \<and> hi ?D h < i + ?n" for h
  proof -
    have "hi (local_depth ?seg) h = hi ?D h div ?n" using hi_div [OF seg(5) d(2), of h] by (simp add: stride_at_def)
    moreover have "?n * (i div ?n) = i" using s i by (simp add: starts_def)
    ultimately show ?thesis using div_eq_block [OF stride_pos, of "hi ?D h" t i "i div ?n"] by simp
  qed
  have rt: "segment (dir t) ! hi ?D h = segment (dir t) ! i \<longleftrightarrow> i \<le> hi ?D h \<and> hi ?D h < i + ?n" for h
    using starts_group [OF ok s i, of "hi ?D h"] hi_less [of ?D h] d by simp
  let ?J = "{j. j < kNumSlot \<and> hi (local_depth ?seg) (f_hash E (key_at ?seg j)) = i div ?n \<and> key_at ?seg j \<noteq> INVALID}"
  have "live_slots E ?seg (i div ?n) = card ?J"
    using seg_ok_length [OF seg(2)]
    by (simp add: live_slots_def length_filter_conv_card h_is_f_hash shr64_hi [OF ld] key_at_def)
  also have "\<dots> = card (key_at ?seg ` ?J)"
    using seg_ok_unique [OF seg(2)] by (intro card_image [symmetric] inj_onI) blast
  also have "key_at ?seg ` ?J = block_keys E t i (i + ?n)"
  proof (intro set_eqI)
    fix k
    have "lookup E t k = seg_map ?seg k" if "i \<le> hi ?D (f_hash E k) \<and> hi ?D (f_hash E k) < i + ?n"
      using that rt [of "f_hash E k"] by (simp add: lookup_def route_def seg_at_def)
    moreover have "k \<in> key_at ?seg ` ?J \<longleftrightarrow> hi (local_depth ?seg) (f_hash E k) = i div ?n \<and> seg_map ?seg k \<noteq> None"
      using seg_map_None [OF seg_ok_length [OF seg(2)], of k] by (cases "k = INVALID") auto
    ultimately show "k \<in> key_at ?seg ` ?J \<longleftrightarrow> k \<in> block_keys E t i (i + ?n)"
      unfolding block_keys_def blk by auto
  qed
  finally show ?thesis .
qed

lemma utilization_loop_count:
  assumes ok: "table_ok E t" and "starts t i"
  shows "utilization_loop E t i acc cnt =
    (acc + card (block_keys E t i (capacity (dir t))), cnt + card (set (drop i (segment (dir t)))))"
  using assms
proof (induction arbitrary: acc cnt rule: walk_induct)
  case End
  then show ?case using table_okD [OF ok] by (simp add: utilization_loop.simps block_keys_def)
next
  case (Step i)
  let ?n = "stride_at t i"
  have "block_keys E t i (capacity (dir t)) = block_keys E t i (i + ?n) \<union> block_keys E t (i + ?n) (capacity (dir t))"
    using Step(3) by (auto simp: block_keys_def)
  moreover have "block_keys E t i (i + ?n) \<inter> block_keys E t (i + ?n) (capacity (dir t)) = {}"
    by (auto simp: block_keys_def)
  ultimately have "card (block_keys E t i (capacity (dir t))) =
      card (block_keys E t i (i + ?n)) + card (block_keys E t (i + ?n) (capacity (dir t)))"
    by (simp add: card_Un_disjoint)
  then show ?case
    using Step drop_group [OF ok Step(1,2)] live_slots_keys [OF ok Step(1,2)]
    by (simp add: utilization_loop.simps [of E t i] stride_at_def [symmetric] seg_at_def [symmetric] Let_def)
qed

section \<open>Recovery\<close>

lemma length_repair_group [simp]: "length (repair_group ps d i n segs) = length segs"
  by (induction n arbitrary: segs) auto

lemma length_recovery_loop [simp]: "length (recovery_loop ps cap dp i segs) = length segs"
  by (induction ps cap dp i segs rule: recovery_loop.induct)
     (subst recovery_loop.simps; simp add: Let_def)

text \<open>The inner loop replaces, in a group, the entries whose segment has another depth.\<close>

lemma nth_repair_group:
  "i + n < length segs \<Longrightarrow> j < length segs \<Longrightarrow> repair_group ps d i n segs ! j =
     (if i < j \<and> j \<le> i + n \<and> local_depth (ps ! (segs ! j)) \<noteq> d then segs ! i else segs ! j)"
proof (induction n arbitrary: segs)
  case (Suc n)
  then show ?case by (auto simp: nth_list_update le_Suc_eq)
qed simp

text \<open>
  A directory in which an update of \<open>t\<close> was interrupted: some entries that are not the first of
  their group lead to a segment of another depth.
\<close>

definition torn :: "CCEH \<Rightarrow> Segment list \<Rightarrow> oid list \<Rightarrow> bool" where
  "torn t ps segs \<longleftrightarrow> length segs = capacity (dir t) \<and>
     (\<forall>j < capacity (dir t). local_depth (ps ! (segment (dir t) ! j)) = local_depth (seg_at t j) \<and>
        (segs ! j = segment (dir t) ! j \<or>
         \<not> stride_at t j dvd j \<and> local_depth (ps ! (segs ! j)) \<noteq> local_depth (seg_at t j)))"

lemma torn_repair:
  assumes ok: "table_ok E t" and s: "starts t i" and i: "i < capacity (dir t)" and torn: "torn t ps segs"
  defines "segs' \<equiv> repair_group ps (local_depth (ps ! (segs ! i))) i (stride_at t i - 1) segs"
  shows "local_depth (ps ! (segs ! i)) = local_depth (seg_at t i)" and "torn t ps segs'"
    and "j < capacity (dir t) \<Longrightarrow> segs' ! j = (if i \<le> j \<and> j < i + stride_at t i then segment (dir t) ! j else segs ! j)"
proof -
  let ?n = "stride_at t i" and ?o = "segment (dir t)"
  have len: "length segs = capacity (dir t)" using torn by (simp add: torn_def)
  have "?n dvd i" using s i by (simp add: starts_def)
  then have head: "segs ! i = ?o ! i" using torn i by (auto simp: torn_def)
  then show ld: "local_depth (ps ! (segs ! i)) = local_depth (seg_at t i)" using torn i by (simp add: torn_def)
  have bound: "i + (?n - 1) < length segs"
    using starts_next(1) [OF ok s i] stride_pos [of t i] len by linarith
  show nth: "segs' ! j = (if i \<le> j \<and> j < i + ?n then ?o ! j else segs ! j)" if j: "j < capacity (dir t)" for j
  proof -
    have n: "j \<le> i + (?n - 1) \<longleftrightarrow> j < i + ?n" using stride_pos [of t i] by linarith
    have grp: "?o ! j = ?o ! i \<and> local_depth (seg_at t j) = local_depth (seg_at t i)" if "i \<le> j" "j < i + ?n"
      using starts_group [OF ok s i j] that by (simp add: seg_at_def)
    have "segs ! j = ?o ! j \<or> local_depth (ps ! (segs ! j)) \<noteq> local_depth (seg_at t j)"
        "local_depth (ps ! (?o ! j)) = local_depth (seg_at t j)"
      using torn j by (auto simp: torn_def)
    then show ?thesis
      using nth_repair_group [OF bound, of j ps "local_depth (seg_at t i)"] j len n grp head
      unfolding segs'_def ld by (cases "j = i") auto
  qed
  show "torn t ps segs'"
    using torn nth by (auto simp: torn_def segs'_def)
qed

text \<open>The loop repairs every group but the last one, which it leaves as it is.\<close>

lemma recovery_loop_nth:
  assumes ok: "table_ok E t" and "starts t i" and "torn t ps segs" and "j < capacity (dir t)"
  shows "recovery_loop ps (capacity (dir t)) (depth (dir t)) i segs ! j =
    (if j < i \<or> segment (dir t) ! j = segment (dir t) ! (capacity (dir t) - 1) then segs ! j else segment (dir t) ! j)"
  using assms
proof (induction arbitrary: segs rule: walk_induct)
  case End
  then show ?case by (simp add: recovery_loop.simps)
next
  case (Step i)
  let ?C = "capacity (dir t)" and ?n = "stride_at t i" and ?o = "segment (dir t)"
  let ?segs = "repair_group ps (local_depth (ps ! (segs ! i))) i (?n - 1) segs"
  note r = torn_repair [OF ok Step(1,2,5)]
  have "2 ^ (depth (dir t) - local_depth (ps ! (segs ! i))) = ?n" by (simp add: r(1) stride_at_def)
  then have u: "recovery_loop ps ?C (depth (dir t)) i segs =
      (if i + ?n = ?C then segs else recovery_loop ps ?C (depth (dir t)) (i + ?n) ?segs)"
    using Step(2) by (simp add: recovery_loop.simps [of ps ?C _ i] Let_def)
  have grp: "?o ! m = ?o ! i \<longleftrightarrow> i \<le> m \<and> m < i + ?n" if "m < ?C" for m
    using starts_group [OF ok Step(1,2) that] .
  have last: "?o ! (?C - 1) = ?o ! i \<longleftrightarrow> i + ?n = ?C"
    using grp [of "?C - 1"] Step(2,3) by auto
  show ?case
  proof (cases "i + ?n = ?C")
    case True
    then show ?thesis using u last grp [OF Step(6)] Step(6) by auto
  next
    case False
    then show ?thesis
      using u last grp [OF Step(6)] Step(4) [OF r(2) Step(6)] r(3) [OF Step(6)] by auto
  qed
qed

lemma torn_self: "table_ok E t \<Longrightarrow> torn t (pool t) (segment (dir t))"
  using table_okD [of E t] by (simp add: torn_def seg_at_def)

text \<open>
  A crash in the middle of an in-place split of the segment at entry \<open>i\<close>: the new half \<open>s1\<close> is in
  the pool, the entries in \<open>S\<close> already lead to it, and the old segment is not deeper yet. The
  splitting thread has suspended the old segment and, unless it has just given it back, holds the lock
  of the directory; \<open>lk\<close> is the semaphore of the directory, 1 or 0. All this is in persistent memory.
\<close>

definition torn_split :: "CCEH \<Rightarrow> Segment \<Rightarrow> nat set \<Rightarrow> CCEH" where
  "torn_split t s1 S = t\<lparr>pool := pool t @ [s1],
     dir := (dir t)\<lparr>segment := map (\<lambda>j. if j \<in> S then length (pool t) else segment (dir t) ! j)
                        [0..<length (segment (dir t))]\<rparr>\<rparr>"

definition crash_split :: "CCEH \<Rightarrow> nat \<Rightarrow> Segment \<Rightarrow> nat set \<Rightarrow> int \<Rightarrow> CCEH" where
  "crash_split t i s1 S lk =
     (let c = torn_split t s1 S; target = segment (dir t) ! i
      in put_seg (c\<lparr>dir := (dir c)\<lparr>d_sema := lk\<rparr>\<rparr>) target ((pool c ! target)\<lparr>seg_sema := -1\<rparr>))"

text \<open>The table with all its semaphores back at 0, which nothing in the program does.\<close>

definition released :: "CCEH \<Rightarrow> CCEH" where
  "released t = t\<lparr>dir := (dir t)\<lparr>d_sema := 0\<rparr>, pool := map (\<lambda>s. s\<lparr>seg_sema := 0\<rparr>) (pool t)\<rparr>"

text \<open>The entries of the group of \<open>i\<close> that a split may redirect, which never include its first.\<close>

definition redirectable :: "CCEH \<Rightarrow> nat \<Rightarrow> nat set" where
  "redirectable t i = {j. j < capacity (dir t) \<and> segment (dir t) ! j = segment (dir t) ! i \<and> \<not> stride_at t j dvd j}"

lemma seg_at_bound:
  assumes "table_ok E t" and "j < capacity (dir t)"
  shows "segment (dir t) ! j < length (pool t)"
  using seg_at_hash [OF assms] table_ok_seg(1) [OF assms(1)] by metis

lemma crash_split_depth: "local_depth (pool (crash_split t i s1 S lk) ! x) = local_depth ((pool t @ [s1]) ! x)"
  by (simp add: crash_split_def torn_split_def Let_def)

lemma crash_split_segment:
  "segment (dir (crash_split t i s1 S lk)) = segment (dir (torn_split t s1 S))"
  "capacity (dir (crash_split t i s1 S lk)) = capacity (dir t)" "depth (dir (crash_split t i s1 S lk)) = depth (dir t)"
  "d_sema (dir (crash_split t i s1 S lk)) = lk" "dropped (crash_split t i s1 S lk) = dropped t" "crashed (crash_split t i s1 S lk) = crashed t"
  by (simp_all add: crash_split_def torn_split_def Let_def) (simp add: put_seg_def)

lemma torn_split_segment:
  "j < length (segment (dir t)) \<Longrightarrow> segment (dir (torn_split t s1 S)) ! j = (if j \<in> S then length (pool t) else segment (dir t) ! j)"
  "length (segment (dir (torn_split t s1 S))) = length (segment (dir t))"
  by (simp_all add: torn_split_def)

lemma crash_split_torn:
  assumes ok: "table_ok E t" and S: "S \<subseteq> redirectable t i" and ld: "local_depth s1 \<noteq> local_depth (seg_at t i)"
  shows "torn t (pool (crash_split t i s1 S lk)) (segment (dir (crash_split t i s1 S lk)))"
proof -
  have "local_depth (seg_at t j) = local_depth (seg_at t i)" if "j \<in> S" for j
    using S that by (auto simp: redirectable_def seg_at_def)
  then show ?thesis
    using S ld seg_at_bound [OF ok] table_okD [OF ok]
    by (auto simp: torn_def crash_split_depth crash_split_segment(1) torn_split_def nth_append redirectable_def seg_at_def)
qed

lemma recovered_segments:
  assumes ok: "table_ok E t" and S: "S \<subseteq> redirectable t i" and ld: "local_depth s1 \<noteq> local_depth (seg_at t i)"
    and j: "j < capacity (dir t)"
  shows "segment (dir (Recovery (crash_split t i s1 S lk))) ! j =
    (if segment (dir t) ! j = segment (dir t) ! (capacity (dir t) - 1)
     then segment (dir (crash_split t i s1 S lk)) ! j else segment (dir t) ! j)"
  using recovery_loop_nth [OF ok starts_0 [OF ok] crash_split_torn [OF ok S ld] j]
  by (simp add: Recovery_def crash_split_segment(2,3))

lemma recovered_length: "table_ok E t \<Longrightarrow> S \<subseteq> redirectable t i \<Longrightarrow> local_depth s1 \<noteq> local_depth (seg_at t i) \<Longrightarrow>
   length (segment (dir (Recovery (crash_split t i s1 S lk)))) = length (segment (dir t))"
  by (simp add: Recovery_def crash_split_segment torn_split_segment)

lemma table_ok_extend:
  assumes "table_ok E t"
  shows "table_ok E (t\<lparr>pool := pool t @ ss\<rparr>)" and "lookup E (t\<lparr>pool := pool t @ ss\<rparr>) = lookup E t"
proof -
  have s: "seg_of (t\<lparr>pool := pool t @ ss\<rparr>) a = seg_of t a" for a
    using table_ok_seg(1) [OF assms, of a] by (simp add: route_dir nth_append)
  show "lookup E (t\<lparr>pool := pool t @ ss\<rparr>) = lookup E t" unfolding lookup_def s ..
  have "routes_ok (t\<lparr>pool := pool t @ ss\<rparr>)"
    using assms unfolding routes_ok_def table_ok_def s by (simp add: route_dir)
  moreover have "segs_ok E (t\<lparr>pool := pool t @ ss\<rparr>)"
    using assms unfolding segs_ok_def table_ok_def s by (auto simp: route_dir trans_less_add1)
  ultimately show "table_ok E (t\<lparr>pool := pool t @ ss\<rparr>)" using assms by (simp add: table_ok_def dir_ok_def)
qed

lemma table_ok_released:
  assumes "table_ok E t"
  shows "table_ok E (released t)"
proof -
  have r: "route (released t) = route t" by (simp add: route_def released_def fun_eq_iff)
  have s: "pool (released t) ! route t a = (seg_of t a)\<lparr>seg_sema := 0\<rparr>" for a
    using table_ok_seg(1) [OF assms, of a] by (simp add: released_def)
  have d: "depth (dir (released t)) = depth (dir t)" "length (pool (released t)) = length (pool t)"
    by (simp_all add: released_def)
  have "routes_ok (released t)"
    using assms by (simp add: routes_ok_def table_ok_def r s)
  moreover have "segs_ok E (released t)"
    using table_ok_seg [OF assms] by (simp add: segs_ok_def r s d)
  ultimately show ?thesis using assms by (simp add: table_ok_def dir_ok_def) (simp add: released_def)
qed

text \<open>What recovery makes of the crash in a group that is not the last one.\<close>

lemma Recovery_crash_split:
  assumes ok: "table_ok E t" and S: "S \<subseteq> redirectable t i" and ld: "local_depth s1 \<noteq> local_depth (seg_at t i)"
    and last: "segment (dir t) ! i \<noteq> segment (dir t) ! (capacity (dir t) - 1)"
  shows "Recovery (crash_split t i s1 S lk) =
    (put_seg (t\<lparr>pool := pool t @ [s1]\<rparr>) (segment (dir t) ! i) (((pool t @ [s1]) ! (segment (dir t) ! i))\<lparr>seg_sema := -1\<rparr>))
      \<lparr>dir := (dir t)\<lparr>d_sema := lk\<rparr>\<rparr>"
proof -
  let ?c = "crash_split t i s1 S lk"
  have "segment (dir ?c) ! j = segment (dir t) ! j"
    if "j < capacity (dir t)" "segment (dir t) ! j = segment (dir t) ! (capacity (dir t) - 1)" for j
    using that S last table_okD(3,4) [OF ok] by (auto simp: crash_split_segment torn_split_segment redirectable_def)
  then have seg: "segment (dir (Recovery ?c)) = segment (dir t)"
    using recovered_segments [OF ok S ld] recovered_length [OF ok S ld] table_okD(3,4) [OF ok]
    by (intro nth_equalityI) auto
  have "dir (Recovery ?c) = (dir ?c)\<lparr>segment := segment (dir (Recovery ?c))\<rparr>" by (simp add: Recovery_def)
  also have "\<dots> = (dir t)\<lparr>d_sema := lk\<rparr>"
    unfolding seg by (cases "dir t") (simp add: crash_split_def torn_split_def Let_def)
  finally have d: "dir (Recovery ?c) = (dir t)\<lparr>d_sema := lk\<rparr>" .
  have "Recovery ?c = ?c\<lparr>dir := dir (Recovery ?c)\<rparr>" by (simp add: Recovery_def)
  then show ?thesis unfolding d by (simp add: crash_split_def torn_split_def put_seg_def Let_def)
qed

lemma no_table_torn:
  assumes ok: "table_ok E t" and S: "S \<subseteq> redirectable t i" "S \<noteq> {}"
    and c: "segment (dir c) = segment (dir (torn_split t s1 S))" "capacity (dir c) = capacity (dir t)" "depth (dir c) = depth (dir t)"
      "\<And>x. x < length (pool t) \<Longrightarrow> local_depth (pool c ! x) = local_depth (pool t ! x)"
  shows "\<not> table_ok E c"
proof
  assume okc: "table_ok E c"
  let ?o = "segment (dir t)"
  obtain j where j: "j \<in> S" using S(2) by blast
  then have jc: "j < capacity (dir t)" "\<not> stride_at t j dvd j" using S(1) by (auto simp: redirectable_def)
  let ?i = "j - j mod stride_at t j"
  have i: "?i < capacity (dir t)" using jc(1) by simp
  have dv: "?i div stride_at t j = j div stride_at t j" by (simp add: minus_mod_eq_mult_div)
  then have oi: "?o ! ?i = ?o ! j" using dir_group [OF ok jc(1) i] by simp
  then have st: "stride_at t ?i = stride_at t j" by (simp add: stride_at_def seg_at_def)
  have "?i \<notin> S"
  proof
    assume "?i \<in> S"
    then have "\<not> stride_at t ?i dvd ?i" using S(1) by (auto simp: redirectable_def)
    then show False unfolding st by (simp add: dvd_minus_mod)
  qed
  then have si: "segment (dir c) ! ?i = ?o ! ?i" "segment (dir c) ! j = length (pool t)"
    using j i jc(1) table_okD(3,4) [OF ok] by (simp_all add: c(1) torn_split_segment)
  have "local_depth (seg_at c ?i) = local_depth (seg_at t ?i)"
    using seg_at_bound [OF ok i] si(1) by (simp add: seg_at_def c(4))
  then have "stride_at c ?i = stride_at t j" using st c(3) by (simp add: stride_at_def)
  then have "segment (dir c) ! j = segment (dir c) ! ?i"
    using dir_group [OF okc, of ?i j] i jc(1) c(2) dv by simp
  then show False using si seg_at_bound [OF ok i] by simp
qed

section \<open>Properties\<close>

text \<open>A table with two entries for each of its two segments, for the witnesses.\<close>

definition coarse_table :: "env \<Rightarrow> CCEH" where
  "coarse_table E = \<lparr>crashed = True, dir = initDirectory 2 [0, 0, 1, 1],
     pool = replicate 2 (initSegment (raw_bucket E) 1), dropped = []\<rparr>"

lemma coarse_table_facts:
  "table_ok E (coarse_table E)" "redirectable (coarse_table E) 0 = {1}" "redirectable (coarse_table E) 2 = {3}"
proof -
  let ?t = "coarse_table E"
  have four: "i < 4 \<longleftrightarrow> i \<in> {0, 1, 2, 3}" for i :: nat by auto
  have r: "route ?t a = hi 1 a" for a
  proof -
    have d: "hi 1 a = hi 2 a div 2" using hi_div [of 1 2 a] by simp
    have "hi 2 a \<in> {0, 1, 2, 3}" using hi_less [of 2 a] four [of "hi 2 a"] by simp
    then show ?thesis using d by (auto simp: route_def coarse_table_def initDirectory_def)
  qed
  have seg: "seg_of ?t a = initSegment (raw_bucket E) 1" for a
    using hi_less [of 1 a] unfolding r by (simp add: coarse_table_def)
  have "dir_ok ?t" by (simp add: dir_ok_def coarse_table_def initDirectory_def)
  moreover have "routes_ok ?t" unfolding routes_ok_def seg by (simp add: r)
  moreover have "segs_ok E ?t"
    using hi_less [of 1] unfolding segs_ok_def seg
    by (simp add: r initSegment_ok) (simp add: coarse_table_def initDirectory_def)
  ultimately show "table_ok E ?t" by (simp add: table_ok_def)
  show "redirectable ?t 0 = {1}" "redirectable ?t 2 = {3}"
    by (auto simp: redirectable_def coarse_table_def initDirectory_def stride_at_def seg_at_def four)
qed

text \<open>\<^verbatim>\<open>Capacity\<close> reports the slots of all distinct segments, each counted once although up to
  \<open>2 ^ (depth - local_depth)\<close> directory entries lead to it.\<close>

theorem Capacity_correct:
  assumes "table_ok E t"
  shows "Capacity t = card (set (segment (dir t))) * kNumSlot"
  using capacity_loop_count [OF assms starts_0 [OF assms], of 0] by (simp add: Capacity_def)

theorem Capacity_correct_witness: "Capacity (demo_table False) = card (set (segment (dir (demo_table False)))) * kNumSlot"
  using Capacity_correct [OF demo_table_facts(1)] .

text \<open>The two counters behind \<^verbatim>\<open>Utilization\<close> are the number of keys the table stores and the
  number of its segments: stale copies that an in-place split left behind are not counted.\<close>

theorem Utilization_counts:
  assumes "table_ok E t"
  shows "utilization_loop E t 0 0 0 = (card (dom (lookup E t)), card (set (segment (dir t))))"
proof -
  have "hi (depth (dir t)) h < capacity (dir t)" for h
    using table_okD [OF assms] hi_less [of "depth (dir t)" h] by simp
  then have "block_keys E t 0 (capacity (dir t)) = dom (lookup E t)" by (auto simp: block_keys_def)
  then show ?thesis using utilization_loop_count [OF assms starts_0 [OF assms], of 0 0] by simp
qed

theorem Utilization_counts_witness:
  "fst (utilization_loop (demo_env True) (demo_table True) 0 0 0) = 0"
  using Utilization_counts [OF demo_table_facts(1), of True] by (simp add: dom_def demo_table_facts(2))

text \<open>\<^verbatim>\<open>Recovery\<close> does not touch a consistent table.\<close>

theorem Recovery_idle:
  assumes "table_ok E t"
  shows "Recovery t = t"
proof -
  have "recovery_loop (pool t) (capacity (dir t)) (depth (dir t)) 0 (segment (dir t)) = segment (dir t)"
    using recovery_loop_nth [OF assms starts_0 [OF assms] torn_self [OF assms]] table_okD [OF assms]
    by (intro nth_equalityI) auto
  then show ?thesis by (simp add: Recovery_def)
qed

theorem Recovery_idle_witness: "Recovery (demo_table True) = demo_table True"
  using Recovery_idle [OF demo_table_facts(1)] .

text \<open>C22: crash consistency of the in-place split, for a directory that the \<^verbatim>\<open>int\<close> counter of \<^verbatim>\<open>Recovery\<close> can
  walk. Whatever part of the directory update reached persistent memory before the crash, \<^verbatim>\<open>Recovery\<close>
  rolls the split back: the entries are those before the split, the stored map is the same, and but for
  the semaphores the table is well formed. The group of entries must not be the one at the end of the
  directory. The semaphores stay as the crash left them: the segment that was being split is suspended
  for ever, every \<^verbatim>\<open>Get\<close> and \<^verbatim>\<open>Insert\<close> of one of its keys repeats its first step, while the keys of all
  other segments are read as before.\<close>

theorem Recovery_rolls_back:
  assumes "table_ok E t" and "INPLACE E" and "depth (dir t) \<le> 31" and "i < capacity (dir t)"
    and "S \<subseteq> redirectable t i" and "local_depth s1 \<noteq> local_depth (seg_at t i)"
    and "segment (dir t) ! i \<noteq> segment (dir t) ! (capacity (dir t) - 1)" and "lk \<in> {0, 1}"
  shows "let r = Recovery (crash_split t i s1 S lk)
    in dir r = (dir t)\<lparr>d_sema := lk\<rparr> \<and> lookup E r = lookup E t \<and> table_ok E (released r) \<and>
       (\<forall>k v. if route t (f_hash E k) = segment (dir t) ! i
          then get_pass E k r = Retry (NONE, r) \<and> insert_pass E k v r = Retry r
          else k \<noteq> INVALID \<longrightarrow> Get E r k = Get E t k)"
proof -
  let ?r = "Recovery (crash_split t i s1 S lk)" and ?x = "segment (dir t) ! i"
  note r = Recovery_crash_split [OF assms(1,5,6,7), of lk]
  have x: "?x < length (pool t)" by (rule seg_at_bound [OF assms(1,4)])
  have d: "dir ?r = (dir t)\<lparr>d_sema := lk\<rparr>" unfolding r by simp
  then have rt: "route ?r = route t" by (simp add: route_def fun_eq_iff)
  have pl: "pool ?r ! y = (if y = ?x then (pool t ! ?x)\<lparr>seg_sema := -1\<rparr> else pool t ! y)" if "y < length (pool t)" for y
    unfolding r using that x by (simp add: nth_append)
  have len: "length (pool t) < length (pool ?r)" unfolding r by simp
  note seg = table_ok_seg [OF assms(1)] and ix = index_route [OF assms(1)]
  have lk: "lookup E ?r = lookup E t"
    using seg(1) by (auto simp: lookup_def rt pl fun_eq_iff)
  have "released ?r = released (t\<lparr>pool := pool t @ [s1]\<rparr>)"
    unfolding r using x by (simp add: released_def put_seg_def map_update nth_append list_update_append1)
      (metis list_update_id map_update nth_map Segment.update_convs(2) Segment.surjective)
  then have ok: "table_ok E (released ?r)" using table_ok_released [OF table_ok_extend(1) [OF assms(1)]] by simp
  have "if route t (f_hash E k) = ?x then get_pass E k ?r = Retry (NONE, ?r) \<and> insert_pass E k v ?r = Retry ?r
      else k \<noteq> INVALID \<longrightarrow> Get E ?r k = Get E t k" for k v
  proof (cases "route t (f_hash E k) = ?x")
    case True
    then show ?thesis
      using assms(2,8) ix [of "f_hash E k"] x len pl [of ?x]
      by (auto simp: get_pass_def insert_pass_def Let_def d D_RO_def lock_simp)
  next
    case False
    let ?fh = "f_hash E k"
    have s: "pool ?r ! route t ?fh = seg_of t ?fh" using False pl seg(1) by simp
    have u: "put_seg ?r (route t ?fh) ((seg_of t ?fh)\<lparr>seg_sema := 0\<rparr>) = ?r"
      using put_seg_sema [of ?r "route t ?fh" 0] s seg(3) by simp
    have "get_pass E k ?r = Return (seg_get E (seg_of t ?fh) k, ?r)"
      using assms(2,8) ix [of ?fh] seg(1,3) [of ?fh] len s
      by (auto simp: get_pass_def Let_def d D_RO_def lock_simp unlock_simp u)
    then show ?thesis using False Get_lookup [OF assms(1)] by (simp add: Get_def lookup_def seg_get_map [OF seg(2)])
  qed
  then show ?thesis using d lk ok by (simp add: Let_def)
qed

theorem Recovery_rolls_back_witness:
  "dir (Recovery (crash_split (coarse_table (demo_env True)) 0 (initSegment (raw_bucket (demo_env True)) 2) {1} 1)) =
   (dir (coarse_table (demo_env True)))\<lparr>d_sema := 1\<rparr>"
  using Recovery_rolls_back [OF coarse_table_facts(1), of "demo_env True" 0 "{1}" "initSegment (raw_bucket (demo_env True)) 2" 1]
    coarse_table_facts(2) [of "demo_env True"]
  by (simp add: seg_at_def Let_def) (simp add: coarse_table_def initDirectory_def)

text \<open>C30: in the group at the end of the directory an interrupted split is not rolled back. \<^verbatim>\<open>Recovery\<close>
  leaves the loop before it looks at that group, so the redirected entries stay and the table
  is not well formed, even with all semaphores released.\<close>

theorem Recovery_skips_last_group:
  assumes "table_ok E t" and "S \<subseteq> redirectable t i" and "local_depth s1 \<noteq> local_depth (seg_at t i)"
    and "segment (dir t) ! i = segment (dir t) ! (capacity (dir t) - 1)" and "S \<noteq> {}"
  shows "dir (Recovery (crash_split t i s1 S lk)) = dir (crash_split t i s1 S lk) \<and>
    \<not> table_ok E (Recovery (crash_split t i s1 S lk)) \<and> \<not> table_ok E (released (Recovery (crash_split t i s1 S lk)))"
proof -
  let ?c = "crash_split t i s1 S lk" and ?o = "segment (dir t)"
  note d = table_okD(3,4) [OF assms(1)]
  have "segment (dir ?c) ! j = ?o ! j" if "j < capacity (dir t)" "?o ! j \<noteq> ?o ! (capacity (dir t) - 1)" for j
    using that assms(2,4) d by (auto simp: crash_split_segment torn_split_segment redirectable_def)
  moreover have "length (segment (dir ?c)) = length ?o" by (simp add: crash_split_segment torn_split_segment)
  ultimately have "segment (dir (Recovery ?c)) = segment (dir ?c)"
    using recovered_segments [OF assms(1-3), of _ lk] recovered_length [OF assms(1-3), of lk] d
    by (intro nth_equalityI) auto
  then have eq: "Recovery ?c = ?c" by (simp add: Recovery_def)
  have "local_depth (pool (released ?c) ! x) = local_depth (pool t ! x)" if "x < length (pool t)" for x
    using that crash_split_depth [of t i s1 S lk x]
    by (simp add: released_def crash_split_def torn_split_def Let_def nth_append)
  then have "\<not> table_ok E (released ?c)"
    by (intro no_table_torn [OF assms(1,2,5)]) (simp_all add: released_def crash_split_segment)
  then show ?thesis using eq table_ok_released by metis
qed

theorem Recovery_skips_last_group_witness:
  "\<not> table_ok (demo_env True)
     (released (Recovery (crash_split (coarse_table (demo_env True)) 2 (initSegment (raw_bucket (demo_env True)) 2) {3} 1)))"
  using Recovery_skips_last_group [OF coarse_table_facts(1), of "{3}" "demo_env True" 2 "initSegment (raw_bucket (demo_env True)) 2" 1]
    coarse_table_facts(3) [of "demo_env True"]
  by (simp add: seg_at_def) (simp add: coarse_table_def initDirectory_def)

end
