(* ===== verification/Bench_Driver.thy ===== *)
theory Bench_Driver
  imports Hash_Interface
begin

text \<open>
  The benchmark driver of the case study (\<^verbatim>\<open>kv_wrap.hpp\<close> and \<^verbatim>\<open>tests.hpp\<close>): the \<^verbatim>\<open>Index\<close> interface
  the two persistent indexes implement, the worker that runs a list of operations in batches
  and counts what it did, and the hand-out of batches to concurrent workers. The locale
  \<open>kv_index\<close> states what the driver needs from an index; its lemmas say what the driver then
  reports.
\<close>

section \<open>The interface\<close>

text \<open>The virtual functions; \<open>None\<close> stands for a call that does not return.\<close>

record 's Index =
  Touch_op :: "Key_t \<Rightarrow> 's \<Rightarrow> 's option"
  Insert_op :: "Key_t \<Rightarrow> Value_t \<Rightarrow> 's \<Rightarrow> 's option"
  Update_op :: "Key_t \<Rightarrow> Value_t \<Rightarrow> 's \<Rightarrow> 's option"
  Get_op :: "Key_t \<Rightarrow> 's \<Rightarrow> Value_t option"
  Delete_op :: "Key_t \<Rightarrow> 's \<Rightarrow> 's option"

datatype operation = READ | INSERT | DELETE | UPDATE | READ_NOTFOUND

type_synonym status = "operation \<Rightarrow> nat"

definition bump :: "operation \<Rightarrow> status \<Rightarrow> status" where
  "bump op st = st(op := st op + 1)"

definition status0 :: status where
  "status0 = (\<lambda>_. 0)"

lemma bump_apply: "bump op st x = (if x = op then st x + 1 else st x)"
  by (simp add: bump_def)

section \<open>The worker\<close>

text \<open>The body of the loop for one pair; \<^verbatim>\<open>at(i)\<close> outside the vector throws, which ends the run.\<close>

definition vec_at :: "'a list \<Rightarrow> nat \<Rightarrow> 'a option" where
  "vec_at xs i = (if i < length xs then Some (xs ! i) else None)"

definition run_op :: "'s Index \<Rightarrow> operation \<Rightarrow> Key_t \<times> Value_t \<Rightarrow> 's \<times> status \<Rightarrow> ('s \<times> status) option" where
  "run_op Ix op kv = (\<lambda>(s, st).
     (case op of
        READ \<Rightarrow>
          (case Get_op Ix (fst kv) s of
             None \<Rightarrow> None
           | Some rd \<Rightarrow>
               let st = bump READ st
               in Some (s, if rd \<noteq> snd kv then bump READ_NOTFOUND st else st))
      | INSERT \<Rightarrow> map_option (\<lambda>s'. (s', bump INSERT st)) (Insert_op Ix (fst kv) (snd kv) s)
      | UPDATE \<Rightarrow> map_option (\<lambda>s'. (s', bump UPDATE st)) (Update_op Ix (fst kv) (snd kv) s)
      | DELETE \<Rightarrow> map_option (\<lambda>s'. (s', bump DELETE st)) (Delete_op Ix (fst kv) s)
      | READ_NOTFOUND \<Rightarrow> Some (s, st)))"

text \<open>The \<^verbatim>\<open>for\<close> loop over \<open>n\<close> indices from \<open>i\<close>.\<close>

fun run_range :: "'s Index \<Rightarrow> (Key_t \<times> Value_t) list \<Rightarrow> operation list \<Rightarrow> nat \<Rightarrow> nat
    \<Rightarrow> 's \<times> status \<Rightarrow> ('s \<times> status) option" where
  "run_range Ix run_pairs runtime_ops i 0 r = Some r"
| "run_range Ix run_pairs runtime_ops i (Suc n) r =
     (case (vec_at runtime_ops i, vec_at run_pairs i) of
        (Some op, Some kv) \<Rightarrow>
          (case run_op Ix op kv r of
             None \<Rightarrow> None
           | Some r' \<Rightarrow> run_range Ix run_pairs runtime_ops (i + 1) n r')
      | _ \<Rightarrow> None)"

text \<open>The \<^verbatim>\<open>while (start_idx < max_ops)\<close> loop of a single worker: it claims the next batch from
  \<open>progress\<close> until none is left. Empty batches would never get anywhere.\<close>

function worker_loop :: "'s Index \<Rightarrow> (Key_t \<times> Value_t) list \<Rightarrow> operation list \<Rightarrow> nat \<Rightarrow> nat
    \<Rightarrow> 's \<times> status \<Rightarrow> ('s \<times> status) option" where
  "worker_loop Ix run_pairs runtime_ops mini_batch progress r =
     (let max_ops = length run_pairs; start_idx = progress; end_idx = min max_ops (start_idx + mini_batch)
      in if start_idx < max_ops then
           if mini_batch = 0 then None else
           (case run_range Ix run_pairs runtime_ops start_idx (end_idx - start_idx) r of
              None \<Rightarrow> None
            | Some r' \<Rightarrow> worker_loop Ix run_pairs runtime_ops mini_batch (progress + mini_batch) r')
         else Some r)"
  by pat_completeness auto
termination
  by (relation "measure (\<lambda>(Ix, ps, ops, mb, p, r). length ps - p)") auto

declare worker_loop.simps [simp del]

definition worker :: "'s Index \<Rightarrow> (Key_t \<times> Value_t) list \<Rightarrow> operation list \<Rightarrow> nat \<Rightarrow> 's \<Rightarrow> ('s \<times> status) option" where
  "worker Ix run_pairs runtime_ops mini_batch s = worker_loop Ix run_pairs runtime_ops mini_batch 0 (s, status0)"

section \<open>Concurrent workers\<close>

text \<open>
  How \<^verbatim>\<open>thread_num\<close> workers share the operations: each claims the next batch with
  \<^verbatim>\<open>progress.fetch_add(mini_batch)\<close> and runs it, one index at a time, in any interleaving.
  \<open>trace\<close> records the indices in the order they are run.
\<close>

datatype wpc = Claim | Run nat nat | Finished

record drv =
  progress :: nat
  wpcs :: "nat \<Rightarrow> wpc"
  trace :: "nat list"

inductive drv_step :: "nat \<Rightarrow> nat \<Rightarrow> nat \<Rightarrow> drv \<Rightarrow> drv \<Rightarrow> bool"
  for thread_num :: nat and mini_batch :: nat and max_ops :: nat where
  claim: "t < thread_num \<Longrightarrow> wpcs s t = Claim \<Longrightarrow> progress s < max_ops \<Longrightarrow>
     drv_step thread_num mini_batch max_ops s
       (s\<lparr>progress := progress s + mini_batch,
          wpcs := (wpcs s)(t := Run (progress s) (min max_ops (progress s + mini_batch)))\<rparr>)"
| claim_none: "t < thread_num \<Longrightarrow> wpcs s t = Claim \<Longrightarrow> \<not> progress s < max_ops \<Longrightarrow>
     drv_step thread_num mini_batch max_ops s
       (s\<lparr>progress := progress s + mini_batch, wpcs := (wpcs s)(t := Finished)\<rparr>)"
| run: "t < thread_num \<Longrightarrow> wpcs s t = Run i e \<Longrightarrow> i < e \<Longrightarrow>
     drv_step thread_num mini_batch max_ops s
       (s\<lparr>wpcs := (wpcs s)(t := Run (i + 1) e), trace := trace s @ [i]\<rparr>)"
| batch_end: "t < thread_num \<Longrightarrow> wpcs s t = Run i e \<Longrightarrow> \<not> i < e \<Longrightarrow>
     drv_step thread_num mini_batch max_ops s (s\<lparr>wpcs := (wpcs s)(t := Claim)\<rparr>)"

definition drv_init :: drv where
  "drv_init = \<lparr>progress = 0, wpcs = (\<lambda>_. Claim), trace = []\<rparr>"

inductive drv_reachable :: "nat \<Rightarrow> nat \<Rightarrow> nat \<Rightarrow> drv \<Rightarrow> bool"
  for thread_num :: nat and mini_batch :: nat and max_ops :: nat where
  init: "drv_reachable thread_num mini_batch max_ops drv_init"
| step: "drv_reachable thread_num mini_batch max_ops s \<Longrightarrow> drv_step thread_num mini_batch max_ops s s' \<Longrightarrow>
     drv_reachable thread_num mini_batch max_ops s'"

inductive_cases drv_stepE [consumes 1, case_names claim claim_none run batch_end]:
  "drv_step thread_num mini_batch max_ops s s'"

section \<open>Batching does not matter to a single worker\<close>

lemma run_range_append:
  "run_range Ix ps ops i (m + n) r =
     (case run_range Ix ps ops i m r of None \<Rightarrow> None | Some r' \<Rightarrow> run_range Ix ps ops (i + m) n r')"
  by (induction m arbitrary: i r) (auto split: option.splits)

lemma worker_loop_range:
  assumes "0 < mb"
  shows "worker_loop Ix ps ops mb p r = run_range Ix ps ops p (length ps - p) r"
proof (induction "length ps - p" arbitrary: p r rule: less_induct)
  case less
  show ?case
  proof (cases "p < length ps")
    case True
    let ?e = "min (length ps) (p + mb)"
    have split: "length ps - p = (?e - p) + (length ps - (p + mb))" using True by auto
    have IH: "worker_loop Ix ps ops mb (p + mb) r' = run_range Ix ps ops (p + mb) (length ps - (p + mb)) r'" for r'
      using True assms by (intro less.hyps) auto
    have tail: "run_range Ix ps ops (p + (?e - p)) (length ps - (p + mb)) r' =
        run_range Ix ps ops (p + mb) (length ps - (p + mb)) r'" for r'
      by (cases "p + mb \<le> length ps") (auto simp: min_def)
    have "worker_loop Ix ps ops mb p r = (case run_range Ix ps ops p (?e - p) r of None \<Rightarrow> None
        | Some r' \<Rightarrow> worker_loop Ix ps ops mb (p + mb) r')"
      using True assms by (simp add: worker_loop.simps [of Ix ps ops mb p] Let_def)
    also have "\<dots> = run_range Ix ps ops p (length ps - p) r"
      by (subst split, subst run_range_append) (simp add: IH tail cong: option.case_cong)
    finally show ?thesis .
  next
    case False
    then show ?thesis by (simp add: worker_loop.simps [of Ix ps ops mb p] Let_def)
  qed
qed

text \<open>A run of one kind of operation over all pairs, as a recursion over the list.\<close>

fun run_all :: "'s Index \<Rightarrow> operation \<Rightarrow> (Key_t \<times> Value_t) list \<Rightarrow> 's \<times> status \<Rightarrow> ('s \<times> status) option" where
  "run_all Ix op [] r = Some r"
| "run_all Ix op (kv # kvs) r = (case run_op Ix op kv r of None \<Rightarrow> None | Some r' \<Rightarrow> run_all Ix op kvs r')"

lemma run_range_all:
  "run_range Ix (pre @ kvs) (replicate (length (pre @ kvs)) op) (length pre) (length kvs) r = run_all Ix op kvs r"
proof (induction kvs arbitrary: pre r)
  case (Cons kv kvs)
  have "run_range Ix ((pre @ [kv]) @ kvs) (replicate (length ((pre @ [kv]) @ kvs)) op) (length (pre @ [kv])) (length kvs) r'
      = run_all Ix op kvs r'" for r'
    by (rule Cons.IH)
  then have IH: "run_range Ix (pre @ kv # kvs) (replicate (length (pre @ kv # kvs)) op) (length pre + 1) (length kvs) r'
      = run_all Ix op kvs r'" for r'
    by simp
  have "vec_at (replicate (length (pre @ kv # kvs)) op) (length pre) = Some op"
    unfolding vec_at_def by (subst nth_replicate) simp_all
  then show ?case
    unfolding list.size(4) add_Suc_right add_0_right run_range.simps IH
    by (simp add: vec_at_def [of "pre @ kv # kvs"])
qed simp

text \<open>Inserting all pairs counts them and does nothing else.\<close>

lemma run_all_insert: "\<exists>st'. run_all Ix INSERT kvs (s, st) = map_option (\<lambda>s'. (s', st')) (insert_all (Insert_op Ix) kvs s) \<and>
    st' INSERT = st INSERT + length kvs \<and> st' READ_NOTFOUND = st READ_NOTFOUND"
proof (induction kvs arbitrary: s st)
  case (Cons kv kvs)
  show ?case
  proof (cases "Insert_op Ix (fst kv) (snd kv) s")
    case None
    then show ?thesis by (intro exI [of _ "st(INSERT := st INSERT + length (kv # kvs))"]) (simp add: run_op_def)
  next
    case (Some s')
    moreover have "bump INSERT st INSERT = st INSERT + 1" "bump INSERT st READ_NOTFOUND = st READ_NOTFOUND"
      by (simp_all add: bump_apply)
    ultimately show ?thesis using Cons.IH [of s' "bump INSERT st"] by (simp add: run_op_def)
  qed
qed auto

lemma worker_all:
  "0 < mb \<Longrightarrow> worker Ix kvs (replicate (length kvs) op) mb s = run_all Ix op kvs (s, status0)"
  using run_range_all [of Ix "[]" kvs op] by (simp add: worker_def worker_loop_range)

section \<open>Every operation is run exactly once\<close>

text \<open>The indices a worker has claimed and not yet run.\<close>

fun claimed :: "wpc \<Rightarrow> nat set" where
  "claimed (Run i e) = {i..<e}"
| "claimed _ = {}"

definition drv_inv :: "nat \<Rightarrow> nat \<Rightarrow> drv \<Rightarrow> bool" where
  "drv_inv N mx s \<longleftrightarrow> distinct (trace s) \<and>
     (\<forall>t u. t \<noteq> u \<longrightarrow> claimed (wpcs s t) \<inter> claimed (wpcs s u) = {}) \<and>
     (\<forall>t. claimed (wpcs s t) \<inter> set (trace s) = {}) \<and>
     set (trace s) \<union> (\<Union>t. claimed (wpcs s t)) = {0..<min mx (progress s)} \<and>
     (\<forall>t. wpcs s t = Finished \<longrightarrow> mx \<le> progress s) \<and> (\<forall>t \<ge> N. claimed (wpcs s t) = {})"

lemma drv_inv_bound: "drv_inv N mx s \<Longrightarrow> x \<in> claimed (wpcs s t) \<Longrightarrow> x < min mx (progress s)"
  unfolding drv_inv_def by (metis UN_I UNIV_I UnCI atLeastLessThan_iff)

lemma drv_inv_trace_bound: "drv_inv N mx s \<Longrightarrow> x \<in> set (trace s) \<Longrightarrow> x < min mx (progress s)"
  unfolding drv_inv_def by (metis UnCI atLeastLessThan_iff)

text \<open>Changing one worker's place from \<open>A\<close> to \<open>B\<close>, with \<open>xs\<close> added to the trace.\<close>

lemma drv_inv_change:
  assumes inv: "drv_inv N mx s" and t: "t < N"
    and fresh: "\<And>u x. u \<noteq> t \<Longrightarrow> x \<in> claimed c \<union> set xs \<Longrightarrow> x \<notin> claimed (wpcs s u)"
      "\<And>x. x \<in> claimed c \<union> set xs \<Longrightarrow> x \<notin> set (trace s)" "distinct xs" "claimed c \<inter> set xs = {}"
    and range: "claimed c \<union> set xs \<union> {0..<min mx (progress s)} = {0..<min mx p}"
      "claimed (wpcs s t) \<subseteq> claimed c \<union> set xs" "progress s \<le> p" and fin: "c = Finished \<Longrightarrow> mx \<le> p"
  shows "drv_inv N mx (s\<lparr>progress := p, wpcs := (wpcs s)(t := c), trace := trace s @ xs\<rparr>)"
proof -
  let ?w = "(wpcs s)(t := c)"
  have un: "set (trace s) \<union> (\<Union>t. claimed (wpcs s t)) = {0..<min mx (progress s)}"
    using inv by (simp add: drv_inv_def)
  have U: "(\<Union>u. claimed (?w u)) = claimed c \<union> (\<Union>u \<in> - {t}. claimed (wpcs s u))"
    by (auto split: if_splits)
  have V: "(\<Union>u. claimed (wpcs s u)) = claimed (wpcs s t) \<union> (\<Union>u \<in> - {t}. claimed (wpcs s u))" by auto
  have "set (trace s @ xs) \<union> (\<Union>u. claimed (?w u)) =
      claimed c \<union> set xs \<union> (set (trace s) \<union> claimed (wpcs s t) \<union> (\<Union>u \<in> - {t}. claimed (wpcs s u)))"
    unfolding U using range(2) by auto
  also have "\<dots> = {0..<min mx p}" using range(1) un V by (metis sup_assoc)
  finally have "set (trace s @ xs) \<union> (\<Union>u. claimed (?w u)) = {0..<min mx p}" .
  moreover have "distinct (trace s @ xs)" using inv fresh(2,3) by (auto simp: drv_inv_def)
  moreover have "claimed (?w u) \<inter> claimed (?w v) = {}" if "u \<noteq> v" for u v
    using inv fresh(1) that by (auto simp: drv_inv_def)
  moreover have "claimed (?w u) \<inter> set (trace s @ xs) = {}" for u
    using inv fresh by (auto simp: drv_inv_def)
  moreover have "mx \<le> p" if "?w u = Finished" for u
    using inv that fin range(3) by (auto simp: drv_inv_def split: if_splits)
  moreover have "claimed (?w u) = {}" if "N \<le> u" for u
    using inv that t by (auto simp: drv_inv_def)
  ultimately show ?thesis by (simp add: drv_inv_def)
qed

lemma drv_step_inv:
  assumes "drv_step N mb mx s s'" and inv: "drv_inv N mx s"
  shows "drv_inv N mx s'"
  using assms(1)
proof (cases rule: drv_stepE)
  case (claim t)
  let ?c = "Run (progress s) (min mx (progress s + mb))"
  have "drv_inv N mx (s\<lparr>progress := progress s + mb, wpcs := (wpcs s)(t := ?c), trace := trace s @ []\<rparr>)"
    using claim(2-4) drv_inv_bound [OF inv] drv_inv_trace_bound [OF inv]
    by (intro drv_inv_change [OF inv]) (fastforce simp: min_def)+
  then show ?thesis using claim(1) by simp
next
  case (claim_none t)
  have "drv_inv N mx (s\<lparr>progress := progress s + mb, wpcs := (wpcs s)(t := Finished), trace := trace s @ []\<rparr>)"
    using claim_none(2-4) by (intro drv_inv_change [OF inv]) auto
  then show ?thesis using claim_none(1) by simp
next
  case (run t i e)
  have i: "i \<in> claimed (wpcs s t)" using run(3,4) by simp
  have "drv_inv N mx (s\<lparr>progress := progress s, wpcs := (wpcs s)(t := Run (i + 1) e), trace := trace s @ [i]\<rparr>)"
  proof (intro drv_inv_change [OF inv run(2)])
    have sub: "claimed (Run (i + 1) e) \<union> set [i] = claimed (wpcs s t)" using run(3,4) by auto
    show "x \<notin> claimed (wpcs s u)" if "u \<noteq> t" "x \<in> claimed (Run (i + 1) e) \<union> set [i]" for u x
      using that inv unfolding sub drv_inv_def by blast
    show "x \<notin> set (trace s)" if "x \<in> claimed (Run (i + 1) e) \<union> set [i]" for x
      using that inv unfolding sub drv_inv_def by blast
    show "claimed (Run (i + 1) e) \<union> set [i] \<union> {0..<min mx (progress s)} = {0..<min mx (progress s)}"
      unfolding sub using drv_inv_bound [OF inv] by fastforce
    show "claimed (wpcs s t) \<subseteq> claimed (Run (i + 1) e) \<union> set [i]" unfolding sub ..
  qed simp_all
  then show ?thesis using run(1) by simp
next
  case (batch_end t i e)
  have "drv_inv N mx (s\<lparr>progress := progress s, wpcs := (wpcs s)(t := Claim), trace := trace s @ []\<rparr>)"
    using batch_end(2-4) by (intro drv_inv_change [OF inv]) auto
  then show ?thesis using batch_end(1) by simp
qed

lemma drv_reachable_inv: "drv_reachable N mb mx s \<Longrightarrow> drv_inv N mx s"
proof (induction rule: drv_reachable.induct)
  case init
  then show ?case by (simp add: drv_inv_def drv_init_def)
next
  case (step s s')
  then show ?case by (metis drv_step_inv)
qed

text \<open>C24: the operations are handed out exactly once. However the workers interleave, no index
  is run twice, and when all of them have finished, every index has been run.\<close>

theorem batches_exactly_once:
  assumes "drv_reachable thread_num mini_batch max_ops s" and "0 < thread_num"
    and "\<forall>t < thread_num. wpcs s t = Finished"
  shows "mset (trace s) = mset [0..<max_ops]"
proof -
  have inv: "drv_inv thread_num max_ops s" by (rule drv_reachable_inv [OF assms(1)])
  have "claimed (wpcs s t) = {}" for t
    using inv assms(3) by (cases "t < thread_num") (auto simp: drv_inv_def)
  moreover have "max_ops \<le> progress s" using inv assms(2,3) by (auto simp: drv_inv_def)
  ultimately have "set (trace s) = set [0..<max_ops]" "distinct (trace s)"
    using inv by (auto simp: drv_inv_def)
  then show ?thesis using set_eq_iff_mset_eq_distinct [of "trace s" "[0..<max_ops]"] distinct_upt by blast
qed

definition drv_demo :: drv where
  "drv_demo = \<lparr>progress = 4, wpcs = (\<lambda>_. Claim)(0 := Finished), trace = [0, 1]\<rparr>"

lemma drv_demo_reachable: "drv_reachable 1 2 2 drv_demo"
proof -
  let ?w = "\<lambda>c. (\<lambda>_. Claim)(0 := c)"
  have 1: "drv_reachable 1 2 2 \<lparr>progress = 2, wpcs = ?w (Run 0 2), trace = []\<rparr>"
    using drv_reachable.step [OF drv_reachable.init drv_step.claim [of 0 1 drv_init 2 2]] by (simp add: drv_init_def numeral_2_eq_2)
  have 2: "drv_reachable 1 2 2 \<lparr>progress = 2, wpcs = ?w (Run 1 2), trace = [0]\<rparr>"
    using drv_reachable.step [OF 1 drv_step.run [of 0 1 _ 0 2]] by simp
  have 3: "drv_reachable 1 2 2 \<lparr>progress = 2, wpcs = ?w (Run 2 2), trace = [0, 1]\<rparr>"
    using drv_reachable.step [OF 2 drv_step.run [of 0 1 _ 1 2]] by (simp add: numeral_2_eq_2)
  have 4: "drv_reachable 1 2 2 \<lparr>progress = 2, wpcs = ?w Claim, trace = [0, 1]\<rparr>"
    using drv_reachable.step [OF 3 drv_step.batch_end [of 0 1 _ 2 2]] by simp
  show ?thesis
    using drv_reachable.step [OF 4 drv_step.claim_none [of 0 1]] by (simp add: drv_demo_def)
qed

theorem batches_exactly_once_witness: "mset (trace drv_demo) = mset [0..<2]"
  using batches_exactly_once [OF drv_demo_reachable] by (simp add: drv_demo_def)

section \<open>What the driver needs from an index\<close>

text \<open>
  An index for the driver is a key-value store reached through the \<^verbatim>\<open>Index\<close> interface.
\<close>

locale kv_index = kv_store "Insert_op Ix" "Get_op Ix" inv content lost valid fits
  for Ix :: "'s Index" and inv content lost valid fits
begin

text \<open>The load phase: distinct new keys are all inserted.\<close>

lemma load_phase:
  assumes "inv s" and "\<forall>k \<in> set (map fst kvs). valid k \<and> content s k = None" and "distinct (map fst kvs)"
    and "fits (dom (content s) \<union> set (map fst kvs))"
  shows "\<exists>s' st'. run_all Ix INSERT kvs (s, st) = Some (s', st') \<and> inv s' \<and> lost s \<subseteq> lost s' \<and>
     st' INSERT = st INSERT + length kvs \<and> st' READ_NOTFOUND = st READ_NOTFOUND \<and>
     (\<forall>k. k \<notin> lost s' \<longrightarrow> content s' k = (content s ++ map_of kvs) k)"
  using insert_all_effect [OF assms] run_all_insert [of Ix kvs s st] by fastforce

text \<open>The read phase: every pair is looked up, and exactly the wrong answers are counted.\<close>

lemma read_phase:
  assumes "inv s" and "\<forall>k \<in> set (map fst kvs). valid k"
  shows "\<exists>st'. run_all Ix READ kvs (s, st) = Some (s, st') \<and> st' READ = st READ + length kvs \<and>
     st' READ_NOTFOUND = st READ_NOTFOUND +
       length (filter (\<lambda>(k, v). (case content s k of None \<Rightarrow> NONE | Some w \<Rightarrow> w) \<noteq> v) kvs)"
  using assms(2)
proof (induction kvs arbitrary: st)
  case (Cons kv kvs)
  obtain k v where kv: "kv = (k, v)" by fastforce
  have "Get_op Ix k s = Some (case content s k of None \<Rightarrow> NONE | Some v \<Rightarrow> v)"
    using Cons.prems by (intro get_content assms(1)) (simp add: kv)
  moreover define st1 where "st1 = (if (case content s k of None \<Rightarrow> NONE | Some v \<Rightarrow> v) \<noteq> v
      then bump READ_NOTFOUND (bump READ st) else bump READ st)"
  ultimately have run: "run_all Ix READ (kv # kvs) (s, st) = run_all Ix READ kvs (s, st1)"
    by (simp add: kv run_op_def Let_def)
  have st1: "st1 READ = st READ + 1" "st1 READ_NOTFOUND = st READ_NOTFOUND +
      (if (case content s k of None \<Rightarrow> NONE | Some v \<Rightarrow> v) \<noteq> v then 1 else 0)"
    by (simp_all add: st1_def bump_apply)
  show ?case unfolding run using Cons.IH [of st1] Cons.prems st1 by (auto simp: kv)
qed simp

text \<open>The two phases in a row: a pair is reported as not found only if the index lost its key.\<close>

lemma load_then_read:
  assumes "inv s" and "\<forall>k \<in> set (map fst kvs). valid k \<and> content s k = None" and "distinct (map fst kvs)"
    and "fits (dom (content s) \<union> set (map fst kvs))" and "0 < mb" and "0 < mb'"
  shows "\<exists>s' st st'. worker Ix kvs (replicate (length kvs) INSERT) mb s = Some (s', st) \<and>
     st INSERT = length kvs \<and> inv s' \<and>
     worker Ix kvs (replicate (length kvs) READ) mb' s' = Some (s', st') \<and>
     st' READ = length kvs \<and> st' READ_NOTFOUND \<le> length (filter (\<lambda>(k, v). k \<in> lost s') kvs)"
proof -
  obtain s' st where l: "run_all Ix INSERT kvs (s, status0) = Some (s', st)" "inv s'" "st INSERT = length kvs"
      "\<forall>k. k \<notin> lost s' \<longrightarrow> content s' k = (content s ++ map_of kvs) k"
    using load_phase [OF assms(1-4), of status0] by (auto simp: status0_def)
  obtain st' where r: "run_all Ix READ kvs (s', status0) = Some (s', st')" "st' READ = length kvs"
      "st' READ_NOTFOUND = length (filter (\<lambda>(k, v). (case content s' k of None \<Rightarrow> NONE | Some w \<Rightarrow> w) \<noteq> v) kvs)"
    using read_phase [OF l(2), of kvs status0] assms(2) by (auto simp: status0_def)
  have "k \<in> lost s'" if "(k, v) \<in> set kvs" "(case content s' k of None \<Rightarrow> NONE | Some w \<Rightarrow> w) \<noteq> v" for k v
  proof (rule ccontr)
    assume "k \<notin> lost s'"
    moreover have "map_of kvs k = Some v" using that(1) assms(3) by (simp add: map_of_is_SomeI)
    ultimately have "content s' k = Some v" using l(4) by (simp add: map_add_Some_iff)
    then show False using that(2) by simp
  qed
  then have "length (filter (\<lambda>(k, v). (case content s' k of None \<Rightarrow> NONE | Some w \<Rightarrow> w) \<noteq> v) kvs)
      \<le> length (filter (\<lambda>(k, v). k \<in> lost s') kvs)"
    unfolding length_filter_conv_card by (intro card_mono) (auto simp: all_set_conv_all_nth split: prod.splits, (metis nth_mem)+)
  then show ?thesis using l r by (auto simp: worker_all [OF assms(5)] worker_all [OF assms(6)])
qed

end

end
