(* ===== verification/CCEH_Index.thy ===== *)
theory CCEH_Index
  imports CCEH_Recovery Bench_Driver
begin

text \<open>
  The wrapper that makes the persistent CCEH table an \<^verbatim>\<open>Index\<close> of the benchmark
  (\<^verbatim>\<open>CCEH-PMDK/wrap.cpp\<close>), and the proof that it meets the driver's contract. What the driver
  reports for the table follows.
\<close>

section \<open>The wrapper\<close>

definition initial_size :: nat where
  "initial_size = 1024 * 16"

text \<open>\<^verbatim>\<open>Init\<close>: a new pool gets an empty table; an existing one is recovered if it is marked as
  crashed, which a table of this program always is: only the test program of the table
  (theory \<open>Bench_Main\<close>) takes the mark off.\<close>

definition cceh_Init :: "env \<Rightarrow> CCEH option \<Rightarrow> CCEH" where
  "cceh_Init E existing =
     (case existing of
        None \<Rightarrow> initCCEH E initial_size
      | Some t \<Rightarrow> if crashed t then Recovery t else t)"

text \<open>The pass bound of \<open>Insert\<close> is 64, twice what a directory of at most \<open>2 ^ 31\<close> entries needs.\<close>

definition cceh_Insert :: "env \<Rightarrow> Key_t \<Rightarrow> Value_t \<Rightarrow> CCEH \<Rightarrow> CCEH option" where
  "cceh_Insert E key v t = Insert E 64 t key v"

definition cceh_Update :: "env \<Rightarrow> Key_t \<Rightarrow> Value_t \<Rightarrow> CCEH \<Rightarrow> CCEH option" where
  "cceh_Update E key v t = Insert E 64 t key v"

definition cceh_Touch :: "env \<Rightarrow> Key_t \<Rightarrow> CCEH \<Rightarrow> CCEH option" where
  "cceh_Touch E key t = (case Touch E t key of None \<Rightarrow> None | Some _ \<Rightarrow> Some t)"

definition cceh_Get :: "env \<Rightarrow> Key_t \<Rightarrow> CCEH \<Rightarrow> Value_t option" where
  "cceh_Get E key t = Get E t key"

definition cceh_Delete :: "Key_t \<Rightarrow> CCEH \<Rightarrow> CCEH option" where
  "cceh_Delete key t = Some t"

definition cceh_index :: "env \<Rightarrow> CCEH Index" where
  "cceh_index E = \<lparr>Touch_op = cceh_Touch E, Insert_op = cceh_Insert E, Update_op = cceh_Update E,
     Get_op = cceh_Get E, Delete_op = cceh_Delete\<rparr>"

section \<open>The contract\<close>

definition cceh_inv :: "env \<Rightarrow> CCEH \<Rightarrow> bool" where
  "cceh_inv E t \<longleftrightarrow> \<not> CUCKOO E \<and> table_ok E t \<and> depth (dir t) \<le> 31"

definition cceh_lost :: "CCEH \<Rightarrow> Key_t set" where
  "cceh_lost t = p_key ` set (dropped t)"

definition cceh_valid :: "Key_t \<Rightarrow> bool" where
  "cceh_valid k \<longleftrightarrow> k \<noteq> INVALID \<and> k \<noteq> SENTINEL"

text \<open>No 33 keys agree in the top 31 bits of their hash.\<close>

definition cceh_fits :: "env \<Rightarrow> Key_t set \<Rightarrow> bool" where
  "cceh_fits E K \<longleftrightarrow> (\<forall>k \<in> K. card {k' \<in> K - {k}. hi 31 (f_hash E k') = hi 31 (f_hash E k)} < 32)"

lemma cceh_fits_crowd:
  assumes "lookup E t k = None" and "cceh_fits E (insert k (dom (lookup E t)))"
  shows "card (crowd E t k 31) < 32"
proof -
  let ?C = "{k' \<in> insert k (dom (lookup E t)) - {k}. hi 31 (f_hash E k') = hi 31 (f_hash E k)}"
  have "crowd E t k 31 = ?C" using assms(1) by (auto simp: crowd_def)
  moreover have "card ?C < 32" using assms(2) unfolding cceh_fits_def by (rule bspec) simp
  ultimately show ?thesis by (simp only:)
qed

lemma cceh_insert_effect:
  assumes "cceh_inv E t" and "cceh_valid k" and "lookup E t k = None" and "cceh_fits E (insert k (dom (lookup E t)))"
  shows "\<exists>t'. Insert E 64 t k v = Some t' \<and> insert_effect E t k v t' \<and> depth (dir t') \<le> 31"
proof -
  note c = cceh_fits_crowd [OF assms(3,4)]
  have a: "table_ok E t" "\<not> CUCKOO E" "k \<noteq> INVALID" "k \<noteq> SENTINEL" "depth (dir t) \<le> 31"
    using assms(1,2) by (auto simp: cceh_inv_def cceh_valid_def)
  show ?thesis unfolding Insert_def by (rule pmdk.loop_ends [of E, unfolded no_cuckoo [OF a(2)], OF a(1,3,4) assms(3) _ a(5) c]) simp_all
qed

lemma cceh_insert_post:
  assumes "cceh_inv E t" and "cceh_valid k" and "lookup E t k = None" and "cceh_fits E (insert k (dom (lookup E t)))"
    and "cceh_Insert E k v t = Some t'"
  shows "cceh_inv E t'" and "lookup E t' \<subseteq>\<^sub>m (lookup E t)(k \<mapsto> v)" and "cceh_lost t \<subseteq> cceh_lost t'"
    and "k' \<notin> cceh_lost t' \<Longrightarrow> lookup E t' k' = ((lookup E t)(k \<mapsto> v)) k'"
proof -
  have e: "insert_effect E t k v t'" "depth (dir t') \<le> 31"
    using cceh_insert_effect [OF assms(1-4), of v] assms(5) by (auto simp: cceh_Insert_def)
  then show "cceh_inv E t'" "lookup E t' \<subseteq>\<^sub>m (lookup E t)(k \<mapsto> v)"
    using assms(1) by (auto simp: cceh_inv_def insert_effect_def)
  obtain lost where l: "dropped t' = dropped t @ lost"
      "\<forall>k'. k' \<notin> p_key ` set lost \<longrightarrow> lookup E t' k' = ((lookup E t)(k \<mapsto> v)) k'"
    using e(1) unfolding insert_effect_def by blast
  show "cceh_lost t \<subseteq> cceh_lost t'" using l(1) by (auto simp: cceh_lost_def)
  show "lookup E t' k' = ((lookup E t)(k \<mapsto> v)) k'" if "k' \<notin> cceh_lost t'"
    using that l by (auto simp: cceh_lost_def)
qed

lemma cceh_fits_mono:
  assumes "cceh_fits E K" and "K' \<subseteq> K"
  shows "cceh_fits E K'"
  unfolding cceh_fits_def
proof
  fix k
  assume "k \<in> K'"
  have "card {k' \<in> K' - {k}. hi 31 (f_hash E k') = hi 31 (f_hash E k)} \<le>
        card {k' \<in> K - {k}. hi 31 (f_hash E k') = hi 31 (f_hash E k)}"
    using assms(2) by (intro card_mono) auto
  also have "\<dots> < 32" using assms \<open>k \<in> K'\<close> by (auto simp: cceh_fits_def)
  finally show "card {k' \<in> K' - {k}. hi 31 (f_hash E k') = hi 31 (f_hash E k)} < 32" .
qed

interpretation cceh: kv_index "cceh_index E" "cceh_inv E" "lookup E" cceh_lost cceh_valid "cceh_fits E" for E
proof unfold_locales
  fix s :: CCEH and k
  assume "cceh_inv E s" "cceh_valid k"
  then show "Get_op (cceh_index E) k s = Some (case lookup E s k of None \<Rightarrow> NONE | Some v \<Rightarrow> v)"
    by (simp add: cceh_index_def cceh_Get_def Get_lookup cceh_inv_def cceh_valid_def)
next
  fix s :: CCEH and k v
  assume "cceh_inv E s" "cceh_valid k" "lookup E s k = None" "cceh_fits E (insert k (dom (lookup E s)))"
  then show "\<exists>s'. Insert_op (cceh_index E) k v s = Some s'"
    using cceh_insert_effect [of E s k v] by (auto simp: cceh_index_def cceh_Insert_def)
next
  fix s s' :: CCEH and k v
  assume a: "cceh_inv E s" "cceh_valid k" "lookup E s k = None" "cceh_fits E (insert k (dom (lookup E s)))"
    and "Insert_op (cceh_index E) k v s = Some s'"
  then have i: "cceh_Insert E k v s = Some s'" by (simp add: cceh_index_def)
  show "cceh_inv E s'" "lookup E s' \<subseteq>\<^sub>m (lookup E s)(k \<mapsto> v)" "cceh_lost s \<subseteq> cceh_lost s'"
    by (rule cceh_insert_post [OF a i])+
  show "lookup E s' k' = ((lookup E s)(k \<mapsto> v)) k'" if "k' \<notin> cceh_lost s'" for k'
    using that by (rule cceh_insert_post(4) [OF a i])
qed (rule cceh_fits_mono)

text \<open>What the benchmark reports for the table. Loading any list of pairs with distinct storable
  keys into a table that holds none of them ends, and the read phase after it counts a pair
  as not found only if a segment split discarded its key.\<close>

theorem cceh_benchmark:
  assumes "\<not> CUCKOO E" and "table_ok E t" and "depth (dir t) \<le> 31"
    and "\<forall>k \<in> set (map fst kvs). k \<noteq> INVALID \<and> k \<noteq> SENTINEL \<and> lookup E t k = None" and "distinct (map fst kvs)"
    and "cceh_fits E (dom (lookup E t) \<union> set (map fst kvs))"
  shows "\<exists>t' st st'. worker (cceh_index E) kvs (replicate (length kvs) INSERT) 100000 t = Some (t', st) \<and>
     st INSERT = length kvs \<and> table_ok E t' \<and>
     worker (cceh_index E) kvs (replicate (length kvs) READ) 100000 t' = Some (t', st') \<and>
     st' READ = length kvs \<and> st' READ_NOTFOUND \<le> length (filter (\<lambda>(k, v). k \<in> p_key ` set (dropped t')) kvs)"
  using cceh.load_then_read [of E t kvs 100000 100000] assms
  unfolding cceh_inv_def cceh_valid_def cceh_lost_def by auto

theorem cceh_benchmark_witness:
  "\<exists>t' st. worker (cceh_index (demo_env False)) [(1, 10), (2, 20)] [INSERT, INSERT] 100000 (demo_table False) = Some (t', st) \<and>
     st INSERT = 2"
proof -
  have "cceh_fits (demo_env False) {1, 2}"
  proof -
    have "card {k' \<in> {1, 2} - {k}. hi 31 (f_hash (demo_env False) k') = hi 31 (f_hash (demo_env False) k)} \<le> card {1 :: Key_t, 2}" for k
      by (intro card_mono) auto
    also have "card {1 :: Key_t, 2} < 32" by (simp add: card_insert_if)
    finally show ?thesis by (simp only: cceh_fits_def) simp
  qed
  then have fits: "cceh_fits (demo_env False) (dom (lookup (demo_env False) (demo_table False)) \<union> set (map fst [(1, 10 :: Value_t), (2, 20)]))"
    by (simp add: dom_def demo_table_facts(2))
  have new: "\<forall>k \<in> set (map fst [(1, 10 :: Value_t), (2, 20)]). k \<noteq> INVALID \<and> k \<noteq> SENTINEL \<and>
      lookup (demo_env False) (demo_table False) k = None"
    by (simp add: demo_table_facts(2) INVALID_def SENTINEL_def)
  show ?thesis
    using cceh_benchmark [OF _ demo_table_facts(1,3) new _ fits] by (simp add: numeral_2_eq_2) metis
qed

end
