(* ===== verification/CCEH_MSB.thy ===== *)
theory CCEH_MSB
  imports CCEH_Recovery
begin

text \<open>
  The volatile CCEH table with the directory on the high hash bits (\<^verbatim>\<open>cceh/src/CCEH.h\<close> and
  \<^verbatim>\<open>CCEH_MSB.cpp\<close>), in its in-place and its copy-on-write build. It has the data layout of the
  persistent table, so the segments and the record \<open>CCEH\<close> are shared (the crash flag is not
  used here); what differs is the split, which always tries both windows of a key, the test
  that decides on doubling, the constructors, and \<^verbatim>\<open>InsertOnly\<close>. Its insertion pass provides the
  interface \<open>cceh_pass\<close>, which gives the same correctness theorem.
\<close>

unbundle bit_operations_syntax

section \<open>Segments\<close>

definition msb_Insert4split :: "Segment \<Rightarrow> Key_t \<Rightarrow> Value_t \<Rightarrow> nat \<Rightarrow> bool \<times> Segment" where
  "msb_Insert4split seg k v loc =
     (case find (\<lambda>slot. key_at seg slot = INVALID)
             (map (\<lambda>i. (loc + i) mod kNumSlot) [0..<kNumPairPerCacheLine * kNumCacheLine]) of
        Some slot \<Rightarrow> (True, seg\<lparr>bucket := (bucket seg)[slot := Pair_make k v]\<rparr>)
      | None \<Rightarrow> (False, seg))"

text \<open>Both windows of a key in turn; \<open>False\<close> is the message ``something wrong''.\<close>

definition msb_place :: "env \<Rightarrow> Segment \<Rightarrow> Pair \<Rightarrow> bool \<times> Segment" where
  "msb_place E s p =
     (case msb_Insert4split s (p_key p) (p_value p) (idx_of (f_hash E (p_key p))) of
        (True, s') \<Rightarrow> (True, s')
      | (False, _) \<Rightarrow> msb_Insert4split s (p_key p) (p_value p) (idx_of (s_hash (p_key p))))"

text \<open>The loops of \<^verbatim>\<open>Split\<close>. The last component logs the pairs for which no slot was found.\<close>

definition msb_inplace_step :: "env \<Rightarrow> Segment \<Rightarrow> nat \<Rightarrow> Segment \<times> Pair list \<Rightarrow> Segment \<times> Pair list" where
  "msb_inplace_step E seg i = (\<lambda>(s1, lost).
     (let p = bucket seg ! i
      in if f_hash E (p_key p) AND split_bit (local_depth seg) \<noteq> 0 then
           (case msb_place E s1 p of (True, s1') \<Rightarrow> (s1', lost) | (False, _) \<Rightarrow> (s1, lost @ [p]))
         else (s1, lost)))"

definition msb_split_inplace :: "env \<Rightarrow> Segment \<Rightarrow> Segment \<times> Pair list" where
  "msb_split_inplace E seg =
     fold (msb_inplace_step E seg) [0..<kNumSlot] (initSegment (raw_bucket E) (local_depth seg + 1), [])"

definition msb_cow_step :: "env \<Rightarrow> Segment \<Rightarrow> nat \<Rightarrow> Segment \<times> Segment \<times> Pair list \<Rightarrow> Segment \<times> Segment \<times> Pair list" where
  "msb_cow_step E seg i = (\<lambda>(s0, s1, lost).
     (let p = bucket seg ! i
      in if f_hash E (p_key p) AND split_bit (local_depth seg) \<noteq> 0 then
           (case msb_place E s1 p of (True, s1') \<Rightarrow> (s0, s1', lost) | (False, _) \<Rightarrow> (s0, s1, lost @ [p]))
         else
           (case msb_place E s0 p of (True, s0') \<Rightarrow> (s0', s1, lost) | (False, _) \<Rightarrow> (s0, s1, lost @ [p]))))"

definition msb_split_cow :: "env \<Rightarrow> Segment \<Rightarrow> Segment \<times> Segment \<times> Pair list" where
  "msb_split_cow E seg =
     fold (msb_cow_step E seg) [0..<kNumSlot]
       (initSegment (raw_bucket E) (local_depth seg + 1), initSegment (raw_bucket E) (local_depth seg + 1), [])"

definition msb_Split :: "env \<Rightarrow> CCEH \<Rightarrow> oid \<Rightarrow> CCEH \<times> oid \<times> oid" where
  "msb_Split E t target =
     (if INPLACE E then
        let (s1, lost) = msb_split_inplace E (pool t ! target); n = length (pool t)
        in (t\<lparr>pool := pool t @ [s1], dropped := dropped t @ lost\<rparr>, target, n)
      else
        let (s0, s1, lost) = msb_split_cow E (pool t ! target); n = length (pool t)
        in (t\<lparr>pool := pool t @ [s0, s1], dropped := dropped t @ lost\<rparr>, n, Suc n))"

definition msb_numElem :: "Segment \<Rightarrow> nat" where
  "msb_numElem seg = length (filter (\<lambda>p. p_key p \<noteq> INVALID) (bucket seg))"

section \<open>Construction\<close>

definition msb_new_default :: "env \<Rightarrow> CCEH" where
  "msb_new_default E =
     \<lparr>crashed = False, dir = initDirectory 0 [0..<2 ^ 0], pool = replicate (2 ^ 0) (initSegment (raw_bucket E) 0), dropped = []\<rparr>"

definition msb_new :: "env \<Rightarrow> nat \<Rightarrow> CCEH" where
  "msb_new E initCap =
     (let dp = log2_floor initCap
      in \<lparr>crashed = False, dir = initDirectory dp [0..<2 ^ dp],
          pool = replicate (2 ^ dp) (initSegment (raw_bucket E) (log2_floor initCap)), dropped = []\<rparr>)"

section \<open>Insertion\<close>

text \<open>What follows the split: the doubling, or the update of the directory under its lock. The
  local depth is the one read before the split. In the doubling \<^verbatim>\<open>i\<close> and \<^verbatim>\<open>2*i+1\<close> are \<^verbatim>\<open>unsigned\<close>: with more
  than \<open>2 ^ 31\<close> entries the index wraps around and the upper half of the new directory stays
  uninitialised. \<^verbatim>\<open>stride\<close> is an \<^verbatim>\<open>int\<close>. The model ends in a \<open>Fault\<close> in both cases.\<close>

definition msb_update_directory :: "env \<Rightarrow> CCEH \<Rightarrow> nat \<Rightarrow> size_t \<Rightarrow> oid \<Rightarrow> oid \<Rightarrow> CCEH outcome" where
  "msb_update_directory E t target_local_depth fh s0 s1 =
     (let d = dir t
      in if target_local_depth = depth d then
           (case suspend (d_sema d) of
              None \<Rightarrow> Spin
            | Some (False, _) \<Rightarrow> Spin
            | Some (True, _) \<Rightarrow>
                let x = unat (shr64 fh (64 - depth d));
                    d' = initDirectory (depth d + 1) (concat (map (\<lambda>i. if i = x then [s0, s1] else [segment d ! i, segment d ! i]) [0..<capacity d]))
                in if 2 ^ 31 < capacity d then Fault
                   else Retry (finish_inplace E (t\<lparr>dir := d'\<rparr>) s0))
         else
           (case lock (d_sema d) of
              (False, _) \<Rightarrow> Spin
            | (True, sm) \<Rightarrow>
                let x = unat (shr64 fh (64 - depth d)); stride = 2 ^ (depth d - target_local_depth);
                    finish = (\<lambda>segs. Retry (finish_inplace E (t\<lparr>dir := d\<lparr>segment := segs, d_sema := unlock sm\<rparr>\<rparr>) s0))
                in if depth d = target_local_depth + 1 then finish (update_pair E (segment d) x s0 s1)
                   else if 2 ^ 31 \<le> stride then Fault
                   else finish (update_stride E (segment d) stride x s0 s1)))"

definition msb_collision :: "env \<Rightarrow> CCEH \<Rightarrow> Key_t \<Rightarrow> nat \<Rightarrow> oid \<Rightarrow> CCEH outcome" where
  "msb_collision E t k x target =
     (let seg = pool t ! target; target_local_depth = local_depth seg
      in case suspend (unlock (seg_sema seg)) of
           None \<Rightarrow> Spin
         | Some (False, sm) \<Rightarrow> Retry (put_seg t target (seg\<lparr>seg_sema := sm\<rparr>))
         | Some (True, sm) \<Rightarrow>
             let t1 = put_seg t target (seg\<lparr>seg_sema := sm\<rparr>);
                 now = (if INPLACE E then local_depth (pool t1 ! target)
                        else local_depth (pool t1 ! (segment (dir t1) ! x)))
             in if target_local_depth \<noteq> now then Retry (put_seg t1 target (seg\<lparr>seg_sema := 0\<rparr>))
                else let (t2, s0, s1) = msb_Split E t1 target
                     in msb_update_directory E t2 target_local_depth (f_hash E k) s0 s1)"

text \<open>The two probing loops of \<^verbatim>\<open>Insert\<close> and \<^verbatim>\<open>InsertOnly\<close>, in the locked segment.\<close>

definition msb_probe :: "env \<Rightarrow> Segment \<Rightarrow> Key_t \<Rightarrow> nat option" where
  "msb_probe E seg k =
     (let pattern = shr64 (f_hash E k) (64 - local_depth seg)
      in case find (slot_free E seg pattern) (window (f_hash E k)) of
           Some loc \<Rightarrow> Some loc
         | None \<Rightarrow> find (slot_free E seg pattern) (window (s_hash k)))"

text \<open>What both do before: find the segment, lock it, check that the directory has not changed.
  \<open>act\<close> continues with the locked segment.\<close>

definition msb_enter :: "env \<Rightarrow> Key_t \<Rightarrow> CCEH \<Rightarrow> (nat \<Rightarrow> oid \<Rightarrow> CCEH \<Rightarrow> 'a outcome) \<Rightarrow> (CCEH \<Rightarrow> 'a) \<Rightarrow> 'a outcome" where
  "msb_enter E k t act again =
     (let fh = f_hash E k; x = unat (shr64 fh (64 - depth (dir t)))
      in if \<not> x < length (segment (dir t)) then Fault
         else let target = segment (dir t) ! x in
           case D_RO t target of
             None \<Rightarrow> Retry (again t)
           | Some seg \<Rightarrow>
               (case lock (seg_sema seg) of
                  (False, sm) \<Rightarrow> Retry (again t)
                | (True, sm) \<Rightarrow>
                    let t1 = put_seg t target (seg\<lparr>seg_sema := sm\<rparr>);
                        target_check = unat (shr64 fh (64 - depth (dir t1)))
                    in if target \<noteq> segment (dir t1) ! target_check
                       then Retry (again (put_seg t1 target (seg\<lparr>seg_sema := unlock sm\<rparr>)))
                       else act x target t1))"

text \<open>One pass of \<^verbatim>\<open>Insert\<close> from \<^verbatim>\<open>RETRY\<close>.\<close>

definition msb_insert_pass :: "env \<Rightarrow> Key_t \<Rightarrow> Value_t \<Rightarrow> CCEH \<Rightarrow> CCEH outcome" where
  "msb_insert_pass E k v t =
     msb_enter E k t (\<lambda>x target t1.
       (let seg = pool t1 ! target
        in case msb_probe E seg k of
             Some loc \<Rightarrow>
               (case claim_and_store seg loc k v of
                  Some seg' \<Rightarrow> Return (put_seg t1 target (seg'\<lparr>seg_sema := unlock (seg_sema seg')\<rparr>))
                | None \<Rightarrow> Fault)
           | None \<Rightarrow> msb_collision E t1 k x target)) (\<lambda>t. t)"

definition msb_Insert :: "env \<Rightarrow> nat \<Rightarrow> CCEH \<Rightarrow> Key_t \<Rightarrow> Value_t \<Rightarrow> CCEH option" where
  "msb_Insert E passes t k v = run_retry (msb_insert_pass E k v) passes t"

text \<open>A pass of \<^verbatim>\<open>InsertOnly\<close>, which gives up where \<^verbatim>\<open>Insert\<close> splits.\<close>

definition msb_only_pass :: "env \<Rightarrow> Key_t \<Rightarrow> Value_t \<Rightarrow> CCEH \<Rightarrow> (bool \<times> CCEH) outcome" where
  "msb_only_pass E k v t =
     msb_enter E k t (\<lambda>x target t1.
       (let seg = pool t1 ! target
        in case msb_probe E seg k of
             Some loc \<Rightarrow>
               (case claim_and_store seg loc k v of
                  Some seg' \<Rightarrow> Return (True, put_seg t1 target (seg'\<lparr>seg_sema := unlock (seg_sema seg')\<rparr>))
                | None \<Rightarrow> Fault)
           | None \<Rightarrow> Return (False, put_seg t1 target (seg\<lparr>seg_sema := unlock (seg_sema seg)\<rparr>)))) (\<lambda>t. (False, t))"

definition msb_InsertOnly :: "env \<Rightarrow> CCEH \<Rightarrow> Key_t \<Rightarrow> Value_t \<Rightarrow> (bool \<times> CCEH) option" where
  "msb_InsertOnly E t k v = (case msb_only_pass E k v t of Return r \<Rightarrow> Some r | _ \<Rightarrow> None)"

section \<open>The other operations\<close>

text \<open>The copy-on-write build neither takes nor gives back a lock.\<close>

definition msb_get_pass :: "env \<Rightarrow> Key_t \<Rightarrow> CCEH \<Rightarrow> (Value_t \<times> CCEH) outcome" where
  "msb_get_pass E k t =
     (let fh = f_hash E k; x = unat (shr64 fh (64 - depth (dir t)))
      in if d_sema (dir t) < 0 then Spin
         else if \<not> x < length (segment (dir t)) then Fault
         else let target = segment (dir t) ! x in
           case D_RO t target of
             None \<Rightarrow> Retry (NONE, t)
           | Some seg \<Rightarrow>
               (case (if INPLACE E then lock (seg_sema seg) else (True, seg_sema seg)) of
                  (False, _) \<Rightarrow> Retry (NONE, t)
                | (True, sm) \<Rightarrow>
                    let t1 = put_seg t target (seg\<lparr>seg_sema := sm\<rparr>);
                        t2 = (if INPLACE E then put_seg t1 target (seg\<lparr>seg_sema := unlock sm\<rparr>) else t1);
                        target_check = unat (shr64 fh (64 - depth (dir t1)))
                    in if target \<noteq> segment (dir t1) ! target_check then Retry (NONE, t2)
                       else Return (seg_get E seg k, t2)))"

definition msb_Get :: "env \<Rightarrow> CCEH \<Rightarrow> Key_t \<Rightarrow> Value_t option" where
  "msb_Get E t k = (case msb_get_pass E k t of Return (v, _) \<Rightarrow> Some v | _ \<Rightarrow> None)"

definition msb_Delete :: "CCEH \<Rightarrow> Key_t \<Rightarrow> bool \<times> CCEH" where
  "msb_Delete t k = (False, t)"

text \<open>\<^verbatim>\<open>Capacity\<close>, \<^verbatim>\<open>Utilization\<close> (the counters of its quotient), \<^verbatim>\<open>Recovery\<close> and \<^verbatim>\<open>FindAnyway\<close> run the loops
  of the persistent table. \<^verbatim>\<open>Recovery\<close> always reports false.\<close>

definition msb_Capacity :: "CCEH \<Rightarrow> nat" where
  "msb_Capacity t = capacity_loop t 0 0 * kNumSlot"

definition msb_Utilization :: "env \<Rightarrow> CCEH \<Rightarrow> nat \<times> nat" where
  "msb_Utilization E t = (let (acc, cnt) = utilization_loop E t 0 0 0 in (acc, cnt * kNumSlot))"

definition msb_Recovery :: "CCEH \<Rightarrow> bool \<times> CCEH" where
  "msb_Recovery t =
     (False, t\<lparr>dir := (dir t)\<lparr>segment := recovery_loop (pool t) (capacity (dir t)) (depth (dir t)) 0 (segment (dir t))\<rparr>\<rparr>)"

definition msb_FindAnyway :: "CCEH \<Rightarrow> Key_t \<Rightarrow> Value_t" where
  "msb_FindAnyway t k =
     (case find (\<lambda>p. p_key p = k) (concat (map (\<lambda>i. bucket (pool t ! (segment (dir t) ! i))) [0..<capacity (dir t)])) of
        Some p \<Rightarrow> p_value p
      | None \<Rightarrow> NONE)"

section \<open>The split\<close>

lemma msb_Insert4split_eq: "msb_Insert4split = Insert4split"
  by (intro ext) (simp add: msb_Insert4split_def Insert4split_def window_at_def probe_def store_slot_def split: option.split)

lemma msb_place_inv:
  assumes ok: "seg_ok E seg" and n: "n < kNumSlot" and inv: "side_inv E seg B n s lost" "lost_inv seg n lost"
    and B: "B (key_at seg n)"
  shows "case msb_place E s (bucket seg ! n) of
      (True, s') \<Rightarrow> side_inv E seg B (Suc n) s' lost | (False, s') \<Rightarrow> side_inv E seg B (Suc n) s (lost @ [bucket seg ! n])"
proof -
  let ?k = "key_at seg n" and ?v = "p_value (bucket seg ! n)"
  have k: "p_key (bucket seg ! n) = ?k" by (simp add: key_at_def)
  have placed: "side_inv E seg B (Suc n) s' lost"
    if "Insert4split s ?k ?v loc = (True, s')" "set (window_at loc) \<subseteq> windows E ?k" for s' loc
    using that(1)
  proof (cases rule: Insert4split_cases)
    case (1 slot)
    then show ?thesis using side_inv_place [OF inv ok n B, of slot] that(2) by blast
  qed simp
  obtain ok1 s' where i1: "Insert4split s ?k ?v (idx_of (f_hash E ?k)) = (ok1, s')" by fastforce
  obtain ok2 s'' where i2: "Insert4split s ?k ?v (idx_of (s_hash ?k)) = (ok2, s'')" by fastforce
  have "ok1 \<Longrightarrow> side_inv E seg B (Suc n) s' lost" "ok2 \<Longrightarrow> side_inv E seg B (Suc n) s'' lost"
    using placed i1 i2 by (auto simp: windows_def)
  then show ?thesis
    using side_inv_drop [OF inv(1) k ok n] by (cases ok1; cases ok2) (simp_all add: msb_place_def msb_Insert4split_eq k i1 i2)
qed

lemma msb_split_inplace_inv:
  assumes ok: "seg_ok E seg" and r: "msb_split_inplace E seg = (s1, lost)"
  shows "side_inv E seg (upper E seg) kNumSlot s1 lost"
proof -
  let ?P = "\<lambda>n (s1, lost). side_inv E seg (upper E seg) n s1 lost \<and> lost_inv seg n lost"
  have "?P kNumSlot (msb_split_inplace E seg)"
    unfolding msb_split_inplace_def
  proof (rule fold_upt_inv [where P = ?P])
    show "?P 0 (initSegment (raw_bucket E) (local_depth seg + 1), [])" using side_inv_init by (simp add: lost_inv_def)
  next
    fix n s
    assume n: "n < kNumSlot" and P: "?P n s"
    obtain s1 lost where s: "s = (s1, lost)" by (cases s)
    have k: "p_key (bucket seg ! n) = key_at seg n" by (simp add: key_at_def)
    have l: "lost_inv seg (Suc n) lost" "lost_inv seg (Suc n) (lost @ [bucket seg ! n])"
      using P k by (simp_all add: s lost_inv_drop lost_inv_Suc)
    show "?P (Suc n) (msb_inplace_step E seg n s)"
    proof (cases "upper E seg (key_at seg n)")
      case True
      obtain b s1' where b: "msb_place E s1 (bucket seg ! n) = (b, s1')" by fastforce
      have "if b then side_inv E seg (upper E seg) (Suc n) s1' lost else side_inv E seg (upper E seg) (Suc n) s1 (lost @ [bucket seg ! n])"
        using msb_place_inv [where B = "upper E seg" and s = s1, OF ok n _ _ True] P by (cases b) (simp_all add: s b)
      then show ?thesis using True l k by (cases b) (simp_all add: msb_inplace_step_def s b upper_def Let_def)
    next
      case False
      then show ?thesis using P l side_inv_other [where B = "upper E seg"] k
        by (simp add: msb_inplace_step_def s upper_def Let_def)
    qed
  qed
  then show ?thesis using r by simp
qed

lemma msb_split_cow_inv:
  assumes ok: "seg_ok E seg" and r: "msb_split_cow E seg = (s0, s1, lost)"
  shows "side_inv E seg (\<lambda>k. \<not> upper E seg k) kNumSlot s0 lost" and "side_inv E seg (upper E seg) kNumSlot s1 lost"
proof -
  let ?L = "\<lambda>k. \<not> upper E seg k" and ?U = "upper E seg"
  let ?P = "\<lambda>n (s0, s1, lost). side_inv E seg ?L n s0 lost \<and> side_inv E seg ?U n s1 lost \<and> lost_inv seg n lost"
  have "?P kNumSlot (msb_split_cow E seg)"
    unfolding msb_split_cow_def
  proof (rule fold_upt_inv [where P = ?P])
    show "?P 0 (initSegment (raw_bucket E) (local_depth seg + 1), initSegment (raw_bucket E) (local_depth seg + 1), [])"
      using side_inv_init by (simp add: lost_inv_def)
  next
    fix n s
    assume n: "n < kNumSlot" and P: "?P n s"
    obtain s0 s1 lost where s: "s = (s0, s1, lost)" by (cases s)
    have k: "p_key (bucket seg ! n) = key_at seg n" by (simp add: key_at_def)
    have l: "lost_inv seg (Suc n) lost" "lost_inv seg (Suc n) (lost @ [bucket seg ! n])"
      using P k by (simp_all add: s lost_inv_drop lost_inv_Suc)
    have other: "side_inv E seg B (Suc n) t lost \<and> side_inv E seg B (Suc n) t (lost @ [bucket seg ! n])"
      if "side_inv E seg B n t lost" "\<not> B (key_at seg n)" for t B
      using side_inv_other [OF that] k by simp
    show "?P (Suc n) (msb_cow_step E seg n s)"
    proof (cases "?U (key_at seg n)")
      case True
      obtain b s' where b: "msb_place E s1 (bucket seg ! n) = (b, s')" by fastforce
      have "if b then side_inv E seg ?U (Suc n) s' lost else side_inv E seg ?U (Suc n) s1 (lost @ [bucket seg ! n])"
        using msb_place_inv [where B = ?U and s = s1, OF ok n] P True by (cases b) (simp_all add: s b)
      then show ?thesis using True P l k other [of ?L s0] by (cases b) (simp_all add: msb_cow_step_def s b upper_def Let_def)
    next
      case False
      obtain b s' where b: "msb_place E s0 (bucket seg ! n) = (b, s')" by fastforce
      have "if b then side_inv E seg ?L (Suc n) s' lost else side_inv E seg ?L (Suc n) s0 (lost @ [bucket seg ! n])"
        using msb_place_inv [where B = ?L and s = s0, OF ok n] P False by (cases b) (simp_all add: s b)
      then show ?thesis using False P l k other [of ?U s1] by (cases b) (simp_all add: msb_cow_step_def s b upper_def Let_def)
    qed
  qed
  then show "side_inv E seg ?L kNumSlot s0 lost" "side_inv E seg ?U kNumSlot s1 lost" using r by simp_all
qed

lemma msb_Split_facts:
  assumes x: "target < length (pool t)" and ok: "seg_ok E (pool t ! target)"
  obtains t' s0 s1 lost where "msb_Split E t target = (t', s0, s1)" "split_done E t target t' s0 s1 lost"
proof (cases "INPLACE E")
  case True
  obtain n1 lost where s: "msb_split_inplace E (pool t ! target) = (n1, lost)" by fastforce
  show thesis
    using that split_done_inplace [OF True x msb_split_inplace_inv [OF ok s]] True by (simp add: msb_Split_def s Let_def)
next
  case False
  obtain n0 n1 lost where s: "msb_split_cow E (pool t ! target) = (n0, n1, lost)" by (metis prod_cases3)
  note i = msb_split_cow_inv [OF ok s]
  show thesis using that split_done_cow [OF False x i(2,1)] False by (simp add: msb_Split_def s Let_def)
qed

section \<open>The insertion pass\<close>

lemma msb_probe_slot: "msb_probe E (seg_of t (f_hash E k)) k = free_slot E t k"
proof -
  have "find P (xs @ ys) = (case find P xs of Some x \<Rightarrow> Some x | None \<Rightarrow> find P ys)" for P and xs ys :: "nat list"
    by (induction xs) auto
  then show ?thesis by (simp add: msb_probe_def free_slot_def Let_def)
qed

lemma msb_enter_ok:
  assumes ok: "table_ok E t"
  shows "msb_enter E k t act again =
    act (unat (shr64 (f_hash E k) (64 - depth (dir t)))) (route t (f_hash E k))
      (put_seg t (route t (f_hash E k)) ((seg_of t (f_hash E k))\<lparr>seg_sema := 1\<rparr>))"
  using table_ok_seg [OF ok, of "f_hash E k"] index_route [OF ok, of "f_hash E k"]
  by (simp add: msb_enter_def Let_def D_RO_def lock_simp)

lemma msb_probe_sema: "msb_probe E (seg\<lparr>seg_sema := n\<rparr>) k = msb_probe E seg k"
  by (simp add: msb_probe_def Let_def split: option.split)

lemma msb_pass_free:
  assumes ok: "table_ok E t" and fs: "free_slot E t k = Some loc"
  shows "msb_insert_pass E k v t = Return (put_seg t (route t (f_hash E k)) (store_slot (seg_of t (f_hash E k)) loc k v))"
    and "msb_only_pass E k v t = Return (True, put_seg t (route t (f_hash E k)) (store_slot (seg_of t (f_hash E k)) loc k v))"
proof -
  let ?fh = "f_hash E k"
  note seg = table_ok_seg [OF ok, of ?fh]
  have u: "(store_slot (seg_of t ?fh) loc k v)\<lparr>seg_sema := 0\<rparr> = store_slot (seg_of t ?fh) loc k v"
    using seg(3) by (cases "seg_of t ?fh") (simp add: store_slot_def)
  have p: "msb_probe E ((seg_of t ?fh)\<lparr>seg_sema := 1\<rparr>) k = Some loc" using fs by (simp add: msb_probe_sema msb_probe_slot)
  show "msb_insert_pass E k v t = Return (put_seg t (route t ?fh) (store_slot (seg_of t ?fh) loc k v))"
    "msb_only_pass E k v t = Return (True, put_seg t (route t ?fh) (store_slot (seg_of t ?fh) loc k v))"
    using seg(1) unfolding msb_insert_pass_def msb_only_pass_def msb_enter_ok [OF ok]
    by (simp_all add: Let_def p claim_and_store_def unlock_simp u)
qed

lemma msb_update_directory_eq:
  assumes "length (segment (dir t)) = capacity (dir t)" and "local_depth (pool t ! x) = ld" and "ld = depth (dir t) \<Longrightarrow> capacity (dir t) \<le> 2 ^ 30"
  shows "msb_update_directory E t ld fh s0 s1 = update_directory E t x ld fh s0 s1"
proof (cases "ld = depth (dir t)")
  case True
  then have "\<not> 2 ^ 30 < capacity (dir t)" "\<not> 2 ^ 31 < capacity (dir t)" using assms(3) by simp_all
  then show ?thesis
    using True assms(1,2)
    by (simp add: msb_update_directory_def update_directory_def double_segments_def Let_def split: option.split prod.split bool.split)
next
  case False
  then show ?thesis using assms(1,2)
    by (simp add: msb_update_directory_def update_directory_def Let_def split: prod.split bool.split)
qed

lemma msb_only_full:
  assumes ok: "table_ok E t" and fs: "free_slot E t k = None"
  shows "msb_only_pass E k v t = Return (False, t)"
proof -
  let ?fh = "f_hash E k" and ?x = "route t (f_hash E k)" and ?seg = "seg_of t (f_hash E k)"
  note seg = table_ok_seg [OF ok, of ?fh]
  have p: "msb_probe E (?seg\<lparr>seg_sema := 1\<rparr>) k = None" using fs by (simp add: msb_probe_sema msb_probe_slot)
  have "put_seg t ?x (?seg\<lparr>seg_sema := 0\<rparr>) = t" using seg(3) by (rule put_seg_sema)
  then show ?thesis
    using seg(1) unfolding msb_only_pass_def msb_enter_ok [OF ok] by (simp add: Let_def p unlock_simp)
qed

lemma msb_pass_full:
  assumes ok: "table_ok E t" and dp: "depth (dir t) \<le> 31" "local_depth (seg_of t (f_hash E k)) < 31" and fs: "free_slot E t k = None"
  shows "\<exists>t'. msb_insert_pass E k v t = Retry t' \<and> split_effect E t k t'"
proof -
  let ?fh = "f_hash E k" and ?x = "route t (f_hash E k)" and ?seg = "seg_of t (f_hash E k)"
  let ?t1 = "put_seg t ?x (?seg\<lparr>seg_sema := -1\<rparr>)" and ?i = "unat (shr64 ?fh (64 - depth (dir t)))"
  note seg = table_ok_seg [OF ok, of ?fh]
  have p: "msb_probe E (?seg\<lparr>seg_sema := 1\<rparr>) k = None" using fs by (simp add: msb_probe_sema msb_probe_slot)
  obtain t2 s0 s1 lost where s: "msb_Split E ?t1 ?x = (t2, s0, s1)" "split_done E ?t1 ?x t2 s0 s1 lost"
  proof (rule msb_Split_facts)
    show "?x < length (pool ?t1)" using seg(1) by simp
    show "seg_ok E (pool ?t1 ! ?x)" using seg(1,2) by simp
  qed
  have t2: "dir t2 = dir t" "local_depth (pool t2 ! ?x) = local_depth ?seg"
    using s(2) seg(1) by (auto simp: split_done_def)
  obtain t' where t': "update_directory E t2 ?x (local_depth ?seg) ?fh s0 s1 = Retry t'" "split_effect E t k t'"
    using split_done_effect [OF ok dp refl refl s(2)] by blast
  have cap: "local_depth ?seg = depth (dir t) \<Longrightarrow> (2::nat) ^ depth (dir t) \<le> 2 ^ 30"
    using dp(2) by (intro power_increasing) simp_all
  have "msb_insert_pass E k v t = msb_collision E (put_seg t ?x (?seg\<lparr>seg_sema := 1\<rparr>)) k ?i ?x"
    using seg(1) unfolding msb_insert_pass_def msb_enter_ok [OF ok] by (simp add: Let_def p)
  also have "\<dots> = msb_update_directory E t2 (local_depth ?seg) ?fh s0 s1"
    unfolding msb_collision_def Let_def
    using seg(1) index_route(2) [OF ok, of ?fh] s(1)
    by (simp only: put_seg_simps simp_thms if_True Segment.simps unlock_simp suspend_simp split: if_split) simp
  also have "\<dots> = Retry t'"
    using msb_update_directory_eq [of t2 ?x "local_depth ?seg"] cap t2 table_okD [OF ok] t'(1) by simp
  finally show ?thesis using t'(2) by blast
qed

text \<open>The volatile table provides the interface of the retry loop, in both builds.\<close>

interpretation msb: cceh_pass E "msb_insert_pass E" for E
  by unfold_locales (simp_all add: msb_pass_free msb_pass_full)

lemma msb_Get_lookup:
  assumes ok: "table_ok E t" and k: "k \<noteq> INVALID"
  shows "msb_Get E t k = Some (case lookup E t k of None \<Rightarrow> NONE | Some v \<Rightarrow> v)"
proof -
  note seg = table_ok_seg [OF ok, of "f_hash E k"] and ix = index_route [OF ok, of "f_hash E k"]
  have "msb_get_pass E k t = Return (seg_get E (seg_of t (f_hash E k)) k, t)"
    using seg ix table_okD(5) [OF ok]
    by (simp add: msb_get_pass_def Let_def D_RO_def lock_simp unlock_simp put_seg_same put_seg_sema)
  then show ?thesis by (simp add: msb_Get_def lookup_def seg_get_map [OF seg(2) k])
qed

text \<open>C6: insertion into the volatile CCEH table is totally correct, in the in-place and the
  copy-on-write build: on a table of at most \<open>2 ^ 31\<close> directory entries, if fewer than 32 stored
  keys agree with the new one in the top 31 hash bits, \<^verbatim>\<open>Insert\<close> returns within 64 passes, the
  directory stays within that size, the table is well formed, \<^verbatim>\<open>Get\<close> finds the value, and
  every other key reads as before unless a split found both of its windows full.\<close>

theorem msb_Insert_correct:
  assumes "table_ok E t" and "depth (dir t) \<le> 31"
    and "k \<noteq> INVALID" and "k \<noteq> SENTINEL" and "lookup E t k = None"
    and "card {k' \<in> dom (lookup E t). hi 31 (f_hash E k') = hi 31 (f_hash E k)} < 32"
  shows "\<exists>t' lost. msb_Insert E 64 t k v = Some t' \<and> table_ok E t' \<and> depth (dir t') \<le> 31 \<and>
     msb_Get E t' k = Some v \<and> dropped t' = dropped t @ lost \<and>
     (\<forall>k'. k' \<noteq> k \<and> k' \<noteq> INVALID \<and> k' \<notin> p_key ` set lost \<longrightarrow> msb_Get E t' k' = msb_Get E t k')"
proof -
  obtain t' lost where t': "run_retry (msb_insert_pass E k v) 64 t = Some t'" "table_ok E t'" "depth (dir t') \<le> 31" "lookup E t' k = Some v"
    "dropped t' = dropped t @ lost" "\<And>k'. k' \<noteq> k \<Longrightarrow> k' \<notin> p_key ` set lost \<Longrightarrow> lookup E t' k' = lookup E t k'"
    using msb.insertion_total [OF assms] by metis
  have "msb_Get E t' k' = msb_Get E t k'" if "k' \<noteq> k" "k' \<noteq> INVALID" "k' \<notin> p_key ` set lost" for k'
    using t'(6) [OF that(1,3)] msb_Get_lookup [OF t'(2) that(2)] msb_Get_lookup [OF assms(1) that(2)] by simp
  moreover have "msb_Get E t' k = Some v" using msb_Get_lookup [OF t'(2) assms(3)] t'(4) by simp
  ultimately show ?thesis using t' unfolding msb_Insert_def by blast
qed

lemma msb_new_init: "msb_new E cap = (initCCEH E cap)\<lparr>crashed := False\<rparr>"
  by (simp add: msb_new_def initCCEH_def Let_def)

lemma crashed_irrelevant [simp]:
  "table_ok E (t\<lparr>crashed := b\<rparr>) = table_ok E t" "lookup E (t\<lparr>crashed := b\<rparr>) = lookup E t" "route (t\<lparr>crashed := b\<rparr>) = route t"
  by (simp_all add: table_ok_def dir_ok_def routes_ok_def segs_ok_def lookup_def route_def fun_eq_iff)

lemma msb_demo_facts:
  "table_ok (demo_env ip) (msb_new (demo_env ip) 16384)" "lookup (demo_env ip) (msb_new (demo_env ip) 16384) k = None"
  "depth (dir (msb_new (demo_env ip) 16384)) \<le> 31"
  "card {k' \<in> dom (lookup (demo_env ip) (msb_new (demo_env ip) 16384)). P k'} < 32"
proof -
  show e: "lookup (demo_env ip) (msb_new (demo_env ip) 16384) k = None" for k by (simp add: msb_new_init demo_table_facts(2))
  show "table_ok (demo_env ip) (msb_new (demo_env ip) 16384)" by (simp add: msb_new_init demo_table_facts(1))
  show "depth (dir (msb_new (demo_env ip) 16384)) \<le> 31" using demo_table_facts(3) [of ip] by (simp add: msb_new_init)
  show "card {k' \<in> dom (lookup (demo_env ip) (msb_new (demo_env ip) 16384)). P k'} < 32" by (simp add: dom_def e)
qed

theorem msb_Insert_correct_witness:
  "\<exists>t'. msb_Insert (demo_env False) 64 (msb_new (demo_env False) 16384) 1 7 = Some t' \<and> msb_Get (demo_env False) t' 1 = Some 7"
  using msb_Insert_correct [of "demo_env False" "msb_new (demo_env False) 16384" 1 7, OF msb_demo_facts(1,3) _ _ msb_demo_facts(2,4)]
  by (auto simp: INVALID_def SENTINEL_def)

text \<open>\<^verbatim>\<open>InsertOnly\<close> of the volatile CCEH table stores a new key if one of its two windows has room,
  and otherwise reports failure and changes nothing; it never splits.\<close>

theorem msb_InsertOnly_correct:
  assumes "table_ok E t" and "depth (dir t) \<le> 31" and "k \<noteq> INVALID" and "k \<noteq> SENTINEL" and "lookup E t k = None"
  shows "\<exists>ok t'. msb_InsertOnly E t k v = Some (ok, t') \<and> table_ok E t' \<and> dir t' = dir t \<and> ok = (free_slot E t k \<noteq> None) \<and>
     (if ok then lookup E t' = (lookup E t)(k \<mapsto> v) \<and> msb_Get E t' k = Some v else t' = t)"
proof (cases "free_slot E t k")
  case None
  then show ?thesis using msb_only_full [OF assms(1) None] assms(1) by (auto simp: msb_InsertOnly_def)
next
  case (Some loc)
  note st = store_slot_effect [OF assms(1,5,3,4) Some, of v]
  then show ?thesis
    using msb_pass_free(2) [OF assms(1) Some, of v] msb_Get_lookup [OF st(1) assms(3)] Some by (auto simp: msb_InsertOnly_def)
qed

theorem msb_InsertOnly_correct_witness:
  "\<exists>ok t'. msb_InsertOnly (demo_env True) (msb_new (demo_env True) 16384) 5 9 = Some (ok, t') \<and> table_ok (demo_env True) t'"
  using msb_InsertOnly_correct [of "demo_env True" "msb_new (demo_env True) 16384" 5 9, OF msb_demo_facts(1,3) _ _ msb_demo_facts(2)]
  by (auto simp: INVALID_def SENTINEL_def)

text \<open>The table the default constructor makes is unusable. Its directory has depth 0, so an
  operation shifts the hash by 64: the shift leaves the hash as it is on x86-64, and every
  key whose hash is not zero is looked for outside the directory.\<close>

theorem msb_default_unusable:
  assumes "f_hash E k \<noteq> 0"
  shows "msb_insert_pass E k v (msb_new_default E) = Fault \<and> msb_Get E (msb_new_default E) k = None"
proof -
  have "0 < unat (f_hash E k)" using assms by (simp add: unat_gt_0)
  then show ?thesis
    by (simp add: msb_insert_pass_def msb_enter_def msb_Get_def msb_get_pass_def msb_new_default_def initDirectory_def shr64_def Let_def)
qed

theorem msb_default_unusable_witness:
  "f_hash (demo_env True) 1 \<noteq> 0 \<and> msb_insert_pass (demo_env True) 1 2 (msb_new_default (demo_env True)) = Fault"
proof
  show "f_hash (demo_env True) 1 \<noteq> 0" by code_simp
  then show "msb_insert_pass (demo_env True) 1 2 (msb_new_default (demo_env True)) = Fault"
    using msb_default_unusable [of "demo_env True" 1 2] by simp
qed

end
