(* ===== verification/Bench_Main.thy ===== *)
theory Bench_Main
  imports CCEH_Index CCEH_MSB
begin

text \<open>
  The programs around the persistent tables: the case study (\<^verbatim>\<open>case_study/main.cpp\<close>), which reads a load
  and a run file and hands them to the driver, the helper thread of the driver that touches keys
  ahead of the worker (\<^verbatim>\<open>tests.hpp\<close>), and the test program of the persistent CCEH table
  (\<^verbatim>\<open>CCEH-PMDK/src/test.cpp\<close>) over a pool that outlives it, and the test program of the volatile table
  (\<^verbatim>\<open>cceh/src/test.cpp\<close>). The theorems compose the models of the
  files, the driver and the table.
\<close>

section \<open>Reading the files\<close>

text \<open>\<^verbatim>\<open>strtoull\<close> of the standard library with base 10: blanks, a sign, the digits up to the first other
  character; a value that does not fit gives the greatest number.\<close>

definition is_space :: "char \<Rightarrow> bool" where
  "is_space c \<longleftrightarrow> (of_char c :: nat) \<in> {9, 10, 11, 12, 13, 32}"

definition is_digit :: "char \<Rightarrow> bool" where
  "is_digit c \<longleftrightarrow> 48 \<le> (of_char c :: nat) \<and> (of_char c :: nat) \<le> 57"

fun digits_value :: "string \<Rightarrow> nat \<Rightarrow> nat" where
  "digits_value [] acc = acc"
| "digits_value (c # cs) acc = (if is_digit c then digits_value cs (10 * acc + (of_char c - 48)) else acc)"

definition strtoull10 :: "string \<Rightarrow> 64 word" where
  "strtoull10 s =
     (let s = dropWhile is_space s;
          neg = (s \<noteq> [] \<and> hd s = CHR ''-'');
          s = (if s \<noteq> [] \<and> (hd s = CHR ''-'' \<or> hd s = CHR ''+'') then tl s else s);
          n = digits_value s 0
      in if 2 ^ 64 \<le> n then - 1 else if neg then - of_nat n else of_nat n)"

text \<open>The two files as the pairs of words that \<^verbatim>\<open>infile >> op >> key\<close> yields. Every key is its own value;
  the load file inserts whatever the word says; an unknown word in the run file ends the program
  (\<open>None\<close>).\<close>

fun parse_load :: "(string \<times> string) list \<Rightarrow> (Key_t \<times> Value_t) list \<times> operation list" where
  "parse_load [] = ([], [])"
| "parse_load ((op, key) # toks) =
     (case parse_load toks of (kvs, ops) \<Rightarrow> ((strtoull10 key, strtoull10 key) # kvs, INSERT # ops))"

definition parse_op :: "string \<Rightarrow> operation option" where
  "parse_op op =
     (if op = ''INSERT'' then Some INSERT
      else if op = ''READ'' then Some READ
      else if op = ''UPDATE'' then Some UPDATE
      else if op = ''DELETE'' then Some DELETE
      else None)"

fun parse_run :: "(string \<times> string) list \<Rightarrow> ((Key_t \<times> Value_t) list \<times> operation list) option" where
  "parse_run [] = Some ([], [])"
| "parse_run ((op, key) # toks) =
     (case parse_op op of
        None \<Rightarrow> None
      | Some w \<Rightarrow> map_option (\<lambda>(kvs, ops). ((strtoull10 key, strtoull10 key) # kvs, w # ops)) (parse_run toks))"

text \<open>A phase of the driver with one worker. The report at its end looks up two ranks in the sorted
  latencies, of which there are as many as pairs; \<^verbatim>\<open>at\<close> throws when there are none.\<close>

definition test_phase :: "'s Index \<Rightarrow> (Key_t \<times> Value_t) list \<Rightarrow> operation list \<Rightarrow> 's \<Rightarrow> ('s \<times> status) option" where
  "test_phase Ix run_pairs runtime_ops s =
     (case worker Ix run_pairs runtime_ops 100000 s of
        None \<Rightarrow> None
      | Some (s, st) \<Rightarrow>
          (case (vec_at run_pairs (length run_pairs * 90 div 100), vec_at run_pairs (length run_pairs * 99 div 100)) of
             (Some _, Some _) \<Rightarrow> Some (s, st)
           | _ \<Rightarrow> None))"

text \<open>The program with one thread and no helper: both files are read, then the load and the run phase
  are run on the new index.\<close>

definition bench_main :: "'s Index \<Rightarrow> 's \<Rightarrow> (string \<times> string) list \<Rightarrow> (string \<times> string) list \<Rightarrow> (status \<times> status \<times> 's) option" where
  "bench_main Ix s loadfile runfile =
     (case parse_load loadfile of
        (init_kv, init_ops) \<Rightarrow>
          (case parse_run runfile of
             None \<Rightarrow> None
           | Some (run_kv, runtime_ops) \<Rightarrow>
               (case test_phase Ix init_kv init_ops s of
                  None \<Rightarrow> None
                | Some (s, st) \<Rightarrow>
                    (case test_phase Ix run_kv runtime_ops s of
                       None \<Rightarrow> None
                     | Some (s, st') \<Rightarrow> Some (st, st', s)))))"

section \<open>What the files stand for\<close>

text \<open>The decimal notation of a number and the lines of a file.\<close>

fun decimal :: "nat \<Rightarrow> string" where
  "decimal n = (if n < 10 then [char_of (48 + n)] else decimal (n div 10) @ [char_of (48 + n mod 10)])"

declare decimal.simps [simp del]

definition op_word :: "operation \<Rightarrow> string" where
  "op_word op = (case op of INSERT \<Rightarrow> ''INSERT'' | READ \<Rightarrow> ''READ'' | UPDATE \<Rightarrow> ''UPDATE'' | DELETE \<Rightarrow> ''DELETE''
     | READ_NOTFOUND \<Rightarrow> [])"

definition file_of :: "(operation \<times> Key_t) list \<Rightarrow> (string \<times> string) list" where
  "file_of ops = map (\<lambda>(op, k). (op_word op, decimal (unat k))) ops"

lemma digit_of: "d < 10 \<Longrightarrow> (of_char (char_of (48 + d) :: char) :: nat) = 48 + d"
  by simp

lemma decimal_digits: "\<forall>c \<in> set (decimal n). is_digit c"
proof (induction n rule: decimal.induct)
  case (1 n)
  have "is_digit (char_of (48 + n mod 10))" by (simp add: is_digit_def)
  moreover have "is_digit (char_of (48 + n))" if "n < 10" using that by (simp add: is_digit_def)
  ultimately show ?case using 1 by (subst decimal.simps) auto
qed

lemma digits_value_append:
  "\<forall>c \<in> set xs. is_digit c \<Longrightarrow> digits_value (xs @ ys) acc = digits_value ys (digits_value xs acc)"
  by (induction xs arbitrary: acc) auto

lemma digits_value_decimal: "digits_value (decimal n) 0 = n"
proof (induction n rule: decimal.induct)
  case (1 n)
  show ?case
  proof (cases "n < 10")
    case True
    then show ?thesis by (subst decimal.simps) (simp add: is_digit_def)
  next
    case False
    then have "digits_value (decimal n) 0 = digits_value [char_of (48 + n mod 10)] (n div 10)"
      using 1 decimal_digits [of "n div 10"] by (subst decimal.simps) (simp add: digits_value_append)
    moreover have "n mod 10 \<le> 9" using mod_less_divisor [of 10 n] by linarith
    ultimately show ?thesis by (simp add: is_digit_def)
  qed
qed

lemma decimal_nonempty: "decimal n \<noteq> []"
  by (subst decimal.simps) simp

lemma strtoull10_decimal: "n < 2 ^ 64 \<Longrightarrow> strtoull10 (decimal n) = of_nat n"
proof -
  assume n: "n < 2 ^ 64"
  obtain c cs where c: "decimal n = c # cs" using decimal_nonempty by (cases "decimal n") auto
  then have "is_digit c" using decimal_digits [of n] by simp
  then have "\<not> is_space c" "c \<noteq> CHR ''-''" "c \<noteq> CHR ''+''"
    by (auto simp: is_digit_def is_space_def)
  then show ?thesis using n digits_value_decimal [of n] by (simp add: strtoull10_def c Let_def)
qed

lemma strtoull10_key: "strtoull10 (decimal (unat (k :: 64 word))) = k"
  using strtoull10_decimal [of "unat k"] unsigned_less [of k] by simp

lemma parse_op_word: "op \<noteq> READ_NOTFOUND \<Longrightarrow> parse_op (op_word op) = Some op"
  by (cases op) (simp_all add: parse_op_def op_word_def)




lemma parse_run_file:
  "(\<forall>(op, k) \<in> set ops. op \<noteq> READ_NOTFOUND) \<Longrightarrow>
     parse_run (file_of ops) = Some (map (\<lambda>(op, k). (k, k)) ops, map fst ops)"
  by (induction ops) (auto simp: file_of_def parse_op_word strtoull10_key)

text \<open>C39: reading a run file gives back the operations it was written from, with every 64-bit key; a word that
  is not one of the four operations anywhere in the file ends the program before any index is
  touched.\<close>

theorem run_file_roundtrip:
  "(\<forall>(op, k) \<in> set ops. op \<noteq> READ_NOTFOUND) \<Longrightarrow>
     parse_run (file_of ops) = Some (map (\<lambda>(op, k). (k, k)) ops, map fst ops) \<and>
     (parse_op w = None \<longrightarrow> bench_main Ix s load (file_of ops @ (w, key) # rest) = None)"
proof -
  assume ops: "\<forall>(op, k) \<in> set ops. op \<noteq> READ_NOTFOUND"
  note parse_run_file [OF ops]
  moreover have "parse_run (xs @ (w, key) # rest) = None" if "parse_op w = None" for xs
    using that by (induction xs) (auto split: option.splits)
  ultimately show ?thesis by (simp add: bench_main_def split: prod.split)
qed

theorem run_file_roundtrip_witness:
  "parse_run [(''READ'', decimal 7), (''INSERT'', decimal 12)] = Some ([(7, 7), (12, 12)], [READ, INSERT]) \<and>
   bench_main (cceh_index (demo_env False)) (demo_table False) [] [(''READ'', decimal 7), (''INSERT'', decimal 12), (''SCAN'', ''1'')] = None"
proof -
  let ?ops = "[(READ, 7), (INSERT, 12)] :: (operation \<times> Key_t) list"
  have f: "file_of ?ops = [(''READ'', decimal 7), (''INSERT'', decimal 12)]" by (simp add: file_of_def op_word_def)
  have "parse_op ''SCAN'' = None" by (simp add: parse_op_def)
  moreover have "parse_run (file_of ?ops) = Some (map (\<lambda>(op, k). (k, k)) ?ops, map fst ?ops) \<and>
      (parse_op ''SCAN'' = None \<longrightarrow>
        bench_main (cceh_index (demo_env False)) (demo_table False) [] (file_of ?ops @ [(''SCAN'', ''1'')]) = None)"
    by (rule run_file_roundtrip) simp
  ultimately show ?thesis by (simp add: f del: parse_run.simps)
qed

section \<open>The benchmark on the persistent CCEH table\<close>

lemma length_filter_imp: "(\<And>x. x \<in> set xs \<Longrightarrow> P x \<Longrightarrow> Q x) \<Longrightarrow> length (filter P xs) \<le> length (filter Q xs)"
  by (induction xs) fastforce+

definition same :: "Key_t list \<Rightarrow> (Key_t \<times> Value_t) list" where
  "same ks = map (\<lambda>k. (k, k)) ks"

lemma map_of_same: "map_of (same ks) k = (if k \<in> set ks then Some k else None)"
  by (induction ks) (auto simp: same_def)

lemma fst_same: "map fst (same ks) = ks"
  by (induction ks) (simp_all add: same_def)


lemma cceh_new: "lookup E (cceh_Init E None) k = None" "\<not> CUCKOO E \<Longrightarrow> cceh_inv E (cceh_Init E None)"
  using initCCEH_table_ok (1) [of initial_size E] initCCEH_table_ok(2) [of initial_size E k] initCCEH_depth [of initial_size E]
  by (simp_all add: cceh_Init_def cceh_inv_def initial_size_def)

text \<open>After distinct new keys have been inserted, a wrong answer is about a key that was dropped.\<close>

lemma wrong_dropped:
  assumes "\<forall>k. k \<notin> cceh_lost t \<longrightarrow> lookup E t k = (lookup E (cceh_Init E None) ++ map_of (same ks)) k"
    and "k \<in> set ks" and "(case lookup E t k of None \<Rightarrow> NONE | Some w \<Rightarrow> w) \<noteq> k"
  shows "k \<in> p_key ` set (dropped t)"
proof (rule ccontr)
  assume "k \<notin> p_key ` set (dropped t)"
  then have "lookup E t k = Some k" using assms(1,2) by (simp add: cceh_lost_def map_of_same map_add_def)
  then show False using assms(3) by simp
qed


lemma cceh_fits_small:
  assumes "finite K" and "card K \<le> 32"
  shows "cceh_fits E K"
  unfolding cceh_fits_def
proof
  fix k
  assume k: "k \<in> K"
  have "card {k' \<in> K - {k}. hi 31 (f_hash E k') = hi 31 (f_hash E k)} \<le> card (K - {k})"
    using assms(1) by (intro card_mono) auto
  also have "\<dots> < card K" using k assms(1) by (intro card_Diff1_less)
  finally show "card {k' \<in> K - {k}. hi 31 (f_hash E k') = hi 31 (f_hash E k)} < 32" using assms(2) by linarith
qed


section \<open>The helper that touches keys ahead\<close>

text \<open>
  One round of \<^verbatim>\<open>preread\<close> in \<^verbatim>\<open>test\<close>: what it does for the progress \<open>cur\<close> that the worker has
  published and its own position. \<^verbatim>\<open>prereadnum\<close> and \<^verbatim>\<open>keys_num\<close> are of type \<^verbatim>\<open>int\<close> and are extended to
  64 bits where they meet the unsigned positions.
\<close>

datatype preread_act = Ended | Waits "64 word" | Touches nat "64 word" | Throws

definition preread_step :: "32 word \<Rightarrow> (Key_t \<times> Value_t) list \<Rightarrow> int \<Rightarrow> 64 word \<Rightarrow> 64 word \<Rightarrow> preread_act" where
  "preread_step prereadnum run_pairs end_flag curr_progress progerss =
     (let preread_shreshold = scast prereadnum; keys_num = scast (of_nat (length run_pairs) :: 32 word)
      in if end_flag = 1 then Ended
         else if preread_shreshold < progerss - curr_progress then Waits (curr_progress + preread_shreshold)
         else if keys_num \<le> progerss then Waits progerss
         else if progerss - curr_progress < 0 then Waits (curr_progress + 1)
         else case vec_at run_pairs (unat progerss) of
                None \<Rightarrow> Throws
              | Some _ \<Rightarrow> Touches (unat progerss) (progerss + 1))"

text \<open>The helper over a sequence of what it reads of \<^verbatim>\<open>end_flag\<close> and \<^verbatim>\<open>curr_progress\<close>: the indices it
  touches and the index structure behind them; \<open>None\<close> when \<^verbatim>\<open>at\<close> throws or \<^verbatim>\<open>Touch\<close> faults.\<close>

fun preread :: "'s Index \<Rightarrow> 32 word \<Rightarrow> (Key_t \<times> Value_t) list \<Rightarrow> (int \<times> 64 word) list \<Rightarrow> 64 word \<Rightarrow> 's
    \<Rightarrow> (nat list \<times> 's) option" where
  "preread Ix num ps [] progerss s = Some ([], s)"
| "preread Ix num ps ((end_flag, cur) # seen) progerss s =
     (case preread_step num ps end_flag cur progerss of
        Ended \<Rightarrow> Some ([], s)
      | Waits p \<Rightarrow> preread Ix num ps seen p s
      | Throws \<Rightarrow> None
      | Touches i p \<Rightarrow>
          (case Touch_op Ix (fst (ps ! i)) s of
             None \<Rightarrow> None
           | Some s \<Rightarrow> map_option (\<lambda>(ids, s). (i # ids, s)) (preread Ix num ps seen p s)))"

lemma cceh_touch:
  assumes "cceh_inv E t"
  shows "cceh_Touch E k t = Some t"
proof -
  have ok: "table_ok E t" using assms by (simp add: cceh_inv_def)
  show ?thesis
    using index_route [OF ok, of "f_hash E k"] table_ok_seg(1) [OF ok, of "f_hash E k"]
    by (simp add: cceh_Touch_def Touch_def Let_def D_RO_def)
qed

lemma scast_int32:
  fixes w :: "32 word"
  assumes "0 \<le> sint w"
  shows "uint (scast w :: 64 word) = sint w"
proof -
  have "sint w < 2 ^ 31" using sint_lt [of w] by simp
  then have "take_bit 64 (sint w) = sint w" using assms by (intro take_bit_int_eq_self) simp_all
  then show ?thesis by (simp only: scast_eq uint_word_of_int_eq) simp
qed

lemma sint_length: "n < 2 ^ 31 \<Longrightarrow> sint (of_nat n :: 32 word) = int n"
  by (simp add: signed_of_nat signed_take_bit_int_eq_self)

lemma word_diff_behind:
  fixes p c :: "64 word"
  assumes "p < c"
  shows "uint (p - c) = 2 ^ 64 - uint c + uint p"
  using assms uint_sub_if' [of p c] by (simp add: word_less_def)

lemma preread_step_cases:
  assumes "0 \<le> sint num" and "length ps < 2 ^ 31" and "unat cur \<le> length ps"
  shows "preread_step num ps fl cur p \<noteq> Throws"
    and "preread_step num ps fl cur p = Touches i p' \<Longrightarrow>
      i < length ps \<and> unat cur \<le> i \<and> int i \<le> int (unat cur) + sint num \<and> i = unat p \<and> p' = p + 1"
    and "fl \<noteq> 1 \<Longrightarrow> p < cur \<Longrightarrow> preread_step num ps fl cur p = Waits (cur + scast num)"
proof -
  let ?thr = "scast num :: 64 word" and ?n = "scast (of_nat (length ps) :: 32 word) :: 64 word"
  have thr: "uint ?thr = sint num" "sint num < 2 ^ 31" using scast_int32 [OF assms(1)] sint_lt [of num] by simp_all
  have n: "uint ?n = int (length ps)"
    using scast_int32 [of "of_nat (length ps)"] sint_length [OF assms(2)] by simp
  have c: "uint cur \<le> int (length ps)" using assms(3) unat_eq_nat_uint [of cur] by linarith
  have behind: "?thr < p - cur" if "p < cur"
  proof -
    have "length ps < 2147483648" "sint num < 2147483648" using assms(2) thr(2) by simp_all
    moreover have "(2 :: int) ^ 64 = 18446744073709551616" by simp
    ultimately have "sint num < 2 ^ 64 - uint cur + uint p" using c uint_ge_0 [of p] by linarith
    then show ?thesis using thr(1) word_diff_behind [OF that] by (simp only: word_less_def)
  qed
  then show "preread_step num ps fl cur p = Waits (cur + scast num)" if "fl \<noteq> 1" "p < cur"
    using that by (simp add: preread_step_def Let_def)
  have small: "unat p < length ps" if "\<not> ?n \<le> p"
    using that n uint_nat [of p] by (simp only: word_le_def)
  show "preread_step num ps fl cur p \<noteq> Throws"
    using small by (auto simp: preread_step_def Let_def vec_at_def)
  show "i < length ps \<and> unat cur \<le> i \<and> int i \<le> int (unat cur) + sint num \<and> i = unat p \<and> p' = p + 1"
    if "preread_step num ps fl cur p = Touches i p'"
  proof -
    have t: "\<not> ?thr < p - cur" "\<not> ?n \<le> p" "i = unat p" "p' = p + 1"
      using that by (auto simp: preread_step_def Let_def vec_at_def split: if_splits)
    have le: "cur \<le> p" using behind t(1) by (meson not_less)
    then have "uint (p - cur) = uint p - uint cur" using uint_sub_if' [of p cur] by (simp only: word_le_def if_True)
    then have "uint p \<le> uint cur + sint num" using t(1) thr(1) by (simp only: word_less_def not_less)
    moreover have "unat cur \<le> unat p" using le by (simp add: word_le_nat_alt)
    ultimately show ?thesis using small [OF t(2)] t(3,4) uint_nat [of p] uint_nat [of cur] by linarith
  qed
qed

text \<open>C40: a helper stays in its window. Whatever the position it starts from and however the workers and
  it interleave, it never reads behind the pairs and only touches keys from the worker's
  published progress to \<open>prereadnum\<close> ahead of it; a helper that has fallen behind jumps to the end
  of the window, and the branch for the negative difference is never taken. Touching leaves the
  persistent table as it is.\<close>

theorem preread_window:
  assumes "0 \<le> sint num" and "length ps < 2 ^ 31" and "unat cur \<le> length ps"
    and "\<forall>(fl, cur) \<in> set seen. unat cur \<le> length ps" and "cceh_inv E t"
  shows "(\<forall>i p'. preread_step num ps fl cur p = Touches i p' \<longrightarrow>
        i < length ps \<and> unat cur \<le> i \<and> int i \<le> int (unat cur) + sint num \<and> p' = p + 1) \<and>
      (p < cur \<longrightarrow> preread_step num ps fl cur p = (if fl = 1 then Ended else Waits (cur + scast num))) \<and>
      (\<exists>ids. preread (cceh_index E) num ps seen p t = Some (ids, t) \<and> set ids \<subseteq> {0..<length ps} \<and> length ids \<le> length seen)"
proof (intro conjI allI impI)
  note steps = preread_step_cases [OF assms(1,2)]
  show "p < cur \<Longrightarrow> preread_step num ps fl cur p = (if fl = 1 then Ended else Waits (cur + scast num))"
    using steps(3) [OF assms(3)] by (simp add: preread_step_def Let_def)
  show "\<exists>ids. preread (cceh_index E) num ps seen p t = Some (ids, t) \<and> set ids \<subseteq> {0..<length ps} \<and> length ids \<le> length seen"
    using assms(4)
  proof (induction seen arbitrary: p)
    case (Cons o1 seen)
    obtain fl cur where o1: "o1 = (fl, cur)" by fastforce
    have c: "unat cur \<le> length ps" using Cons.prems by (simp add: o1)
    have IH: "\<exists>ids. preread (cceh_index E) num ps seen p t = Some (ids, t) \<and> set ids \<subseteq> {0..<length ps} \<and> length ids \<le> length seen" for p
      using Cons by simp
    show ?case
    proof (cases "preread_step num ps fl cur p")
      case (Waits p')
      then show ?thesis using IH [of p'] by (auto simp: o1)
    next
      case (Touches i p')
      obtain ids where "preread (cceh_index E) num ps seen p' t = Some (ids, t)" "set ids \<subseteq> {0..<length ps}" "length ids \<le> length seen"
        using IH by blast
      then show ?thesis using Touches steps(2) [OF c Touches] cceh_touch [OF assms(5)]
        by (intro exI [of _ "i # ids"]) (simp add: o1 cceh_index_def)
    qed (use steps(1) [OF c] in \<open>simp_all add: o1\<close>)
  qed simp
qed (use preread_step_cases(2) [OF assms(1-3)] in blast)+

theorem preread_window_witness:
  "preread_step 4 [(1, 1), (2, 2), (3, 3)] 0 1 2 = Touches 2 3 \<and>
   preread_step 4 [(1, 1), (2, 2), (3, 3)] 0 3 0 = Waits 7"
  using preread_window [of 4 "[(1, 1), (2, 2), (3, 3)]" 3 "[]" "demo_env False" "demo_table False" 0 0]
    demo_table_facts(1,3) [of False]
  by (simp add: cceh_inv_def preread_step_def Let_def vec_at_def)

section \<open>The test program of the persistent CCEH table\<close>

text \<open>
  \<^verbatim>\<open>main\<close> of \<^verbatim>\<open>test.cpp\<close>, one thread: the pool of an earlier run is opened and its table recovered if
  it is marked, a new pool is filled with the keys; then every key is searched and the failures
  are counted. At the end the mark is taken off and the pool closed, which leaves the table for
  the next run. The pool is opened as in the wrapper (\<open>cceh_Init\<close>).
\<close>

fun failedSearch :: "env \<Rightarrow> CCEH \<Rightarrow> Key_t list \<Rightarrow> nat option" where
  "failedSearch E t [] = Some 0"
| "failedSearch E t (k # keys) =
     (case Get E t k of
        None \<Rightarrow> None
      | Some ret \<Rightarrow> map_option (\<lambda>n. if ret \<noteq> k then n + 1 else n) (failedSearch E t keys))"

definition pmdk_test :: "env \<Rightarrow> CCEH option \<Rightarrow> Key_t list \<Rightarrow> (nat \<times> CCEH) option" where
  "pmdk_test E existing keys =
     (let t = cceh_Init E existing;
          inserted = (if existing = None then insert_all (\<lambda>k v t. Insert E 64 t k v) (map (\<lambda>k. (k, k)) keys) t else Some t)
      in case inserted of
           None \<Rightarrow> None
         | Some t \<Rightarrow>
             (case failedSearch E t keys of
                None \<Rightarrow> None
              | Some n \<Rightarrow> Some (n, t\<lparr>crashed := False\<rparr>)))"

lemma failedSearch_count:
  assumes "table_ok E t" and "\<forall>k \<in> set ks. k \<noteq> INVALID"
  shows "failedSearch E t ks = Some (length (filter (\<lambda>k. (case lookup E t k of None \<Rightarrow> NONE | Some w \<Rightarrow> w) \<noteq> k) ks))"
  using assms(2) by (induction ks) (simp_all add: Get_lookup [OF assms(1)])

lemma crashed_same: "(t\<lparr>crashed := b\<rparr>)\<lparr>crashed := c\<rparr> = t\<lparr>crashed := c\<rparr>"
  by simp

text \<open>C12: with one thread, a second run reports what the first one did. The run on a new pool inserts all
  keys, given that they are distinct and storable and that no 33 agree in the top 31 bits of their
  hash, which keeps the directory in the range of the \<^verbatim>\<open>int\<close> counters; it misses
  only keys that a segment split dropped; run again on the pool it left, whether or not that is
  marked as crashed, the program finds the same table, reports the same number and leaves the
  pool unchanged.\<close>

theorem pmdk_test_rerun:
  assumes "\<not> CUCKOO E" and "\<forall>k \<in> set ks. k \<noteq> INVALID \<and> k \<noteq> SENTINEL" and "distinct ks" and "cceh_fits E (set ks)"
  shows "\<exists>n t. pmdk_test E None ks = Some (n, t) \<and> table_ok E t \<and> \<not> crashed t \<and>
     n \<le> length (filter (\<lambda>k. k \<in> p_key ` set (dropped t)) ks) \<and>
     (\<forall>b. pmdk_test E (Some (t\<lparr>crashed := b\<rparr>)) ks = Some (n, t))"
proof -
  let ?t0 = "cceh_Init E None" and ?wrong = "\<lambda>t k. (case lookup E t k of None \<Rightarrow> NONE | Some w \<Rightarrow> w) \<noteq> k"
  have op: "Insert_op (cceh_index E) = (\<lambda>k v t. Insert E 64 t k v)"
    by (simp add: cceh_index_def cceh_Insert_def fun_eq_iff)
  obtain t where t: "insert_all (\<lambda>k v t. Insert E 64 t k v) (same ks) ?t0 = Some t" "cceh_inv E t"
      "\<forall>k. k \<notin> cceh_lost t \<longrightarrow> lookup E t k = (lookup E ?t0 ++ map_of (same ks)) k"
    using cceh.insert_all_effect [OF cceh_new(2) [OF assms(1)], of "same ks"] assms(2-4)
    by (auto simp: fst_same cceh_new(1) cceh_valid_def dom_def op)
  let ?n = "length (filter (?wrong t) ks)" and ?t = "t\<lparr>crashed := False\<rparr>"
  have ok: "table_ok E t" using t(2) by (simp add: cceh_inv_def)
  have ks: "\<forall>k \<in> set ks. k \<noteq> INVALID" using assms(2) by blast
  have "pmdk_test E None ks = Some (?n, ?t)"
    using t(1) by (simp add: pmdk_test_def same_def failedSearch_count [OF ok ks])
  moreover have "?n \<le> length (filter (\<lambda>k. k \<in> p_key ` set (dropped ?t)) ks)"
    using wrong_dropped [OF t(3)] by (intro length_filter_imp) simp
  moreover have "pmdk_test E (Some (?t\<lparr>crashed := b\<rparr>)) ks = Some (?n, ?t)" for b
  proof -
    have okb: "table_ok E (t\<lparr>crashed := b\<rparr>)" using ok by simp
    have "cceh_Init E (Some (t\<lparr>crashed := b\<rparr>)) = t\<lparr>crashed := b\<rparr>"
      using Recovery_idle [OF okb] by (cases b) (simp_all add: cceh_Init_def)
    then show ?thesis using failedSearch_count [OF okb ks] by (simp add: pmdk_test_def Let_def)
  qed
  ultimately show ?thesis using ok by (intro exI [of _ ?n] exI [of _ ?t]) simp
qed

theorem pmdk_test_rerun_witness:
  "\<exists>n t. pmdk_test (demo_env True) None [1, 2] = Some (n, t) \<and> pmdk_test (demo_env True) (Some (t\<lparr>crashed := True\<rparr>)) [1, 2] = Some (n, t)"
proof -
  have "cceh_fits (demo_env True) (set [1, 2])" by (rule cceh_fits_small) simp_all
  then show ?thesis
    using pmdk_test_rerun [of "demo_env True" "[1, 2]"] by (simp add: INVALID_def SENTINEL_def) blast
qed

section \<open>The test program of the volatile CCEH table\<close>

text \<open>\<^verbatim>\<open>cceh/src/test.cpp\<close> instantiates the class \<^verbatim>\<open>Hash\<close> with \<^verbatim>\<open>CCEH\<close> for a table of 16 segments. The pass bound of
  \<open>Insert\<close> is the one of \<open>cceh_Insert\<close>.\<close>

definition msb_hash :: "env \<Rightarrow> CCEH Hash" where
  "msb_hash E = \<lparr>InsertOnly_fn = (\<lambda>k v t. msb_InsertOnly E t k v), Insert_fn = (\<lambda>k v t. msb_Insert E 64 t k v),
     Delete_fn = (\<lambda>k t. Some (msb_Delete t k)), Get_fn = (\<lambda>k t. msb_Get E t k)\<rparr>"

definition test_cceh :: "env \<Rightarrow> Key_t list \<Rightarrow> (CCEH \<times> nat) option" where
  "test_cceh E keys = test_main (msb_hash E) keys (msb_new E (16 * 1024 div kNumSlot))"

definition msb_inv :: "env \<Rightarrow> CCEH \<Rightarrow> bool" where
  "msb_inv E t \<longleftrightarrow> table_ok E t \<and> depth (dir t) \<le> 31"

lemma msb_insert_step:
  assumes "msb_inv E t" and "cceh_valid k" and "lookup E t k = None" and "cceh_fits E (insert k (dom (lookup E t)))"
  shows "\<exists>t'. msb_Insert E 64 t k v = Some t' \<and> msb_inv E t' \<and> lookup E t' \<subseteq>\<^sub>m (lookup E t)(k \<mapsto> v) \<and> cceh_lost t \<subseteq> cceh_lost t' \<and>
     (\<forall>k'. k' \<notin> cceh_lost t' \<longrightarrow> lookup E t' k' = ((lookup E t)(k \<mapsto> v)) k')"
proof -
  have a: "table_ok E t" "depth (dir t) \<le> 31" "k \<noteq> INVALID" "k \<noteq> SENTINEL"
    using assms(1,2) by (auto simp: msb_inv_def cceh_valid_def)
  have "31 - local_depth (seg_of t (f_hash E k)) < 64" by simp
  then obtain t' where "msb_Insert E 64 t k v = Some t'" "insert_effect E t k v t'" "depth (dir t') \<le> 31"
    using msb.loop_ends [OF a(1,3,4) assms(3) order_refl a(2) cceh_fits_crowd [OF assms(3,4)], of 64 v] unfolding msb_Insert_def by blast
  then show ?thesis by (auto simp: msb_inv_def insert_effect_def cceh_lost_def image_Un)
qed

interpretation msb_store: hash_store "msb_hash E" "msb_inv E" "lookup E" cceh_lost cceh_valid "cceh_fits E" for E
proof (rule hash_storeI)
  fix t k
  assume "msb_inv E t" "cceh_valid k"
  then show "Get_fn (msb_hash E) k t = Some (case lookup E t k of None \<Rightarrow> NONE | Some v \<Rightarrow> v)"
    by (simp add: msb_hash_def msb_inv_def cceh_valid_def msb_Get_lookup)
qed (use msb_insert_step cceh_fits_mono in \<open>simp_all add: msb_hash_def\<close>)

text \<open>C26: the test program on the volatile CCEH table, in the in-place build the program is linked with
  and in the copy-on-write build. Given distinct keys other than \<open>INVALID\<close> and \<open>SENTINEL\<close>, of which no
  33 agree in the top 31 bits of their hash, all insertions end on a well-formed table, and the
  searches that fail are about keys that a segment split has dropped. \<^verbatim>\<open>atoi\<close> gives the program fewer
  than \<open>2 ^ 31\<close> keys.\<close>

theorem test_cceh_passes:
  assumes "distinct keys" and "\<forall>k \<in> set keys. k \<noteq> INVALID \<and> k \<noteq> SENTINEL" and "cceh_fits E (set keys)" and "length keys < 2 ^ 31"
  shows "\<exists>t n. test_cceh E keys = Some (t, n) \<and> table_ok E t \<and>
     n \<le> length (filter (\<lambda>k. k \<in> p_key ` set (dropped t)) keys)"
proof -
  let ?t = "msb_new E (16 * 1024 div kNumSlot)"
  have "16 * 1024 div kNumSlot = 16" by (simp add: kNumSlot_eq)
  then have "msb_inv E ?t" "\<And>k. lookup E ?t k = None"
    using initCCEH_table_ok [of 16 E] initCCEH_depth [of 16 E] by (simp_all add: msb_inv_def msb_new_init)
  then show ?thesis
    using msb_store.test_main_passes [of E ?t keys] assms by (auto simp: test_cceh_def cceh_valid_def dom_def msb_inv_def cceh_lost_def)
qed

theorem test_cceh_passes_witness: "\<exists>t n. test_cceh (demo_env True) [1, 2, 3000] = Some (t, n) \<and> n \<le> 3"
proof -
  have "cceh_fits (demo_env True) (set [1, 2, 3000])" by (rule cceh_fits_small) simp_all
  then obtain t n where "test_cceh (demo_env True) [1, 2, 3000] = Some (t, n)" "n \<le> length (filter (\<lambda>k. k \<in> p_key ` set (dropped t)) [1, 2, 3000])"
    using test_cceh_passes [of "[1, 2, 3000]" "demo_env True"] by (auto simp: INVALID_def SENTINEL_def)
  moreover have "length (filter P [1 :: Key_t, 2, 3000]) \<le> 3" for P by (rule order_trans [OF length_filter_le]) simp
  ultimately show ?thesis by (meson order_trans)
qed

end
