(* ===== verification/Micro_Access.thy ===== *)
theory Micro_Access
  imports PM_Prelude
begin

text \<open>
  The micro benchmarks that touch the pool in a fixed order (\<^verbatim>\<open>src/micro_benchmarks/cases\<close>):
  the initialisation of \<^verbatim>\<open>main.cpp\<close>, \<^verbatim>\<open>write_buffer.cpp\<close>, \<^verbatim>\<open>read_buf_amp.cpp\<close> and
  \<^verbatim>\<open>seperate_rd_wr_buf.cpp\<close>. What a benchmark measures is decided by which cache lines it
  touches and in which order, so the model of a benchmark is the list of its accesses to the
  pool. An address is a byte offset from the start of the pool.
\<close>

section \<open>Accesses and strided loops\<close>

text \<open>A load or a store of a number of bytes, a non-temporal store of a whole line, the flush
  and write-back instructions, the fences, and the empty loop of some rounds that delays
  the next access.\<close>

datatype access = Load nat nat | Store nat nat | Stream nat | Flush nat | Clwb nat | Mfence | Sfence | Delay nat

text \<open>\<^verbatim>\<open>for (i = a; i < n; i += s)\<close>: the values of \<^verbatim>\<open>i\<close>. The strides of the code are the literals 64
  and 256.\<close>

function strided :: "nat \<Rightarrow> nat \<Rightarrow> nat \<Rightarrow> nat list" where
  "strided a n s = (if a < n \<and> 0 < s then a # strided (a + s) n s else [])"
  by pat_completeness auto
termination by (relation "measure (\<lambda>(a, n, s). n - a)") auto

declare strided.simps [simp del]

lemma strided_map: "0 < s \<Longrightarrow> strided a (a + m * s) s = map (\<lambda>x. a + x * s) [0..<m]"
proof (induction m arbitrary: a)
  case 0
  then show ?case by (simp add: strided.simps [of a])
next
  case (Suc m)
  have "strided a (a + Suc m * s) s = a # strided (a + s) ((a + s) + m * s) s"
    using Suc.prems by (subst strided.simps) (simp add: algebra_simps)
  also have "\<dots> = a # map (\<lambda>x. (a + s) + x * s) [0..<m]" using Suc by simp
  also have "\<dots> = map (\<lambda>x. a + x * s) [0..<Suc m]"
    by (simp only: upt_conv_Cons zero_less_Suc list.map map_Suc_upt [symmetric] map_map o_def)
      (simp add: algebra_simps)
  finally show ?case .
qed

lemma strided_blocks: "0 < s \<Longrightarrow> s dvd n \<Longrightarrow> strided 0 n s = map (\<lambda>x. x * s) [0..<n div s]"
  using strided_map [of s 0 "n div s"] by simp

lemma strided_less: "x \<in> set (strided a n s) \<Longrightarrow> x < n"
  by (induction a n s rule: strided.induct) (metis empty_iff list.set(1) set_ConsD strided.simps)

lemma strided_stop: "n \<le> a \<Longrightarrow> strided a n s = []"
  by (simp add: strided.simps)

section \<open>\<^verbatim>\<open>main.cpp\<close>\<close>

text \<open>
  \<^verbatim>\<open>nt_bzero\<close> streams one line, advances the address by 256 and subtracts 256 from the unsigned
  size until that is zero. \<open>None\<close>: the loop has not ended within the given number of passes.
\<close>

fun nt_bzero :: "nat \<Rightarrow> nat \<Rightarrow> 64 word \<Rightarrow> access list option" where
  "nt_bzero fuel aligned_addr sz =
     (if sz > 0 then
        (case fuel of
           0 \<Rightarrow> None
         | Suc n \<Rightarrow> map_option (Cons (Stream aligned_addr)) (nt_bzero n (aligned_addr + 256) (sz - 256)))
      else Some [])"

declare nt_bzero.simps [simp del]

text \<open>The tests in the order of the table, and the entry that the flag \<^verbatim>\<open>test\<close> selects; the code
  does not check the index.\<close>

datatype micro_test = Read_buf_amp_tst | Trigger_prefetching | Write_buffer | Write_buffer_flushing_period
  | Seperate_rd_wr_buf | Read_after_flush | Access_lat | Read_after_flush_lock_contention
  | Extreme_case_prefetching | Rd_throughput_against_prefetching

definition test_funcs :: "micro_test list" where
  "test_funcs = [Read_buf_amp_tst, Trigger_prefetching, Write_buffer, Write_buffer_flushing_period,
     Seperate_rd_wr_buf, Read_after_flush, Access_lat, Read_after_flush_lock_contention,
     Extreme_case_prefetching, Rd_throughput_against_prefetching]"

definition select_test :: "int \<Rightarrow> micro_test option" where
  "select_test FLAGS_test =
     (if 0 \<le> FLAGS_test \<and> nat FLAGS_test < length test_funcs then Some (test_funcs ! nat FLAGS_test) else None)"

section \<open>\<^verbatim>\<open>write_buffer.cpp\<close>\<close>

definition write_4_cacheline :: "nat \<Rightarrow> nat \<Rightarrow> access list" where
  "write_4_cacheline working_addr i =
     [Store (working_addr + i + 0) 1, Store (working_addr + i + 64) 1,
      Store (working_addr + i + 128) 1, Store (working_addr + i + 192) 1,
      Flush (working_addr + i + 0), Flush (working_addr + i + 64),
      Flush (working_addr + i + 128), Flush (working_addr + i + 192)]"

definition write_3_cacheline :: "nat \<Rightarrow> nat \<Rightarrow> access list" where
  "write_3_cacheline working_addr i =
     [Store (working_addr + i + 0) 1, Store (working_addr + i + 64) 1, Store (working_addr + i + 128) 1,
      Flush (working_addr + i + 0), Flush (working_addr + i + 64), Flush (working_addr + i + 128)]"

definition write_2_cacheline :: "nat \<Rightarrow> nat \<Rightarrow> access list" where
  "write_2_cacheline working_addr i =
     [Store (working_addr + i + 0) 1, Store (working_addr + i + 64) 1,
      Flush (working_addr + i + 0), Flush (working_addr + i + 64)]"

definition write_1_cacheline :: "nat \<Rightarrow> nat \<Rightarrow> access list" where
  "write_1_cacheline working_addr i = [Store (working_addr + i + 0) 1, Flush (working_addr + i + 0)]"

text \<open>The measured loops of \<^verbatim>\<open>write_buffer\<close>, and the runs it makes: every writer over every working
  set size, the number of iterations chosen so that each run covers the same volume.\<close>

definition wb_func :: "(nat \<Rightarrow> nat \<Rightarrow> access list) \<Rightarrow> nat \<Rightarrow> nat \<Rightarrow> access list" where
  "wb_func write_xp_line wss iterations =
     concat (replicate iterations (concat (map (write_xp_line 0) (strided 0 wss 256))))"

definition wb_sizes :: "nat list" where
  "wb_sizes = strided 256 32769 256"

definition write_buffer :: "access list" where
  "write_buffer =
     concat (map (\<lambda>wss. wb_func write_1_cacheline wss (2 ^ 30 div wss)) wb_sizes) @
     concat (map (\<lambda>wss. wb_func write_2_cacheline wss (2 ^ 30 div wss)) wb_sizes) @
     concat (map (\<lambda>wss. wb_func write_3_cacheline wss (2 ^ 30 div wss)) wb_sizes) @
     concat (map (\<lambda>wss. wb_func write_4_cacheline wss (2 ^ 30 div wss)) wb_sizes)"

text \<open>The measured loops of \<^verbatim>\<open>write_buffer_flushing_period\<close>: every line is streamed, and the delay loop
  runs after each line whose number ends in the bits 11.\<close>

definition fp_pass :: "nat \<Rightarrow> nat \<Rightarrow> access list" where
  "fp_pass cl_num counter_loop =
     concat (map (\<lambda>i. Stream (64 * i) # (if i AND 3 = 3 then [Delay counter_loop] else [])) [0..<cl_num])"

definition fp_func :: "nat \<Rightarrow> nat \<Rightarrow> nat \<Rightarrow> access list" where
  "fp_func wss iterations counter_loop =
     (let cl_num = drop_bit 6 wss
      in concat (replicate iterations (fp_pass cl_num counter_loop @ [Mfence])))"

definition fp_runs :: "(nat \<times> nat \<times> nat) list" where
  "fp_runs = concat (map (\<lambda>i. map (\<lambda>j. (i, 2 ^ 29 div i, j)) (strided 0 200 10)) [2 ^ 12, 2 ^ 13, 2 ^ 14])"

text \<open>What the delay loops add to the 32-bit counter \<^verbatim>\<open>delayer\<close>: the calibration runs the loop
  100000 times.\<close>

definition delay_sum :: "nat \<Rightarrow> nat" where
  "delay_sum counter_loop = sum_list [0..<counter_loop]"

definition delayer_total :: "nat \<Rightarrow> nat \<Rightarrow> nat \<Rightarrow> nat" where
  "delayer_total wss iterations counter_loop =
     (100000 + length (filter (\<lambda>a. a = Delay counter_loop) (fp_func wss iterations counter_loop))) * delay_sum counter_loop"

section \<open>\<^verbatim>\<open>read_buf_amp.cpp\<close>\<close>

text \<open>The fields of \<^verbatim>\<open>Action\<close> without the trailing underscores of the code.\<close>

datatype increment_style = EXP | LINEAR

record Action =
  upper :: "64 word"
  bottom :: "64 word"
  incre :: increment_style
  step :: "64 word"

definition ALIGN_UP :: "64 word \<Rightarrow> 64 word" where
  "ALIGN_UP i = (i + 255) AND NOT 255"

definition ALIGN_DOWN :: "64 word \<Rightarrow> 64 word" where
  "ALIGN_DOWN i = i AND NOT 255"

text \<open>One job of the configuration file. A value of \<^verbatim>\<open>inc_type\<close> other than the two known ones leaves
  \<open>incre\<close> as it was in memory (\<open>garbage\<close>).\<close>

definition make_action :: "increment_style \<Rightarrow> 64 word \<Rightarrow> 64 word \<Rightarrow> 64 word \<Rightarrow> string \<Rightarrow> Action" where
  "make_action garbage start_wss end_wss stride inc_type =
     \<lparr>upper = ALIGN_UP end_wss, bottom = ALIGN_DOWN start_wss,
      incre = (if inc_type = ''exp'' then EXP else if inc_type = ''linear'' then LINEAR else garbage),
      step = stride\<rparr>"

text \<open>The flushes of one iteration over \<open>i\<close> bytes, with the jumps to \<^verbatim>\<open>end\<close>.\<close>

definition flush_column :: "nat \<Rightarrow> nat \<Rightarrow> access list" where
  "flush_column i off = map (\<lambda>j. Flush (j + off)) (strided 0 i 256)"

definition rd_pass :: "nat \<Rightarrow> nat \<Rightarrow> access list" where
  "rd_pass cl i =
     flush_column i 0 @
     (if cl = 1 then [] else flush_column i 64 @
     (if cl = 2 then [] else flush_column i 128 @
     (if cl = 3 then [] else flush_column i 192)))"

text \<open>How a job ends early: the division \<^verbatim>\<open>(1ULL << 30) / i\<close> traps for \<open>i = 0\<close>, and the code exits for
  a number of lines it does not know. \<open>Unfinished\<close>: more passes than the bound allows.\<close>

datatype job_error = Divide_by_zero | Wrong_function | Unfinished

fun exec_rd_job :: "nat \<Rightarrow> Action \<Rightarrow> nat \<Rightarrow> 64 word \<Rightarrow> job_error + (64 word \<times> access list) list" where
  "exec_rd_job fuel task cl i =
     (if i \<le> upper task then
        (case fuel of
           0 \<Rightarrow> Inl Unfinished
         | Suc n \<Rightarrow>
             if i = 0 then Inl Divide_by_zero
             else if cl < 1 \<or> 4 < cl then Inl Wrong_function
             else
               let iteration = 2 ^ 30 div unat i;
                   t = concat (replicate iteration (rd_pass cl (unat i))) @ [Mfence];
                   i' = (case incre task of EXP \<Rightarrow> i * step task | LINEAR \<Rightarrow> i + step task)
               in map_sum id (Cons (i, t)) (exec_rd_job n task cl i'))
      else Inr [])"

declare exec_rd_job.simps [simp del]

text \<open>The jobs one after the other, each with one to four lines.\<close>

fun seq_runs :: "('e + 'a list) list \<Rightarrow> 'e + 'a list" where
  "seq_runs [] = Inr []"
| "seq_runs (Inl e # rs) = Inl e"
| "seq_runs (Inr xs # rs) = map_sum id (append xs) (seq_runs rs)"

definition read_buf_amp_tst :: "nat \<Rightarrow> Action list \<Rightarrow> job_error + (64 word \<times> access list) list" where
  "read_buf_amp_tst fuel jobs =
     seq_runs (concat (map (\<lambda>k. map (\<lambda>task. exec_rd_job fuel task k (bottom task)) jobs) [1..<5]))"

section \<open>\<^verbatim>\<open>seperate_rd_wr_buf.cpp\<close>\<close>

definition rd_column :: "nat \<Rightarrow> access list" where
  "rd_column off = map (\<lambda>j. Flush (0 + j + off)) (strided 0 16384 256)"

definition wr_column :: "nat \<Rightarrow> access list" where
  "wr_column off = (let wr_base = 16384 in map (\<lambda>j. Stream (wr_base + j + off)) (strided 0 8192 256))"

definition sep_pass :: "nat \<Rightarrow> access list" where
  "sep_pass work_type =
     (let rd = (work_type AND 2 \<noteq> 0); wr = (work_type AND 1 \<noteq> 0)
      in (if rd then rd_column 0 else []) @ (if wr then wr_column 0 else []) @
         (if rd then rd_column 64 else []) @ (if wr then wr_column 64 else []) @
         (if rd then rd_column 128 else []) @ (if wr then wr_column 128 else []) @
         (if rd then rd_column 192 else []))"

text \<open>\<open>None\<close>: the pool is too small and the program exits.\<close>

definition sep_func :: "nat \<Rightarrow> nat \<Rightarrow> nat \<Rightarrow> access list option" where
  "sep_func max_size iterations work_type =
     (if max_size \<le> 36 * 1024 then None else Some (concat (replicate iterations (sep_pass work_type))))"

definition seperate_rd_wr_buf :: "nat \<Rightarrow> access list option list" where
  "seperate_rd_wr_buf max_size = map (sep_func max_size (2 ^ 19)) [1, 2, 3]"

section \<open>The initialisation of the pool\<close>

lemma minus_256_dvd: "256 dvd unat (sz - 256 :: 64 word) \<longleftrightarrow> 256 dvd unat sz"
proof (cases "256 \<le> unat sz")
  case True
  then have "unat (sz - 256) = unat sz - 256" by (simp add: unat_sub word_le_nat_alt)
  with True show ?thesis by (metis dvd_diff_nat dvd_refl le_add_diff_inverse dvd_add)
next
  case False
  then have "sz < 256" by (simp add: word_less_nat_alt)
  then have "unat (sz - 256) = unat sz + (2 ^ 64 - 256)"
    by (simp add: unat_sub_if_size word_size word_le_nat_alt False)
  moreover have "(256 :: nat) dvd 2 ^ 64 - 256" by simp
  ultimately show ?thesis by (metis dvd_add_left_iff)
qed

lemma minus_256_unat: "256 dvd unat sz \<Longrightarrow> 0 < sz \<Longrightarrow> unat sz = 256 + unat (sz - 256 :: 64 word)"
proof -
  assume d: "256 dvd unat sz" and p: "0 < sz"
  from p have "0 < unat sz" by (simp add: unat_gt_0 word_gt_0)
  with d have "256 \<le> unat sz" by (simp add: dvd_imp_le)
  then show ?thesis by (simp add: unat_sub word_le_nat_alt)
qed

lemma nt_bzero_eval:
  "nt_bzero fuel a sz =
     (if 256 dvd unat sz \<and> unat sz div 256 \<le> fuel
      then Some (map (\<lambda>x. Stream (a + x * 256)) [0..<unat sz div 256]) else None)"
proof (induction fuel arbitrary: a sz)
  case 0
  show ?case
  proof (cases "0 < sz")
    case True
    then have "unat sz \<noteq> 0" by (simp add: unat_gt_0 word_gt_0)
    then have "\<not> (256 dvd unat sz \<and> unat sz div 256 \<le> 0)" by auto
    with True show ?thesis by (simp add: nt_bzero.simps)
  qed (simp add: nt_bzero.simps word_gt_0)
next
  case (Suc n)
  show ?case
  proof (cases "0 < sz \<and> 256 dvd unat sz")
    case True
    let ?q = "unat (sz - 256) div 256"
    have e: "unat sz div 256 = Suc ?q" using True minus_256_unat [of sz] by simp
    have "256 dvd unat (sz - 256)" using True minus_256_dvd by blast
    then have "nt_bzero (Suc n) a sz = (if ?q \<le> n then
        Some (Stream a # map (\<lambda>x. Stream (a + 256 + x * 256)) [0..<?q]) else None)"
      using True by (subst nt_bzero.simps) (simp add: Suc.IH)
    also have "Stream a # map (\<lambda>x. Stream (a + 256 + x * 256)) [0..<?q] =
        map (\<lambda>x. Stream (a + x * 256)) [0..<Suc ?q]"
      by (simp only: upt_conv_Cons zero_less_Suc list.map map_Suc_upt [symmetric] map_map o_def)
        (simp add: algebra_simps)
    finally show ?thesis using True e by simp
  next
    case False
    then show ?thesis
      by (cases "sz = 0") (auto simp: nt_bzero.simps [of "Suc n"] Suc.IH minus_256_dvd word_gt_0)
  qed
qed

text \<open>C35: the initialisation of the pool returns exactly for the sizes that are multiples of 256; for any
  other size the unsigned counter wraps past zero and the loop never ends, whatever the bound on
  its passes. When it returns it has written the first line of every 256-byte block, in order, and
  no other line.\<close>

theorem nt_bzero_returns:
  "(\<exists>fuel tr. nt_bzero fuel a sz = Some tr) = (256 dvd unat sz) \<and>
   (nt_bzero fuel a sz = Some tr \<longrightarrow> tr = map (\<lambda>x. Stream (a + x * 256)) [0..<unat sz div 256])"
  by (auto simp: nt_bzero_eval)

theorem nt_bzero_returns_witness:
  "nt_bzero 5 0 (768 :: 64 word) = Some [Stream 0, Stream 256, Stream 512] \<and> \<not> (\<exists>fuel tr. nt_bzero fuel 0 (100 :: 64 word) = Some tr)"
proof
  have "nt_bzero 5 0 (768 :: 64 word) = Some (map (\<lambda>x. Stream (0 + x * 256)) [0..<3])"
    by (simp add: nt_bzero_eval)
  then show "nt_bzero 5 0 (768 :: 64 word) = Some [Stream 0, Stream 256, Stream 512]"
    using nt_bzero_returns [of 0 768 5] by (simp add: upt_rec)
  show "\<not> (\<exists>fuel tr. nt_bzero fuel 0 (100 :: 64 word) = Some tr)"
    using nt_bzero_returns [of 0 100] by simp
qed

section \<open>Counting the accesses of a run\<close>

lemma count_list_concat: "count_list (concat xss) a = (\<Sum>xs\<leftarrow>xss. count_list xs a)"
  by (induction xss) auto

lemma count_list_replicate_concat: "count_list (concat (replicate n xs)) a = n * count_list xs a"
  by (induction n) auto

lemma sum_list_single:
  "x < m \<Longrightarrow> (\<And>z. z < m \<Longrightarrow> z \<noteq> x \<Longrightarrow> f z = 0) \<Longrightarrow> (\<Sum>z\<leftarrow>[0..<m]. f z) = (f x :: nat)"
proof -
  assume x: "x < m" and f: "\<And>z. z < m \<Longrightarrow> z \<noteq> x \<Longrightarrow> f z = 0"
  have "(\<Sum>z\<leftarrow>[0..<m]. f z) = (\<Sum>z\<in>{0..<m}. f z)"
    by (simp add: sum_list_distinct_conv_sum_set)
  also have "\<dots> = (\<Sum>z\<in>{x}. f z)" using x f by (intro sum.mono_neutral_right) auto
  finally show ?thesis by simp
qed

text \<open>In a pass that does one block after the other, an access that only one block makes is made as
  often as that block makes it.\<close>

lemma count_blocks:
  assumes "x < m" and "\<And>z. z < m \<Longrightarrow> z \<noteq> x \<Longrightarrow> a \<notin> set (f z)"
  shows "count_list (concat (map f [0..<m])) a = count_list (f x) a"
proof -
  have "count_list (concat (map f [0..<m])) a = (\<Sum>z\<leftarrow>[0..<m]. count_list (f z) a)"
    by (simp add: count_list_concat o_def)
  also have "\<dots> = count_list (f x) a" using assms by (intro sum_list_single) (auto simp: count_list_0_iff)
  finally show ?thesis .
qed

section \<open>The write-buffer benchmarks\<close>

text \<open>The four writers, by the number of lines they write.\<close>

definition writers :: "(nat \<Rightarrow> nat \<Rightarrow> access list) list" where
  "writers = [write_1_cacheline, write_2_cacheline, write_3_cacheline, write_4_cacheline]"

lemma writers_eq:
  "k < 4 \<Longrightarrow> (writers ! k) w i =
     map (\<lambda>y. Store (w + i + 64 * y) 1) [0..<Suc k] @ map (\<lambda>y. Flush (w + i + 64 * y)) [0..<Suc k]"
proof -
  assume "k < 4"
  then have "k = 0 \<or> k = 1 \<or> k = 2 \<or> k = 3" by arith
  moreover have "[0..<Suc 0] = [0]" "[0..<Suc 1] = [0, 1]" "[0..<Suc 2] = [0, 1, 2]" "[0..<Suc 3] = [0, 1, 2, 3]"
    by code_simp+
  ultimately show ?thesis
    by (elim disjE) (simp_all only: writers_def write_1_cacheline_def write_2_cacheline_def
        write_3_cacheline_def write_4_cacheline_def list.map append.simps nth_Cons_0 nth_Cons_numeral One_nat_def
        nth_Cons_Suc mult_0_right mult_Suc_right add_0_right numeral_2_eq_2 numeral_3_eq_3, simp_all)
qed

lemma count_list_distinct: "distinct xs \<Longrightarrow> count_list xs a = of_bool (a \<in> set xs)"
  by (induction xs) auto

lemma block_line_eq: "y < 4 \<Longrightarrow> y' < 4 \<Longrightarrow> (x * 256 + 64 * y = x' * 256 + 64 * (y' :: nat)) = (x = x' \<and> y = y')"
proof (intro iffI)
  assume y: "y < 4" "y' < 4" and "x * 256 + 64 * y = x' * 256 + 64 * y'"
  then have e: "y + 4 * x = y' + 4 * x'" by linarith
  have "x = (y + 4 * x) div 4" "x' = (y' + 4 * x') div 4" using y by simp_all
  with e show "x = x' \<and> y = y'" by simp
qed simp

lemma writer_count:
  assumes "k < 4" and "y < 4" and "a = Store (x * 256 + 64 * y) 1 \<or> a = Flush (x * 256 + 64 * y)"
  shows "count_list ((writers ! k) 0 (x' * 256)) a = of_bool (x = x' \<and> y \<le> k)"
proof -
  have "distinct ((writers ! k) 0 (x' * 256))"
    using assms(1) by (auto simp: writers_eq distinct_map inj_on_def)
  moreover have "a \<in> set ((writers ! k) 0 (x' * 256)) \<longleftrightarrow> x = x' \<and> y \<le> k"
  proof -
    have "a \<in> set ((writers ! k) 0 (x' * 256)) \<longleftrightarrow> (\<exists>y' < Suc k. x * 256 + 64 * y = x' * 256 + 64 * y')"
      using assms(1,3) by (auto simp: writers_eq image_iff)
    also have "\<dots> \<longleftrightarrow> (\<exists>y' < Suc k. x = x' \<and> y = y')"
    proof (intro ex_cong1 conj_cong refl)
      fix y'
      assume "y' < Suc k"
      with assms(1) have "y' < 4" by simp
      then show "(x * 256 + 64 * y = x' * 256 + 64 * y') = (x = x' \<and> y = y')"
        by (rule block_line_eq [OF assms(2)])
    qed
    finally show ?thesis by (auto simp: less_Suc_eq_le)
  qed
  ultimately show ?thesis by (simp add: count_list_distinct)
qed

lemma wb_func_blocks:
  "256 dvd wss \<Longrightarrow> wb_func w wss n = concat (replicate n (concat (map (\<lambda>x. w 0 (x * 256)) [0..<wss div 256])))"
  by (simp add: wb_func_def strided_blocks o_def)

lemma wb_line_count:
  assumes "256 dvd wss" and "k < 4" and "y < 4" and "x < wss div 256"
    and "a = Store (x * 256 + 64 * y) 1 \<or> a = Flush (x * 256 + 64 * y)"
  shows "count_list (wb_func (writers ! k) wss n) a = (if y \<le> k then n else 0)"
proof -
  let ?f = "\<lambda>x'. (writers ! k) 0 (x' * 256)"
  have "count_list (concat (map ?f [0..<wss div 256])) a = count_list (?f x) a"
  proof (intro count_blocks assms(4))
    fix z
    assume "z < wss div 256" "z \<noteq> x"
    then have "count_list (?f z) a = 0" using writer_count [OF assms(2,3,5), of z] by simp
    then show "a \<notin> set (?f z)" by (simp add: count_list_0_iff)
  qed
  then show ?thesis
    using writer_count [OF assms(2,3,5), of x] by (simp add: wb_func_blocks assms(1) count_list_replicate_concat)
qed

text \<open>C36: a run of the write-buffer test with the writer for \<open>k + 1\<close> lines stores into and flushes
  exactly the first \<open>k + 1\<close> of the four lines of every 256-byte block, each once per iteration, and
  touches nothing else.\<close>

theorem wb_exact:
  assumes "256 dvd wss" and "k < 4"
  shows "(\<forall>x < wss div 256. \<forall>y < 4.
            count_list (wb_func (writers ! k) wss n) (Store (x * 256 + 64 * y) 1) = (if y \<le> k then n else 0) \<and>
            count_list (wb_func (writers ! k) wss n) (Flush (x * 256 + 64 * y)) = (if y \<le> k then n else 0)) \<and>
         set (wb_func (writers ! k) wss n) \<subseteq>
           {a. \<exists>x < wss div 256. \<exists>y \<le> k. a = Store (x * 256 + 64 * y) 1 \<or> a = Flush (x * 256 + 64 * y)}"
proof (intro conjI allI impI)
  fix x y :: nat
  assume "x < wss div 256" "y < 4"
  then show "count_list (wb_func (writers ! k) wss n) (Store (x * 256 + 64 * y) 1) = (if y \<le> k then n else 0)"
    and "count_list (wb_func (writers ! k) wss n) (Flush (x * 256 + 64 * y)) = (if y \<le> k then n else 0)"
    using wb_line_count assms by blast+
next
  show "set (wb_func (writers ! k) wss n) \<subseteq>
      {a. \<exists>x < wss div 256. \<exists>y \<le> k. a = Store (x * 256 + 64 * y) 1 \<or> a = Flush (x * 256 + 64 * y)}"
  proof
    fix a
    assume "a \<in> set (wb_func (writers ! k) wss n)"
    then obtain x where x: "x < wss div 256" and a: "a \<in> set ((writers ! k) 0 (x * 256))"
      by (auto simp: wb_func_blocks assms(1) set_replicate_conv_if split: if_splits)
    from a obtain y where "y \<le> k" "a = Store (x * 256 + 64 * y) 1 \<or> a = Flush (x * 256 + 64 * y)"
      by (auto simp: writers_eq assms(2))
    with x show "a \<in> {a. \<exists>x < wss div 256. \<exists>y \<le> k. a = Store (x * 256 + 64 * y) 1 \<or> a = Flush (x * 256 + 64 * y)}"
      by blast
  qed
qed

theorem wb_exact_witness: "count_list (wb_func write_3_cacheline 512 7) (Flush 384) = 7 \<and>
    count_list (wb_func write_3_cacheline 512 7) (Flush 448) = 0"
proof -
  have e: "writers ! 2 = write_3_cacheline" by (simp add: writers_def)
  have r: "\<forall>x < 2. \<forall>y < 4. count_list (wb_func write_3_cacheline 512 7) (Flush (x * 256 + 64 * y)) = (if y \<le> 2 then 7 else 0)"
    using wb_exact [of 512 2 7] by (simp add: e)
  show ?thesis using r [rule_format, of 1 2] r [rule_format, of 1 3] by simp
qed

text \<open>The delay loop of the flushing-period test runs after exactly every block: the pass is a sequence
  of blocks of four lines, each followed by the delay.\<close>

lemma and_3_mod: "(i AND 3 = 3) = (i mod 4 = (3 :: nat))"
  using take_bit_eq_mod [of 2 i] by (simp add: take_bit_eq_mask mask_eq_exp_minus_1)

lemma upt_blocks4: "[0..<4 * m] = concat (map (\<lambda>x. [4 * x, 4 * x + 1, 4 * x + 2, 4 * x + (3 :: nat)]) [0..<m])"
proof (induction m)
  case (Suc m)
  have "[0..<4 * Suc m] = [0..<4 * m] @ [4 * m..<4 * m + 4]"
    by (metis add.commute mult_Suc_right upt_add_eq_append zero_le)
  also have "[4 * m..<4 * m + 4] = [4 * m, 4 * m + 1, 4 * m + 2, 4 * m + 3]"
    by (simp add: upt_rec)
  finally show ?case using Suc.IH by simp
qed simp

lemma fp_pass_blocks:
  "fp_pass (4 * m) c =
     concat (map (\<lambda>x. [Stream (256 * x), Stream (256 * x + 64), Stream (256 * x + 128), Stream (256 * x + 192), Delay c]) [0..<m])"
proof -
  let ?g = "\<lambda>i. Stream (64 * i) # (if i AND 3 = 3 then [Delay c] else [])"
  have "concat (map ?g [4 * x, 4 * x + 1, 4 * x + 2, 4 * x + 3]) =
      [Stream (256 * x), Stream (256 * x + 64), Stream (256 * x + 128), Stream (256 * x + 192), Delay c]" for x
    by (simp add: and_3_mod) presburger
  then have "concat (map (\<lambda>x. concat (map ?g [4 * x, 4 * x + 1, 4 * x + 2, 4 * x + 3])) [0..<m]) =
      concat (map (\<lambda>x. [Stream (256 * x), Stream (256 * x + 64), Stream (256 * x + 128), Stream (256 * x + 192), Delay c]) [0..<m])"
    by presburger
  moreover have cc: "concat (map ?g (concat xss)) = concat (map (\<lambda>xs. concat (map ?g xs)) xss)" for xss
    by (induction xss) auto
  moreover have "fp_pass (4 * m) c = concat (map (\<lambda>x. concat (map ?g [4 * x, 4 * x + 1, 4 * x + 2, 4 * x + 3])) [0..<m])"
    by (simp only: fp_pass_def upt_blocks4 cc map_map o_def)
  ultimately show ?thesis by simp
qed

text \<open>The counter of the delay loops is a 32-bit \<^verbatim>\<open>int\<close>; the longest delay of the smallest working set
  drives it past its range.\<close>

lemma fp_delays:
  "length (filter (\<lambda>a. a = Delay c) (fp_func (256 * m) n c)) = n * m"
proof -
  have "length (filter (\<lambda>a. a = Delay c) (fp_pass (4 * m) c)) = m"
    by (simp add: fp_pass_blocks filter_concat length_concat o_def)
  then have l: "length (filter (\<lambda>a. a = Delay c) (fp_pass (4 * m) c @ [Mfence])) = m" by simp
  have "drop_bit 6 (256 * m) = 4 * m" by (simp add: drop_bit_eq_div)
  then show ?thesis
    by (simp only: fp_func_def Let_def filter_concat length_concat map_replicate l sum_list_replicate map_map o_def)
      (simp add: sum_list_replicate)
qed

lemma delayer_overflows: "2 ^ 31 < delayer_total 4096 (2 ^ 29 div 4096) 190"
proof -
  have "delay_sum 190 = 17955" by (simp add: delay_sum_def interv_sum_list_conv_sum_set_nat Sum_Ico_nat)
  then show ?thesis using fp_delays [of 190 16 131072] by (simp add: delayer_total_def)
qed

section \<open>The read-amplification jobs\<close>

lemma ALIGN_DOWN_unat: "unat (ALIGN_DOWN i) = 256 * (unat i div 256)"
proof -
  have m: "(255 :: 64 word) = mask 8" by (simp add: mask_eq_exp_minus_1)
  have "ALIGN_DOWN i = push_bit 8 (drop_bit 8 i)"
    unfolding ALIGN_DOWN_def m
  proof (rule bit_word_eqI)
    fix n
    assume "n < LENGTH(64)"
    then show "bit (i AND NOT (mask 8)) n = bit (push_bit 8 (drop_bit 8 i)) n"
      by (auto simp: bit_simps)
  qed
  moreover have "unat (drop_bit 8 i) * 256 < 2 ^ 64"
    using unat_lt_2p64 [of i] div_times_less_eq_dividend [of "unat i" 256]
    by (simp only: unat_drop_bit_eq) (simp only: drop_bit_eq_div, simp)
  moreover have "unat (drop_bit 8 i) = unat i div 256"
    by (simp only: unat_drop_bit_eq) (simp only: drop_bit_eq_div, simp)
  ultimately show ?thesis
    by (simp add: push_bit_eq_mult unat_mult_lem [THEN iffD1] unat_word_ariths mult.commute)
qed

lemma ALIGN_UP_unat: "unat i + 255 < 2 ^ 64 \<Longrightarrow> unat (ALIGN_UP i) = 256 * ((unat i + 255) div 256)"
proof -
  assume "unat i + 255 < 2 ^ 64"
  then have "unat (i + 255) = unat i + 255" by (simp add: unat_word_ariths)
  moreover have "ALIGN_UP i = ALIGN_DOWN (i + 255)" by (simp add: ALIGN_UP_def ALIGN_DOWN_def)
  ultimately show ?thesis by (simp only: ALIGN_DOWN_unat)
qed

text \<open>What one step of a job measures.\<close>

definition job_trace :: "nat \<Rightarrow> nat \<Rightarrow> access list" where
  "job_trace cl i = concat (replicate (2 ^ 30 div i) (rd_pass cl i)) @ [Mfence]"

lemma exec_rd_job_linear:
  assumes "incre task = LINEAR" and "0 < step task" and "1 \<le> cl" and "cl \<le> 4" and "0 < i"
    and "unat (upper task) + unat (step task) < 2 ^ 64"
    and "length (strided (unat i) (unat (upper task) + 1) (unat (step task))) \<le> fuel"
  shows "exec_rd_job fuel task cl i =
    Inr (map (\<lambda>x. (of_nat x, job_trace cl x)) (strided (unat i) (unat (upper task) + 1) (unat (step task))))"
  using assms(5,7)
proof (induction fuel arbitrary: i)
  case 0
  then have "\<not> i \<le> upper task"
    using assms(2) by (auto simp: strided.simps [of "unat i"] word_le_nat_alt unat_gt_0 word_gt_0 split: if_splits)
  then show ?case by (simp add: exec_rd_job.simps strided_stop word_le_nat_alt)
next
  case (Suc n)
  show ?case
  proof (cases "i \<le> upper task")
    case True
    have s: "0 < unat (step task)" using assms(2) by (simp add: unat_gt_0 word_gt_0)
    have u: "unat (i + step task) = unat i + unat (step task)"
      using True assms(6) by (simp add: unat_word_ariths word_le_nat_alt)
    then have p: "0 < i + step task" using s by (simp add: word_less_nat_alt)
    have st: "strided (unat i) (unat (upper task) + 1) (unat (step task)) =
        unat i # strided (unat (i + step task)) (unat (upper task) + 1) (unat (step task))"
      using True s by (subst strided.simps) (simp add: u word_le_nat_alt)
    have "exec_rd_job n task cl (i + step task) =
        Inr (map (\<lambda>x. (of_nat x, job_trace cl x)) (strided (unat (i + step task)) (unat (upper task) + 1) (unat (step task))))"
      using Suc.prems(2) by (intro Suc.IH p) (simp only: st list.size add_Suc_right add_0_right Suc_le_mono)
    moreover have "exec_rd_job (Suc n) task cl i = map_sum id (Cons (i, job_trace cl (unat i))) (exec_rd_job n task cl (i + step task))"
      using True Suc.prems(1) assms(1,3,4) by (subst exec_rd_job.simps) (simp add: Let_def job_trace_def word_gt_0)
    ultimately show ?thesis by (simp add: st [unfolded Suc_eq_plus1 [symmetric]])
  next
    case False
    then show ?thesis by (simp add: exec_rd_job.simps strided_stop word_le_nat_alt)
  qed
qed

text \<open>A job whose start is below 256 is aligned down to 0 and divides by it.\<close>

lemma rd_job_zero: "0 < fuel \<Longrightarrow> exec_rd_job fuel task cl 0 = Inl Divide_by_zero"
  by (cases fuel) (simp_all add: exec_rd_job.simps)

lemma rd_job_stuck:
  assumes "(case incre task of EXP \<Rightarrow> i * step task | LINEAR \<Rightarrow> i + step task) = i"
    and "i \<le> upper task" and "0 < i" and "1 \<le> cl" and "cl \<le> 4"
  shows "exec_rd_job fuel task cl i = Inl Unfinished"
proof (induction fuel)
  case 0
  then show ?case using assms(2) by (simp add: exec_rd_job.simps)
next
  case (Suc n)
  then show ?case using assms by (subst exec_rd_job.simps) (simp add: Let_def word_gt_0)
qed

lemma ALIGN_DOWN_pos: "256 \<le> unat i \<Longrightarrow> 0 < ALIGN_DOWN i"
  by (simp add: word_less_nat_alt ALIGN_DOWN_unat div_greater_zero_iff)

lemma rd_job_returns:
  assumes "1 \<le> cl" and "cl \<le> 4" and "256 \<le> unat start" and "0 < stride"
    and "unat (ALIGN_UP fin) + unat stride < 2 ^ 64"
  shows "\<exists>fuel. exec_rd_job fuel (make_action g start fin stride ''linear'') cl (ALIGN_DOWN start) =
        Inr (map (\<lambda>x. (of_nat x, job_trace cl x))
          (strided (256 * (unat start div 256)) (unat (ALIGN_UP fin) + 1) (unat stride)))"
  using exec_rd_job_linear [of "make_action g start fin stride ''linear''" cl "ALIGN_DOWN start",
      OF _ _ assms(1,2) _ _ order_refl] assms ALIGN_DOWN_pos [of start]
  by (auto simp: make_action_def ALIGN_DOWN_unat)

lemma rd_job_traps:
  assumes "unat start < 256" and "0 < fuel"
  shows "exec_rd_job fuel (make_action g start fin stride ty) cl (ALIGN_DOWN start) = Inl Divide_by_zero"
proof -
  have "unat (ALIGN_DOWN start) = 0" using assms(1) by (simp add: ALIGN_DOWN_unat)
  then have "ALIGN_DOWN start = 0" by (simp add: unat_eq_0)
  then show ?thesis using rd_job_zero [OF assms(2)] by simp
qed

lemma rd_job_never_ends:
  assumes "1 \<le> cl" and "cl \<le> 4" and "256 \<le> unat start" and "start \<le> ALIGN_UP fin"
    and "(ty, stride) = (''linear'', 0) \<or> (ty, stride) = (''exp'', 1)"
  shows "exec_rd_job fuel (make_action g start fin stride ty) cl (ALIGN_DOWN start) = Inl Unfinished"
proof -
  have "ALIGN_DOWN start \<le> start" by (simp add: word_le_nat_alt ALIGN_DOWN_unat)
  then have "ALIGN_DOWN start \<le> ALIGN_UP fin" using assms(4) by simp
  then show ?thesis
    using assms(5) ALIGN_DOWN_pos [OF assms(3)] by (intro rd_job_stuck assms(1,2)) (auto simp: make_action_def)
qed

text \<open>Which jobs of the configuration file return: a linear job with a positive stride reports every
  working set size from the aligned start to the aligned end, in steps of the stride. A job that
  starts below 256 traps in the division by its aligned start 0; a linear job with stride 0 and an
  exponential one with stride 1 measure the same size for ever.\<close>

theorem rd_jobs:
  assumes "1 \<le> cl" and "cl \<le> 4"
  shows "(256 \<le> unat start \<and> 0 < stride \<and> unat (ALIGN_UP fin) + unat stride < 2 ^ 64 \<longrightarrow>
      (\<exists>fuel. exec_rd_job fuel (make_action g start fin stride ''linear'') cl (ALIGN_DOWN start) =
        Inr (map (\<lambda>x. (of_nat x, job_trace cl x))
          (strided (256 * (unat start div 256)) (unat (ALIGN_UP fin) + 1) (unat stride))))) \<and>
    (unat start < 256 \<and> 0 < n \<longrightarrow>
      exec_rd_job n (make_action g start fin stride ty) cl (ALIGN_DOWN start) = Inl Divide_by_zero) \<and>
    (256 \<le> unat start \<and> start \<le> ALIGN_UP fin \<and> ((ty, stride) = (''linear'', 0) \<or> (ty, stride) = (''exp'', 1)) \<longrightarrow>
      exec_rd_job n (make_action g start fin stride ty) cl (ALIGN_DOWN start) = Inl Unfinished)"
  using assms by (blast intro: rd_job_returns rd_job_traps rd_job_never_ends)

theorem rd_jobs_witness:
  "(\<exists>fuel. exec_rd_job fuel (make_action EXP 4100 4500 256 ''linear'') 2 4096 =
      Inr [(4096, job_trace 2 4096), (4352, job_trace 2 4352), (4608, job_trace 2 4608)]) \<and>
   exec_rd_job 9 (make_action EXP 100 4500 256 ''linear'') 2 0 = Inl Divide_by_zero \<and>
   exec_rd_job 9 (make_action EXP 4100 4500 0 ''linear'') 2 4096 = Inl Unfinished"
proof (intro conjI)
  have d: "ALIGN_DOWN 4100 = 4096" "ALIGN_UP 4500 = 4608" "ALIGN_DOWN 100 = 0"
    by (simp_all add: ALIGN_DOWN_def ALIGN_UP_def)
  have "strided 4096 4609 256 = [4096, 4352, 4608]"
    by (simp add: strided.simps [of 4096] strided.simps [of 4352] strided.simps [of 4608] strided.simps [of 4864])
  then show "\<exists>fuel. exec_rd_job fuel (make_action EXP 4100 4500 256 ''linear'') 2 4096 =
      Inr [(4096, job_trace 2 4096), (4352, job_trace 2 4352), (4608, job_trace 2 4608)]"
    using rd_jobs [of 2 4100 256 4500 EXP] by (simp add: d)
  show "exec_rd_job 9 (make_action EXP 100 4500 256 ''linear'') 2 0 = Inl Divide_by_zero"
    using rd_jobs [of 2 100 256 4500 EXP 9 "''linear''"] by (simp add: d)
  show "exec_rd_job 9 (make_action EXP 4100 4500 0 ''linear'') 2 4096 = Inl Unfinished"
    using rd_jobs [of 2 4100 0 4500 EXP 9 "''linear''"] by (simp add: d)
qed

section \<open>Reads and writes in separate buffers\<close>

text \<open>The lines that are flushed lie in the first 16 KB, those that are streamed in the 8 KB behind, all
  inside the pool; the fourth line of a block is never written.\<close>

lemma rd_column_range: "a \<in> set (rd_column off) \<Longrightarrow> off \<le> 192 \<Longrightarrow> \<exists>b. a = Flush b \<and> b < 16384"
proof -
  assume a: "a \<in> set (rd_column off)" and o: "off \<le> 192"
  have "strided 0 16384 256 = map (\<lambda>x. x * 256) [0..<64]" using strided_blocks [of 256 16384] by simp
  with a obtain x where "x < 64" "a = Flush (x * 256 + off)" by (auto simp: rd_column_def)
  with o show ?thesis by auto
qed

lemma wr_column_range:
  "a \<in> set (wr_column off) \<Longrightarrow> off \<le> 128 \<Longrightarrow> \<exists>x < 32. a = Stream (16384 + x * 256 + off)"
proof -
  assume a: "a \<in> set (wr_column off)"
  have "strided 0 8192 256 = map (\<lambda>x. x * 256) [0..<32]" using strided_blocks [of 256 8192] by simp
  with a show ?thesis by (auto simp: wr_column_def)
qed

lemma sep_accesses:
  assumes "sep_func max_size n work_type = Some tr" and "a \<in> set tr"
  shows "(\<exists>b < 16384. a = Flush b \<and> b < max_size) \<or>
    (\<exists>x < 32. \<exists>y < 3. a = Stream (16384 + x * 256 + 64 * y) \<and> 16384 + x * 256 + 64 * y + 64 \<le> max_size)"
proof -
  have m: "36 * 1024 < max_size" and "a \<in> set (sep_pass work_type)"
    using assms by (auto simp: sep_func_def split: if_splits)
  moreover have "set (sep_pass work_type) \<subseteq> (\<Union>off \<in> {0, 64, 128, 192}. set (rd_column off)) \<union>
      (\<Union>y \<in> {0, 1, 2}. set (wr_column (64 * y)))"
    by (simp add: sep_pass_def Let_def) blast
  ultimately have "(\<exists>off \<in> {0, 64, 128, 192}. a \<in> set (rd_column off)) \<or> (\<exists>y \<in> {0, 1, 2}. a \<in> set (wr_column (64 * y)))"
    by blast
  then consider off where "off \<in> {0, 64, 128, 192}" "a \<in> set (rd_column off)"
    | y where "y \<in> {0, 1, 2}" "a \<in> set (wr_column (64 * y))"
    by blast
  then show ?thesis
  proof cases
    case 1
    then have "off \<le> 192" by auto
    then show ?thesis using 1(2) rd_column_range [of a off] m by auto
  next
    case 2
    then have "64 * y \<le> 128" and y: "y < 3" by auto
    from wr_column_range [OF 2(2) this(1)] obtain x where "x < 32" "a = Stream (16384 + x * 256 + 64 * y)" by auto
    moreover have "16384 + x * 256 + 64 * y + 64 \<le> max_size" using m \<open>x < 32\<close> y by simp
    ultimately show ?thesis using y by blast
  qed
qed

end
