(* ===== verification/Micro_Read.thy ===== *)
theory Micro_Read
  imports Micro_Access
begin

text \<open>
  Two micro benchmarks that read (\<^verbatim>\<open>src/micro_benchmarks/cases\<close>): \<^verbatim>\<open>trigger_prefetching\<close> of
  \<^verbatim>\<open>prefetching.cpp\<close> with the unrolled body of \<^verbatim>\<open>op_flush.h\<close>, which reads every block of a shuffled
  working set, and \<^verbatim>\<open>read_after_flush\<close> of \<^verbatim>\<open>read_after_flush.cpp\<close>, which reads a line some steps after
  it was made persistent.
\<close>

section \<open>\<^verbatim>\<open>trigger_prefetching\<close>\<close>

text \<open>The file that is included as the body of the loop: \<open>DOIT n\<close> reads the 16 integers from number \<open>n\<close> on
  and flushes their line, \<open>COMP_GRANU i\<close> leaves the body when the granularity is \<open>i\<close>.\<close>

datatype op_item = DOIT nat | COMP_GRANU nat

definition op_flush :: "op_item list" where
  "op_flush = [DOIT 0, DOIT 16, DOIT 32, DOIT 48, COMP_GRANU 1, DOIT 64, DOIT 80, DOIT 96, DOIT 112, COMP_GRANU 2,
     DOIT 128, DOIT 144, DOIT 160, DOIT 176, COMP_GRANU 3, DOIT 192, DOIT 208, DOIT 224, DOIT 240, COMP_GRANU 4,
     DOIT 256, DOIT 272, DOIT 288, DOIT 304, COMP_GRANU 5, DOIT 320, DOIT 336, DOIT 352, DOIT 368, COMP_GRANU 6,
     DOIT 384, DOIT 400, DOIT 416, DOIT 432, COMP_GRANU 7, DOIT 448, DOIT 464, DOIT 480, DOIT 496, COMP_GRANU 8,
     DOIT 512, DOIT 528, DOIT 544, DOIT 560, COMP_GRANU 9, DOIT 576, DOIT 592, DOIT 608, DOIT 624, COMP_GRANU 10,
     DOIT 640, DOIT 656, DOIT 672, DOIT 688, COMP_GRANU 11, DOIT 704, DOIT 720, DOIT 736, DOIT 752, COMP_GRANU 12,
     DOIT 768, DOIT 784, DOIT 800, DOIT 816, COMP_GRANU 13, DOIT 832, DOIT 848, DOIT 864, DOIT 880, COMP_GRANU 14,
     DOIT 896, DOIT 912, DOIT 928, DOIT 944, COMP_GRANU 15, DOIT 960, DOIT 976, DOIT 992, DOIT 1008, COMP_GRANU 16]"

definition doit :: "nat \<Rightarrow> nat \<Rightarrow> access list" where
  "doit base_addr n = map (\<lambda>t. Load (base_addr + 4 * (n + t)) 4) [0..<16] @ [Flush (base_addr + 4 * n)]"

fun run_ops :: "nat \<Rightarrow> nat \<Rightarrow> op_item list \<Rightarrow> access list" where
  "run_ops granularity base_addr [] = []"
| "run_ops granularity base_addr (DOIT n # ops) = doit base_addr n @ run_ops granularity base_addr ops"
| "run_ops granularity base_addr (COMP_GRANU i # ops) =
     (if granularity = i then [] else run_ops granularity base_addr ops)"

text \<open>One round over the sequence of block numbers. The offset of a block is computed in 32 bits.\<close>

definition tp_base :: "nat \<Rightarrow> 32 word \<Rightarrow> nat" where
  "tp_base granularity i = unat (push_bit 8 i * of_nat granularity)"

definition tp_round :: "nat \<Rightarrow> 32 word list \<Rightarrow> access list" where
  "tp_round granularity sequence = concat (map (\<lambda>i. run_ops granularity (tp_base granularity i) op_flush) sequence)"

text \<open>The iterations; \<open>shuffle j\<close> is what the \<open>j\<close>-th call of \<^verbatim>\<open>std::random_shuffle\<close> does.\<close>

fun tp_iterations :: "(nat \<Rightarrow> 32 word list \<Rightarrow> 32 word list) \<Rightarrow> nat \<Rightarrow> nat \<Rightarrow> nat \<Rightarrow> 32 word list \<Rightarrow> access list" where
  "tp_iterations shuffle granularity j 0 sequence = []"
| "tp_iterations shuffle granularity j (Suc n) sequence =
     (let sequence = shuffle j sequence
      in tp_round granularity sequence @ tp_iterations shuffle granularity (j + 1) n sequence)"

definition tp_func :: "(nat \<Rightarrow> 32 word list \<Rightarrow> 32 word list) \<Rightarrow> nat \<Rightarrow> nat \<Rightarrow> nat \<Rightarrow> nat \<Rightarrow> access list" where
  "tp_func shuffle max_size wss iterations granularity =
     (if wss > max_size then []
      else tp_iterations shuffle granularity 0 iterations (map of_nat [0..<drop_bit 8 wss div granularity]))"

definition trigger_prefetching :: "(nat \<Rightarrow> 32 word list \<Rightarrow> 32 word list) \<Rightarrow> nat \<Rightarrow> access list" where
  "trigger_prefetching shuffle max_size =
     concat (map (\<lambda>bits. tp_func shuffle max_size (2 ^ bits) (2 ^ (33 - bits)) 1) [12..<31])"

section \<open>\<^verbatim>\<open>read_after_flush\<close>\<close>

datatype wr_op = Wr_clwb_sfence | Wr_clwb_mfence | Wr_nt_sfence | Wr_nt_mfence

fun do_wr :: "wr_op \<Rightarrow> nat \<Rightarrow> access list" where
  "do_wr Wr_clwb_sfence addr = [Load addr 4, Store addr 4, Clwb addr, Sfence]"
| "do_wr Wr_clwb_mfence addr = [Load addr 4, Store addr 4, Clwb addr, Mfence]"
| "do_wr Wr_nt_sfence addr = [Stream addr, Sfence]"
| "do_wr Wr_nt_mfence addr = [Stream addr, Mfence]"

text \<open>The index \<^verbatim>\<open>(j + working_set_size - (cl_distance << 6)) % working_set_size\<close> in \<^verbatim>\<open>uint64_t\<close>.\<close>

definition raf_index :: "nat \<Rightarrow> nat \<Rightarrow> nat \<Rightarrow> nat" where
  "raf_index j wss cl_distance =
     unat ((of_nat j + of_nat wss - push_bit 6 (of_nat cl_distance) :: 64 word) mod of_nat wss)"

definition raf_func :: "wr_op \<Rightarrow> nat \<Rightarrow> nat \<Rightarrow> nat \<Rightarrow> access list" where
  "raf_func wr wss iterations cl_distance =
     concat (replicate iterations
       (concat (map (\<lambda>j. do_wr wr j @ [Load (raf_index j wss cl_distance) 1]) (strided 0 wss 64))))"

text \<open>The runs: memory, node, kind of write and distance. Each has a working set of 8 KB and 50000
  iterations.\<close>

definition raf_runs :: "(bool \<times> nat \<times> wr_op \<times> nat) list" where
  "raf_runs = concat (map (\<lambda>on_dram. concat (map (\<lambda>j. concat (map (\<lambda>wr. map (\<lambda>i. (on_dram, j, wr, i)) [0..<70])
     [Wr_nt_mfence, Wr_clwb_mfence, Wr_nt_sfence, Wr_clwb_sfence])) [0..<2])) [False, True])"

definition read_after_flush :: "access list" where
  "read_after_flush = concat (map (\<lambda>(on_dram, j, wr, i). raf_func wr 8192 50000 i) raf_runs)"

section \<open>What the included body does\<close>

definition op_block :: "nat \<Rightarrow> op_item list" where
  "op_block b = [DOIT (64 * b), DOIT (64 * b + 16), DOIT (64 * b + 32), DOIT (64 * b + 48), COMP_GRANU (b + 1)]"

lemma op_flush_blocks: "op_flush = concat (map op_block [0..<16])"
  by code_simp

lemma run_ops_blocks:
  "a < g \<Longrightarrow> g \<le> b \<Longrightarrow> run_ops g base (concat (map op_block [a..<b])) = concat (map (\<lambda>n. doit base (16 * n)) [4 * a..<4 * g])"
proof (induction "g - a" arbitrary: a)
  case (Suc k)
  have u: "[a..<b] = a # [Suc a..<b]" using Suc.prems by (simp add: upt_conv_Cons)
  have v: "[4 * a..<4 * g] = [4 * a, 4 * a + 1, 4 * a + 2, 4 * a + 3] @ [4 * Suc a..<4 * g]"
  proof -
    have e: "4 + 4 * a = Suc (Suc (Suc (Suc (4 * a))))" by simp
    show ?thesis using Suc.prems(1) by (simp add: upt_conv_Cons e)
  qed
  have d: "16 * (4 * a) = 64 * a" "16 * (4 * a + 1) = 64 * a + 16" "16 * (4 * a + 2) = 64 * a + 32"
    "16 * (4 * a + 3) = 64 * a + 48" by simp_all
  show ?case
  proof (cases "g = Suc a")
    case True
    have "[4 * Suc a..<4 * g] = []" using True by simp
    then show ?thesis unfolding u v by (simp only: list.map concat.simps op_block_def append.simps run_ops.simps d)
        (simp add: True)
  next
    case False
    then have "run_ops g base (concat (map op_block [Suc a..<b])) =
        concat (map (\<lambda>n. doit base (16 * n)) [4 * Suc a..<4 * g])"
      using Suc by (intro Suc.hyps) auto
    with False show ?thesis unfolding u v
      by (simp only: list.map concat.simps op_block_def append.simps run_ops.simps d) simp
  qed
qed simp

lemma run_op_flush:
  "1 \<le> g \<Longrightarrow> g \<le> 16 \<Longrightarrow> run_ops g base op_flush = concat (map (\<lambda>n. doit base (16 * n)) [0..<4 * g])"
  using run_ops_blocks [of 0 g 16 base] by (simp add: op_flush_blocks)

section \<open>Every line once per iteration\<close>

lemma map_upt_shift: "map f [n..<n + k] = map (\<lambda>t. f (n + t)) [0..<k]"
proof -
  have "[n..<n + k] = map (\<lambda>t. t + n) [0..<k]" using map_add_upt [of n k] by (simp add: add.commute)
  then show ?thesis by (simp add: add.commute)
qed

lemma upt_blocks: "[0..<m * k] = concat (map (\<lambda>i. map (\<lambda>n. i * k + n) [0..<k]) [0..<(m :: nat)])"
proof (induction m)
  case (Suc m)
  have "[0..<Suc m * k] = [0..<m * k] @ [m * k..<m * k + k]"
    by (metis add.commute mult_Suc upt_add_eq_append zero_le)
  also have "[m * k..<m * k + k] = map (\<lambda>n. m * k + n) [0..<k]"
    using map_add_upt [of "m * k" k] by (simp add: add.commute)
  finally show ?case using Suc.IH by simp
qed simp

text \<open>A round of line numbers in order: the reads of a line and its flush.\<close>

definition line_ops :: "nat \<Rightarrow> access list" where
  "line_ops l = map (\<lambda>t. Load (64 * l + 4 * t) 4) [0..<16] @ [Flush (64 * l)]"

lemma doit_line: "doit (i * (256 * g)) (16 * n) = line_ops (i * (4 * g) + n)"
  by (simp add: doit_def line_ops_def algebra_simps)

lemma tp_base_eq: "i * (256 * g) < 2 ^ 32 \<Longrightarrow> tp_base g (of_nat i) = i * (256 * g)"
proof -
  assume "i * (256 * g) < 2 ^ 32"
  moreover have "push_bit 8 (of_nat i :: 32 word) * of_nat g = of_nat (i * (256 * g))"
    by (simp add: push_bit_eq_mult)
  ultimately show ?thesis by (simp only: tp_base_def unsigned_of_nat) (simp add: take_bit_nat_eq_self_iff)
qed

lemma round_in_order:
  assumes "1 \<le> g" and "g \<le> 16" and "m * (256 * g) \<le> 2 ^ 32"
  shows "tp_round g (map of_nat [0..<m]) = concat (map line_ops [0..<m * (4 * g)])"
proof -
  have "run_ops g (tp_base g (of_nat i)) op_flush = concat (map (\<lambda>n. line_ops (i * (4 * g) + n)) [0..<4 * g])"
    if "i < m" for i
  proof -
    have "i * (256 * g) < m * (256 * g)" using that assms(1) by (intro mult_strict_right_mono) auto
    then have "tp_base g (of_nat i) = i * (256 * g)" using assms(3) by (intro tp_base_eq) linarith
    then show ?thesis by (simp only: run_op_flush [OF assms(1,2)] doit_line)
  qed
  then have "map (\<lambda>i. run_ops g (tp_base g (of_nat i)) op_flush) [0..<m] =
      map (\<lambda>i. concat (map (\<lambda>n. line_ops (i * (4 * g) + n)) [0..<4 * g])) [0..<m]" by simp
  moreover have "concat (map line_ops (concat xss)) = concat (map (\<lambda>xs. concat (map line_ops xs)) xss)" for xss
    by (induction xss) auto
  ultimately show ?thesis by (simp only: tp_round_def map_map o_def upt_blocks)
qed

lemma count_concat_mset:
  "mset xs = mset ys \<Longrightarrow> count_list (concat (map f xs)) a = count_list (concat (map f ys)) a"
proof -
  assume m: "mset xs = mset ys"
  have e: "count_list (concat (map f zs)) a = sum_mset (image_mset (\<lambda>x. count_list (f x) a) (mset zs))" for zs
    by (induction zs) auto
  show ?thesis by (simp only: e m)
qed

lemma tp_iterations_count:
  assumes "\<And>j xs. mset (shuffle j xs) = mset xs"
  shows "count_list (tp_iterations shuffle g j n xs) a = n * count_list (tp_round g xs) a"
  using assms
proof (induction n arbitrary: j xs)
  case (Suc n)
  have "count_list (tp_round g (shuffle j xs)) a = count_list (tp_round g xs) a" for xs
    unfolding tp_round_def by (rule count_concat_mset) (rule Suc.prems)
  then show ?case using Suc by (simp add: Let_def)
qed simp

lemma line_ops_count:
  assumes "a = Flush (64 * l) \<or> (\<exists>t < 16. a = Load (64 * l + 4 * t) 4)"
  shows "count_list (line_ops l') a = of_bool (l = l')"
proof -
  have "distinct (line_ops l')" by (auto simp: line_ops_def distinct_map inj_on_def)
  moreover have "a \<in> set (line_ops l') \<longleftrightarrow> l = l'"
  proof
    assume "a \<in> set (line_ops l')"
    with assms show "l = l'" by (auto simp: line_ops_def)
  qed (use assms in \<open>auto simp: line_ops_def\<close>)
  ultimately show ?thesis by (simp add: count_list_distinct)
qed

lemma round_count:
  assumes "1 \<le> g" and "g \<le> 16" and "m * (256 * g) \<le> 2 ^ 32" and "l < m * (4 * g)"
    and "a = Flush (64 * l) \<or> (\<exists>t < 16. a = Load (64 * l + 4 * t) 4)"
  shows "count_list (tp_round g (map of_nat [0..<m])) a = 1"
proof -
  have "count_list (concat (map line_ops [0..<m * (4 * g)])) a = count_list (line_ops l) a"
  proof (intro count_blocks assms(4))
    fix z
    assume "z \<noteq> l"
    then have "count_list (line_ops z) a = 0" using line_ops_count [OF assms(5), of z] by simp
    then show "a \<notin> set (line_ops z)" by (simp add: count_list_0_iff)
  qed
  then show ?thesis
    using line_ops_count [OF assms(5), of l] by (simp only: round_in_order [OF assms(1,2,3)]) simp
qed

text \<open>C16: \<^verbatim>\<open>trigger_prefetching\<close> reads every integer of the working set exactly once per iteration and
  flushes every line once per iteration, whatever the shuffles do, for every granularity the body
  knows. The 32-bit offset is large enough for every working set up to 4 GB.\<close>

theorem tp_exact:
  assumes "\<And>j xs. mset (shuffle j xs) = mset xs"
    and "1 \<le> g" and "g \<le> 16" and "256 * g dvd wss" and "wss \<le> max_size" and "wss \<le> 2 ^ 32"
    and "w < wss div 4" and "l < wss div 64"
  shows "count_list (tp_func shuffle max_size wss iterations g) (Load (4 * w) 4) = iterations \<and>
         count_list (tp_func shuffle max_size wss iterations g) (Flush (64 * l)) = iterations"
proof -
  obtain m where m: "wss = m * (256 * g)" using assms(4) by (metis dvdE mult.commute)
  have q: "drop_bit 8 wss div g = m" using assms(2) by (simp add: drop_bit_eq_div m)
  have c: "count_list (tp_func shuffle max_size wss iterations g) a = iterations * count_list (tp_round g (map of_nat [0..<m])) a" for a
    using assms(1,5) by (simp add: tp_func_def q tp_iterations_count)
  have "w = 16 * (w div 16) + w mod 16" by simp
  then have "4 * w = 64 * (w div 16) + 4 * (w mod 16)" by linarith
  then have e: "Load (4 * w) 4 = Load (64 * (w div 16) + 4 * (w mod 16)) 4" by presburger
  have "w div 16 < m * (4 * g)" using assms(7) by (intro less_mult_imp_div_less) (simp add: m algebra_simps)
  moreover have "\<exists>t < 16. Load (4 * w) 4 = Load (64 * (w div 16) + 4 * t) 4"
    by (rule exI [of _ "w mod 16"]) (simp add: e)
  ultimately have "count_list (tp_round g (map of_nat [0..<m])) (Load (4 * w) 4) = 1"
    using assms(6) m by (intro round_count [OF assms(2,3)]) auto
  moreover have "count_list (tp_round g (map of_nat [0..<m])) (Flush (64 * l)) = 1"
    using assms(6,8) m by (intro round_count [OF assms(2,3)]) (auto simp: algebra_simps)
  ultimately show ?thesis by (simp add: c)
qed

theorem tp_exact_witness:
  "count_list (tp_func (\<lambda>j xs. rev xs) (2 ^ 31) (2 ^ 30) 8 1) (Load (4 * 1000) 4) = 8 \<and>
   count_list (tp_func (\<lambda>j xs. rev xs) (2 ^ 31) (2 ^ 30) 8 1) (Flush (64 * 77)) = 8"
  by (rule tp_exact) simp_all

section \<open>The distance between a write and the read of its line\<close>

lemma raf_index_eq:
  assumes "j < wss" and "64 * d \<le> wss" and "2 * wss < 2 ^ 64"
  shows "raf_index j wss d = (j + wss - 64 * d) mod wss"
proof -
  have "(of_nat j + of_nat wss - push_bit 6 (of_nat d) :: 64 word) = of_nat (j + wss - 64 * d)"
    using assms(2) by (simp add: push_bit_eq_mult of_nat_diff)
  moreover have "unat (of_nat (j + wss - 64 * d) :: 64 word) = j + wss - 64 * d"
    using assms by (simp only: unsigned_of_nat) (simp add: take_bit_nat_eq_self_iff)
  moreover have "unat (of_nat wss :: 64 word) = wss"
    using assms(3) by (simp add: unsigned_of_nat take_bit_nat_eq_self_iff)
  ultimately show ?thesis by (simp add: raf_index_def unat_mod_distrib)
qed

lemma mod_sub_cycle: "d \<le> t \<Longrightarrow> d \<le> n \<Longrightarrow> 0 < n \<Longrightarrow> (t mod n + n - d) mod n = (t - d) mod (n :: nat)"
proof -
  assume h: "d \<le> t" "d \<le> n" "0 < n"
  have "(t mod n + n - d) mod n = (t mod n + (n - d)) mod n" using h by simp
  also have "\<dots> = (t + (n - d)) mod n" by (simp add: mod_add_left_eq)
  also have "\<dots> = ((t - d) + n) mod n" using h by simp
  finally show ?thesis by simp
qed

lemma raf_trace:
  assumes "0 < n" and "d \<le> n" and "n < 2 ^ 56"
  shows "raf_func wr (64 * n) it d =
    concat (map (\<lambda>t. do_wr wr (64 * (t mod n)) @ [Load (64 * ((t mod n + n - d) mod n)) 1]) [0..<it * n])"
proof -
  let ?s = "\<lambda>j. do_wr wr (64 * j) @ [Load (64 * ((j + n - d) mod n)) 1]"
  have st: "strided 0 (64 * n) 64 = map (\<lambda>x. 64 * x) [0..<n]"
    using strided_blocks [of 64 "64 * n"] by (simp add: mult.commute)
  have ix: "raf_index (64 * j) (64 * n) d = 64 * ((j + n - d) mod n)" if "j < n" for j
  proof -
    have "raf_index (64 * j) (64 * n) d = (64 * j + 64 * n - 64 * d) mod (64 * n)"
      using that assms by (intro raf_index_eq) auto
    also have "64 * j + 64 * n - 64 * d = 64 * (j + n - d)" by simp
    finally show ?thesis by (simp only: mult_mod_right)
  qed
  have "map (\<lambda>j. do_wr wr (64 * j) @ [Load (raf_index (64 * j) (64 * n) d) 1]) [0..<n] = map ?s [0..<n]"
  proof (rule map_cong [OF refl])
    fix j
    assume "j \<in> set [0..<n]"
    then have "j < n" by simp
    from ix [OF this] show "do_wr wr (64 * j) @ [Load (raf_index (64 * j) (64 * n) d) 1] = ?s j" by (rule arg_cong)
  qed
  then have p: "concat (map (\<lambda>j. do_wr wr j @ [Load (raf_index j (64 * n) d) 1]) (strided 0 (64 * n) 64)) = concat (map ?s [0..<n])"
    by (simp only: st map_map o_def)
  have "concat (map (\<lambda>t. ?s (t mod n)) [0..<it * n]) = concat (replicate it (concat (map ?s [0..<n])))"
  proof (induction it)
    case (Suc it)
    have "[0..<Suc it * n] = [0..<n] @ [n..<n + it * n]"
      by (metis mult_Suc upt_add_eq_append zero_le add_0)
    then have "concat (map (\<lambda>t. ?s (t mod n)) [0..<Suc it * n]) =
        concat (map (\<lambda>t. ?s (t mod n)) [0..<n]) @ concat (map (\<lambda>t. ?s (t mod n)) [0..<it * n])"
      by (simp add: map_upt_shift)
    also have "map (\<lambda>t. ?s (t mod n)) [0..<n] = map ?s [0..<n]" by (rule map_cong [OF refl]) simp
    finally show ?case by (simp only: Suc.IH replicate_Suc concat.simps)
  qed simp
  then show ?thesis by (simp only: raf_func_def p)
qed

text \<open>C15: the read-after-persist test runs through the lines in order and in every step reads, after it has
  made the line of the step persistent, the line that it made persistent exactly the given number
  of steps before (also across the end of the working set), and no step in between has written
  that line.\<close>

theorem raf_distance:
  assumes "0 < n" and "d < n" and "n < 2 ^ 56"
  shows "\<exists>line. raf_func wr (64 * n) it d = concat (map (\<lambda>t. do_wr wr (64 * line t) @
            [Load (64 * (if d \<le> t then line (t - d) else line (t + n - d))) 1]) [0..<it * n]) \<and>
         (\<forall>t. line t < n) \<and> (\<forall>t t'. d \<le> t \<and> t - d < t' \<and> t' \<le> t \<longrightarrow> line t' \<noteq> line (t - d))"
proof (intro exI conjI allI impI)
  have e: "(t mod n + n - d) mod n = (if d \<le> t then (t - d) mod n else (t + n - d) mod n)" for t
  proof (cases "d \<le> t")
    case True
    then show ?thesis using mod_sub_cycle [of d t n] assms by simp
  next
    case False
    with assms(2) have "t < n" by simp
    with False show ?thesis by simp
  qed
  show "raf_func wr (64 * n) it d = concat (map (\<lambda>t. do_wr wr (64 * (t mod n)) @
            [Load (64 * (if d \<le> t then (t - d) mod n else (t + n - d) mod n)) 1]) [0..<it * n])"
    using assms by (simp add: raf_trace e)
next
  show "t mod n < n" for t using assms(1) by simp
next
  fix t t'
  assume h: "d \<le> t \<and> t - d < t' \<and> t' \<le> t"
  show "t' mod n \<noteq> (t - d) mod n"
  proof
    assume "t' mod n = (t - d) mod n"
    then have "n dvd t' - (t - d)" using h by (metis mod_eq_dvd_iff_nat less_imp_le)
    moreover have "0 < t' - (t - d)" "t' - (t - d) \<le> d" using h by auto
    ultimately show False using assms(2) by (auto dest: dvd_imp_le)
  qed
qed

theorem raf_distance_witness:
  "\<exists>line. raf_func Wr_nt_mfence 8192 50000 69 = concat (map (\<lambda>t. do_wr Wr_nt_mfence (64 * line t) @
            [Load (64 * (if 69 \<le> t then line (t - 69) else line (t + 128 - 69))) 1]) [0..<50000 * 128]) \<and>
         (\<forall>t. line t < 128) \<and> (\<forall>t t'. 69 \<le> t \<and> t - 69 < t' \<and> t' \<le> t \<longrightarrow> line t' \<noteq> line (t - 69))"
  using raf_distance [of 128 69 Wr_nt_mfence 50000] by simp

text \<open>Every run of the program is of this kind: 128 lines and a distance below 70.\<close>

lemma raf_runs_distance: "(on_dram, j, wr, i) \<in> set raf_runs \<Longrightarrow> i < 70 \<and> j < 2"
  by (auto simp: raf_runs_def)

end
