(* ===== verification/Micro_Chase.thy ===== *)
theory Micro_Chase
  imports Micro_Access
begin

text \<open>
  The pointer-chasing micro benchmarks (\<^verbatim>\<open>src/micro_benchmarks/cases\<close>): \<^verbatim>\<open>access_lat\<close> of \<^verbatim>\<open>lat.cpp\<close> and
  the tours of \<^verbatim>\<open>extreme_case_prefetching\<close> and \<^verbatim>\<open>rd_throughput_against_prefetching\<close> in
  \<^verbatim>\<open>prefetching.cpp\<close>. They link the units of a working set into one ring in a shuffled order and
  follow it through memory, in \<^verbatim>\<open>lat.cpp\<close> while the measured writes change that memory. The locale
  \<open>write_method\<close> states what the ring needs from a write; its lemmas say that every traversal comes
  back to its start after visiting all units.
\<close>

section \<open>Memory and the writes of \<^verbatim>\<open>lat.cpp\<close>\<close>

text \<open>Memory maps the address of an aligned 8-byte word to its value.\<close>

type_synonym memory = "nat \<Rightarrow> 64 word"

text \<open>\<^verbatim>\<open>*((int *)addr) += 10\<close> on the word that holds the \<^verbatim>\<open>int\<close>, and the non-temporal store of the
  all-zero line \<^verbatim>\<open>cl_buffer\<close>.\<close>

definition int_add10 :: "nat \<Rightarrow> memory \<Rightarrow> memory" where
  "int_add10 addr m = m(addr := (m addr AND NOT (mask 32)) OR ucast (ucast (m addr) + 10 :: 32 word))"

definition stream_zero :: "nat \<Rightarrow> memory \<Rightarrow> memory" where
  "stream_zero addr m = fold (\<lambda>w m. m(addr + 8 * w := 0)) [0..<8] m"

datatype lat_op = wr_clwb_sfence | wr_nt_sfence | wr_clwb | wr_nt | rd

fun wr_method :: "lat_op \<Rightarrow> nat \<Rightarrow> memory \<Rightarrow> memory" where
  "wr_method wr_clwb_sfence addr m = int_add10 addr m"
| "wr_method wr_nt_sfence addr m = stream_zero addr m"
| "wr_method wr_clwb addr m = int_add10 addr m"
| "wr_method wr_nt addr m = stream_zero addr m"
| "wr_method rd addr m = m"

section \<open>Linking the units\<close>

text \<open>Unit \<open>u\<close> of the array at \<open>base\<close>: 256 bytes, with \<^verbatim>\<open>next\<close> in its first word.\<close>

definition unit_at :: "nat \<Rightarrow> nat \<Rightarrow> nat" where
  "unit_at base u = base + 256 * u"

text \<open>How a benchmark ends early: it exits on a bad size, \<^verbatim>\<open>at\<close> throws, or a traversal takes more steps
  than the bound allows.\<close>

datatype chase_error = Exit_failure | Out_of_range | Not_back

definition link_units :: "nat \<Rightarrow> nat list \<Rightarrow> memory \<Rightarrow> chase_error + memory" where
  "link_units base order m =
     (if order = [] then Inl Out_of_range
      else Inr ((fold (\<lambda>i m. m(unit_at base (order ! (i - 1)) := of_nat (unit_at base (order ! i)))) [1..<length order] m)
        (unit_at base (order ! (length order - 1)) := of_nat (unit_at base (order ! 0)))))"

section \<open>\<^verbatim>\<open>access_lat\<close>\<close>

datatype TraverseType = CHASING_PTR | CALC_OFFSET

text \<open>The \<^verbatim>\<open>while (p != starting_point)\<close> loop: the units it writes to, in order, and the memory
  afterwards. The write goes to \<^verbatim>\<open>pad[15]\<close>.\<close>

fun chase :: "(nat \<Rightarrow> memory \<Rightarrow> memory) \<Rightarrow> nat \<Rightarrow> nat \<Rightarrow> nat \<Rightarrow> memory \<Rightarrow> (nat list \<times> memory) option" where
  "chase wr fuel starting_point p m =
     (if p \<noteq> starting_point then
        (case fuel of
           0 \<Rightarrow> None
         | Suc n \<Rightarrow>
             let m = wr (p + 128) m; p' = unat (m p)
             in map_option (\<lambda>(ps, m). (p # ps, m)) (chase wr n starting_point p' m))
      else Some ([], m))"

declare chase.simps [simp del]

text \<open>\<^verbatim>\<open>chase_ptr_lat\<close>: \<open>rnd i\<close> is the value of the \<open>i\<close>-th call of \<^verbatim>\<open>random\<close>.\<close>

fun chase_ptr_lat :: "(nat \<Rightarrow> memory \<Rightarrow> memory) \<Rightarrow> (nat \<Rightarrow> nat) \<Rightarrow> nat \<Rightarrow> nat \<Rightarrow> nat \<Rightarrow> nat \<Rightarrow> nat \<Rightarrow> memory
    \<Rightarrow> (nat list list \<times> memory) option" where
  "chase_ptr_lat wr rnd fuel base unit_num i 0 m = Some ([], m)"
| "chase_ptr_lat wr rnd fuel base unit_num i (Suc iter) m =
     (let starting_point = unit_at base (rnd i mod unit_num); p = unat (m starting_point)
      in case chase wr fuel starting_point p m of
           None \<Rightarrow> None
         | Some (ps, m) \<Rightarrow> map_option (\<lambda>(pss, m). (ps # pss, m)) (chase_ptr_lat wr rnd fuel base unit_num (i + 1) iter m))"

text \<open>\<^verbatim>\<open>calc_lat\<close>: the write goes to the start of the unit, where \<^verbatim>\<open>next\<close> is.\<close>

definition calc_lat :: "(nat \<Rightarrow> memory \<Rightarrow> memory) \<Rightarrow> nat \<Rightarrow> nat list \<Rightarrow> nat \<Rightarrow> memory \<Rightarrow> nat list list \<times> memory" where
  "calc_lat wr base order iter m =
     (let ps = map (unit_at base) order
      in (replicate iter ps, fold (\<lambda>_ m. fold wr ps m) [0..<iter] m))"

text \<open>The worker of one thread on the working set at \<open>base_addr\<close>; \<open>shuffle\<close> is what
  \<^verbatim>\<open>std::random_shuffle\<close> does to the order.\<close>

definition lat_worker :: "nat \<Rightarrow> (nat list \<Rightarrow> nat list) \<Rightarrow> (nat \<Rightarrow> nat) \<Rightarrow> nat \<Rightarrow> lat_op \<Rightarrow> nat \<Rightarrow> nat \<Rightarrow> nat \<Rightarrow> bool
    \<Rightarrow> TraverseType \<Rightarrow> memory \<Rightarrow> chase_error + (nat list list \<times> memory)" where
  "lat_worker max_size shuffle rnd fuel wr base_addr wss iter sequential trav_tp m =
     (if wss \<ge> max_size then Inl Exit_failure
      else
        let unit_num = wss div 256;
            order = (if sequential then [0..<unit_num] else shuffle [0..<unit_num])
        in case link_units base_addr order m of
             Inl e \<Rightarrow> Inl e
           | Inr m \<Rightarrow>
               (case trav_tp of
                  CHASING_PTR \<Rightarrow>
                    (case chase_ptr_lat (wr_method wr) rnd fuel base_addr unit_num 0 iter m of
                       None \<Rightarrow> Inl Not_back
                     | Some r \<Rightarrow> Inr r)
                | CALC_OFFSET \<Rightarrow> Inr (calc_lat (wr_method wr) base_addr order iter m)))"

text \<open>How \<^verbatim>\<open>run\<close> cuts the working set into one part per thread.\<close>

definition ROUND_DOWN :: "64 word \<Rightarrow> 64 word \<Rightarrow> 64 word" where
  "ROUND_DOWN x y = x AND NOT (y - 1)"

definition thread_wss :: "64 word \<Rightarrow> nat \<Rightarrow> 64 word" where
  "thread_wss wss threads = ROUND_DOWN (wss div of_nat threads) 256"

definition thread_base :: "nat \<Rightarrow> 64 word \<Rightarrow> nat \<Rightarrow> nat \<Rightarrow> nat" where
  "thread_base addr wss threads tid = addr + tid * unat (thread_wss wss threads)"

text \<open>The runs of the benchmark: write, logarithm of the working set size, order and traversal.\<close>

definition lat_runs :: "(lat_op \<times> nat \<times> bool \<times> TraverseType) list" where
  "lat_runs = concat (map (\<lambda>(wr, sq, tr). map (\<lambda>wss. (wr, wss, sq, tr)) [12..<31])
     [(wr_clwb_sfence, False, CHASING_PTR), (wr_nt_sfence, False, CHASING_PTR),
      (wr_clwb_sfence, True, CHASING_PTR), (wr_nt_sfence, True, CHASING_PTR),
      (wr_clwb, False, CHASING_PTR), (wr_nt, False, CHASING_PTR),
      (wr_clwb, True, CHASING_PTR), (wr_nt, True, CHASING_PTR),
      (rd, False, CHASING_PTR), (rd, True, CHASING_PTR),
      (wr_nt, False, CALC_OFFSET), (wr_nt, True, CALC_OFFSET)])"

section \<open>The tours of \<^verbatim>\<open>prefetching.cpp\<close>\<close>

text \<open>The bytes of a line that are summed up (\<^verbatim>\<open>prefetching_work_case.h\<close>), and the accesses to one unit:
  the reads of its four lines, one byte at a time or by one non-temporal load of 32 bytes each, then
  the read of \<^verbatim>\<open>next\<close>, then the flushes.\<close>

definition work_case :: "nat list" where
  "work_case = [0, 1, 2, 3, 4, 5, 6, 7, 8, 9, 10, 11, 12, 13, 14, 15]"

definition visit_reads :: "bool \<Rightarrow> nat \<Rightarrow> access list" where
  "visit_reads with_prefetch working_ptr =
     (if with_prefetch then
        map (\<lambda>i. Load (working_ptr + 8 + i) 1) work_case @
        map (\<lambda>i. Load (working_ptr + 64 + i) 1) work_case @
        map (\<lambda>i. Load (working_ptr + 128 + i) 1) work_case @
        map (\<lambda>i. Load (working_ptr + 192 + i) 1) work_case
      else
        [Load (working_ptr + 8 + 24) 32, Load (working_ptr + 64 + 32) 32,
         Load (working_ptr + 128 + 32) 32, Load (working_ptr + 192 + 32) 32])"

definition visit :: "bool \<Rightarrow> nat \<Rightarrow> access list" where
  "visit with_prefetch working_ptr =
     visit_reads with_prefetch working_ptr @
     [Load working_ptr 8, Flush (working_ptr + 8), Flush (working_ptr + 64),
      Flush (working_ptr + 128), Flush (working_ptr + 192)]"

text \<open>The inner loop, which visits a unit before it tests for the start.\<close>

fun tour :: "nat \<Rightarrow> nat \<Rightarrow> nat \<Rightarrow> memory \<Rightarrow> nat list option" where
  "tour 0 starting_ptr working_ptr m = None"
| "tour (Suc n) starting_ptr working_ptr m =
     (let tmp_ptr = unat (m working_ptr)
      in if tmp_ptr = starting_ptr then Some [working_ptr]
         else map_option (Cons working_ptr) (tour n starting_ptr tmp_ptr m))"

fun tours :: "(nat \<Rightarrow> nat) \<Rightarrow> nat \<Rightarrow> nat \<Rightarrow> nat \<Rightarrow> nat \<Rightarrow> nat \<Rightarrow> memory \<Rightarrow> nat list list option" where
  "tours rand fuel base unit_num i 0 m = Some []"
| "tours rand fuel base unit_num i (Suc iterations) m =
     (let starting_ptr = unit_at base (rand i mod unit_num)
      in case tour fuel starting_ptr starting_ptr m of
           None \<Rightarrow> None
         | Some ps \<Rightarrow> map_option (Cons ps) (tours rand fuel base unit_num (i + 1) iterations m))"

text \<open>\<^verbatim>\<open>unit_num * sizeof(working_unit_t)\<close> in 64 bits.\<close>

definition size_of_units :: "nat \<Rightarrow> nat" where
  "size_of_units unit_num = unit_num * 256 mod 2 ^ 64"

text \<open>The measured function of \<^verbatim>\<open>extreme_case_prefetching\<close>: the units in the order of the visits.\<close>

definition extreme_func :: "nat \<Rightarrow> (nat list \<Rightarrow> nat list) \<Rightarrow> (nat \<Rightarrow> nat) \<Rightarrow> nat \<Rightarrow> nat \<Rightarrow> nat \<Rightarrow> nat \<Rightarrow> memory
    \<Rightarrow> chase_error + nat list list" where
  "extreme_func max_size shuffle rand fuel addr unit_num iterations m =
     (if size_of_units unit_num > max_size then Inl Exit_failure
      else if unit_num \<le> 1 then Inl Exit_failure
      else
        let access_order = shuffle [0..<unit_num]
        in case link_units addr access_order m of
             Inl e \<Rightarrow> Inl e
           | Inr m \<Rightarrow> (case tours rand fuel addr unit_num 0 iterations m of None \<Rightarrow> Inl Not_back | Some r \<Rightarrow> Inr r))"

text \<open>The worker of \<^verbatim>\<open>rd_throughput_against_prefetching\<close> on its own part of the pool, and the number of
  units per thread. The size test looks at one part only.\<close>

definition worker_unit :: "nat \<Rightarrow> (nat list \<Rightarrow> nat list) \<Rightarrow> (nat \<Rightarrow> nat) \<Rightarrow> nat \<Rightarrow> nat \<Rightarrow> nat \<Rightarrow> nat \<Rightarrow> nat \<Rightarrow> memory
    \<Rightarrow> chase_error + nat list list" where
  "worker_unit max_size shuffle rand fuel addr thread_id unit_num iterations m =
     (if size_of_units unit_num > max_size then Inl Exit_failure
      else if unit_num \<le> 1 then Inl Exit_failure
      else
        let access_order = shuffle [0..<unit_num];
            working_unit_array = addr + 256 * (thread_id * unit_num)
        in case link_units working_unit_array access_order m of
             Inl e \<Rightarrow> Inl e
           | Inr m \<Rightarrow> (case tours rand fuel working_unit_array unit_num 0 iterations m of None \<Rightarrow> Inl Not_back | Some r \<Rightarrow> Inr r))"

definition per_thread_unit_num :: "nat \<Rightarrow> nat \<Rightarrow> nat" where
  "per_thread_unit_num wss thread_num = wss div thread_num div 256"

text \<open>The runs of the two tests: units or size, iterations and kind of load.\<close>

definition extreme_runs :: "(nat \<times> nat \<times> bool) list" where
  "extreme_runs = concat (map (\<lambda>i. [(2 ^ (i - 8), 2 ^ (31 - i), True), (2 ^ (i - 8), 2 ^ (31 - i), False)]) [12..<31])"

definition throughput_runs :: "nat \<Rightarrow> (nat \<times> nat \<times> nat \<times> bool) list" where
  "throughput_runs max_cpu_per_node =
     map (\<lambda>i. (i, 2 ^ 30, 10, True)) [1..<max_cpu_per_node + 1] @ map (\<lambda>i. (i, 2 ^ 30, 10, False)) [1..<max_cpu_per_node + 1]"

definition visits :: "bool \<Rightarrow> nat list list \<Rightarrow> access list" where
  "visits with_prefetch pss = concat (map (visit with_prefetch) (concat pss))"

section \<open>The ring\<close>

text \<open>The \<open>j\<close>-th unit of the ring, and the memory whose next pointers form it.\<close>

definition ring_at :: "nat \<Rightarrow> nat list \<Rightarrow> nat \<Rightarrow> nat" where
  "ring_at base order j = unit_at base (order ! (j mod length order))"

definition ring :: "nat \<Rightarrow> nat list \<Rightarrow> memory \<Rightarrow> bool" where
  "ring base order m \<longleftrightarrow> (\<forall>j. unat (m (ring_at base order j)) = ring_at base order (Suc j))"

text \<open>An order of the units of an array that fits into the address space.\<close>

definition order_ok :: "nat \<Rightarrow> nat \<Rightarrow> nat list \<Rightarrow> bool" where
  "order_ok base n order \<longleftrightarrow> 0 < n \<and> mset order = mset [0..<n] \<and> base + 256 * n \<le> 2 ^ 64"

lemma order_okD:
  assumes "order_ok base n order"
  shows "length order = n" and "set order = {..<n}" and "distinct order" and "order \<noteq> []"
proof -
  have m: "mset order = mset [0..<n]" and n: "0 < n" using assms by (simp_all add: order_ok_def)
  show "length order = n" using mset_eq_length [OF m] by simp
  then show "order \<noteq> []" using n by auto
  show "set order = {..<n}" using mset_eq_setD [OF m] by (simp only: set_upt atLeast0LessThan)
  show "distinct order" using mset_eq_imp_distinct_iff [OF m] by (simp only: distinct_upt)
qed

lemma unit_at_eq [simp]: "unit_at base u = unit_at base v \<longleftrightarrow> u = v"
  by (simp add: unit_at_def)

lemma ring_at_eq:
  assumes "order_ok base n order"
  shows "ring_at base order i = ring_at base order j \<longleftrightarrow> i mod n = j mod n"
proof -
  have "0 < n" using assms by (simp add: order_ok_def)
  then show ?thesis
    using order_okD [OF assms] by (simp add: ring_at_def nth_eq_iff_index_eq)
qed

lemma ring_at_unit:
  assumes "order_ok base n order"
  shows "\<exists>u < n. ring_at base order j = unit_at base u"
proof -
  have "order ! (j mod length order) \<in> set order" using order_okD(4) [OF assms] by simp
  then show ?thesis using order_okD(2) [OF assms] by (auto simp: ring_at_def)
qed

lemma ring_at_unat:
  assumes "order_ok base n order"
  shows "unat (of_nat (ring_at base order j) :: 64 word) = ring_at base order j"
proof -
  obtain u where "u < n" "ring_at base order j = unit_at base u" using ring_at_unit [OF assms] by blast
  moreover have "base + 256 * n \<le> 2 ^ 64" using assms by (simp add: order_ok_def)
  ultimately have "ring_at base order j < 2 ^ 64" by (simp add: unit_at_def)
  then show ?thesis by (simp only: unsigned_of_nat) (simp add: take_bit_nat_eq_self_iff)
qed

lemma ring_at_surj:
  assumes "order_ok base n order" and "u < n"
  shows "\<exists>s < n. ring_at base order s = unit_at base u"
proof -
  have "u \<in> set order" using assms order_okD(2) by blast
  then obtain s where "s < length order" "order ! s = u" by (auto simp: in_set_conv_nth)
  then show ?thesis using order_okD(1) [OF assms(1)] by (auto simp: ring_at_def)
qed

lemma ring_at_mod: "ring_at base order (j mod length order) = ring_at base order j"
  by (simp add: ring_at_def)

text \<open>Linking makes a ring and touches nothing outside the units.\<close>

lemma link_fold_at:
  assumes "distinct order" and "k \<le> length order" and "1 \<le> i" and "i < k"
  shows "fold (\<lambda>i m. m(unit_at base (order ! (i - 1)) := f i)) [1..<k] m (unit_at base (order ! (i - 1))) = (f i :: 64 word)"
  using assms(2-)
proof (induction k)
  case (Suc k)
  have u: "[1..<Suc k] = [1..<k] @ [k]" using Suc.prems by (simp add: upt_Suc_append)
  show ?case
  proof (cases "i = k")
    case False
    then have "order ! (i - 1) \<noteq> order ! (k - 1)"
      using Suc.prems assms(1) by (simp add: nth_eq_iff_index_eq)
    with False show ?thesis using Suc.IH Suc.prems by (simp add: u)
  qed (use Suc.prems(2) in \<open>simp add: u\<close>)
qed simp

lemma link_fold_out:
  assumes "a \<notin> unit_at base ` set order" and "k \<le> length order"
  shows "fold (\<lambda>i m. m(unit_at base (order ! (i - 1)) := f i)) [1..<k] m a = (m a :: 64 word)"
  using assms(2)
proof (induction k)
  case (Suc k)
  show ?case
  proof (cases k)
    case 0
    then show ?thesis by simp
  next
    case (Suc k')
    then have u: "[1..<Suc k] = [1..<k] @ [k]" by (simp add: upt_Suc_append)
    have "order ! (k - 1) \<in> set order" using Suc Suc.prems by simp
    then have "a \<noteq> unit_at base (order ! (k - 1))" using assms(1) by blast
    then show ?thesis using Suc.IH Suc.prems by (simp add: u)
  qed
qed simp

lemma link_units_ring:
  assumes "order_ok base n order"
  shows "\<exists>m'. link_units base order m = Inr m' \<and> ring base order m' \<and> (\<forall>a. a \<notin> unit_at base ` {..<n} \<longrightarrow> m' a = m a)"
proof -
  note ok = order_okD [OF assms]
  let ?f = "\<lambda>i. of_nat (unit_at base (order ! i)) :: 64 word"
  let ?m = "fold (\<lambda>i m. m(unit_at base (order ! (i - 1)) := ?f i)) [1..<length order] m"
  let ?m' = "?m(unit_at base (order ! (length order - 1)) := ?f 0)"
  have "link_units base order m = Inr ?m'" by (simp add: link_units_def ok(4))
  moreover have "ring base order ?m'"
    unfolding ring_def
  proof
    fix j
    let ?i = "j mod length order"
    have i: "?i < length order" using ok(4) by simp
    have e: "ring_at base order j = unit_at base (order ! ?i)" by (simp add: ring_at_def)
    show "unat (?m' (ring_at base order j)) = ring_at base order (Suc j)"
    proof (cases "Suc ?i = length order")
      case True
      then have "?i = length order - 1" by simp
      then have "?m' (ring_at base order j) = ?f 0" by (simp only: e fun_upd_same)
      moreover have "ring_at base order (Suc j) = unit_at base (order ! 0)" using True by (simp add: ring_at_def mod_Suc)
      ultimately show ?thesis using ring_at_unat [OF assms, of "Suc j"] by simp
    next
      case False
      then have s: "Suc ?i < length order" using i by simp
      have "?m' (ring_at base order j) = ?m (unit_at base (order ! (Suc ?i - 1)))"
      proof -
        have "?i \<noteq> length order - 1" using s by simp
        then have "order ! ?i \<noteq> order ! (length order - 1)" using i ok(3) by (simp add: nth_eq_iff_index_eq)
        then show ?thesis by (simp add: e)
      qed
      also have "\<dots> = ?f (Suc ?i)" using s by (intro link_fold_at ok(3)) auto
      finally have "?m' (ring_at base order j) = ?f (Suc ?i)" .
      moreover have "ring_at base order (Suc j) = unit_at base (order ! Suc ?i)" using False by (simp add: ring_at_def mod_Suc)
      ultimately show ?thesis using ring_at_unat [OF assms, of "Suc j"] by simp
    qed
  qed
  moreover have "?m' a = m a" if "a \<notin> unit_at base ` {..<n}" for a
  proof -
    have a: "a \<notin> unit_at base ` set order" using that ok(2) by simp
    moreover have "order ! (length order - 1) \<in> set order" using ok(4) by simp
    ultimately have "a \<noteq> unit_at base (order ! (length order - 1))" by blast
    then show ?thesis using link_fold_out [OF a order_refl] by simp
  qed
  ultimately show ?thesis by blast
qed

section \<open>Traversals of the ring\<close>

text \<open>What the ring needs from a write: it changes nothing outside the 64 bytes from its address.\<close>

locale write_method =
  fixes wr :: "nat \<Rightarrow> memory \<Rightarrow> memory"
  assumes frame: "b + 8 \<le> a \<or> a + 64 \<le> b \<Longrightarrow> wr a m b = m b"
begin

text \<open>A write to \<^verbatim>\<open>pad[15]\<close> of a unit leaves the next pointers of all units alone.\<close>

lemma keeps_ring: "ring base order m \<Longrightarrow> ring base order (wr (unit_at base u + 128) m)"
proof -
  assume "ring base order m"
  moreover have "wr (unit_at base u + 128) m (unit_at base v) = m (unit_at base v)" for v
  proof (rule frame)
    have "v \<le> u \<or> u + 1 \<le> v" by auto
    then show "unit_at base v + 8 \<le> unit_at base u + 128 \<or> unit_at base u + 128 + 64 \<le> unit_at base v"
      by (auto simp: unit_at_def)
  qed
  ultimately show ?thesis by (simp add: ring_def ring_at_def)
qed

lemma outside: "u < n \<Longrightarrow> b + 8 \<le> base \<or> base + 256 * n \<le> b \<Longrightarrow> wr (unit_at base u + 128) m b = m b"
proof (rule frame)
  assume u: "u < n" and b: "b + 8 \<le> base \<or> base + 256 * n \<le> b"
  have "256 * u + 256 \<le> 256 * n" using u by simp
  then show "b + 8 \<le> unit_at base u + 128 \<or> unit_at base u + 128 + 64 \<le> b"
    using b unfolding unit_at_def by linarith
qed

text \<open>From the \<open>k\<close>-th unit behind the start the loop visits the rest of the ring up to the start.\<close>

lemma chase_rest:
  assumes ok: "order_ok base n order" and "ring base order m" and "k < n" and "n - 1 - k \<le> fuel"
  shows "\<exists>m'. chase wr fuel (ring_at base order s) (ring_at base order (s + 1 + k)) m =
      Some (map (\<lambda>j. ring_at base order (s + 1 + j)) [k..<n - 1], m') \<and> ring base order m' \<and>
      (\<forall>b. b + 8 \<le> base \<or> base + 256 * n \<le> b \<longrightarrow> m' b = m b)"
  using assms(2-)
proof (induction "n - 1 - k" arbitrary: k m fuel)
  case 0
  then have "s + 1 + k = s + n" by simp
  then have "(s + 1 + k) mod n = s mod n" by (simp only: mod_add_self2)
  then have "ring_at base order (s + 1 + k) = ring_at base order s" using ring_at_eq [OF ok] by blast
  moreover have "[k..<n - 1] = []" using 0 by simp
  ultimately show ?case using 0 by (simp add: chase.simps)
next
  case (Suc d)
  let ?p = "ring_at base order (s + 1 + k)"
  obtain f where f: "fuel = Suc f" using Suc by (cases fuel) auto
  obtain u where u: "u < n" "?p = unit_at base u" using ring_at_unit [OF ok] by blast
  let ?m = "wr (?p + 128) m"
  have ri: "ring base order ?m" using Suc.prems(1) u(2) keeps_ring by simp
  have "(s + 1 + k) mod n \<noteq> s mod n"
  proof
    assume "(s + 1 + k) mod n = s mod n"
    then have "n dvd (s + 1 + k) - s" by (metis mod_eq_dvd_iff_nat le_add1 add.assoc)
    then show False using Suc by (auto dest: dvd_imp_le)
  qed
  then have ne: "?p \<noteq> ring_at base order s" by (simp add: ring_at_eq [OF ok])
  have nx: "unat (?m ?p) = ring_at base order (s + 1 + Suc k)" using ri by (simp add: ring_def)
  have "\<exists>m'. chase wr f (ring_at base order s) (ring_at base order (s + 1 + Suc k)) ?m =
      Some (map (\<lambda>j. ring_at base order (s + 1 + j)) [Suc k..<n - 1], m') \<and> ring base order m' \<and>
      (\<forall>b. b + 8 \<le> base \<or> base + 256 * n \<le> b \<longrightarrow> m' b = ?m b)"
    using Suc f by (intro Suc.hyps ri) auto
  then obtain m' where m': "chase wr f (ring_at base order s) (ring_at base order (s + 1 + Suc k)) ?m =
      Some (map (\<lambda>j. ring_at base order (s + 1 + j)) [Suc k..<n - 1], m')" "ring base order m'"
      "\<forall>b. b + 8 \<le> base \<or> base + 256 * n \<le> b \<longrightarrow> m' b = ?m b"
    by blast
  have "[k..<n - 1] = k # [Suc k..<n - 1]" using Suc by (simp add: upt_conv_Cons)
  have "chase wr fuel (ring_at base order s) ?p m = Some (map (\<lambda>j. ring_at base order (s + 1 + j)) [k..<n - 1], m')"
  proof -
    have "chase wr fuel (ring_at base order s) ?p m =
        map_option (\<lambda>(ps, m). (?p # ps, m)) (chase wr f (ring_at base order s) (unat (?m ?p)) ?m)"
      using ne by (subst chase.simps) (simp add: f Let_def)
    then show ?thesis
      by (simp only: nx m'(1) option.map prod.case \<open>[k..<n - 1] = k # [Suc k..<n - 1]\<close> list.map)
  qed
  moreover have "\<forall>b. b + 8 \<le> base \<or> base + 256 * n \<le> b \<longrightarrow> m' b = m b"
    using m'(3) outside [OF u(1)] u(2) by simp
  ultimately show ?case using m'(2) by blast
qed

end

lemma stream_zero_frame: "(\<forall>w < 8. b \<noteq> a + 8 * w) \<Longrightarrow> stream_zero a m b = m b"
proof -
  assume h: "\<forall>w < 8. b \<noteq> a + 8 * w"
  have f: "fold (\<lambda>w m. m(a + 8 * w := 0)) ws m b = (m b :: 64 word)" if "set ws \<subseteq> {..<8}" for ws m
    using that h by (induction ws arbitrary: m) auto
  have "set [0..<8] \<subseteq> {..<8 :: nat}" by auto
  from f [OF this] show ?thesis by (simp only: stream_zero_def)
qed

text \<open>Every write method of the benchmark satisfies the contract.\<close>

interpretation lat: write_method "wr_method k" for k
proof
  fix a b m
  assume "b + 8 \<le> a \<or> a + 64 \<le> (b :: nat)"
  then have "b \<noteq> a" "\<forall>w < 8. b \<noteq> a + 8 * w" by auto
  then show "wr_method k a m b = m b" by (cases k) (simp_all add: int_add10_def stream_zero_frame)
qed

lemma cycle_inj: "(s + i) mod n = (s + j) mod n \<Longrightarrow> i < n \<Longrightarrow> j < n \<Longrightarrow> i = (j :: nat)"
proof (induction i j rule: linorder_wlog)
  case (le i j)
  then have "n dvd (s + j) - (s + i)" by (metis mod_eq_dvd_iff_nat add_left_mono)
  then show ?case using le by (auto dest: dvd_imp_le)
qed simp

text \<open>A traversal that starts at any unit writes to every other unit, once, in the order of the ring.\<close>

lemma ring_pass:
  assumes ok: "order_ok base n order" and "s < n"
  shows "mset (ring_at base order s # map (\<lambda>j. ring_at base order (s + 1 + j)) [0..<n - 1]) = mset (map (unit_at base) [0..<n])"
    (is "mset ?ps = _")
proof -
  have n: "0 < n" using assms(2) by simp
  have e: "?ps = map (\<lambda>j. ring_at base order (s + j)) [0..<n]"
    using n by (cases n) (simp_all add: upt_conv_Cons map_Suc_upt [symmetric] del: upt_Suc)
  have "inj_on (\<lambda>j. ring_at base order (s + j)) {..<n}"
  proof (rule inj_onI)
    fix i j
    assume "i \<in> {..<n}" "j \<in> {..<n}" "ring_at base order (s + i) = ring_at base order (s + j)"
    then have "i < n" "j < n" "(s + i) mod n = (s + j) mod n" by (simp_all add: ring_at_eq [OF ok])
    then show "i = j" by (metis cycle_inj)
  qed
  then have d: "distinct (map (\<lambda>j. ring_at base order (s + j)) [0..<n])" by (simp add: distinct_map atLeast0LessThan)
  have "(\<lambda>j. ring_at base order (s + j)) ` {..<n} \<subseteq> unit_at base ` {..<n}"
    using ring_at_unit [OF ok] by blast
  moreover have "card ((\<lambda>j. ring_at base order (s + j)) ` {..<n}) = card (unit_at base ` {..<n})"
    using \<open>inj_on _ _\<close> by (simp add: card_image inj_on_def)
  ultimately have "(\<lambda>j. ring_at base order (s + j)) ` {..<n} = unit_at base ` {..<n}"
    by (intro card_subset_eq) auto
  then have "set ?ps = set (map (unit_at base) [0..<n])" by (simp only: e) (simp add: atLeast0LessThan)
  moreover have "distinct (map (unit_at base) [0..<n])" by (simp add: distinct_map inj_on_def)
  ultimately show ?thesis using d by (simp only: e set_eq_iff_mset_eq_distinct [symmetric])
qed

lemma chase_ptr_lat_ring:
  assumes ok: "order_ok base n order" and "ring base order m" and "n \<le> Suc fuel"
  shows "\<exists>pss m'. chase_ptr_lat (wr_method k) rnd fuel base n i iter m = Some (pss, m') \<and> length pss = iter \<and>
    (\<forall>j < iter. mset (unit_at base (rnd (i + j) mod n) # pss ! j) = mset (map (unit_at base) [0..<n])) \<and>
    (\<forall>b. b + 8 \<le> base \<or> base + 256 * n \<le> b \<longrightarrow> m' b = m b)"
  using assms(2)
proof (induction iter arbitrary: i m)
  case (Suc iter)
  have n: "0 < n" using ok by (simp add: order_ok_def)
  obtain s where s: "s < n" "ring_at base order s = unit_at base (rnd i mod n)"
    using ring_at_surj [OF ok] n by (metis mod_less_divisor)
  have p: "unat (m (unit_at base (rnd i mod n))) = ring_at base order (s + 1 + 0)"
    using Suc.prems s(2) by (simp add: ring_def flip: s(2))
  have le: "n - 1 - 0 \<le> fuel" using assms(3) by simp
  obtain m1 where m1: "chase (wr_method k) fuel (ring_at base order s) (ring_at base order (s + 1 + 0)) m =
      Some (map (\<lambda>j. ring_at base order (s + 1 + j)) [0..<n - 1], m1)" "ring base order m1"
      "\<forall>b. b + 8 \<le> base \<or> base + 256 * n \<le> b \<longrightarrow> m1 b = m b"
    using lat.chase_rest [OF ok Suc.prems n le, of k s] by blast
  obtain pss m' where r: "chase_ptr_lat (wr_method k) rnd fuel base n (i + 1) iter m1 = Some (pss, m')" "length pss = iter"
      "\<forall>j < iter. mset (unit_at base (rnd (i + 1 + j) mod n) # pss ! j) = mset (map (unit_at base) [0..<n])"
      "\<forall>b. b + 8 \<le> base \<or> base + 256 * n \<le> b \<longrightarrow> m' b = m1 b"
    using Suc.IH [OF m1(2)] by blast
  let ?ps = "map (\<lambda>j. ring_at base order (s + 1 + j)) [0..<n - 1]"
  have "chase_ptr_lat (wr_method k) rnd fuel base n i (Suc iter) m = Some (?ps # pss, m')"
    by (simp only: chase_ptr_lat.simps Let_def p m1(1) [unfolded s(2)] option.case prod.case r(1) option.map)
  moreover have "mset (unit_at base (rnd (i + j) mod n) # (?ps # pss) ! j) = mset (map (unit_at base) [0..<n])"
    if "j < Suc iter" for j
  proof (cases j)
    case 0
    then show ?thesis using ring_pass [OF ok s(1)] by (simp only: nth_Cons_0 add_0_right s(2))
  next
    case (Suc j')
    then show ?thesis using r(3) that by simp
  qed
  moreover have "\<forall>b. b + 8 \<le> base \<or> base + 256 * n \<le> b \<longrightarrow> m' b = m b" using m1(3) r(4) by simp
  ultimately show ?case using r(2) by (metis length_Cons)
qed simp

text \<open>C13: a pointer-chasing run of the latency test ends without an error, with every write method. Each
  iteration starts at the unit the random number selects and writes to every other unit of the
  working set exactly once before it is back, so the writes never break the ring they follow;
  memory outside the working set keeps its value.\<close>

theorem lat_worker_correct:
  assumes "wss < max_size" and "256 \<le> wss" and "base + wss \<le> 2 ^ 64"
    and "\<And>xs. mset (shuffle xs) = mset xs" and "wss div 256 \<le> Suc fuel"
  shows "\<exists>pss m'. lat_worker max_size shuffle rnd fuel k base wss iter sequential CHASING_PTR m = Inr (pss, m') \<and>
    length pss = iter \<and>
    (\<forall>j < iter. mset (unit_at base (rnd j mod (wss div 256)) # pss ! j) = mset (map (unit_at base) [0..<wss div 256])) \<and>
    (\<forall>b. b + 8 \<le> base \<or> base + wss \<le> b \<longrightarrow> m' b = m b)"
proof -
  let ?n = "wss div 256" and ?o = "if sequential then [0..<wss div 256] else shuffle [0..<wss div 256]"
  have w: "256 * ?n \<le> wss" by simp
  have "0 < ?n" using assms(2) by (simp add: div_greater_zero_iff)
  then have ok: "order_ok base ?n ?o" using assms(3,4) w by (auto simp: order_ok_def)
  obtain m1 where m1: "link_units base ?o m = Inr m1" "ring base ?o m1" "\<forall>a. a \<notin> unit_at base ` {..<?n} \<longrightarrow> m1 a = m a"
    using link_units_ring [OF ok] by blast
  obtain pss m' where r: "chase_ptr_lat (wr_method k) rnd fuel base ?n 0 iter m1 = Some (pss, m')" "length pss = iter"
    "\<forall>j < iter. mset (unit_at base (rnd (0 + j) mod ?n) # pss ! j) = mset (map (unit_at base) [0..<?n])"
    "\<forall>b. b + 8 \<le> base \<or> base + 256 * ?n \<le> b \<longrightarrow> m' b = m1 b"
    using chase_ptr_lat_ring [OF ok m1(2) assms(5), of k rnd 0 iter] by blast
  have "lat_worker max_size shuffle rnd fuel k base wss iter sequential CHASING_PTR m = Inr (pss, m')"
    using assms(1) m1(1) r(1) by (simp add: lat_worker_def Let_def)
  moreover have "m' b = m b" if b: "b + 8 \<le> base \<or> base + wss \<le> b" for b
  proof -
    have "b \<notin> unit_at base ` {..<?n}" using b w by (auto simp: unit_at_def)
    then show ?thesis using b r(4) m1(3) w by auto
  qed
  ultimately show ?thesis using r(2,3) by auto
qed

theorem lat_worker_correct_witness:
  "\<exists>pss m'. lat_worker (2 ^ 31) rev (\<lambda>i. 7 * i) (2 ^ 22) wr_nt 4096 (2 ^ 30) 3 False CHASING_PTR (\<lambda>_. 5) = Inr (pss, m') \<and> length pss = 3 \<and> m' 0 = 5"
proof -
  have "\<exists>pss m'. lat_worker (2 ^ 31) rev (\<lambda>i. 7 * i) (2 ^ 22) wr_nt 4096 (2 ^ 30) 3 False CHASING_PTR (\<lambda>_. 5) = Inr (pss, m') \<and>
    length pss = 3 \<and>
    (\<forall>j < 3. mset (unit_at 4096 (7 * j mod (2 ^ 30 div 256)) # pss ! j) = mset (map (unit_at 4096) [0..<2 ^ 30 div 256])) \<and>
    (\<forall>b. b + 8 \<le> 4096 \<or> 4096 + 2 ^ 30 \<le> b \<longrightarrow> m' b = 5)"
    by (rule lat_worker_correct) simp_all
  then obtain pss m' where r: "lat_worker (2 ^ 31) rev (\<lambda>i. 7 * i) (2 ^ 22) wr_nt 4096 (2 ^ 30) 3 False CHASING_PTR (\<lambda>_. 5) = Inr (pss, m')"
    "length pss = 3" "\<forall>b. b + 8 \<le> 4096 \<or> 4096 + 2 ^ 30 \<le> b \<longrightarrow> m' b = 5" by blast
  from r(3) have "m' 0 = 5" by simp
  with r(1,2) show ?thesis by blast
qed

text \<open>The parts of the threads lie one behind the other inside the working set.\<close>

lemma thread_parts:
  assumes "tid < threads" and "threads < 2 ^ 64"
  shows "thread_base addr wss threads tid + unat (thread_wss wss threads) \<le> thread_base addr wss threads (Suc tid)"
    and "thread_base addr wss threads tid + unat (thread_wss wss threads) \<le> addr + unat wss"
proof -
  let ?w = "unat (thread_wss wss threads)"
  show "thread_base addr wss threads tid + ?w \<le> thread_base addr wss threads (Suc tid)"
    by (simp add: thread_base_def)
  have t: "unat (of_nat threads :: 64 word) = threads"
    using assms(2) by (simp add: unsigned_of_nat take_bit_nat_eq_self_iff)
  have "thread_wss wss threads = ALIGN_DOWN (wss div of_nat threads)"
    by (simp add: thread_wss_def ROUND_DOWN_def ALIGN_DOWN_def)
  then have "?w \<le> unat wss div threads" by (simp add: ALIGN_DOWN_unat unat_div_distrib t)
  then have "threads * ?w \<le> unat wss" using assms(1) by (metis div_times_less_eq_dividend le_trans mult.commute mult_le_mono2)
  moreover have "Suc tid * ?w \<le> threads * ?w" using assms(1) by (intro mult_le_mono1) simp
  ultimately show "thread_base addr wss threads tid + ?w \<le> addr + unat wss" by (simp add: thread_base_def)
qed

section \<open>Tours visit every unit\<close>

lemma tour_rest:
  assumes ok: "order_ok base n order" and ri: "ring base order m" and "k < n" and "n - k \<le> fuel"
  shows "tour fuel (ring_at base order s) (ring_at base order (s + k)) m = Some (map (\<lambda>j. ring_at base order (s + j)) [k..<n])"
  using assms(3,4)
proof (induction "n - 1 - k" arbitrary: k fuel)
  case 0
  then obtain f where f: "fuel = Suc f" by (cases fuel) auto
  have "Suc (s + k) = s + n" using 0 by simp
  then have "Suc (s + k) mod n = s mod n" by (simp only: mod_add_self2)
  then have "ring_at base order (Suc (s + k)) = ring_at base order s" using ring_at_eq [OF ok] by blast
  moreover have "[k..<n] = [k]" using 0 by (simp add: upt_conv_Cons)
  ultimately show ?case using ri by (simp add: f ring_def)
next
  case (Suc d)
  then obtain f where f: "fuel = Suc f" by (cases fuel) auto
  have "Suc (s + k) mod n \<noteq> s mod n"
  proof
    assume "Suc (s + k) mod n = s mod n"
    then have "(s + Suc k) mod n = (s + 0) mod n" by simp
    moreover have "Suc k < n" using Suc.hyps(2) by simp
    ultimately have "Suc k = 0" using cycle_inj [of s "Suc k" n 0] by blast
    then show False by simp
  qed
  then have ne: "ring_at base order (Suc (s + k)) \<noteq> ring_at base order s" by (simp add: ring_at_eq [OF ok])
  have "tour f (ring_at base order s) (ring_at base order (s + Suc k)) m = Some (map (\<lambda>j. ring_at base order (s + j)) [Suc k..<n])"
    using Suc f by (intro Suc.hyps) auto
  moreover have "[k..<n] = k # [Suc k..<n]" using Suc by (simp add: upt_conv_Cons)
  ultimately show ?case using ri ne by (simp add: f ring_def)
qed

lemma tours_ring:
  assumes ok: "order_ok base n order" and "ring base order m" and "n \<le> fuel"
  shows "\<exists>pss. tours rnd fuel base n i iter m = Some pss \<and> length pss = iter \<and>
    (\<forall>j < iter. hd (pss ! j) = unit_at base (rnd (i + j) mod n) \<and> mset (pss ! j) = mset (map (unit_at base) [0..<n]))"
proof (induction iter arbitrary: i)
  case (Suc iter)
  have n: "0 < n" using ok by (simp add: order_ok_def)
  obtain s where s: "s < n" "ring_at base order s = unit_at base (rnd i mod n)"
    using ring_at_surj [OF ok] n by (metis mod_less_divisor)
  let ?ps = "map (\<lambda>j. ring_at base order (s + j)) [0..<n]"
  have t: "tour fuel (unit_at base (rnd i mod n)) (unit_at base (rnd i mod n)) m = Some ?ps"
    using tour_rest [OF ok assms(2) n, of fuel s] assms(3) by (simp add: s(2))
  obtain pss where r: "tours rnd fuel base n (i + 1) iter m = Some pss" "length pss = iter"
    "\<forall>j < iter. hd (pss ! j) = unit_at base (rnd (i + 1 + j) mod n) \<and> mset (pss ! j) = mset (map (unit_at base) [0..<n])"
    using Suc.IH by blast
  have u: "[0..<n] = 0 # map Suc [0..<n - 1]" using n by (cases n) (simp_all add: upt_conv_Cons map_Suc_upt del: upt_Suc)
  have e: "?ps = ring_at base order s # map (\<lambda>j. ring_at base order (s + 1 + j)) [0..<n - 1]"
    by (simp add: u o_def)
  have "hd ((?ps # pss) ! j) = unit_at base (rnd (i + j) mod n) \<and> mset ((?ps # pss) ! j) = mset (map (unit_at base) [0..<n])"
    if "j < Suc iter" for j
  proof (cases j)
    case 0
    then show ?thesis using ring_pass [OF ok s(1)] by (simp only: e nth_Cons_0 list.sel add_0_right s(2))
  next
    case (Suc j')
    then show ?thesis using r(3) that by simp
  qed
  moreover have "tours rnd fuel base n i (Suc iter) m = Some (?ps # pss)"
    by (simp only: tours.simps Let_def t r(1) option.case option.map)
  ultimately show ?case using r(2) by (metis length_Cons)
qed simp

text \<open>C17: a tour of the prefetching tests comes back to the unit it started from after visiting every unit
  of the working set exactly once, in every iteration and whatever the shuffle and the random
  numbers are. A working set of one unit or one that is larger than the pool is refused.\<close>

theorem extreme_func_correct:
  assumes "\<And>xs. mset (shuffle xs) = mset xs" and "addr + 256 * unit_num < 2 ^ 64" and "unit_num \<le> fuel"
  shows "(if 2 \<le> unit_num \<and> 256 * unit_num \<le> max_size then
      \<exists>pss. extreme_func max_size shuffle rand fuel addr unit_num iterations m = Inr pss \<and> length pss = iterations \<and>
        (\<forall>j < iterations. hd (pss ! j) = unit_at addr (rand j mod unit_num) \<and>
           mset (pss ! j) = mset (map (unit_at addr) [0..<unit_num]))
     else extreme_func max_size shuffle rand fuel addr unit_num iterations m = Inl Exit_failure)"
proof -
  have sz: "size_of_units unit_num = 256 * unit_num" using assms(2) by (simp add: size_of_units_def)
  show ?thesis
  proof (cases "2 \<le> unit_num \<and> 256 * unit_num \<le> max_size")
    case True
    then have ok: "order_ok addr unit_num (shuffle [0..<unit_num])" using assms(1,2) by (simp add: order_ok_def)
    obtain m1 where m1: "link_units addr (shuffle [0..<unit_num]) m = Inr m1" "ring addr (shuffle [0..<unit_num]) m1"
      using link_units_ring [OF ok] by blast
    obtain pss where "tours rand fuel addr unit_num 0 iterations m1 = Some pss" "length pss = iterations"
      "\<forall>j < iterations. hd (pss ! j) = unit_at addr (rand (0 + j) mod unit_num) \<and> mset (pss ! j) = mset (map (unit_at addr) [0..<unit_num])"
      using tours_ring [OF ok m1(2) assms(3)] by blast
    then show ?thesis using True m1(1) by (simp add: extreme_func_def sz)
  qed (auto simp: extreme_func_def sz)
qed

theorem extreme_func_correct_witness:
  "\<exists>pss. extreme_func (2 ^ 30) rev (\<lambda>i. 11 * i) 5000 4096 4096 2 (\<lambda>_. 0) = Inr pss \<and> hd (pss ! 1) = 4096 + 256 * 11"
proof -
  have "\<exists>pss. extreme_func (2 ^ 30) rev (\<lambda>i. 11 * i) 5000 4096 4096 2 (\<lambda>_. 0) = Inr pss \<and> length pss = 2 \<and>
        (\<forall>j < 2. hd (pss ! j) = unit_at 4096 (11 * j mod 4096) \<and> mset (pss ! j) = mset (map (unit_at 4096) [0..<4096]))"
    using extreme_func_correct [of rev 4096 4096 5000 "2 ^ 30" "\<lambda>i. 11 * i" 2 "\<lambda>_. 0"] by simp
  then obtain pss where r: "extreme_func (2 ^ 30) rev (\<lambda>i. 11 * i) 5000 4096 4096 2 (\<lambda>_. 0) = Inr pss"
    "\<forall>j < 2. hd (pss ! j) = unit_at 4096 (11 * j mod 4096)" by blast
  from r(2) have "hd (pss ! 1) = unit_at 4096 (11 * 1 mod 4096)" by (metis one_less_numeral_iff semiring_norm(76))
  with r(1) show ?thesis by (simp add: unit_at_def)
qed

text \<open>Every run of the program is accepted when the pool has 1 GB.\<close>

lemma extreme_runs_ok:
  "(n, iters, p) \<in> set extreme_runs \<Longrightarrow> 2 ^ 30 \<le> max_size \<Longrightarrow> 2 \<le> n \<and> 256 * n \<le> max_size"
  by (auto simp: extreme_runs_def)

text \<open>Both kinds of visit read each of the four lines of the unit.\<close>

lemma visit_lines:
  "y < 4 \<Longrightarrow> \<exists>a n. Load a n \<in> set (visit_reads p u) \<and> u + 64 * y \<le> a \<and> a + n \<le> u + 64 * y + 64"
proof -
  assume "y < 4"
  then have "y = 0 \<or> y = 1 \<or> y = 2 \<or> y = 3" by arith
  then show ?thesis
    by (intro exI [of _ "u + 64 * y + (if p then if y = 0 then 8 else 0 else 32)"] exI [of _ "if p then 1 else 32"])
      (elim disjE; simp add: visit_reads_def work_case_def)
qed

text \<open>C37: the throughput test checks the size of the part of one thread against the pool, not the part's
  position: a thread whose part ends behind the pool passes the check and visits a unit there.\<close>

theorem worker_unit_overruns:
  assumes "\<And>xs. mset (shuffle xs) = mset xs" and "addr + 256 * ((thread_id + 1) * unit_num) < 2 ^ 64" and "unit_num \<le> fuel"
    and "2 \<le> unit_num" and "256 * unit_num \<le> max_size" and "max_size < 256 * ((thread_id + 1) * unit_num)" and "0 < iterations"
  shows "\<exists>pss p. worker_unit max_size shuffle rand fuel addr thread_id unit_num iterations m = Inr pss \<and>
    p \<in> set (concat pss) \<and> addr + max_size < p + 256"
proof -
  let ?b = "addr + 256 * (thread_id * unit_num)" and ?o = "shuffle [0..<unit_num]"
  have "?b + 256 * unit_num < 2 ^ 64" using assms(2) by (simp add: algebra_simps)
  then have ok: "order_ok ?b unit_num ?o" and sz: "size_of_units unit_num = 256 * unit_num"
    using assms(1,4) by (simp_all add: order_ok_def size_of_units_def)
  obtain m1 where m1: "link_units ?b ?o m = Inr m1" "ring ?b ?o m1"
    using link_units_ring [OF ok] by blast
  obtain pss where r: "tours rand fuel ?b unit_num 0 iterations m1 = Some pss" "length pss = iterations"
    "\<forall>j < iterations. hd (pss ! j) = unit_at ?b (rand (0 + j) mod unit_num) \<and> mset (pss ! j) = mset (map (unit_at ?b) [0..<unit_num])"
    using tours_ring [OF ok m1(2) assms(3)] by blast
  let ?p = "unit_at ?b (unit_num - 1)"
  have "set (pss ! 0) = unit_at ?b ` {..<unit_num}"
    using r(3) assms(7) by (metis mset_eq_setD set_map set_upt atLeast0LessThan)
  then have "?p \<in> set (pss ! 0)" using assms(4) by auto
  moreover have "pss ! 0 \<in> set pss" using r(2) assms(7) by simp
  ultimately have "?p \<in> set (concat pss)" by auto
  moreover have "?p + 256 = addr + 256 * ((thread_id + 1) * unit_num)"
    using assms(4) by (simp add: unit_at_def algebra_simps)
  moreover have "worker_unit max_size shuffle rand fuel addr thread_id unit_num iterations m = Inr pss"
    using assms(4,5) m1(1) r(1) by (simp add: worker_unit_def Let_def sz)
  ultimately show ?thesis using assms(6) by (metis add_less_cancel_left)
qed

theorem worker_unit_overruns_witness:
  "\<exists>pss p. worker_unit (2 ^ 29) rev (\<lambda>i. i) (2 ^ 21) 0 1 (per_thread_unit_num (2 ^ 30) 2) 10 (\<lambda>_. 0) = Inr pss \<and>
    p \<in> set (concat pss) \<and> 2 ^ 29 < p + 256"
proof -
  have "per_thread_unit_num (2 ^ 30) 2 = 2 ^ 21" by (simp add: per_thread_unit_num_def)
  then show ?thesis
    using worker_unit_overruns [of rev 0 1 "2 ^ 21" "2 ^ 21" "2 ^ 29" 10 "\<lambda>i. i" "\<lambda>_. 0"] by simp
qed

end
