(* ===== verification/Micro_Lock.thy ===== *)
theory Micro_Lock
  imports PM_Prelude
begin

text \<open>
  The hand-over of \<^verbatim>\<open>read_after_flush_lock_contention\<close>
  (\<^verbatim>\<open>src/micro_benchmarks/cases/read_after_flush.cpp\<close>): thread T1 takes the lock word from 0 to 1,
  makes a line persistent and sets 2; thread T2 takes it from 2 to 3, reads a line and sets 0. The
  model has one step per access to a shared variable, in any interleaving; a weak
  compare-and-swap may also fail when the word is the expected one.
\<close>

section \<open>States and steps\<close>

datatype pc1 = Check1 | Cas1 | Mark1 | Write1 | Next1 | Release1 | Tail1 nat | Done1

datatype pc2 = Check2 | Cas2 | Read2 | Tick2 | Next2 | Add2 | Release2 | Tail2 nat | Done2

text \<open>What the threads do inside their sections, in the order of time: T1 takes the time and writes a
  line, T2 reads a byte and takes the time.\<close>

datatype event = Start "64 word" | Wrote nat | ReadAt nat | End "64 word"

record cont =
  thread_lock :: nat
  end_flag :: bool
  at1 :: pc1
  at2 :: pc2
  j1 :: nat
  j2 :: nat
  hold_num :: nat
  miss1 :: nat
  miss2 :: nat
  start_tick :: "64 word"
  end_tick :: "64 word"
  across :: "64 word"
  events :: "event list"

definition cont_init :: cont where
  "cont_init = \<lparr>thread_lock = 0, end_flag = False, at1 = Check1, at2 = Check2, j1 = 0, j2 = 0, hold_num = 0,
     miss1 = 0, miss2 = 0, start_tick = 0, end_tick = 0, across = 0, events = []\<rparr>"

text \<open>\<^verbatim>\<open>j += 64; if (j > wss) j = 0;\<close> and the index that T2 reads, which is computed in
  \<^verbatim>\<open>uint64_t\<close>.\<close>

definition advance :: "nat \<Rightarrow> nat \<Rightarrow> nat" where
  "advance wss j = (let j = j + 64 in if j > wss then 0 else j)"

definition read_index :: "nat \<Rightarrow> nat \<Rightarrow> nat \<Rightarrow> nat" where
  "read_index wss distance j =
     unat ((of_nat j + of_nat wss - push_bit 6 (of_nat distance) :: 64 word) mod of_nat wss)"

definition read_event :: "nat \<Rightarrow> nat \<Rightarrow> bool \<Rightarrow> nat \<Rightarrow> event list" where
  "read_event wss distance read_flag j = (if read_flag then [ReadAt (read_index wss distance j)] else [])"

inductive cont_step :: "nat \<Rightarrow> nat \<Rightarrow> bool \<Rightarrow> cont \<Rightarrow> cont \<Rightarrow> bool"
  for wss :: nat and distance :: nat and read_flag :: bool where
  stop1: "at1 s = Check1 \<Longrightarrow> end_flag s \<Longrightarrow> cont_step wss distance read_flag s (s\<lparr>at1 := Done1\<rparr>)"
| go1: "at1 s = Check1 \<Longrightarrow> \<not> end_flag s \<Longrightarrow> cont_step wss distance read_flag s (s\<lparr>at1 := Cas1\<rparr>)"
| take1: "at1 s = Cas1 \<Longrightarrow> CAS (thread_lock s) 0 1 = (True, l, e) \<Longrightarrow>
     cont_step wss distance read_flag s (s\<lparr>thread_lock := l, at1 := Mark1\<rparr>)"
| fail1: "at1 s = Cas1 \<Longrightarrow> CAS (thread_lock s) 0 1 = (False, l, e) \<Longrightarrow>
     cont_step wss distance read_flag s (s\<lparr>thread_lock := l, at1 := Tail1 e\<rparr>)"
| spurious1: "at1 s = Cas1 \<Longrightarrow> cont_step wss distance read_flag s (s\<lparr>at1 := Tail1 (thread_lock s)\<rparr>)"
| mark1: "at1 s = Mark1 \<Longrightarrow> cont_step wss distance read_flag s
     (s\<lparr>hold_num := hold_num s + 1, start_tick := t, events := events s @ [Start t], at1 := Write1\<rparr>)"
| write1: "at1 s = Write1 \<Longrightarrow> cont_step wss distance read_flag s
     (s\<lparr>events := events s @ [Wrote (j1 s)], at1 := Next1\<rparr>)"
| next1: "at1 s = Next1 \<Longrightarrow> cont_step wss distance read_flag s (s\<lparr>j1 := advance wss (j1 s), at1 := Release1\<rparr>)"
| release1: "at1 s = Release1 \<Longrightarrow> cont_step wss distance read_flag s (s\<lparr>thread_lock := 2, at1 := Tail1 0\<rparr>)"
| tail1: "at1 s = Tail1 e \<Longrightarrow> cont_step wss distance read_flag s
     (s\<lparr>miss1 := (if e \<noteq> 0 then miss1 s + 1 else miss1 s), at1 := Check1\<rparr>)"
| stop2: "at2 s = Check2 \<Longrightarrow> end_flag s \<Longrightarrow> cont_step wss distance read_flag s (s\<lparr>at2 := Done2\<rparr>)"
| go2: "at2 s = Check2 \<Longrightarrow> \<not> end_flag s \<Longrightarrow> cont_step wss distance read_flag s (s\<lparr>at2 := Cas2\<rparr>)"
| take2: "at2 s = Cas2 \<Longrightarrow> CAS (thread_lock s) 2 3 = (True, l, e) \<Longrightarrow>
     cont_step wss distance read_flag s (s\<lparr>thread_lock := l, at2 := Read2\<rparr>)"
| fail2: "at2 s = Cas2 \<Longrightarrow> CAS (thread_lock s) 2 3 = (False, l, e) \<Longrightarrow>
     cont_step wss distance read_flag s (s\<lparr>thread_lock := l, at2 := Tail2 e\<rparr>)"
| spurious2: "at2 s = Cas2 \<Longrightarrow> cont_step wss distance read_flag s (s\<lparr>at2 := Tail2 (thread_lock s)\<rparr>)"
| read2: "at2 s = Read2 \<Longrightarrow> cont_step wss distance read_flag s
     (s\<lparr>events := events s @ read_event wss distance read_flag (j2 s), at2 := Tick2\<rparr>)"
| tick2: "at2 s = Tick2 \<Longrightarrow> cont_step wss distance read_flag s
     (s\<lparr>end_tick := t, events := events s @ [End t], at2 := Next2\<rparr>)"
| next2: "at2 s = Next2 \<Longrightarrow> cont_step wss distance read_flag s (s\<lparr>j2 := advance wss (j2 s), at2 := Add2\<rparr>)"
| add2: "at2 s = Add2 \<Longrightarrow> cont_step wss distance read_flag s
     (s\<lparr>across := across s + (end_tick s - start_tick s), at2 := Release2\<rparr>)"
| release2: "at2 s = Release2 \<Longrightarrow> cont_step wss distance read_flag s (s\<lparr>thread_lock := 0, at2 := Tail2 2\<rparr>)"
| tail2: "at2 s = Tail2 e \<Longrightarrow> cont_step wss distance read_flag s
     (s\<lparr>miss2 := (if e \<noteq> 2 then miss2 s + 1 else miss2 s), at2 := Check2\<rparr>)"
| finish: "cont_step wss distance read_flag s (s\<lparr>end_flag := True\<rparr>)"

inductive cont_reachable :: "nat \<Rightarrow> nat \<Rightarrow> bool \<Rightarrow> cont \<Rightarrow> bool"
  for wss :: nat and distance :: nat and read_flag :: bool where
  init: "cont_reachable wss distance read_flag cont_init"
| step: "cont_reachable wss distance read_flag s \<Longrightarrow> cont_step wss distance read_flag s s' \<Longrightarrow>
     cont_reachable wss distance read_flag s'"

section \<open>Rounds\<close>

text \<open>The line of round \<open>i\<close>, the events of a round and of a sequence of rounds with their times.\<close>

definition round_line :: "nat \<Rightarrow> nat \<Rightarrow> nat" where
  "round_line wss i = 64 * (i mod (wss div 64 + 1))"

lemma round_line_0 [simp]: "round_line wss 0 = 0"
  by (simp add: round_line_def)

lemma advance_round: "advance wss (round_line wss i) = round_line wss (Suc i)"
proof -
  let ?n = "wss div 64 + 1"
  have "64 * (i mod ?n) + 64 > wss \<longleftrightarrow> Suc (i mod ?n) = ?n"
  proof -
    have "i mod ?n < ?n" by simp
    then show ?thesis by (metis add.commute div_less_iff_less_mult less_mult_imp_div_less mult.commute mult_Suc_right not_less not_less_eq order_le_less zero_less_numeral Suc_eq_plus1 Suc_leI)
  qed
  then show ?thesis by (auto simp: advance_def round_line_def Let_def mod_Suc)
qed

definition round_events :: "nat \<Rightarrow> nat \<Rightarrow> bool \<Rightarrow> nat \<Rightarrow> 64 word \<times> 64 word \<Rightarrow> event list" where
  "round_events wss distance read_flag i = (\<lambda>(t, e). [Start t, Wrote (round_line wss i)] @ read_event wss distance read_flag (round_line wss i) @ [End e])"

definition rounds :: "nat \<Rightarrow> nat \<Rightarrow> bool \<Rightarrow> (64 word \<times> 64 word) list \<Rightarrow> event list" where
  "rounds wss distance read_flag rs =
     concat (map (\<lambda>i. round_events wss distance read_flag i (rs ! i)) [0..<length rs])"

definition latency :: "(64 word \<times> 64 word) list \<Rightarrow> 64 word" where
  "latency rs = (\<Sum>(t, e)\<leftarrow>rs. e - t)"

lemma rounds_snoc:
  "rounds wss d rf (rs @ [r]) = rounds wss d rf rs @ round_events wss d rf (length rs) r"
proof -
  have "map (\<lambda>i. round_events wss d rf i ((rs @ [r]) ! i)) [0..<length rs] = map (\<lambda>i. round_events wss d rf i (rs ! i)) [0..<length rs]"
    by (rule map_cong) (simp_all add: nth_append)
  then show ?thesis by (simp only: rounds_def length_append_singleton upt_Suc_append zero_le map_append concat_append
      list.map concat.simps nth_append_length append_Nil2)
qed

lemma latency_snoc: "latency (rs @ [(t, e)]) = latency rs + (e - t)"
  by (simp add: latency_def)

section \<open>The invariant\<close>

fun holds1 :: "pc1 \<Rightarrow> bool" where
  "holds1 Mark1 = True"
| "holds1 Write1 = True"
| "holds1 Next1 = True"
| "holds1 Release1 = True"
| "holds1 _ = False"

fun holds2 :: "pc2 \<Rightarrow> bool" where
  "holds2 Read2 = True"
| "holds2 Tick2 = True"
| "holds2 Next2 = True"
| "holds2 Add2 = True"
| "holds2 Release2 = True"
| "holds2 _ = False"

text \<open>The four phases of a round, by the value of the lock word; \<open>rs\<close> are the rounds that are complete.\<close>

definition phase0 :: "nat \<Rightarrow> nat \<Rightarrow> bool \<Rightarrow> cont \<Rightarrow> (64 word \<times> 64 word) list \<Rightarrow> bool" where
  "phase0 wss d rf s rs \<longleftrightarrow> thread_lock s = 0 \<and> \<not> holds1 (at1 s) \<and> \<not> holds2 (at2 s) \<and>
     events s = rounds wss d rf rs \<and> j1 s = round_line wss (length rs) \<and> j2 s = round_line wss (length rs) \<and>
     hold_num s = length rs \<and> across s = latency rs"

definition phase1 :: "nat \<Rightarrow> nat \<Rightarrow> bool \<Rightarrow> cont \<Rightarrow> (64 word \<times> 64 word) list \<Rightarrow> bool" where
  "phase1 wss d rf s rs \<longleftrightarrow> thread_lock s = 1 \<and> \<not> holds2 (at2 s) \<and> j2 s = round_line wss (length rs) \<and>
     across s = latency rs \<and>
     (let n = length rs; ev = rounds wss d rf rs in
      case at1 s of
        Mark1 \<Rightarrow> events s = ev \<and> j1 s = round_line wss n \<and> hold_num s = n
      | Write1 \<Rightarrow> events s = ev @ [Start (start_tick s)] \<and> j1 s = round_line wss n \<and> hold_num s = n + 1
      | Next1 \<Rightarrow> events s = ev @ [Start (start_tick s), Wrote (round_line wss n)] \<and> j1 s = round_line wss n \<and> hold_num s = n + 1
      | Release1 \<Rightarrow> events s = ev @ [Start (start_tick s), Wrote (round_line wss n)] \<and> j1 s = round_line wss (n + 1) \<and> hold_num s = n + 1
      | _ \<Rightarrow> False)"

definition phase2 :: "nat \<Rightarrow> nat \<Rightarrow> bool \<Rightarrow> cont \<Rightarrow> (64 word \<times> 64 word) list \<Rightarrow> bool" where
  "phase2 wss d rf s rs \<longleftrightarrow> thread_lock s = 2 \<and> \<not> holds1 (at1 s) \<and> \<not> holds2 (at2 s) \<and>
     events s = rounds wss d rf rs @ [Start (start_tick s), Wrote (round_line wss (length rs))] \<and>
     j1 s = round_line wss (length rs + 1) \<and> j2 s = round_line wss (length rs) \<and>
     hold_num s = length rs + 1 \<and> across s = latency rs"

definition phase3 :: "nat \<Rightarrow> nat \<Rightarrow> bool \<Rightarrow> cont \<Rightarrow> (64 word \<times> 64 word) list \<Rightarrow> bool" where
  "phase3 wss d rf s rs \<longleftrightarrow> thread_lock s = 3 \<and> \<not> holds1 (at1 s) \<and> j1 s = round_line wss (length rs + 1) \<and>
     hold_num s = length rs + 1 \<and>
     (let n = length rs; t = start_tick s; e = end_tick s;
          ev = rounds wss d rf rs @ [Start t, Wrote (round_line wss n)];
          rd = read_event wss d rf (round_line wss n)
      in case at2 s of
           Read2 \<Rightarrow> events s = ev \<and> j2 s = round_line wss n \<and> across s = latency rs
         | Tick2 \<Rightarrow> events s = ev @ rd \<and> j2 s = round_line wss n \<and> across s = latency rs
         | Next2 \<Rightarrow> events s = ev @ rd @ [End e] \<and> j2 s = round_line wss n \<and> across s = latency rs
         | Add2 \<Rightarrow> events s = ev @ rd @ [End e] \<and> j2 s = round_line wss (n + 1) \<and> across s = latency rs
         | Release2 \<Rightarrow> events s = ev @ rd @ [End e] \<and> j2 s = round_line wss (n + 1) \<and> across s = latency rs + (e - t)
         | _ \<Rightarrow> False)"

lemmas phase_defs = phase0_def phase1_def phase2_def phase3_def

definition cont_inv :: "nat \<Rightarrow> nat \<Rightarrow> bool \<Rightarrow> cont \<Rightarrow> bool" where
  "cont_inv wss d rf s \<longleftrightarrow>
     (\<exists>rs. phase0 wss d rf s rs \<or> phase1 wss d rf s rs \<or> phase2 wss d rf s rs \<or> phase3 wss d rf s rs) \<and>
     (at1 s = Done1 \<or> at2 s = Done2 \<longrightarrow> end_flag s)"

inductive_cases cont_stepE [consumes 1, case_names stop1 go1 take1 fail1 spurious1 mark1 write1 next1 release1 tail1
    stop2 go2 take2 fail2 spurious2 read2 tick2 next2 add2 release2 tail2 finish]:
  "cont_step wss d rf s s'"

lemma CAS_True_iff: "CAS c e x = (True, l, e') \<longleftrightarrow> c = e \<and> l = x \<and> e' = e"
  by (auto simp: CAS_def)

lemma CAS_False_iff: "CAS c e x = (False, l, e') \<longleftrightarrow> c \<noteq> e \<and> l = c \<and> e' = c"
  by (auto simp: CAS_def)

text \<open>How a step changes the phase.\<close>

lemma phase0_step:
  "cont_step wss d rf s s' \<Longrightarrow> phase0 wss d rf s rs \<Longrightarrow> phase0 wss d rf s' rs \<or> phase1 wss d rf s' rs"
  by (erule cont_stepE) (simp_all add: phase0_def phase1_def CAS_True_iff CAS_False_iff)

lemma phase1_step:
  "cont_step wss d rf s s' \<Longrightarrow> phase1 wss d rf s rs \<Longrightarrow> phase1 wss d rf s' rs \<or> phase2 wss d rf s' rs"
  by (erule cont_stepE) (simp_all add: phase1_def phase2_def Let_def CAS_True_iff CAS_False_iff advance_round cong: pc1.case_cong)

lemma phase2_step:
  "cont_step wss d rf s s' \<Longrightarrow> phase2 wss d rf s rs \<Longrightarrow> phase2 wss d rf s' rs \<or> phase3 wss d rf s' rs"
  by (erule cont_stepE) (simp_all add: phase2_def phase3_def Let_def CAS_True_iff CAS_False_iff)

lemma phase3_step:
  "cont_step wss d rf s s' \<Longrightarrow> phase3 wss d rf s rs \<Longrightarrow>
     phase3 wss d rf s' rs \<or> phase0 wss d rf s' (rs @ [(start_tick s, end_tick s)])"
  by (erule cont_stepE) (simp_all add: phase3_def phase0_def Let_def CAS_True_iff CAS_False_iff advance_round
      rounds_snoc latency_snoc round_events_def cong: pc2.case_cong)

text \<open>The invariant holds in every reachable state.\<close>

lemma done_step:
  "cont_step wss d rf s s' \<Longrightarrow> (at1 s = Done1 \<or> at2 s = Done2 \<longrightarrow> end_flag s) \<Longrightarrow>
     (at1 s' = Done1 \<or> at2 s' = Done2 \<longrightarrow> end_flag s')"
  by (erule cont_stepE) auto

lemma cont_inv_init: "cont_inv wss d rf cont_init"
proof -
  have "phase0 wss d rf cont_init []" by (simp add: phase0_def cont_init_def rounds_def latency_def)
  then show ?thesis by (auto simp: cont_inv_def cont_init_def)
qed

lemma cont_inv_step: "cont_step wss d rf s s' \<Longrightarrow> cont_inv wss d rf s \<Longrightarrow> cont_inv wss d rf s'"
  unfolding cont_inv_def using phase0_step phase1_step phase2_step phase3_step done_step by metis

lemma cont_reachable_inv: "cont_reachable wss d rf s \<Longrightarrow> cont_inv wss d rf s"
  by (induction rule: cont_reachable.induct) (auto intro: cont_inv_init cont_inv_step)

section \<open>Alternation\<close>

text \<open>C14: in every interleaving the two threads are never in their sections together, and their events are
  those of complete rounds followed by a prefix of one more: T1 takes the time and writes the line of
  the round, then T2 reads at its distance and takes the time. So every latency that is added up
  compares the end of a round with the start of the same round.\<close>

theorem contention_alternates:
  assumes "cont_reachable wss d rf s"
  shows "\<not> (holds1 (at1 s) \<and> holds2 (at2 s)) \<and>
    (\<exists>rs r rest. events s @ rest = rounds wss d rf (rs @ [r]) \<and>
       (across s = latency rs \<or> rest = [] \<and> across s = latency (rs @ [r])) \<and>
       length rs \<le> hold_num s \<and> hold_num s \<le> length rs + 1)"
proof -
  obtain rs where ph: "phase0 wss d rf s rs \<or> phase1 wss d rf s rs \<or> phase2 wss d rf s rs \<or> phase3 wss d rf s rs"
    using cont_reachable_inv [OF assms] by (auto simp: cont_inv_def)
  let ?n = "length rs" and ?t = "start_tick s" and ?e = "end_tick s"
  let ?w = "[Wrote (round_line wss ?n)]" and ?rd = "read_event wss d rf (round_line wss ?n)"
  have "\<not> (holds1 (at1 s) \<and> holds2 (at2 s))"
    using ph by (auto simp: phase_defs)
  moreover have "\<exists>rest. events s @ rest = rounds wss d rf (rs @ [(?t, ?e)]) \<and>
       (across s = latency rs \<or> rest = [] \<and> across s = latency (rs @ [(?t, ?e)])) \<and> ?n \<le> hold_num s \<and> hold_num s \<le> ?n + 1"
  proof -
    have full: "rounds wss d rf (rs @ [(?t, ?e)]) = rounds wss d rf rs @ [Start ?t] @ ?w @ ?rd @ [End ?e]"
      by (simp add: rounds_snoc round_events_def)
    consider (p0) "phase0 wss d rf s rs" | (p1) "phase1 wss d rf s rs" | (p2) "phase2 wss d rf s rs" | (p3) "phase3 wss d rf s rs"
      using ph by blast
    then show ?thesis
    proof cases
      case p0
      then show ?thesis by (intro exI [of _ "[Start ?t] @ ?w @ ?rd @ [End ?e]"]) (simp add: phase0_def full)
    next
      case p1
      then have "\<exists>rest. events s @ rest = rounds wss d rf rs @ [Start ?t] @ ?w @ ?rd @ [End ?e]"
        by (auto simp: phase1_def Let_def split: pc1.splits)
      with p1 show ?thesis by (auto simp: full phase1_def Let_def split: pc1.splits)
    next
      case p2
      then show ?thesis by (intro exI [of _ "?rd @ [End ?e]"]) (simp add: phase2_def full)
    next
      case p3
      then have "\<exists>rest. events s @ rest = rounds wss d rf rs @ [Start ?t] @ ?w @ ?rd @ [End ?e] \<and>
          (across s = latency rs \<or> rest = [] \<and> across s = latency rs + (?e - ?t))"
        by (auto simp: phase3_def Let_def split: pc2.splits)
      with p3 show ?thesis by (auto simp: full latency_snoc phase3_def Let_def)
    qed
  qed
  ultimately show ?thesis by blast
qed

lemma contention_first_write:
  "cont_reachable wss d rf (cont_init\<lparr>thread_lock := 1, hold_num := 1, start_tick := 5, events := [Start 5, Wrote 0], at1 := Next1\<rparr>)"
proof -
  note [intro] = cont_reachable.step
  have "cont_step wss d rf cont_init (cont_init\<lparr>at1 := Cas1\<rparr>)"
    by (rule go1) (simp_all add: cont_init_def)
  with init have "cont_reachable wss d rf (cont_init\<lparr>at1 := Cas1\<rparr>)" ..
  moreover have "cont_step wss d rf (cont_init\<lparr>at1 := Cas1\<rparr>) (cont_init\<lparr>at1 := Cas1, thread_lock := 1, at1 := Mark1\<rparr>)"
    by (rule take1 [of _ _ 0]) (simp_all add: cont_init_def)
  ultimately have "cont_reachable wss d rf (cont_init\<lparr>at1 := Cas1, thread_lock := 1, at1 := Mark1\<rparr>)" ..
  moreover have "cont_step wss d rf (cont_init\<lparr>at1 := Cas1, thread_lock := 1, at1 := Mark1\<rparr>)
      (cont_init\<lparr>thread_lock := 1, hold_num := 1, start_tick := 5, events := [Start 5], at1 := Write1\<rparr>)"
    using mark1 [of "cont_init\<lparr>at1 := Cas1, thread_lock := 1, at1 := Mark1\<rparr>" wss d rf 5] by (simp add: cont_init_def)
  ultimately have "cont_reachable wss d rf (cont_init\<lparr>thread_lock := 1, hold_num := 1, start_tick := 5, events := [Start 5], at1 := Write1\<rparr>)" ..
  moreover have "cont_step wss d rf (cont_init\<lparr>thread_lock := 1, hold_num := 1, start_tick := 5, events := [Start 5], at1 := Write1\<rparr>)
      (cont_init\<lparr>thread_lock := 1, hold_num := 1, start_tick := 5, events := [Start 5, Wrote 0], at1 := Next1\<rparr>)"
    using write1 [of "cont_init\<lparr>thread_lock := 1, hold_num := 1, start_tick := 5, events := [Start 5], at1 := Write1\<rparr>" wss d rf]
    by (simp add: cont_init_def)
  ultimately show ?thesis ..
qed

theorem contention_alternates_witness:
  "\<exists>rs r rest. [Start 5, Wrote 0] @ rest = rounds 50000 3 True (rs @ [r])"
  using contention_alternates [OF contention_first_write [of 50000 3 True]] by (simp add: cont_init_def) blast

section \<open>Progress\<close>

text \<open>How far the next start of a round is.\<close>

definition togo :: "cont \<Rightarrow> nat" where
  "togo s =
     (if thread_lock s = 0 then (case at1 s of Cas1 \<Rightarrow> 2 | Check1 \<Rightarrow> 3 | _ \<Rightarrow> 4)
      else if thread_lock s = 1 then (case at1 s of Mark1 \<Rightarrow> 1 | Release1 \<Rightarrow> 13 | Next1 \<Rightarrow> 14 | _ \<Rightarrow> 15)
      else if thread_lock s = 2 then (case at2 s of Cas2 \<Rightarrow> 10 | Check2 \<Rightarrow> 11 | _ \<Rightarrow> 12)
      else (case at2 s of Release2 \<Rightarrow> 5 | Add2 \<Rightarrow> 6 | Next2 \<Rightarrow> 7 | Tick2 \<Rightarrow> 8 | _ \<Rightarrow> 9))"

definition nearer :: "cont \<Rightarrow> cont \<Rightarrow> bool" where
  "nearer s s' \<longleftrightarrow> \<not> end_flag s' \<and>
     (hold_num s' = hold_num s + 1 \<or> hold_num s' = hold_num s \<and> togo s' < togo s)"

lemma progress0:
  assumes "phase0 wss d rf s rs" and "\<not> end_flag s" and "at1 s \<noteq> Done1"
  shows "\<exists>s'. cont_step wss d rf s s' \<and> nearer s s'"
proof (cases "at1 s")
  case Check1
  show ?thesis by (intro exI conjI, rule go1) (use assms Check1 in \<open>auto simp: nearer_def togo_def phase0_def\<close>)
next
  case Cas1
  with assms show ?thesis
    by (intro exI [of _ "s\<lparr>thread_lock := 1, at1 := Mark1\<rparr>"] conjI, intro take1)
      (auto simp: nearer_def togo_def phase0_def CAS_True_iff)
next
  case (Tail1 e)
  show ?thesis by (intro exI conjI, rule tail1) (use assms Tail1 in \<open>auto simp: nearer_def togo_def phase0_def\<close>)
qed (use assms in \<open>auto simp: phase0_def\<close>)

lemma progress1:
  assumes "phase1 wss d rf s rs" and "\<not> end_flag s"
  shows "\<exists>s'. cont_step wss d rf s s' \<and> nearer s s'"
proof (cases "at1 s")
  case Mark1
  show ?thesis by (intro exI conjI, rule mark1) (use assms Mark1 in \<open>auto simp: nearer_def\<close>)
next
  case Write1
  show ?thesis by (intro exI conjI, rule write1) (use assms Write1 in \<open>auto simp: nearer_def togo_def phase1_def\<close>)
next
  case Next1
  show ?thesis by (intro exI conjI, rule next1) (use assms Next1 in \<open>auto simp: nearer_def togo_def phase1_def\<close>)
next
  case Release1
  show ?thesis by (intro exI conjI, rule release1) (use assms Release1 in \<open>auto simp: nearer_def togo_def phase1_def split: pc2.splits\<close>)
qed (use assms in \<open>auto simp: phase1_def\<close>)

lemma progress2:
  assumes "phase2 wss d rf s rs" and "\<not> end_flag s" and "at2 s \<noteq> Done2"
  shows "\<exists>s'. cont_step wss d rf s s' \<and> nearer s s'"
proof (cases "at2 s")
  case Check2
  show ?thesis by (intro exI conjI, rule go2) (use assms Check2 in \<open>auto simp: nearer_def togo_def phase2_def\<close>)
next
  case Cas2
  with assms show ?thesis
    by (intro exI [of _ "s\<lparr>thread_lock := 3, at2 := Read2\<rparr>"] conjI, intro take2)
      (auto simp: nearer_def togo_def phase2_def CAS_True_iff)
next
  case (Tail2 e)
  show ?thesis by (intro exI conjI, rule tail2) (use assms Tail2 in \<open>auto simp: nearer_def togo_def phase2_def\<close>)
qed (use assms in \<open>auto simp: phase2_def\<close>)

lemma progress3:
  assumes "phase3 wss d rf s rs" and "\<not> end_flag s"
  shows "\<exists>s'. cont_step wss d rf s s' \<and> nearer s s'"
proof (cases "at2 s")
  case Read2
  show ?thesis by (intro exI conjI, rule read2) (use assms Read2 in \<open>auto simp: nearer_def togo_def phase3_def\<close>)
next
  case Tick2
  show ?thesis by (intro exI conjI, rule tick2) (use assms Tick2 in \<open>auto simp: nearer_def togo_def phase3_def\<close>)
next
  case Next2
  show ?thesis by (intro exI conjI, rule next2) (use assms Next2 in \<open>auto simp: nearer_def togo_def phase3_def\<close>)
next
  case Add2
  show ?thesis by (intro exI conjI, rule add2) (use assms Add2 in \<open>auto simp: nearer_def togo_def phase3_def\<close>)
next
  case Release2
  show ?thesis by (intro exI conjI, rule release2) (use assms Release2 in \<open>auto simp: nearer_def togo_def phase3_def split: pc1.splits\<close>)
qed (use assms in \<open>auto simp: phase3_def\<close>)

lemma cont_progress_step:
  "cont_inv wss d rf s \<Longrightarrow> \<not> end_flag s \<Longrightarrow> \<exists>s'. cont_step wss d rf s s' \<and> nearer s s'"
  unfolding cont_inv_def using progress0 progress1 progress2 progress3 by metis

text \<open>C38: the hand-over cannot get stuck: from every reachable state in which the end is not yet called there
  is a way to the start of one more round.\<close>

theorem contention_progress:
  assumes "cont_reachable wss d rf s" and "\<not> end_flag s"
  shows "\<exists>s'. (cont_step wss d rf)\<^sup>*\<^sup>* s s' \<and> hold_num s' = hold_num s + 1"
  using cont_reachable_inv [OF assms(1)] assms(2)
proof (induction "togo s" arbitrary: s rule: less_induct)
  case less
  obtain s' where s': "cont_step wss d rf s s'" "nearer s s'"
    using cont_progress_step [OF less.prems] by blast
  show ?case
  proof (cases "hold_num s' = hold_num s + 1")
    case True
    with s'(1) show ?thesis by blast
  next
    case False
    with s'(2) have h: "hold_num s' = hold_num s" "togo s' < togo s" "\<not> end_flag s'" by (auto simp: nearer_def)
    have "\<exists>s''. (cont_step wss d rf)\<^sup>*\<^sup>* s' s'' \<and> hold_num s'' = hold_num s' + 1"
      by (rule less.hyps [OF h(2) cont_inv_step [OF s'(1) less.prems(1)] h(3)])
    with s'(1) h(1) show ?thesis by (metis converse_rtranclp_into_rtranclp)
  qed
qed

theorem contention_progress_witness: "\<exists>s'. (cont_step 50000 3 True)\<^sup>*\<^sup>* cont_init s' \<and> hold_num s' = 1"
  using contention_progress [OF init, of 50000 3 True] by (simp add: cont_init_def)

section \<open>The distance is lost at the end of the working set\<close>

text \<open>The working set of 50000 bytes is not a whole number of lines, and T1 also uses the offset behind
  the last whole one: at distance 1 the read of the round after the wrap is in line 780, while the
  round before wrote line 781.\<close>

lemma contention_wrap:
  "round_line 50000 782 = 0" "round_line 50000 781 = 64 * 781"
  "read_index 50000 1 (round_line 50000 782) div 64 = 780"
  by (simp_all add: round_line_def read_index_def push_bit_eq_mult unat_mod_distrib)

text \<open>In a working set of whole lines the offset runs up to and including the size: one line behind it is
  written.\<close>

lemma advance_reaches_end: "64 dvd wss \<Longrightarrow> round_line wss (wss div 64) = wss"
  by (simp add: round_line_def)

end
