(* ===== verification/Spec2Isabelle.thy ===== *)
theory Spec2Isabelle
  imports FastFair_Wrap Linear_Probing Cuckoo_Hash Path_Hashing Level_Hashing Extendible_Hash
    Bench_Main Micro_Read Micro_Chase Micro_Lock
begin

text \<open>
  This library models the programs of a study of persistent memory: two persistent indexes with the
  program that measures them (\<^verbatim>\<open>src/case_study\<close>), the hash tables that the first of them is
  compared with, and the micro benchmarks (\<^verbatim>\<open>src/micro_benchmarks\<close>). Below, a file name without a
  directory is in the directory named at the start of its paragraph.

  \<^bold>\<open>Parts and how they interact.\<close> \<^verbatim>\<open>main.cpp\<close> reads a load and a run file and calls \<^verbatim>\<open>test\<close> of
  \<^verbatim>\<open>tests.hpp\<close>, which hands out batches of operations to worker threads and lets helper threads touch
  keys ahead of them. The workers call an index through the virtual class \<^verbatim>\<open>Index\<close>
  (\<^verbatim>\<open>kv_wrap.hpp\<close>). Two classes implement it, each in a file \<^verbatim>\<open>wrap.cpp\<close>: the persistent CCEH hash table
  (\<^verbatim>\<open>external_repo/cceh/CCEH-PMDK\<close>) and the FAST-and-FAIR B+-tree (\<^verbatim>\<open>external_repo/fastfair\<close>). The volatile
  hash tables of \<^verbatim>\<open>external_repo/cceh/src\<close> implement the class \<^verbatim>\<open>Hash\<close> and are driven by the program
  \<^verbatim>\<open>test.cpp\<close> there. The micro benchmarks are independent of all this: each makes a particular pattern of
  accesses to a mapped pool.

  \<^bold>\<open>Shared ground.\<close> PM_Prelude holds the machine types and sentinel keys of
  \<^verbatim>\<open>cceh/util/pair.h\<close>, compare-and-swap, the outcome of one pass of a \<^verbatim>\<open>goto RETRY\<close> loop (return, retry,
  spinning for ever, or a fault: an access outside an array or the end of the process) and the lemmas on
  the high bits of words, probing sequences and updates of lists. Hash_Funcs models the hash
  functions of \<^verbatim>\<open>cceh/util/hash.h\<close> that are written in the repository. Sema_Lock models
  \<^verbatim>\<open>suspend\<close>, \<^verbatim>\<open>lock\<close> and \<^verbatim>\<open>unlock\<close> of segments and directories, once as uninterrupted functions
  and once as a step relation in which any number of threads interleave.

  \<^bold>\<open>The persistent CCEH table\<close> (\<^verbatim>\<open>cceh/CCEH-PMDK/src\<close>). CCEH_Segment: the record of
  \<^verbatim>\<open>struct Segment\<close>, its probing windows, the cuckoo displacement and both forms of \<^verbatim>\<open>Split\<close>.
  CCEH_PMDK: the record of \<^verbatim>\<open>CCEH\<close> (directory, crash mark, and the pool, a list of segments in
  which a persistent pointer is a position), initialisation, one pass of \<^verbatim>\<open>Insert\<close> with directory update
  and doubling, \<^verbatim>\<open>Get\<close>, \<^verbatim>\<open>Touch\<close>, \<^verbatim>\<open>Recovery\<close>, \<^verbatim>\<open>Capacity\<close>, \<^verbatim>\<open>Utilization\<close> and \<^verbatim>\<open>FindAnyway\<close>. The model adds one
  field, \<^verbatim>\<open>dropped\<close>, which records the pairs that a split discards; no operation reads it.
  The invariant table_ok says that the directory routes every hash to the segment
  for its high bits and that every segment is well formed; lookup is the stored map.
  CCEH_Insert proves insertion and look-up over that map, in a locale that the
  volatile table shares. CCEH_Recovery proves what \<^verbatim>\<open>Recovery\<close> makes of a directory that a crash left in
  the middle of an update, and of one it cannot repair; the semaphores stay as the crash left them, so
  the segment that was being split remains locked. CCEH_Index is the wrapper \<^verbatim>\<open>wrap.cpp\<close>.

  \<^bold>\<open>The FAST-and-FAIR tree\<close> (\<^verbatim>\<open>fastfair/fastfair.h\<close>). FastFair_Page: header, entries and the
  operations on one page, each with the states between its stores. FastFair_Ops: insertion and removal
  in a leaf are atomic for a reader or a crash between any two stores; the build with the
  write-combining buffer computes the same page but is not atomic. FastFair_Tree: the class
  \<^verbatim>\<open>btree\<close>: descent, insertion with splits and new roots, deletion and range scan over a heap of pages.
  FastFair_Inv, FastFair_Search, FastFair_Insert and FastFair_Delete: the shape of the tree
  (tree_map: levels of pages linked by siblings, which store the map), that every operation keeps it and
  does to the map what it should, and the cases in which the code does not. FastFair_Wrap: \<^verbatim>\<open>wrap.cpp\<close>.

  \<^bold>\<open>The volatile hash tables\<close> (\<^verbatim>\<open>cceh/src\<close>). Hash_Interface: the class \<^verbatim>\<open>Hash\<close> and the
  test program \<^verbatim>\<open>test.cpp\<close>; its locale kv_store is the contract of a key-value store for a client that
  inserts and looks up. Table_Env: memory allocation, hashing and the single-precision arithmetic of
  the growth rules. Slot_Table: arrays of cells, and the locale of a table that looks in a list of
  candidate cells, interpreted by each of Linear_Probing, Cuckoo_Hash, Path_Hashing,
  Level_Hashing and Extendible_Hash, which model the files of these names. CCEH_MSB
  models \<^verbatim>\<open>CCEH.h\<close> with \<^verbatim>\<open>CCEH_MSB.cpp\<close>. For every table: the invariant,
  the stored map, the effect of insertion in all its branches, growth included, and look-up; and the
  inputs on which a table loses pairs, loops or ends the process.

  \<^bold>\<open>The programs.\<close> Bench_Driver: \<^verbatim>\<open>Index\<close>, the worker of \<^verbatim>\<open>tests.hpp\<close>, and the hand-out of batches as
  a step relation over any number of workers; its locale kv_index extends kv_store. Bench_Main: the
  files, \<^verbatim>\<open>main\<close> of \<^verbatim>\<open>case_study/main.cpp\<close>, the helper threads, \<^verbatim>\<open>main\<close> of \<^verbatim>\<open>CCEH-PMDK/src/test.cpp\<close>, and
  \<^verbatim>\<open>cceh/src/test.cpp\<close> on the table it instantiates, that of CCEH_MSB; its theorems put files, driver
  and table together.

  \<^bold>\<open>The micro benchmarks\<close> (\<^verbatim>\<open>micro_benchmarks/cases\<close>). What such a program measures is decided by the
  accesses it makes, so its model is the list of them. Micro_Access: \<^verbatim>\<open>main.cpp\<close>, \<^verbatim>\<open>write_buffer.cpp\<close>,
  \<^verbatim>\<open>read_buf_amp.cpp\<close> and \<^verbatim>\<open>seperate_rd_wr_buf.cpp\<close>. Micro_Read: \<^verbatim>\<open>trigger_prefetching\<close> and
  \<^verbatim>\<open>read_after_flush\<close>. Micro_Chase: the rings of \<^verbatim>\<open>lat.cpp\<close> and of the two other tests of
  \<^verbatim>\<open>prefetching.cpp\<close> in an explicit memory, since some of them are overwritten while they are followed;
  its locale write_method states what a write must leave alone. Micro_Lock: the two
  threads of \<^verbatim>\<open>read_after_flush_lock_contention\<close> as a step relation with one step per shared access.

  \<^bold>\<open>Executions.\<close> Tables and the tree are run by one thread; a condition on which only another thread could
  change something is a separate result (spinning). Interleavings are modelled where the code is about
  them: the semaphore, the hand-out of batches, the readers and crashes between the stores of a page
  operation, the lock hand-over. Memory is sequentially consistent, and a crash keeps the stores
  before it.

  \<^bold>\<open>Bounds.\<close> A retry loop takes the number of its passes as an argument, and the theorems show that it
  returns within them. CCEH: 64, because every retry follows a split, which a segment of depth 31 does
  not undergo. Extendible hashing: 32, on directories of depth up to 30.
  Level hashing: 31, as tables of more than 32 levels do not fit the 32-bit indices. Path hashing:
  29, one for each level that can still be added. Cuckoo hashing: 64, as
  the capacity doubles and stays below two to the 64th. Linear probing: 2. The tree takes fuel and a bound N on
  the number of pages that are ever allocated: more than three times the height of the tree is enough
  for an insertion, more than the height for a deletion, and the number of pages more than that for a
  range scan. A ring is followed for as many steps as it has units. Loops with a bound of their own
  are recursive functions with a termination proof.

  Sizes and positions of type \<^verbatim>\<open>size_t\<close> are natural numbers. Where the code counts with 32 bits, the
  model ends in a \<open>Fault\<close>, or does not return, at the sizes the counter cannot reach, and the theorems are about
  smaller tables: CCEH doubles a directory of up to \<open>2 ^ 30\<close> entries in the persistent table (\<^verbatim>\<open>int i\<close> and \<open>2*i\<close> in
  \<^verbatim>\<open>Insert\<close>), of up to \<open>2 ^ 31\<close> in the volatile one (\<^verbatim>\<open>unsigned i\<close>), and updates strides below
  \<open>2 ^ 31\<close> (\<^verbatim>\<open>int stride\<close>), so its theorems hold for directories of depth at most 31; linear probing copies and
  probes fewer than \<open>2 ^ 31\<close> cells (\<^verbatim>\<open>int i\<close>); cuckoo hashing copies fewer than \<open>2 ^ 32\<close> (\<^verbatim>\<open>unsigned i\<close>); the test
  program takes fewer than \<open>2 ^ 31\<close> keys. The locks that \<^verbatim>\<open>resize\<close> keeps in an array on the stack are not
  modelled, nor is its size.

  \<^bold>\<open>Parameters.\<close> Code that is not in the repository is an argument: the library hash
  \<^verbatim>\<open>std::_Hash_bytes\<close> behind \<^verbatim>\<open>hash_funcs[0]\<close>, the contents of memory that \<^verbatim>\<open>new\<close> does not initialise, the addresses of
  allocated pages (distinct, aligned and different from stored values), the results of \<^verbatim>\<open>rand\<close> and \<^verbatim>\<open>random\<close>,
  and the permutations of \<^verbatim>\<open>std::random_shuffle\<close>. Hypotheses on them, such as that no 33 keys agree in
  the top 31 bits of their hash, are stated in each theorem.

  \<^bold>\<open>Not modelled.\<close> \<^verbatim>\<open>json.hpp\<close> is a third-party library; the fields read through it are
  arguments. \<^verbatim>\<open>CCEH_LSB.cpp\<close> does not compile against the header it includes. \<^verbatim>\<open>remove_rebalancing\<close> is
  never called, and \<^verbatim>\<open>btree_delete_internal\<close> only from it. Printing, timers, counters of the memory modules, placement of threads, creation and mapping
  of pools, and cleaning caches are input and output or have no effect on a state that is modelled;
  the averages of the report are floating-point output. The generator of the input file and the Python
  scripts are outside. The operations of the tree and of the tables are not interleaved with each other.
\<close>

end
